(* ===== verification/Ucw_Prelude.thy ===== *)
theory Ucw_Prelude
  imports Main "HOL-Library.Word"
begin

text \<open>
  Shared vocabulary of the development: the C integer types of \<open>ucw/config.h\<close> as words, the
  faults a C fragment can run into, big-endian byte strings, and the generic lemmas on words and
  lists that the component theories use.

  Conventions. A pointer that is only read is the list of the bytes readable from it, so reading
  past the end of the memory is the fault \<open>Out_of_bounds\<close>; a failed \<open>ASSERT\<close> is
  \<open>Assert_failed\<close>. A pointer that is only appended to is the list of the bytes written.
  A shift \<open>x << n\<close> is \<open>push_bit n x\<close>, \<open>x >> n\<close> on an unsigned value is
  \<open>drop_bit n x\<close>, a conversion between unsigned types is \<open>ucast\<close>.
\<close>

unbundle bit_operations_syntax

type_synonym byte = "8 word"
type_synonym u16 = "16 word"
type_synonym u32 = "32 word"
type_synonym u64 = "64 word"
type_synonym uint = "32 word"

text \<open>How a C fragment can fail: a failed \<open>ASSERT\<close>, a memory access outside the object, a call of
  a null function pointer, an exception of \<open>ucw/trans.h\<close> with its identifier, a call of \<open>die\<close>,
  a loop that never ends, a division by zero, and an overflow of a signed integer.\<close>

datatype fault = Assert_failed | Out_of_bounds | Null_call | Throw string | Die | Diverges | Div_zero | Overflow

type_synonym 'a res = "fault + 'a"

definition res_bind :: "'a res \<Rightarrow> ('a \<Rightarrow> 'b res) \<Rightarrow> 'b res" where
  "res_bind m k = (case m of Inl e \<Rightarrow> Inl e | Inr x \<Rightarrow> k x)"

definition ensure :: "bool \<Rightarrow> 'a res \<Rightarrow> 'a res" where
  "ensure b r = (if b then r else Inl Assert_failed)"

lemma res_bind_simps [simp]: "res_bind (Inl e) k = Inl e" "res_bind (Inr x) k = k x"
  by (simp_all add: res_bind_def)

lemma res_bind_cong [fundef_cong]:
  "m = m' \<Longrightarrow> (\<And>x. m' = Inr x \<Longrightarrow> k x = k' x) \<Longrightarrow> res_bind m k = res_bind m' k'"
  by (auto simp: res_bind_def split: sum.split)

lemma res_bind_Inr: "res_bind m k = Inr y \<longleftrightarrow> (\<exists>x. m = Inr x \<and> k x = Inr y)"
  by (cases m) auto

lemma ensure_simps [simp]: "ensure True r = r" "ensure False r = Inl Assert_failed"
  by (simp_all add: ensure_def)

lemma ensure_Inr: "ensure b r = Inr x \<longleftrightarrow> b \<and> r = Inr x"
  by (simp add: ensure_def)

lemma ensure_cong [fundef_cong]: "b = b' \<Longrightarrow> (b' \<Longrightarrow> r = r') \<Longrightarrow> ensure b r = ensure b' r'"
  by (simp add: ensure_def)

text \<open>Where a value of the type \<open>uint\<close> is a natural number, the wrap-around of an operation on it is written out.\<close>

definition U32 :: "nat \<Rightarrow> nat" where
  "U32 n = n mod 2 ^ 32"

lemma U32_small [simp]: "n < 4294967296 \<Longrightarrow> U32 n = n"
  by (simp add: U32_def)

named_theorems ucw_split \<open>case splits on the outcomes of C fragments\<close>

lemmas [ucw_split] = sum.splits list.splits option.splits prod.splits if_splits

section \<open>Big-endian byte strings\<close>

primrec be_put :: "nat \<Rightarrow> 'a::len word \<Rightarrow> byte list" where
  "be_put 0 u = []"
| "be_put (Suc n) u = be_put n (drop_bit 8 u) @ [ucast u]"

definition be_get :: "byte list \<Rightarrow> 'a::len word" where
  "be_get bs = foldl (\<lambda>a b. push_bit 8 a OR ucast b) 0 bs"

primrec be_nat :: "byte list \<Rightarrow> nat" where
  "be_nat [] = 0"
| "be_nat (b # bs) = unat b * 256 ^ length bs + be_nat bs"

lemma length_be_put [simp]: "length (be_put n u) = n"
  by (induction n arbitrary: u) auto

lemma be_get_put: "be_get (be_put n u) = take_bit (8 * n) u"
proof (induction n arbitrary: u)
  case 0
  show ?case by (simp add: be_get_def)
next
  case (Suc n)
  have "be_get (be_put (Suc n) u) = push_bit 8 (be_get (be_put n (drop_bit 8 u))) OR
      (ucast (ucast u :: byte) :: 'a word)"
    by (simp add: be_get_def)
  also have "\<dots> = push_bit 8 (take_bit (8 * n) (drop_bit 8 u)) OR ucast (ucast u :: byte)"
    by (simp add: Suc.IH)
  also have "\<dots> = take_bit (8 * Suc n) u"
    by (rule bit_word_eqI) (auto simp: bit_simps)
  finally show ?case .
qed

lemma be_nat_append: "be_nat (xs @ ys) = be_nat xs * 256 ^ length ys + be_nat ys"
  by (induction xs) (auto simp: algebra_simps power_add)

lemma unat_less_256: "unat b < 256" for b :: byte
  using unsigned_less [of b] by simp

lemma be_nat_less: "be_nat bs < 256 ^ length bs"
proof (induction bs)
  case Nil
  show ?case by simp
next
  case (Cons b bs)
  have "unat b < 256" using unat_less_256 [of b] .
  then have "(unat b + 1) * 256 ^ length bs \<le> 256 * 256 ^ length bs"
    by (intro mult_right_mono) auto
  then have "unat b * 256 ^ length bs + 256 ^ length bs \<le> 256 * 256 ^ length bs"
    by (simp only: distrib_right mult_1)
  with Cons.IH show ?case
    by (simp only: be_nat.simps list.size power_Suc add_0_right add_Suc_right)
qed

lemma unat_ucast_byte: "unat (ucast u :: byte) = unat u mod 256"
  by (simp add: unsigned_ucast_eq take_bit_eq_mod)

lemma unat_drop_bit_8: "unat (drop_bit 8 u) = unat u div 256" for u :: "'a::len word"
proof -
  have "drop_bit 8 (unat u) = unat u div 256" by (simp add: drop_bit_eq_div)
  then show ?thesis by (simp only: unat_drop_bit_eq)
qed

lemma be_nat_put: "be_nat (be_put n u) = unat u mod 256 ^ n"
proof (induction n arbitrary: u)
  case 0
  show ?case by simp
next
  case (Suc n)
  have "be_nat (be_put (Suc n) u) = (unat u div 256 mod 256 ^ n) * 256 + unat u mod 256"
    by (simp add: be_nat_append Suc.IH unat_ucast_byte unat_drop_bit_8)
  also have "\<dots> = unat u mod (256 * 256 ^ n)"
    by (simp add: mod_mult2_eq)
  finally show ?case by simp
qed

section \<open>Lexicographic order of byte strings\<close>

abbreviation bytes_less :: "byte list \<Rightarrow> byte list \<Rightarrow> bool" where
  "bytes_less xs ys \<equiv> (xs, ys) \<in> lexord {(a, b). a < b}"

lemma bytes_less_be_nat:
  "length xs = length ys \<Longrightarrow> be_nat xs < be_nat ys \<Longrightarrow> bytes_less xs ys"
proof (induction xs ys rule: list_induct2)
  case Nil
  then show ?case by simp
next
  case (Cons x xs y ys)
  have x: "be_nat xs < 256 ^ length xs" and y: "be_nat ys < 256 ^ length xs"
    using be_nat_less [of xs] be_nat_less [of ys] Cons.hyps by auto
  show ?case
  proof (cases "x = y")
    case True
    with Cons show ?thesis by simp
  next
    case False
    have "\<not> unat y < unat x"
    proof
      assume "unat y < unat x"
      then have "(unat y + 1) * 256 ^ length xs \<le> unat x * 256 ^ length xs"
        by (intro mult_right_mono) auto
      with y Cons.prems Cons.hyps show False by (simp add: algebra_simps)
    qed
    with False have "x < y"
      by (metis linorder_neqE unat_mono)
    then show ?thesis by simp
  qed
qed

lemma bytes_less_asym: "bytes_less xs ys \<Longrightarrow> \<not> bytes_less ys xs"
  by (rule lexord_asymmetric [of "{(a, b). a < b}"]) (auto intro: asymI)

lemma bytes_less_irrefl: "\<not> bytes_less xs xs"
  by (simp add: lexord_irreflexive)

section \<open>Words\<close>

lemma word_and_eq_0_iff_bit:
  "(w AND 2 ^ n \<noteq> 0) \<longleftrightarrow> bit w n" if "n < LENGTH('a)" for w :: "'a::len word"
proof -
  have "bit (w AND 2 ^ n) i \<longleftrightarrow> bit w n \<and> i = n" for i
    using that by (auto simp: bit_simps)
  then show ?thesis
    by (metis bit_0_eq bot_apply bit_word_eqI bot_bool_def)
qed

lemma bit_less_exp: "v < 2 ^ k \<Longrightarrow> bit v n \<Longrightarrow> n < k" for v :: "'a::len word"
  by (metis bit_take_bit_iff less_mask_eq take_bit_eq_mask)

lemma take_bit_small: "v < 2 ^ k \<Longrightarrow> take_bit k v = v" for v :: "'a::len word"
  by (metis less_mask_eq take_bit_eq_mask)

lemma be_get_put_small: "v < 2 ^ (8 * n) \<Longrightarrow> be_get (be_put n v) = v"
  by (simp add: be_get_put take_bit_small)

lemma and_low_mask:
  "x AND 0x3f = take_bit 6 x"
  "x AND 0x1f = take_bit 5 x"
  "x AND 0xf = take_bit 4 x"
  "x AND 7 = take_bit 3 x"
  "x AND 3 = take_bit 2 x"
  "x AND 1 = take_bit 1 x" for x :: "'a::len word"
  by (simp_all add: take_bit_eq_mask mask_eq_exp_minus_1)

text \<open>The tests \<open>h & 0x80\<close>, \<dots> of the decoders on the complement of a byte.\<close>

lemma not_and_mask [simp]:
  "(NOT p AND 0x80 = 0) \<longleftrightarrow> bit p 7" "(NOT p AND 0x40 = 0) \<longleftrightarrow> bit p 6"
  "(NOT p AND 0x20 = 0) \<longleftrightarrow> bit p 5" "(NOT p AND 0x10 = 0) \<longleftrightarrow> bit p 4"
  "(NOT p AND 0x08 = 0) \<longleftrightarrow> bit p 3" "(NOT p AND 0x04 = 0) \<longleftrightarrow> bit p 2"
  "(NOT p AND 0x02 = 0) \<longleftrightarrow> bit p 1" "(NOT p AND 0x01 = 0) \<longleftrightarrow> bit p 0" for p :: byte
  using word_and_eq_0_iff_bit [of 7 "NOT p"] word_and_eq_0_iff_bit [of 6 "NOT p"]
    word_and_eq_0_iff_bit [of 5 "NOT p"] word_and_eq_0_iff_bit [of 4 "NOT p"]
    word_and_eq_0_iff_bit [of 3 "NOT p"] word_and_eq_0_iff_bit [of 2 "NOT p"]
    word_and_eq_0_iff_bit [of 1 "NOT p"] word_and_eq_0_iff_bit [of 0 "NOT p"]
  by (simp_all add: bit_simps)

lemma ucast_byte_u32_u64 [simp]: "ucast (ucast x :: u32) = (ucast x :: u64)" for x :: byte
  by (rule bit_word_eqI) (auto simp: bit_simps dest: bit_imp_le_length)

lemma push_bit_ucast_up: "push_bit n (ucast x :: u64) = ucast (push_bit n (ucast x :: u32))"
  if "n \<le> 24" for x :: byte
  using that by (intro bit_word_eqI) (auto simp: bit_simps dest: bit_imp_le_length)

lemma be_get_put_le: "v < 2 ^ m \<Longrightarrow> m \<le> 8 * n \<Longrightarrow> be_get (be_put n v) = v"
  unfolding be_get_put by (rule bit_word_eqI) (auto simp: bit_simps dest: bit_less_exp)

lemma byte_eq_0_bits: "(x = 0) \<longleftrightarrow> \<not> bit x 0 \<and> \<not> bit x 1 \<and> \<not> bit x 2 \<and> \<not> bit x 3 \<and>
   \<not> bit x 4 \<and> \<not> bit x 5 \<and> \<not> bit x 6 \<and> \<not> bit x 7" for x :: byte
proof -
  have "x = 0 \<longleftrightarrow> (\<forall>n<8. \<not> bit x n)"
    by (auto simp: bit_eq_iff dest: bit_imp_le_length)
  then show ?thesis by (simp add: eval_nat_numeral All_less_Suc) (blast)
qed

lemma unat_or_disjoint:
  fixes x m :: "'a::len word"
  assumes "take_bit j x = x" "take_bit j m = 0"
  shows "unat (x OR m) = unat x + unat m"
proof -
  have "unat x AND unat m = unat (x AND m)" by (simp add: unsigned_and_eq)
  also have "x AND m = 0"
  proof (rule bit_word_eqI)
    fix n
    have "bit x n \<Longrightarrow> n < j" using assms(1) by (metis bit_take_bit_iff)
    moreover have "n < j \<Longrightarrow> \<not> bit m n" using assms(2) by (metis bit_0_eq bit_take_bit_iff bot_apply bot_bool_def)
    ultimately show "bit (x AND m) n = bit (0 :: 'a word) n" by (auto simp: bit_simps)
  qed
  finally have "unat x AND unat m = 0" by simp
  then show ?thesis by (simp add: disjunctive_add_eq_or unsigned_or_eq)
qed

lemma unat_less_exp: "v < 2 ^ k \<Longrightarrow> unat v < 2 ^ k" for v :: "'a::len word"
  by (metis take_bit_small unsigned_take_bit_eq take_bit_nat_less_exp)

lemma unat_lt_u64: "unat v < 18446744073709551616" for v :: u64
  using unsigned_less [of v] by simp

lemma ucast_add_u32: "ucast (a + b) = (ucast a + ucast b :: u32)" for a b :: u64
  by (rule word_unat_eq_iff [THEN iffD2]) (simp add: unsigned_ucast_eq unat_word_ariths take_bit_eq_mod mod_simps mod_mod_cancel)

lemma ucast_ucast_u32: "ucast (ucast (x :: u32) :: u64) = x"
  by (rule bit_word_eqI) (auto simp: bit_simps)

section \<open>More on bytes and words\<close>

lemma ucast_byte_uint: "u < 2 ^ 8 \<Longrightarrow> ucast (ucast u :: byte) = u" for u :: uint
  by (rule bit_word_eqI) (auto simp: bit_simps dest: bit_less_exp [where k = 8, simplified])

lemma ucast_uint_byte [simp]: "ucast (ucast b :: uint) = b" for b :: byte
  by (rule bit_word_eqI) (auto simp: bit_simps)

lemma unat_take_bit: "unat (take_bit j x) = unat x mod 2 ^ j" for x :: "'a::len word"
  unfolding unsigned_take_bit_eq by (simp add: take_bit_eq_mod)

lemma unat_ucast_byte_uint: "unat (ucast h :: uint) = unat h" for h :: byte
  using unat_less_256 [of h] by (simp add: unsigned_ucast_eq take_bit_nat_eq_self)

lemma less_exp_unat: "unat x < 2 ^ j \<Longrightarrow> j < LENGTH('a) \<Longrightarrow> x < 2 ^ j" for x :: "'a::len word"
proof -
  assume x: "unat x < 2 ^ j" and j: "j < LENGTH('a)"
  have "unat (of_nat (2 ^ j) :: 'a word) = 2 ^ j"
    using power_strict_increasing [OF j, of "2 :: nat"] by (simp only: unat_of_nat mod_less)
  then show "x < 2 ^ j" using x by (simp add: word_less_nat_alt)
qed

lemma drop_bit_less:
  fixes u :: uint
  assumes "u < 2 ^ (k + j)" "j < 32"
  shows "drop_bit k u < 2 ^ j"
proof -
  have "unat u < 2 ^ j * 2 ^ k" using unat_less_exp [OF assms(1)] by (simp add: power_add mult.commute)
  then have "unat (drop_bit k u) < 2 ^ j"
    unfolding unat_drop_bit_eq by (simp add: drop_bit_eq_div less_mult_imp_div_less)
  then show ?thesis using assms(2) by (intro less_exp_unat) simp_all
qed

lemma byte_split: "b AND 0xc0 = 0x80 \<Longrightarrow> b = 0x80 OR (b AND 0x3f)" for b :: byte
proof -
  assume a: "b AND 0xc0 = 0x80"
  have "b = b AND - 1" by simp
  also have "(- 1 :: byte) = 0xc0 OR 0x3f" by simp
  also have "b AND (0xc0 OR 0x3f) = (b AND 0xc0) OR (b AND 0x3f)" by (rule bit.conj_disj_distrib)
  finally show ?thesis using a by simp
qed

lemma all_less_simps:
  "(\<forall>i<2. P i) = (P 0 \<and> P 1)" "(\<forall>i<3. P i) = (P 0 \<and> P 1 \<and> P 2)"
  "(\<forall>i<4. P i) = (P 0 \<and> P 1 \<and> P 2 \<and> P 3)"
  "(\<forall>i<5. P i) = (P 0 \<and> P 1 \<and> P 2 \<and> P 3 \<and> P (4 :: nat))"
  by (auto simp: eval_nat_numeral All_less_Suc)

lemma byte_eq_bits: "(x = y) \<longleftrightarrow> bit x 0 = bit y 0 \<and> bit x 1 = bit y 1 \<and> bit x 2 = bit y 2 \<and>
   bit x 3 = bit y 3 \<and> bit x 4 = bit y 4 \<and> bit x 5 = bit y 5 \<and> bit x 6 = bit y 6 \<and>
   bit x 7 = bit y 7" for x y :: byte
proof -
  have "x = y \<longleftrightarrow> (\<forall>n<8. bit x n = bit y n)"
    by (auto intro: bit_word_eqI)
  then show ?thesis by (simp add: eval_nat_numeral All_less_Suc) blast
qed

lemma and_c0: "(h AND 0xc0 = 0x80) \<longleftrightarrow> bit h 7 \<and> \<not> bit h 6" for h :: byte
  unfolding byte_eq_bits by (auto simp: bit_and_iff)

lemma or_eq_add: "take_bit j m = 0 \<Longrightarrow> t < 2 ^ j \<Longrightarrow> m OR t = m + t" for m t :: "'a::len word"
proof -
  assume m: "take_bit j m = 0" and t: "t < 2 ^ j"
  have "m AND t = m AND take_bit j t" using take_bit_small [OF t] by simp
  also have "\<dots> = take_bit j m AND take_bit j t"
    by (rule bit_word_eqI) (auto simp: bit_simps)
  finally have "m AND t = 0" using m by simp
  then show ?thesis by (simp add: disjunctive_add_eq_or)
qed

lemma res_bind_assoc: "res_bind (res_bind m k) h = res_bind m (\<lambda>x. res_bind (k x) h)"
  by (cases m) simp_all

lemma res_bind_Inr_right: "res_bind m Inr = m"
  by (cases m) simp_all

lemma sint_small:
  fixes u :: uint
  assumes "u < 2 ^ 31"
  shows "sint u = uint u"
proof -
  have "\<not> bit u 31" using bit_less_exp [OF assms, of 31] by auto
  then have "\<not> bit (uint u) 31" by (simp add: bit_uint_iff)
  from signed_take_bit_eq_if_positive [OF this] have "sint u = take_bit 31 (uint u)"
    by (simp add: sint_uint)
  moreover have "uint u < 2 ^ 31"
    using unat_less_exp [OF assms] unfolding uint_nat by (metis of_nat_less_iff of_nat_numeral of_nat_power)
  ultimately show ?thesis by (simp add: take_bit_int_eq_self)
qed

lemma sint_ucast_byte: "sint (ucast c :: uint) = uint c" for c :: byte
proof -
  have u: "unat (ucast c :: uint) = unat c" by (rule unat_ucast_byte_uint)
  then have "unat (ucast c :: uint) < 2 ^ 31" using unat_less_256 [of c] by simp
  then have "(ucast c :: uint) < 2 ^ 31" by (rule less_exp_unat) simp
  from sint_small [OF this] show ?thesis using u unfolding uint_nat by simp
qed

section \<open>Positions in lists\<close>

text \<open>A list between two sentinels, taken apart at a position between \<open>ys\<close> and \<open>zs\<close>.\<close>

lemma list_split_at:
  obtains p b r where "l # ys @ zs @ [e] = p @ last (l # ys) # b # r" "l # ys = p @ [last (l # ys)]"
    "zs @ [e] = b # r" "b = hd (zs @ [e])"
proof -
  obtain b r where br: "zs @ [e] = b # r" by (cases "zs @ [e]") auto
  have p: "l # ys = butlast (l # ys) @ [last (l # ys)]" by (simp only: append_butlast_last_id list.distinct simp_thms)
  have "l # ys @ zs @ [e] = (l # ys) @ (zs @ [e])" by simp
  also have "\<dots> = (butlast (l # ys) @ [last (l # ys)]) @ b # r" by (simp only: br p [symmetric])
  finally have f: "l # ys @ zs @ [e] = butlast (l # ys) @ last (l # ys) # b # r" by (simp del: last.simps butlast.simps)
  have "b = hd (zs @ [e])" using br by simp
  then show ?thesis by (rule that [OF f p br])
qed

end
