(* ===== verification/Ucw_Interfaces.thy ===== *)
theory Ucw_Interfaces
  imports Ucw_Prelude
begin

text \<open>
  The contracts the components promise to each other, one locale each. The component theories
  interpret them on the definitions that model the code.
\<close>

section \<open>Self-delimiting encodings\<close>

text \<open>Writing a sequence of values one after another, and reading one value after another until
  the input is exhausted. The first argument of \<open>dec_all\<close> bounds the number of values.\<close>

primrec enc_all :: "('a \<Rightarrow> byte list res) \<Rightarrow> 'a list \<Rightarrow> byte list res" where
  "enc_all e [] = Inr []"
| "enc_all e (x # xs) = (case e x of
     Inl f \<Rightarrow> Inl f
   | Inr bs \<Rightarrow> (case enc_all e xs of Inl f \<Rightarrow> Inl f | Inr r \<Rightarrow> Inr (bs @ r)))"

fun dec_all :: "(byte list \<Rightarrow> ('a \<times> byte list) res) \<Rightarrow> nat \<Rightarrow> byte list \<Rightarrow> 'a list res" where
  "dec_all d n [] = Inr []"
| "dec_all d 0 (b # p) = Inl Out_of_bounds"
| "dec_all d (Suc n) (b # p) = (case d (b # p) of
     Inl f \<Rightarrow> Inl f
   | Inr (x, r) \<Rightarrow> (case dec_all d n r of Inl f \<Rightarrow> Inl f | Inr xs \<Rightarrow> Inr (x # xs)))"

locale codec =
  fixes enc :: "'a \<Rightarrow> byte list res"
    and dec :: "byte list \<Rightarrow> ('a \<times> byte list) res"
    and ok :: "'a \<Rightarrow> bool"
  assumes enc_ok: "ok x \<Longrightarrow> \<exists>bs. enc x = Inr bs \<and> bs \<noteq> []"
    and dec_enc: "ok x \<Longrightarrow> enc x = Inr bs \<Longrightarrow> dec (bs @ r) = Inr (x, r)"
begin

lemma prefix_free:
  assumes "ok x" "ok y" "enc x = Inr bs" "enc y = Inr cs" "bs @ r = cs @ s"
  shows "x = y \<and> r = s"
proof -
  have "Inr (x, r) = dec (cs @ s)"
    using dec_enc [OF assms(1,3), of r] assms(5) by simp
  also have "\<dots> = Inr (y, s)"
    by (rule dec_enc [OF assms(2,4)])
  finally show ?thesis by simp
qed

lemma dec_all_enc_all:
  "\<forall>x\<in>set xs. ok x \<Longrightarrow> length xs \<le> n \<Longrightarrow>
     \<exists>bs. enc_all enc xs = Inr bs \<and> dec_all dec n bs = Inr xs"
proof (induction xs arbitrary: n)
  case Nil
  show ?case by simp
next
  case (Cons x xs)
  then obtain m where m: "n = Suc m" by (cases n) auto
  obtain bs where bs: "enc x = Inr bs" "bs \<noteq> []"
    using enc_ok [of x] Cons.prems by auto
  obtain r where r: "enc_all enc xs = Inr r" "dec_all dec m r = Inr xs"
    using Cons m by auto
  obtain b p where bp: "bs @ r = b # p"
    using bs by (cases bs) auto
  have "dec (b # p) = Inr (x, r)"
    using Cons.prems dec_enc [OF _ bs(1), of r] bp by simp
  then show ?case
    using m bs r bp by simp
qed

end

section \<open>Queues of nodes\<close>

text \<open>A list of nodes in a store, to which nodes are added at the tail and from which they are removed
  at the head; 0 is the null pointer. A node can be added when it is \<open>free\<close>. Clients: adding a sequence
  of nodes and removing them one after another gives them back in order.\<close>

primrec add_all :: "(nat \<Rightarrow> 'h \<Rightarrow> 'h res) \<Rightarrow> nat list \<Rightarrow> 'h \<Rightarrow> 'h res" where
  "add_all add [] h = Inr h"
| "add_all add (n # ns) h = res_bind (add n h) (add_all add ns)"

primrec remove_all :: "('h \<Rightarrow> (nat \<times> 'h) res) \<Rightarrow> nat \<Rightarrow> 'h \<Rightarrow> (nat list \<times> 'h) res" where
  "remove_all rem 0 h = Inr ([], h)"
| "remove_all rem (Suc k) h = res_bind (rem h) (\<lambda>(n, h).
     if n = 0 then Inr ([], h) else res_bind (remove_all rem k h) (\<lambda>(ns, h). Inr (n # ns, h)))"

locale fifo =
  fixes rep :: "'h \<Rightarrow> nat list \<Rightarrow> bool"
    and free :: "'h \<Rightarrow> nat \<Rightarrow> bool"
    and add :: "nat \<Rightarrow> 'h \<Rightarrow> 'h res"
    and rem :: "'h \<Rightarrow> (nat \<times> 'h) res"
  assumes add: "rep h xs \<Longrightarrow> free h n \<Longrightarrow> n \<notin> set xs \<Longrightarrow> \<exists>h'. add n h = Inr h' \<and> rep h' (xs @ [n]) \<and> free h' = free h"
    and rem_Nil: "rep h [] \<Longrightarrow> rem h = Inr (0, h)"
    and rem_Cons: "rep h (x # xs) \<Longrightarrow> \<exists>h'. rem h = Inr (x, h') \<and> rep h' xs \<and> free h' = free h"
    and nonnull: "rep h xs \<Longrightarrow> 0 \<notin> set xs"
begin

lemma add_all_rep:
  "rep h xs \<Longrightarrow> distinct (xs @ ns) \<Longrightarrow> \<forall>n\<in>set ns. free h n \<Longrightarrow> \<exists>h'. add_all add ns h = Inr h' \<and> rep h' (xs @ ns) \<and> free h' = free h"
proof (induction ns arbitrary: h xs)
  case (Cons n ns)
  obtain g where "add n h = Inr g" "rep g (xs @ [n])" "free g = free h" using add [OF Cons.prems(1), of n] Cons.prems by auto
  then show ?case using Cons.IH [of g "xs @ [n]"] Cons.prems by auto
qed simp

lemma remove_all_rep:
  "rep h xs \<Longrightarrow> length xs < k \<Longrightarrow> \<exists>h'. remove_all rem k h = Inr (xs, h') \<and> rep h' []"
proof (induction xs arbitrary: h k)
  case Nil
  then show ?case using rem_Nil [OF Nil.prems(1)] by (cases k) auto
next
  case (Cons x xs)
  obtain g where g: "rem h = Inr (x, g)" "rep g xs" using rem_Cons [OF Cons.prems(1)] by blast
  obtain k' where k: "k = Suc k'" using Cons.prems(2) by (cases k) auto
  obtain h' where "remove_all rem k' g = Inr (xs, h')" "rep h' []" using Cons.IH [OF g(2), of k'] Cons.prems(2) k by auto
  moreover have "x \<noteq> 0" using nonnull [OF Cons.prems(1)] by simp
  ultimately show ?case using g(1) k by simp
qed

end

section \<open>Comparison callbacks\<close>

text \<open>The comparison a user of a generic algorithm supplies is a strict weak order.\<close>

locale strict_weak_order =
  fixes lt :: "'a \<Rightarrow> 'a \<Rightarrow> bool"
  assumes asym: "lt x y \<Longrightarrow> \<not> lt y x"
    and neg_trans: "\<not> lt x y \<Longrightarrow> \<not> lt y z \<Longrightarrow> \<not> lt x z"
begin

definition leq :: "'a \<Rightarrow> 'a \<Rightarrow> bool" where
  "leq x y \<longleftrightarrow> \<not> lt y x"

lemma leq_refl: "leq x x" using asym by (auto simp: leq_def)
lemma leq_trans: "leq x y \<Longrightarrow> leq y z \<Longrightarrow> leq x z" using neg_trans by (auto simp: leq_def)
lemma leq_total: "leq x y \<or> leq y x" using asym by (auto simp: leq_def)
lemma lt_leq: "lt x y \<Longrightarrow> leq x y" using asym by (auto simp: leq_def)
lemma not_lt: "\<not> lt x y \<longleftrightarrow> leq y x" by (simp add: leq_def)

end

interpretation linord: strict_weak_order "(<) :: 'a::linorder \<Rightarrow> 'a \<Rightarrow> bool"
  by unfold_locales auto

end
