(* ===== verification/Varint.thy ===== *)
theory Varint
  imports Ucw_Interfaces
begin

text \<open>
  \<open>ucw/varint.h\<close> and \<open>ucw/varint.c\<close>: the variable-length encoding of 64-bit numbers.
  \<open>varint_put\<close> returns the bytes it stores (the C function returns their number), the readers
  return the decoded value with the rest of the memory behind the sequence.
\<close>

section \<open>The encoder\<close>

definition VARINT_SHIFT_L1 :: u64 where "VARINT_SHIFT_L1 = 0x80"
definition VARINT_SHIFT_L2 :: u64 where "VARINT_SHIFT_L2 = 0x4080"
definition VARINT_SHIFT_L3 :: u64 where "VARINT_SHIFT_L3 = 0x204080"
definition VARINT_SHIFT_L4 :: u64 where "VARINT_SHIFT_L4 = 0x10204080"
definition VARINT_SHIFT_L5 :: u64 where "VARINT_SHIFT_L5 = 0x0810204080"
definition VARINT_SHIFT_L6 :: u64 where "VARINT_SHIFT_L6 = 0x040810204080"
definition VARINT_SHIFT_L7 :: u64 where "VARINT_SHIFT_L7 = 0x02040810204080"
definition VARINT_SHIFT_L8 :: u64 where "VARINT_SHIFT_L8 = 0x0102040810204080"

lemmas varint_shifts =
  VARINT_SHIFT_L1_def VARINT_SHIFT_L2_def VARINT_SHIFT_L3_def VARINT_SHIFT_L4_def
  VARINT_SHIFT_L5_def VARINT_SHIFT_L6_def VARINT_SHIFT_L7_def VARINT_SHIFT_L8_def

definition PUTB :: "u64 \<Rightarrow> nat \<Rightarrow> byte" where
  "PUTB u i = ucast (drop_bit (8 * i) u)"

definition varint_put_big :: "u64 \<Rightarrow> byte list res" where
  "varint_put_big u =
    (if \<not> u \<ge> VARINT_SHIFT_L4 then Inl Assert_failed
     else if u < VARINT_SHIFT_L5 then
       (let u = u - VARINT_SHIFT_L4
        in Inr [PUTB u 4 OR 0xf0, PUTB u 3, PUTB u 2, PUTB u 1, PUTB u 0])
     else if u < VARINT_SHIFT_L6 then
       (let u = u - VARINT_SHIFT_L5
        in Inr [PUTB u 5 OR 0xf8, PUTB u 4, PUTB u 3, PUTB u 2, PUTB u 1, PUTB u 0])
     else if u < VARINT_SHIFT_L7 then
       (let u = u - VARINT_SHIFT_L6
        in Inr [PUTB u 6 OR 0xfc, PUTB u 5, PUTB u 4, PUTB u 3, PUTB u 2, PUTB u 1, PUTB u 0])
     else if u < VARINT_SHIFT_L8 then
       (let u = u - VARINT_SHIFT_L7
        in Inr [0xfe, PUTB u 6, PUTB u 5, PUTB u 4, PUTB u 3, PUTB u 2, PUTB u 1, PUTB u 0])
     else
       (let u = u - VARINT_SHIFT_L8
        in Inr [0xff, PUTB u 7, PUTB u 6, PUTB u 5, PUTB u 4, PUTB u 3, PUTB u 2, PUTB u 1,
             PUTB u 0]))"

definition varint_put :: "u64 \<Rightarrow> byte list res" where
  "varint_put u =
    (if u < VARINT_SHIFT_L1 then Inr [ucast u]
     else if u < VARINT_SHIFT_L2 then
       (let u = u - VARINT_SHIFT_L1 in Inr [PUTB u 1 OR 0x80, PUTB u 0])
     else if u < VARINT_SHIFT_L3 then
       (let u = u - VARINT_SHIFT_L2 in Inr [PUTB u 2 OR 0xc0, PUTB u 1, PUTB u 0])
     else if u < VARINT_SHIFT_L4 then
       (let u = u - VARINT_SHIFT_L3 in Inr [PUTB u 3 OR 0xe0, PUTB u 2, PUTB u 1, PUTB u 0])
     else varint_put_big u)"

section \<open>The decoders\<close>

text \<open>The first three multi-byte forms are computed in C's 32-bit \<open>int\<close>.\<close>

definition get2 :: "byte \<Rightarrow> byte \<Rightarrow> uint" where
  "get2 p0 p1 = push_bit 8 (ucast (p0 AND 0x3f)) OR ucast p1"

definition get3 :: "byte \<Rightarrow> byte \<Rightarrow> byte \<Rightarrow> uint" where
  "get3 p0 p1 p2 = push_bit 16 (ucast (p0 AND 0x1f)) OR push_bit 8 (ucast p1) OR ucast p2"

definition get4 :: "byte \<Rightarrow> byte \<Rightarrow> byte \<Rightarrow> byte \<Rightarrow> uint" where
  "get4 p0 p1 p2 p3 = push_bit 24 (ucast (p0 AND 0xf)) OR push_bit 16 (ucast p1) OR
     push_bit 8 (ucast p2) OR ucast p3"

definition get5 :: "byte \<Rightarrow> byte \<Rightarrow> byte \<Rightarrow> byte \<Rightarrow> byte \<Rightarrow> u64" where
  "get5 p0 p1 p2 p3 p4 = push_bit 32 (ucast (p0 AND 7)) OR push_bit 24 (ucast p1) OR
     push_bit 16 (ucast p2) OR push_bit 8 (ucast p3) OR ucast p4"

definition varint_get_big :: "byte list \<Rightarrow> (u64 \<times> byte list) res" where
  "varint_get_big p = (case p of
     [] \<Rightarrow> Inl Out_of_bounds
   | p0 # q \<Rightarrow>
       if p0 AND 0xf0 \<noteq> 0xf0 then Inl Assert_failed
       else let h = NOT p0 in
       if h AND 0x08 \<noteq> 0 then (case q of
           p1 # p2 # p3 # p4 # r \<Rightarrow> Inr (get5 p0 p1 p2 p3 p4 + VARINT_SHIFT_L4, r)
         | _ \<Rightarrow> Inl Out_of_bounds)
       else if h AND 0x04 \<noteq> 0 then (case q of
           p1 # p2 # p3 # p4 # p5 # r \<Rightarrow>
             Inr ((push_bit 40 (ucast (p0 AND 3)) OR push_bit 32 (ucast p1) OR
               push_bit 24 (ucast p2) OR push_bit 16 (ucast p3) OR push_bit 8 (ucast p4) OR
               ucast p5) + VARINT_SHIFT_L5, r)
         | _ \<Rightarrow> Inl Out_of_bounds)
       else if h AND 0x02 \<noteq> 0 then (case q of
           p1 # p2 # p3 # p4 # p5 # p6 # r \<Rightarrow>
             Inr ((push_bit 48 (ucast (p0 AND 1)) OR push_bit 40 (ucast p1) OR
               push_bit 32 (ucast p2) OR push_bit 24 (ucast p3) OR push_bit 16 (ucast p4) OR
               push_bit 8 (ucast p5) OR ucast p6) + VARINT_SHIFT_L6, r)
         | _ \<Rightarrow> Inl Out_of_bounds)
       else if h AND 0x01 \<noteq> 0 then (case q of
           p1 # p2 # p3 # p4 # p5 # p6 # p7 # r \<Rightarrow>
             Inr ((push_bit 48 (ucast p1) OR push_bit 40 (ucast p2) OR push_bit 32 (ucast p3) OR
               push_bit 24 (ucast p4) OR push_bit 16 (ucast p5) OR push_bit 8 (ucast p6) OR
               ucast p7) + VARINT_SHIFT_L7, r)
         | _ \<Rightarrow> Inl Out_of_bounds)
       else (case q of
           p1 # p2 # p3 # p4 # p5 # p6 # p7 # p8 # r \<Rightarrow>
             Inr ((push_bit 56 (ucast p1) OR push_bit 48 (ucast p2) OR push_bit 40 (ucast p3) OR
               push_bit 32 (ucast p4) OR push_bit 24 (ucast p5) OR push_bit 16 (ucast p6) OR
               push_bit 8 (ucast p7) OR ucast p8) + VARINT_SHIFT_L8, r)
         | _ \<Rightarrow> Inl Out_of_bounds))"

definition varint_get :: "byte list \<Rightarrow> (u64 \<times> byte list) res" where
  "varint_get p = (case p of
     [] \<Rightarrow> Inl Out_of_bounds
   | p0 # q \<Rightarrow>
       let h = NOT p0 in
       if h AND 0x80 \<noteq> 0 then Inr (ucast p0, q)
       else if h AND 0x40 \<noteq> 0 then (case q of
           p1 # r \<Rightarrow> Inr (ucast (get2 p0 p1) + VARINT_SHIFT_L1, r)
         | _ \<Rightarrow> Inl Out_of_bounds)
       else if h AND 0x20 \<noteq> 0 then (case q of
           p1 # p2 # r \<Rightarrow> Inr (ucast (get3 p0 p1 p2) + VARINT_SHIFT_L2, r)
         | _ \<Rightarrow> Inl Out_of_bounds)
       else if h AND 0x10 \<noteq> 0 then (case q of
           p1 # p2 # p3 # r \<Rightarrow> Inr (ucast (get4 p0 p1 p2 p3) + VARINT_SHIFT_L3, r)
         | _ \<Rightarrow> Inl Out_of_bounds)
       else varint_get_big p)"

text \<open>\<open>varint_get32\<close> returns the value and the next position; the failure is the value
  \<open>0xffffffff\<close> together with an unchanged position.\<close>

definition varint_get32 :: "byte list \<Rightarrow> (u32 \<times> byte list) res" where
  "varint_get32 p = (case p of
     [] \<Rightarrow> Inl Out_of_bounds
   | p0 # q \<Rightarrow>
       let h = NOT p0 in
       if h AND 0x80 \<noteq> 0 then Inr (ucast p0, q)
       else if h AND 0x40 \<noteq> 0 then (case q of
           p1 # r \<Rightarrow> Inr (get2 p0 p1 + ucast VARINT_SHIFT_L1, r)
         | _ \<Rightarrow> Inl Out_of_bounds)
       else if h AND 0x20 \<noteq> 0 then (case q of
           p1 # p2 # r \<Rightarrow> Inr (get3 p0 p1 p2 + ucast VARINT_SHIFT_L2, r)
         | _ \<Rightarrow> Inl Out_of_bounds)
       else if h AND 0x10 \<noteq> 0 then (case q of
           p1 # p2 # p3 # r \<Rightarrow> Inr (get4 p0 p1 p2 p3 + ucast VARINT_SHIFT_L3, r)
         | _ \<Rightarrow> Inl Out_of_bounds)
       else (case q of
           p1 # p2 # p3 # p4 # r \<Rightarrow>
             let v = get5 p0 p1 p2 p3 p4 + VARINT_SHIFT_L4 in
             if v > 0xffffffff then Inr (0xffffffff, p) else Inr (ucast v, r)
         | _ \<Rightarrow> Inl Out_of_bounds))"

section \<open>The invalid sequence and the lengths\<close>

definition varint_invalid :: "byte list \<Rightarrow> bool res" where
  "varint_invalid p = (case p of
     [] \<Rightarrow> Inl Out_of_bounds
   | p0 # q \<Rightarrow>
       if p0 = 0xff then (case q of p1 # _ \<Rightarrow> Inr (p1 = 0xff) | [] \<Rightarrow> Inl Out_of_bounds)
       else Inr False)"

definition varint_put_invalid :: "byte list" where
  "varint_put_invalid = [0xff, 0xff]"

definition varint_len :: "byte \<Rightarrow> uint" where
  "varint_len hdr =
    (let b = NOT hdr; l = 0 in
     if b = 0 then 8 - (- 1)
     else
       let (l, b) = (if b AND 0xf0 \<noteq> 0 then (l + 4, b AND 0xf0) else (l, b));
           (l, b) = (if b AND 0xcc \<noteq> 0 then (l + 2, b AND 0xcc) else (l, b));
           l = (if b AND 0xaa \<noteq> 0 then l + 1 else l)
       in 8 - l)"

definition varint_space :: "u64 \<Rightarrow> uint" where
  "varint_space u =
    (if u < VARINT_SHIFT_L1 then 1
     else if u < VARINT_SHIFT_L2 then 2
     else if u < VARINT_SHIFT_L3 then 3
     else if u < VARINT_SHIFT_L4 then 4
     else if u < VARINT_SHIFT_L5 then 5
     else if u < VARINT_SHIFT_L6 then 6
     else if u < VARINT_SHIFT_L7 then 7
     else if u < VARINT_SHIFT_L8 then 8
     else 9)"

section \<open>The format table of \<open>varint.h\<close>\<close>

text \<open>A value stored in \<open>n\<close> bytes is shifted by \<open>2^7 + 2^14 + \<dots> + 2^(7(n-1))\<close>; the first
  byte starts with \<open>n - 1\<close> one bits.\<close>

definition varint_base :: "nat \<Rightarrow> nat" where
  "varint_base n = (\<Sum>i = 1..<n. 128 ^ i)"

definition varint_mark :: "nat \<Rightarrow> nat" where
  "varint_mark n = 256 - 2 ^ (9 - n)"

section \<open>Auxiliary facts\<close>

lemma take_bit_PUTB:
  assumes "v < 2 ^ (8 * k + j)" "take_bit j m = 0"
  shows "take_bit j (PUTB v k OR m) = PUTB v k"
proof -
  have "take_bit j (PUTB v k) = PUTB v k"
    by (intro bit_word_eqI) (auto simp: PUTB_def bit_simps dest: bit_less_exp [OF assms(1)])
  then show ?thesis using assms(2) by simp
qed

lemma be_put_PUTB:
  "be_put 2 v = [PUTB v 1, PUTB v 0]"
  "be_put 3 v = [PUTB v 2, PUTB v 1, PUTB v 0]"
  "be_put 4 v = [PUTB v 3, PUTB v 2, PUTB v 1, PUTB v 0]"
  "be_put 5 v = [PUTB v 4, PUTB v 3, PUTB v 2, PUTB v 1, PUTB v 0]"
  "be_put 6 v = [PUTB v 5, PUTB v 4, PUTB v 3, PUTB v 2, PUTB v 1, PUTB v 0]"
  "be_put 7 v = [PUTB v 6, PUTB v 5, PUTB v 4, PUTB v 3, PUTB v 2, PUTB v 1, PUTB v 0]"
  "be_put 8 v = [PUTB v 7, PUTB v 6, PUTB v 5, PUTB v 4, PUTB v 3, PUTB v 2, PUTB v 1, PUTB v 0]"
  by (simp_all add: PUTB_def eval_nat_numeral)



lemmas getter_eqs = get2_def get3_def get4_def get5_def and_low_mask be_put_PUTB be_get_def
  push_bit_or or.assoc unsigned_or_eq push_bit_ucast_up [symmetric]

lemma get2_put: "v < 2 ^ 14 \<Longrightarrow> ucast (get2 (PUTB v 1 OR 0x80) (PUTB v 0)) = v"
  using be_get_put_le [of v 14 2] take_bit_PUTB [of v 1 6 "0x80"]
  by (simp add: getter_eqs)

lemma get3_put: "v < 2 ^ 21 \<Longrightarrow> ucast (get3 (PUTB v 2 OR 0xc0) (PUTB v 1) (PUTB v 0)) = v"
  using be_get_put_le [of v 21 3] take_bit_PUTB [of v 2 5 "0xc0"]
  by (simp add: getter_eqs)

lemma get4_put:
  "v < 2 ^ 28 \<Longrightarrow> ucast (get4 (PUTB v 3 OR 0xe0) (PUTB v 2) (PUTB v 1) (PUTB v 0)) = v"
  using be_get_put_le [of v 28 4] take_bit_PUTB [of v 3 4 "0xe0"]
  by (simp add: getter_eqs)

lemma get5_put:
  "v < 2 ^ 35 \<Longrightarrow> get5 (PUTB v 4 OR 0xf0) (PUTB v 3) (PUTB v 2) (PUTB v 1) (PUTB v 0) = v"
  using be_get_put_le [of v 35 5] take_bit_PUTB [of v 4 3 "0xf0"]
  by (simp add: getter_eqs)



lemma bit_PUTB_or: "bit (PUTB v k OR m) n = (n < 8 \<and> (bit v (8 * k + n) \<or> bit m n))"
  by (auto simp: PUTB_def bit_simps dest: bit_imp_le_length)


lemma varint_get_branch:
  "\<not> bit p0 7 \<Longrightarrow> varint_get (p0 # r) = Inr (ucast p0, r)"
  "bit p0 7 \<Longrightarrow> \<not> bit p0 6 \<Longrightarrow> varint_get (p0 # p1 # r) =
     Inr (ucast (get2 p0 p1) + VARINT_SHIFT_L1, r)"
  "bit p0 7 \<Longrightarrow> bit p0 6 \<Longrightarrow> \<not> bit p0 5 \<Longrightarrow> varint_get (p0 # p1 # p2 # r) =
     Inr (ucast (get3 p0 p1 p2) + VARINT_SHIFT_L2, r)"
  "bit p0 7 \<Longrightarrow> bit p0 6 \<Longrightarrow> bit p0 5 \<Longrightarrow> \<not> bit p0 4 \<Longrightarrow> varint_get (p0 # p1 # p2 # p3 # r) =
     Inr (ucast (get4 p0 p1 p2 p3) + VARINT_SHIFT_L3, r)"
  "bit p0 7 \<Longrightarrow> bit p0 6 \<Longrightarrow> bit p0 5 \<Longrightarrow> bit p0 4 \<Longrightarrow> varint_get (p0 # q) =
     varint_get_big (p0 # q)"
  by (simp_all add: varint_get_def)

lemma varint_get_big_branch:
  assumes "p0 AND 0xf0 = 0xf0"
  shows
  "\<not> bit p0 3 \<Longrightarrow> varint_get_big (p0 # p1 # p2 # p3 # p4 # r) =
     Inr (get5 p0 p1 p2 p3 p4 + VARINT_SHIFT_L4, r)"
  "bit p0 3 \<Longrightarrow> \<not> bit p0 2 \<Longrightarrow> varint_get_big (p0 # p1 # p2 # p3 # p4 # p5 # r) =
     Inr (be_get [take_bit 2 p0, p1, p2, p3, p4, p5] + VARINT_SHIFT_L5, r)"
  "bit p0 3 \<Longrightarrow> bit p0 2 \<Longrightarrow> \<not> bit p0 1 \<Longrightarrow> varint_get_big (p0 # p1 # p2 # p3 # p4 # p5 # p6 # r) =
     Inr (be_get [take_bit 1 p0, p1, p2, p3, p4, p5, p6] + VARINT_SHIFT_L6, r)"
  "bit p0 3 \<Longrightarrow> bit p0 2 \<Longrightarrow> bit p0 1 \<Longrightarrow> \<not> bit p0 0 \<Longrightarrow>
     varint_get_big (p0 # p1 # p2 # p3 # p4 # p5 # p6 # p7 # r) =
     Inr (be_get [p1, p2, p3, p4, p5, p6, p7] + VARINT_SHIFT_L7, r)"
  "bit p0 3 \<Longrightarrow> bit p0 2 \<Longrightarrow> bit p0 1 \<Longrightarrow> bit p0 0 \<Longrightarrow>
     varint_get_big (p0 # p1 # p2 # p3 # p4 # p5 # p6 # p7 # p8 # r) =
     Inr (be_get [p1, p2, p3, p4, p5, p6, p7, p8] + VARINT_SHIFT_L8, r)"
  using assms not_and_mask(7,8) [of p0]
  by (simp_all add: varint_get_big_def be_get_def push_bit_or or.assoc and_low_mask(5,6) del: not_and_mask(7,8))


lemma ucast_byte_small: "v < 2 ^ 8 \<Longrightarrow> ucast (ucast v :: byte) = v" for v :: u64
  by (rule bit_word_eqI) (auto simp: bit_simps dest: bit_less_exp [where k = 8, simplified])

lemma class_bound:
  "VARINT_SHIFT_L1 \<le> u \<Longrightarrow> u < VARINT_SHIFT_L2 \<Longrightarrow> u - VARINT_SHIFT_L1 < 2 ^ 14"
  "VARINT_SHIFT_L2 \<le> u \<Longrightarrow> u < VARINT_SHIFT_L3 \<Longrightarrow> u - VARINT_SHIFT_L2 < 2 ^ 21"
  "VARINT_SHIFT_L3 \<le> u \<Longrightarrow> u < VARINT_SHIFT_L4 \<Longrightarrow> u - VARINT_SHIFT_L3 < 2 ^ 28"
  "VARINT_SHIFT_L4 \<le> u \<Longrightarrow> u < VARINT_SHIFT_L5 \<Longrightarrow> u - VARINT_SHIFT_L4 < 2 ^ 35"
  "VARINT_SHIFT_L5 \<le> u \<Longrightarrow> u < VARINT_SHIFT_L6 \<Longrightarrow> u - VARINT_SHIFT_L5 < 2 ^ 42"
  "VARINT_SHIFT_L6 \<le> u \<Longrightarrow> u < VARINT_SHIFT_L7 \<Longrightarrow> u - VARINT_SHIFT_L6 < 2 ^ 49"
  "VARINT_SHIFT_L7 \<le> u \<Longrightarrow> u < VARINT_SHIFT_L8 \<Longrightarrow> u - VARINT_SHIFT_L7 < 2 ^ 56"
  unfolding varint_shifts by unat_arith+

lemma header_bits:
  "v < 2 ^ 14 \<Longrightarrow> \<not> bit (PUTB v 1 OR 0x80) 6"
  "v < 2 ^ 21 \<Longrightarrow> \<not> bit (PUTB v 2 OR 0xc0) 5"
  "v < 2 ^ 28 \<Longrightarrow> \<not> bit (PUTB v 3 OR 0xe0) 4"
  "v < 2 ^ 35 \<Longrightarrow> \<not> bit (PUTB v 4 OR 0xf0) 3"
  "v < 2 ^ 42 \<Longrightarrow> \<not> bit (PUTB v 5 OR 0xf8) 2"
  "v < 2 ^ 49 \<Longrightarrow> \<not> bit (PUTB v 6 OR 0xfc) 1"
  using bit_less_exp [of v 14 14] bit_less_exp [of v 21 21] bit_less_exp [of v 28 28]
    bit_less_exp [of v 35 35] bit_less_exp [of v 42 42] bit_less_exp [of v 49 49]
  by (auto simp: bit_PUTB_or)

lemma or_and_f0:
  "(x OR 0xf0) AND 0xf0 = 0xf0" "(x OR 0xf8) AND 0xf0 = 0xf0" "(x OR 0xfc) AND 0xf0 = 0xf0" for x :: byte
  by (simp_all add: bit.conj_disj_distrib2 word_ao_absorbs)

lemma varint_get_class:
  "v < 0x80 \<Longrightarrow> varint_get (ucast v # r) = Inr (v, r)"
  "v < 2 ^ 14 \<Longrightarrow> varint_get ((PUTB v 1 OR 0x80) # PUTB v 0 # r) = Inr (v + VARINT_SHIFT_L1, r)"
  "v < 2 ^ 21 \<Longrightarrow> varint_get ((PUTB v 2 OR 0xc0) # PUTB v 1 # PUTB v 0 # r) =
     Inr (v + VARINT_SHIFT_L2, r)"
  "v < 2 ^ 28 \<Longrightarrow> varint_get ((PUTB v 3 OR 0xe0) # PUTB v 2 # PUTB v 1 # PUTB v 0 # r) =
     Inr (v + VARINT_SHIFT_L3, r)"
  subgoal
    using bit_less_exp [of v 7] by (subst varint_get_branch(1)) (auto simp: bit_simps ucast_byte_small order_less_trans [of v "0x80"])
  subgoal
    by (subst varint_get_branch(2)) (simp_all only: header_bits get2_put, simp_all add: bit_PUTB_or)
  subgoal
    by (subst varint_get_branch(3)) (simp_all only: header_bits get3_put, simp_all add: bit_PUTB_or)
  subgoal
    by (subst varint_get_branch(4)) (simp_all only: header_bits get4_put, simp_all add: bit_PUTB_or)
  done

lemma varint_get_big_class:
  "v < 2 ^ 35 \<Longrightarrow> varint_get_big ((PUTB v 4 OR 0xf0) # PUTB v 3 # PUTB v 2 # PUTB v 1 # PUTB v 0 # r) =
     Inr (v + VARINT_SHIFT_L4, r)"
  "v < 2 ^ 42 \<Longrightarrow> varint_get_big
     ((PUTB v 5 OR 0xf8) # PUTB v 4 # PUTB v 3 # PUTB v 2 # PUTB v 1 # PUTB v 0 # r) =
     Inr (v + VARINT_SHIFT_L5, r)"
  "v < 2 ^ 49 \<Longrightarrow> varint_get_big
     ((PUTB v 6 OR 0xfc) # PUTB v 5 # PUTB v 4 # PUTB v 3 # PUTB v 2 # PUTB v 1 # PUTB v 0 # r) =
     Inr (v + VARINT_SHIFT_L6, r)"
  "v < 2 ^ 56 \<Longrightarrow> varint_get_big
     (0xfe # PUTB v 6 # PUTB v 5 # PUTB v 4 # PUTB v 3 # PUTB v 2 # PUTB v 1 # PUTB v 0 # r) =
     Inr (v + VARINT_SHIFT_L7, r)"
  "varint_get_big
     (0xff # PUTB v 7 # PUTB v 6 # PUTB v 5 # PUTB v 4 # PUTB v 3 # PUTB v 2 # PUTB v 1 # PUTB v 0 # r) =
     Inr (v + VARINT_SHIFT_L8, r)"
  subgoal
    by (subst varint_get_big_branch(1)) (simp_all only: or_and_f0 header_bits get5_put simp_thms)
  subgoal
    using be_get_put_le [of v 42 6] take_bit_PUTB [of v 5 2 "0xf8"]
    by (subst varint_get_big_branch(2))
      (simp_all only: or_and_f0 header_bits be_put_PUTB, simp_all add: bit_PUTB_or)
  subgoal
    using be_get_put_le [of v 49 7] take_bit_PUTB [of v 6 1 "0xfc"]
    by (subst varint_get_big_branch(3))
      (simp_all only: or_and_f0 header_bits be_put_PUTB, simp_all add: bit_PUTB_or)
  subgoal
    using be_get_put_le [of v 56 7]
    by (subst varint_get_big_branch(4)) (simp_all add: be_put_PUTB)
  subgoal
    using be_get_put [of 8 v] take_bit_length_eq [of v]
    by (subst varint_get_big_branch(5)) (simp_all add: be_put_PUTB)
  done



lemma varint_get_L1: "v < VARINT_SHIFT_L1 \<Longrightarrow> varint_get (ucast v # r) = Inr (v, r)"
  using varint_get_class(1) by (simp add: varint_shifts)

lemma varint_put_get:
  assumes "varint_put u = Inr bs"
  shows "varint_get (bs @ r) = Inr (u, r)"
proof -
  have big: "varint_get (p0 # q) = varint_get_big (p0 # q)" if "p0 AND 0xf0 = 0xf0" for p0 q
  proof (rule varint_get_branch(5))
    have "bit (p0 AND 0xf0) n = bit (0xf0 :: byte) n" for n using that by simp
    from this [of 7] this [of 6] this [of 5] this [of 4]
    show "bit p0 7" "bit p0 6" "bit p0 5" "bit p0 4" by (simp_all add: bit_simps)
  qed
  from assms show ?thesis
    unfolding varint_put_def varint_put_big_def Let_def
    by (auto simp: not_less varint_get_L1 varint_get_class(2) [OF class_bound(1)]
        varint_get_class(3) [OF class_bound(2)] varint_get_class(4) [OF class_bound(3)]
        varint_get_big_class(1) [OF class_bound(4)] varint_get_big_class(2) [OF class_bound(5)]
        varint_get_big_class(3) [OF class_bound(6)] varint_get_big_class(4) [OF class_bound(7)]
        varint_get_big_class(5) big or_and_f0 split: if_splits simp del: One_nat_def)
qed







lemma varint_base_Suc: "1 \<le> n \<Longrightarrow> varint_base (Suc n) = varint_base n + 128 ^ n"
  by (simp add: varint_base_def)

lemma varint_base_simps:
  shows b1: "varint_base 1 = 0" and b2: "varint_base 2 = 0x80" and b3: "varint_base 3 = 0x4080"
    and b4: "varint_base 4 = 0x204080" and b5: "varint_base 5 = 0x10204080"
    and b6: "varint_base 6 = 0x0810204080" and b7: "varint_base 7 = 0x040810204080"
    and b8: "varint_base 8 = 0x02040810204080" and b9: "varint_base 9 = 0x0102040810204080"
proof -
  show b1: "varint_base 1 = 0" by (simp add: varint_base_def)
  show b2: "varint_base 2 = 0x80" using varint_base_Suc [of 1] b1 by (simp add: numeral_2_eq_2)
  show b3: "varint_base 3 = 0x4080" using varint_base_Suc [of 2] b2 by simp
  show b4: "varint_base 4 = 0x204080" using varint_base_Suc [of 3] b3 by simp
  show b5: "varint_base 5 = 0x10204080" using varint_base_Suc [of 4] b4 by simp
  show b6: "varint_base 6 = 0x0810204080" using varint_base_Suc [of 5] b5 by simp
  show b7: "varint_base 7 = 0x040810204080" using varint_base_Suc [of 6] b6 by simp
  show b8: "varint_base 8 = 0x02040810204080" using varint_base_Suc [of 7] b7 by simp
  show b9: "varint_base 9 = 0x0102040810204080" using varint_base_Suc [of 8] b8 by simp
qed





lemma be_nat_header:
  assumes "v < 2 ^ (8 * k + j)" "take_bit j m = 0" "be_put n v = PUTB v k # bs" "n = Suc k" "j \<le> 8"
  shows "be_nat ((PUTB v k OR m) # bs) = unat m * 256 ^ k + unat v"
proof -
  have len: "length bs = k" using arg_cong [OF assms(3), of length] assms(4) by simp
  have "take_bit j (PUTB v k) = PUTB v k"
    using take_bit_PUTB [OF assms(1), of 0] by simp
  then have "unat (PUTB v k OR m) = unat (PUTB v k) + unat m"
    using assms(2) by (rule unat_or_disjoint)
  then have "be_nat ((PUTB v k OR m) # bs) = unat m * 256 ^ k + be_nat (be_put n v)"
    using assms(3) len by (simp add: algebra_simps)
  also have "be_nat (be_put n v) = unat v"
  proof -
    have "unat v < 2 ^ (8 * k + j)"
      using unat_less_exp [OF assms(1)] .
    also have "\<dots> \<le> 2 ^ (8 * Suc k)" using assms(5) by (intro power_increasing) auto
    also have "\<dots> = 256 ^ Suc k" by (simp add: power_mult power_add)
    finally show ?thesis by (simp only: be_nat_put mod_less assms(4))
  qed
  finally show ?thesis .
qed




lemma be_nat_class:
  "v < 2 ^ 14 \<Longrightarrow> be_nat [PUTB v 1 OR 0x80, PUTB v 0] = 0x80 * 256 + unat v"
  "v < 2 ^ 21 \<Longrightarrow> be_nat [PUTB v 2 OR 0xc0, PUTB v 1, PUTB v 0] = 0xc0 * 256 ^ 2 + unat v"
  "v < 2 ^ 28 \<Longrightarrow> be_nat [PUTB v 3 OR 0xe0, PUTB v 2, PUTB v 1, PUTB v 0] =
     0xe0 * 256 ^ 3 + unat v"
  "v < 2 ^ 35 \<Longrightarrow> be_nat [PUTB v 4 OR 0xf0, PUTB v 3, PUTB v 2, PUTB v 1, PUTB v 0] =
     0xf0 * 256 ^ 4 + unat v"
  "v < 2 ^ 42 \<Longrightarrow> be_nat [PUTB v 5 OR 0xf8, PUTB v 4, PUTB v 3, PUTB v 2, PUTB v 1, PUTB v 0] =
     0xf8 * 256 ^ 5 + unat v"
  "v < 2 ^ 49 \<Longrightarrow>
     be_nat [PUTB v 6 OR 0xfc, PUTB v 5, PUTB v 4, PUTB v 3, PUTB v 2, PUTB v 1, PUTB v 0] =
     0xfc * 256 ^ 6 + unat v"
  "v < 2 ^ 56 \<Longrightarrow> be_nat (0xfe # be_put 7 v) = 0xfe * 256 ^ 7 + unat v"
  "be_nat (0xff # be_put 8 v) = 0xff * 256 ^ 8 + unat v"
  subgoal
    by (subst be_nat_header [of v 1 6 "0x80", OF _ _ be_put_PUTB(1)]) simp_all
  subgoal
    by (subst be_nat_header [of v 2 5 "0xc0", OF _ _ be_put_PUTB(2)]) simp_all
  subgoal
    by (subst be_nat_header [of v 3 4 "0xe0", OF _ _ be_put_PUTB(3)]) simp_all
  subgoal
    by (subst be_nat_header [of v 4 3 "0xf0", OF _ _ be_put_PUTB(4)]) simp_all
  subgoal
    by (subst be_nat_header [of v 5 2 "0xf8", OF _ _ be_put_PUTB(5)]) simp_all
  subgoal
    by (subst be_nat_header [of v 6 1 "0xfc", OF _ _ be_put_PUTB(6)]) simp_all
  subgoal
    using unat_less_exp [of v 56] by (simp add: be_nat_put del: be_put.simps)
  subgoal
    by (simp add: be_nat_put unat_lt_u64 del: be_put.simps)
  done

lemma varint_format_class:
  assumes "length bs = n" "be_nat bs = varint_mark n * 256 ^ (n - 1) + unat v"
    "base \<le> u" "v = u - base" "varint_space u = of_nat n" "1 \<le> n" "n \<le> 9"
    "unat base = varint_base n" "n < 9 \<Longrightarrow> unat v < 128 ^ n"
  shows "length bs = unat (varint_space u) \<and> 1 \<le> length bs \<and> length bs \<le> 9 \<and>
    varint_base (length bs) \<le> unat u \<and>
    (length bs < 9 \<longrightarrow> unat u < varint_base (length bs) + 128 ^ length bs) \<and>
    be_nat bs = varint_mark (length bs) * 256 ^ (length bs - 1) + (unat u - varint_base (length bs))"
proof -
  have v: "unat v = unat u - varint_base n" and le: "varint_base n \<le> unat u"
    using assms(3,4,8) by (auto simp: word_le_nat_alt unat_sub)
  have "unat (varint_space u) = n"
    using assms(5-7) by (simp add: unat_of_nat)
  with assms v le show ?thesis by auto
qed

lemma varint_space_class:
  "u < VARINT_SHIFT_L1 \<Longrightarrow> varint_space u = 1"
  "VARINT_SHIFT_L1 \<le> u \<Longrightarrow> u < VARINT_SHIFT_L2 \<Longrightarrow> varint_space u = 2"
  "VARINT_SHIFT_L2 \<le> u \<Longrightarrow> u < VARINT_SHIFT_L3 \<Longrightarrow> varint_space u = 3"
  "VARINT_SHIFT_L3 \<le> u \<Longrightarrow> u < VARINT_SHIFT_L4 \<Longrightarrow> varint_space u = 4"
  "VARINT_SHIFT_L4 \<le> u \<Longrightarrow> u < VARINT_SHIFT_L5 \<Longrightarrow> varint_space u = 5"
  "VARINT_SHIFT_L5 \<le> u \<Longrightarrow> u < VARINT_SHIFT_L6 \<Longrightarrow> varint_space u = 6"
  "VARINT_SHIFT_L6 \<le> u \<Longrightarrow> u < VARINT_SHIFT_L7 \<Longrightarrow> varint_space u = 7"
  "VARINT_SHIFT_L7 \<le> u \<Longrightarrow> u < VARINT_SHIFT_L8 \<Longrightarrow> varint_space u = 8"
  "VARINT_SHIFT_L8 \<le> u \<Longrightarrow> varint_space u = 9"
  by (auto simp: varint_space_def varint_shifts word_less_nat_alt word_le_nat_alt)

lemma unat_shift_less: "v < 2 ^ (7 * n) \<Longrightarrow> unat v < 128 ^ n" for v :: u64
  using unat_less_exp [of v "7 * n"] by (simp add: power_mult)

lemma varint_put_cases:
  assumes "varint_put u = Inr bs"
  obtains
    "u < VARINT_SHIFT_L1" "bs = [ucast u]"
  | v where "VARINT_SHIFT_L1 \<le> u" "u < VARINT_SHIFT_L2" "v = u - VARINT_SHIFT_L1"
      "bs = [PUTB v 1 OR 0x80, PUTB v 0]"
  | v where "VARINT_SHIFT_L2 \<le> u" "u < VARINT_SHIFT_L3" "v = u - VARINT_SHIFT_L2"
      "bs = [PUTB v 2 OR 0xc0, PUTB v 1, PUTB v 0]"
  | v where "VARINT_SHIFT_L3 \<le> u" "u < VARINT_SHIFT_L4" "v = u - VARINT_SHIFT_L3"
      "bs = [PUTB v 3 OR 0xe0, PUTB v 2, PUTB v 1, PUTB v 0]"
  | v where "VARINT_SHIFT_L4 \<le> u" "u < VARINT_SHIFT_L5" "v = u - VARINT_SHIFT_L4"
      "bs = [PUTB v 4 OR 0xf0, PUTB v 3, PUTB v 2, PUTB v 1, PUTB v 0]"
  | v where "VARINT_SHIFT_L5 \<le> u" "u < VARINT_SHIFT_L6" "v = u - VARINT_SHIFT_L5"
      "bs = [PUTB v 5 OR 0xf8, PUTB v 4, PUTB v 3, PUTB v 2, PUTB v 1, PUTB v 0]"
  | v where "VARINT_SHIFT_L6 \<le> u" "u < VARINT_SHIFT_L7" "v = u - VARINT_SHIFT_L6"
      "bs = [PUTB v 6 OR 0xfc, PUTB v 5, PUTB v 4, PUTB v 3, PUTB v 2, PUTB v 1, PUTB v 0]"
  | v where "VARINT_SHIFT_L7 \<le> u" "u < VARINT_SHIFT_L8" "v = u - VARINT_SHIFT_L7"
      "bs = 0xfe # be_put 7 v"
  | v where "VARINT_SHIFT_L8 \<le> u" "v = u - VARINT_SHIFT_L8" "bs = 0xff # be_put 8 v"
  using assms unfolding varint_put_def varint_put_big_def Let_def be_put_PUTB
  by (auto simp: not_less split: if_splits simp del: One_nat_def)

lemma varint_put_format:
  assumes "varint_put u = Inr bs"
  shows "length bs = unat (varint_space u) \<and> 1 \<le> length bs \<and> length bs \<le> 9 \<and>
    varint_base (length bs) \<le> unat u \<and>
    (length bs < 9 \<longrightarrow> unat u < varint_base (length bs) + 128 ^ length bs) \<and>
    be_nat bs = varint_mark (length bs) * 256 ^ (length bs - 1) + (unat u - varint_base (length bs))"
proof -
  from assms show ?thesis
  proof (cases rule: varint_put_cases)
    case 1
    then have u: "unat u < 128" by (simp add: varint_shifts word_less_nat_alt)
    with 1 show ?thesis
      by (intro varint_format_class [of bs 1 u 0 u])
        (simp_all add: varint_space_def b1 varint_mark_def unat_ucast_byte del: One_nat_def)
  next
    case (2 v)
    then have v: "v < 2 ^ (7 * 2)" using class_bound(1) by simp
    with 2 varint_space_class(2) [of u] be_nat_class(1) [of v] show ?thesis
      by (intro varint_format_class [of bs 2 v VARINT_SHIFT_L1 u])
        (simp_all only: unat_shift_less, simp_all add: b2 varint_mark_def varint_shifts)
  next
    case (3 v)
    then have v: "v < 2 ^ (7 * 3)" using class_bound(2) by simp
    with 3 varint_space_class(3) [of u] be_nat_class(2) [of v] show ?thesis
      by (intro varint_format_class [of bs 3 v VARINT_SHIFT_L2 u])
        (simp_all only: unat_shift_less, simp_all add: b3 varint_mark_def varint_shifts)
  next
    case (4 v)
    then have v: "v < 2 ^ (7 * 4)" using class_bound(3) by simp
    with 4 varint_space_class(4) [of u] be_nat_class(3) [of v] show ?thesis
      by (intro varint_format_class [of bs 4 v VARINT_SHIFT_L3 u])
        (simp_all only: unat_shift_less, simp_all add: b4 varint_mark_def varint_shifts)
  next
    case (5 v)
    then have v: "v < 2 ^ (7 * 5)" using class_bound(4) by simp
    with 5 varint_space_class(5) [of u] be_nat_class(4) [of v] show ?thesis
      by (intro varint_format_class [of bs 5 v VARINT_SHIFT_L4 u])
        (simp_all only: unat_shift_less, simp_all add: b5 varint_mark_def varint_shifts)
  next
    case (6 v)
    then have v: "v < 2 ^ (7 * 6)" using class_bound(5) by simp
    with 6 varint_space_class(6) [of u] be_nat_class(5) [of v] show ?thesis
      by (intro varint_format_class [of bs 6 v VARINT_SHIFT_L5 u])
        (simp_all only: unat_shift_less, simp_all add: b6 varint_mark_def varint_shifts)
  next
    case (7 v)
    then have v: "v < 2 ^ (7 * 7)" using class_bound(6) by simp
    with 7 varint_space_class(7) [of u] be_nat_class(6) [of v] show ?thesis
      by (intro varint_format_class [of bs 7 v VARINT_SHIFT_L6 u])
        (simp_all only: unat_shift_less, simp_all add: b7 varint_mark_def varint_shifts)
  next
    case (8 v)
    then have v: "v < 2 ^ (7 * 8)" using class_bound(7) by simp
    with 8 varint_space_class(8) [of u] be_nat_class(7) [of v] show ?thesis
      by (intro varint_format_class [of bs 8 v VARINT_SHIFT_L7 u])
        (simp_all only: unat_shift_less, simp_all add: b8 varint_mark_def varint_shifts)
  next
    case (9 v)
    with varint_space_class(9) [of u] be_nat_class(8) [of v] show ?thesis
      by (intro varint_format_class [of bs 9 v VARINT_SHIFT_L8 u])
        (simp_all only:, simp_all add: b9 varint_mark_def varint_shifts)
  qed
qed

lemma varint_put_total: "\<exists>bs. varint_put u = Inr bs \<and> bs \<noteq> []"
  by (auto simp: varint_put_def varint_put_big_def Let_def)

interpretation varint: codec varint_put varint_get "\<lambda>_. True"
  by unfold_locales (simp_all add: varint_put_total varint_put_get)

lemma varint_mark_Suc:
  assumes "1 \<le> n" "n < 9"
  shows "varint_mark (Suc n) * 256 ^ (n - 1) = varint_mark n * 256 ^ (n - 1) + 128 ^ n"
proof -
  consider "n = 1" | "n = 2" | "n = 3" | "n = 4" | "n = 5" | "n = 6" | "n = 7" | "n = 8"
    using assms by linarith
  then show ?thesis by cases (simp_all add: varint_mark_def)
qed

lemma varint_mark_mono: "m \<le> n \<Longrightarrow> varint_mark m \<le> varint_mark n"
  by (auto simp: varint_mark_def intro!: diff_le_mono2 power_increasing)

lemma varint_base_mono: "m < n \<Longrightarrow> 1 \<le> m \<Longrightarrow> varint_base m + 128 ^ m \<le> varint_base n"
proof (induction n)
  case (Suc n)
  then show ?case by (cases "m = n") (auto simp: varint_base_Suc)
qed simp

lemma varint_hd_bounds:
  assumes "varint_put u = Inr bs" "length bs = n"
  shows "varint_mark n \<le> unat (hd bs)" "n < 9 \<Longrightarrow> unat (hd bs) < varint_mark (Suc n)"
proof -
  note f = varint_put_format [OF assms(1)]
  obtain b cs where bs: "bs = b # cs" using f by (cases bs) auto
  have n: "length cs = n - 1" "1 \<le> n" "n \<le> 9" using bs assms(2) f by auto
  have eq: "unat b * 256 ^ (n - 1) + be_nat cs =
      varint_mark n * 256 ^ (n - 1) + (unat u - varint_base n)"
  proof -
    have "be_nat bs = varint_mark n * 256 ^ (n - 1) + (unat u - varint_base n)"
      using f by (simp only: assms(2))
    then show ?thesis using bs n(1) by simp
  qed
  have cs: "be_nat cs < 256 ^ (n - 1)" using be_nat_less [of cs] n by simp
  have "\<not> unat b < varint_mark n"
  proof
    assume "unat b < varint_mark n"
    then have "(unat b + 1) * 256 ^ (n - 1) \<le> varint_mark n * 256 ^ (n - 1)"
      by (intro mult_right_mono) auto
    with eq cs show False by (simp only: distrib_right mult_1)
  qed
  then show "varint_mark n \<le> unat (hd bs)" using bs by simp
  show "unat (hd bs) < varint_mark (Suc n)" if "n < 9"
  proof (rule ccontr)
    assume "\<not> ?thesis"
    then have "varint_mark (Suc n) * 256 ^ (n - 1) \<le> unat b * 256 ^ (n - 1)"
      using bs by (intro mult_right_mono) auto
    moreover have "varint_mark (Suc n) * 256 ^ (n - 1) = varint_mark n * 256 ^ (n - 1) + 128 ^ n"
      using varint_mark_Suc n(2) that by simp
    moreover have "unat u - varint_base n < 128 ^ n"
      using f that assms(2) by auto
    ultimately show False using eq by linarith
  qed
qed

lemma varint_put_less:
  assumes u: "varint_put u = Inr bs" and v: "varint_put v = Inr cs" and "u < v"
  shows "bytes_less bs cs"
proof -
  note fu = varint_put_format [OF u] and fv = varint_put_format [OF v]
  have uv: "unat u < unat v" using \<open>u < v\<close> by (simp add: word_less_nat_alt)
  have "\<not> length cs < length bs"
  proof
    assume less: "length cs < length bs"
    then have "varint_base (length cs) + 128 ^ length cs \<le> varint_base (length bs)"
      using fv by (intro varint_base_mono) auto
    with fu fv less uv show False by linarith
  qed
  then consider "length bs = length cs" | "length bs < length cs" by linarith
  then show ?thesis
  proof cases
    case 1
    have "be_nat bs < be_nat cs"
      using fu fv uv 1 by auto
    with 1 show ?thesis by (rule bytes_less_be_nat)
  next
    case 2
    have "unat (hd bs) < varint_mark (Suc (length bs))"
      using varint_hd_bounds(2) [OF u refl] 2 fv by linarith
    also have "\<dots> \<le> varint_mark (length cs)" using 2 by (intro varint_mark_mono) auto
    also have "\<dots> \<le> unat (hd cs)" by (rule varint_hd_bounds(1) [OF v refl])
    finally have "hd bs < hd cs" by (simp add: word_less_nat_alt)
    moreover have "bs \<noteq> []" "cs \<noteq> []" using fu fv by auto
    ultimately show ?thesis by (cases bs; cases cs) auto
  qed
qed


lemma varint_len_bits:
  "varint_len b = (if \<not> bit b 7 then 1 else if \<not> bit b 6 then 2 else if \<not> bit b 5 then 3
     else if \<not> bit b 4 then 4 else if \<not> bit b 3 then 5 else if \<not> bit b 2 then 6
     else if \<not> bit b 1 then 7 else if \<not> bit b 0 then 8 else 9)"
  unfolding varint_len_def Let_def byte_eq_0_bits
  by (simp add: bit_and_iff bit_not_iff)

lemma varint_len_put:
  assumes "varint_put u = Inr bs"
  shows "varint_len (hd bs) = varint_space u"
  using assms
proof (cases rule: varint_put_cases)
  case 1
  then have "\<not> bit u 7" using bit_less_exp [of u 7 7] by (auto simp: varint_shifts)
  with 1 show ?thesis by (simp add: varint_len_bits varint_space_class(1) bit_simps)
next
  case (2 v)
  with class_bound(1) [of u] header_bits(1) [of v] show ?thesis
    by (simp add: varint_len_bits varint_space_class(2) bit_PUTB_or)
next
  case (3 v)
  with class_bound(2) [of u] header_bits(2) [of v] show ?thesis
    by (simp add: varint_len_bits varint_space_class(3) bit_PUTB_or)
next
  case (4 v)
  with class_bound(3) [of u] header_bits(3) [of v] show ?thesis
    by (simp add: varint_len_bits varint_space_class(4) bit_PUTB_or)
next
  case (5 v)
  with class_bound(4) [of u] header_bits(4) [of v] show ?thesis
    by (simp add: varint_len_bits varint_space_class(5) bit_PUTB_or)
next
  case (6 v)
  with class_bound(5) [of u] header_bits(5) [of v] show ?thesis
    by (simp add: varint_len_bits varint_space_class(6) bit_PUTB_or)
next
  case (7 v)
  with class_bound(6) [of u] header_bits(6) [of v] show ?thesis
    by (simp add: varint_len_bits varint_space_class(7) bit_PUTB_or)
next
  case (8 v)
  then show ?thesis by (simp add: varint_len_bits varint_space_class(8))
next
  case (9 v)
  then show ?thesis by (simp add: varint_len_bits varint_space_class(9))
qed





lemma varint_get32_big:
  "bit p0 7 \<Longrightarrow> bit p0 6 \<Longrightarrow> bit p0 5 \<Longrightarrow> bit p0 4 \<Longrightarrow>
     varint_get32 (p0 # p1 # p2 # p3 # p4 # r) =
     (let v = get5 p0 p1 p2 p3 p4 + VARINT_SHIFT_L4
      in if v > 0xffffffff then Inr (0xffffffff, p0 # p1 # p2 # p3 # p4 # r) else Inr (ucast v, r))"
  by (simp add: varint_get32_def)

lemma varint_get32_via_get:
  assumes "varint_get (p0 # q) = Inr (u, r)" "\<not> (bit p0 7 \<and> bit p0 6 \<and> bit p0 5 \<and> bit p0 4)"
  shows "varint_get32 (p0 # q) = Inr (ucast u, r)"
proof -
  have "ucast (ucast p0 :: u64) = (ucast p0 :: u32)"
    by (rule bit_word_eqI) (auto simp: bit_simps)
  with assms show ?thesis
    by (auto simp: varint_get_def varint_get32_def Let_def ucast_add_u32 ucast_ucast_u32
        split: if_splits list.splits)
qed

lemma varint_get32_put:
  assumes "varint_put u = Inr bs" "u < VARINT_SHIFT_L5"
  shows "varint_get32 (bs @ r) =
    (if u < 2 ^ 32 then Inr (ucast u, r) else Inr (0xffffffff, bs @ r))"
proof (cases "u < VARINT_SHIFT_L4")
  case True
  then have u: "u < 2 ^ 32" by (auto simp: varint_shifts intro: order_less_trans)
  obtain p0 q where bs: "bs = p0 # q" using varint_put_total [of u] assms(1) by (cases bs) auto
  have "varint_space u \<le> 4" using True by (auto simp: varint_space_def varint_shifts)
  then have "\<not> (bit p0 7 \<and> bit p0 6 \<and> bit p0 5 \<and> bit p0 4)"
    using varint_len_put [OF assms(1)] bs by (auto simp: varint_len_bits split: if_splits)
  moreover have "varint_get (p0 # (q @ r)) = Inr (u, r)"
    using varint_put_get [OF assms(1)] bs by simp
  ultimately show ?thesis using u bs varint_get32_via_get by auto
next
  case False
  with assms(2) have u: "VARINT_SHIFT_L4 \<le> u" "u < VARINT_SHIFT_L5" by auto
  define v where "v = u - VARINT_SHIFT_L4"
  have v: "v < 2 ^ 35" "v + VARINT_SHIFT_L4 = u" using class_bound(4) [OF u] by (auto simp: v_def)
  have "\<not> u < VARINT_SHIFT_L1" "\<not> u < VARINT_SHIFT_L2" "\<not> u < VARINT_SHIFT_L3"
    using u(1) by (auto simp: varint_shifts word_less_nat_alt word_le_nat_alt)
  then have "bs = [PUTB v 4 OR 0xf0, PUTB v 3, PUTB v 2, PUTB v 1, PUTB v 0]"
    using assms u by (simp add: varint_put_def varint_put_big_def Let_def v_def leD)
  moreover have "(u > 0xffffffff) = (\<not> u < 2 ^ 32)"
    by (simp add: word_less_nat_alt) linarith
  moreover have "bit (PUTB v 4 OR 0xf0) 7" "bit (PUTB v 4 OR 0xf0) 6"
    "bit (PUTB v 4 OR 0xf0) 5" "bit (PUTB v 4 OR 0xf0) 4"
    by (simp_all add: bit_PUTB_or)
  ultimately show ?thesis
    using get5_put [OF v(1)] v(2) varint_get32_big [of "PUTB v 4 OR 0xf0"] by (auto simp: Let_def)
qed

section \<open>Properties\<close>

text \<open>C19: decoding what \<open>varint_put\<close> stored gives back the value, for every 64-bit number and
  whatever follows in memory; and a sequence of numbers stored one after another is read back by
  repeated \<open>varint_get\<close>.\<close>

theorem varint_roundtrip:
  "(\<exists>bs. varint_put u = Inr bs \<and> varint_get (bs @ r) = Inr (u, r)) \<and>
   (\<exists>bs. enc_all varint_put us = Inr bs \<and> dec_all varint_get (length us) bs = Inr us)"
  using varint_put_total [of u] varint_put_get varint.dec_all_enc_all [of us "length us"] by auto

text \<open>C22: the encoding preserves the order: the byte strings compare lexicographically as the
  numbers do (the reason \<open>varint.h\<close> gives for storing big-endian).\<close>

theorem varint_order:
  assumes "varint_put u = Inr bs" "varint_put v = Inr cs"
  shows "bytes_less bs cs \<longleftrightarrow> u < v"
proof
  assume less: "bytes_less bs cs"
  show "u < v"
  proof (rule ccontr)
    assume "\<not> u < v"
    then consider "u = v" | "v < u" by (auto simp: not_less order_le_less)
    then have "\<not> bytes_less bs cs"
      using assms varint_put_less [OF assms(2,1)] bytes_less_asym [of cs bs]
      by cases (auto simp: bytes_less_irrefl)
    with less show False by simp
  qed
qed (rule varint_put_less [OF assms])

theorem varint_order_witness: "bytes_less [0x05] [0x80, 0xac]"
  using varint_order [of 5 "[0x05]" 300 "[0x80, 0xac]"]
  by (simp add: varint_put_def varint_shifts PUTB_def)

text \<open>C23: the length of an encoding is what \<open>varint_space\<close> computes from the number and what
  \<open>varint_len\<close> computes from the first byte, it is between 1 and 9, and in the forms
  of at most seven bytes the stored big-endian value is the header of the format table plus the shifted number.\<close>

theorem varint_length:
  assumes "varint_put u = Inr bs"
  shows "length bs = unat (varint_space u) \<and> varint_len (hd bs) = varint_space u \<and>
    1 \<le> length bs \<and> length bs \<le> 9 \<and>
    (length bs \<le> 7 \<longrightarrow> be_nat bs = varint_mark (length bs) * 256 ^ (length bs - 1) + (unat u - varint_base (length bs)))"
  using varint_put_format [OF assms] varint_len_put [OF assms] by simp

theorem varint_length_witness:
  "length [0x80, 0xac :: byte] = unat (varint_space 300) \<and> be_nat [0x80, 0xac] = varint_mark 2 * 256 + (300 - varint_base 2)"
proof -
  have p: "varint_put 300 = Inr [0x80, 0xac]" by (simp add: varint_put_def varint_shifts PUTB_def)
  have l: "length [0x80, 0xac :: byte] = 2" by simp
  show ?thesis using varint_length [OF p] unfolding l by simp
qed

text \<open>C24: \<open>varint_get32\<close> on an encoding of at most five bytes: it returns the number when it fits
  into 32 bits, and otherwise \<open>0xffffffff\<close> with the position unchanged.\<close>

theorem varint_get32_correct:
  assumes "varint_put u = Inr bs" "u < VARINT_SHIFT_L5"
  shows "varint_get32 (bs @ r) =
    (if u < 2 ^ 32 then Inr (ucast u, r) else Inr (0xffffffff, bs @ r))"
  by (rule varint_get32_put [OF assms])

theorem varint_get32_correct_witness:
  "varint_get32 [0x80, 0xac, 7] = Inr (300, [7])"
  using varint_get32_correct [of 300 "[0x80, 0xac]" "[7]"]
  by (simp add: varint_put_def varint_shifts PUTB_def)

text \<open>On longer encodings \<open>varint_get32\<close> does not report that the number does not fit: the
  six bytes of \<open>0x0810204080\<close> are read as the five-byte number \<open>0x10204080\<close>, with one byte left
  over.\<close>

lemma varint_get32_misdecodes:
  "\<exists>bs. varint_put VARINT_SHIFT_L5 = Inr bs \<and> varint_get32 bs = Inr (0x10204080, [0])"
  by (rule exI [of _ "[0xf8, 0, 0, 0, 0, 0]"])
    (simp add: varint_put_def varint_put_big_def varint_shifts PUTB_def varint_get32_def get5_def Let_def)

end
