(* ===== verification/Unaligned.thy ===== *)
theory Unaligned
  imports Ucw_Interfaces
begin

text \<open>
  \<open>ucw/unaligned.h\<close>: access to 16-, 32-, 40- and 64-bit numbers at unaligned addresses, in the
  portable version that assembles the numbers from bytes (the other branch of the \<open>#if\<close> reads the
  same bytes through a cast on a CPU of the right endianity). Getters read from the list of bytes
  behind the pointer, putters return the bytes they store.
\<close>

section \<open>Big-endian format\<close>

definition get_u16_be :: "byte list \<Rightarrow> uint res" where
  "get_u16_be p = (case p of
     c0 # c1 # _ \<Rightarrow> Inr (push_bit 8 (ucast c0) OR ucast c1) | _ \<Rightarrow> Inl Out_of_bounds)"

definition get_u32_be :: "byte list \<Rightarrow> u32 res" where
  "get_u32_be p = (case p of
     c0 # c1 # c2 # c3 # _ \<Rightarrow>
       Inr (push_bit 24 (ucast c0) OR push_bit 16 (ucast c1) OR push_bit 8 (ucast c2) OR ucast c3)
   | _ \<Rightarrow> Inl Out_of_bounds)"

definition get_u64_be :: "byte list \<Rightarrow> u64 res" where
  "get_u64_be p = (case get_u32_be p of
     Inl f \<Rightarrow> Inl f
   | Inr hi \<Rightarrow> (case get_u32_be (drop 4 p) of
       Inl f \<Rightarrow> Inl f
     | Inr lo \<Rightarrow> Inr (push_bit 32 (ucast hi) OR ucast lo)))"

definition put_u16_be :: "uint \<Rightarrow> byte list" where
  "put_u16_be x = [ucast (drop_bit 8 x), ucast x]"

definition put_u32_be :: "u32 \<Rightarrow> byte list" where
  "put_u32_be x = [ucast (drop_bit 24 x), ucast (drop_bit 16 x), ucast (drop_bit 8 x), ucast x]"

definition put_u64_be :: "u64 \<Rightarrow> byte list" where
  "put_u64_be x = put_u32_be (ucast (drop_bit 32 x)) @ put_u32_be (ucast x)"

definition get_u40_be :: "byte list \<Rightarrow> u64 res" where
  "get_u40_be p = (case p of
     [] \<Rightarrow> Inl Out_of_bounds
   | c0 # q \<Rightarrow> (case get_u32_be q of
       Inl f \<Rightarrow> Inl f
     | Inr lo \<Rightarrow> Inr (push_bit 32 (ucast c0) OR ucast lo)))"

definition put_u40_be :: "u64 \<Rightarrow> byte list" where
  "put_u40_be x = ucast (drop_bit 32 x) # put_u32_be (ucast x)"

section \<open>Little-endian format\<close>

definition get_u16_le :: "byte list \<Rightarrow> uint res" where
  "get_u16_le p = (case p of
     c0 # c1 # _ \<Rightarrow> Inr (ucast c0 OR push_bit 8 (ucast c1)) | _ \<Rightarrow> Inl Out_of_bounds)"

definition get_u32_le :: "byte list \<Rightarrow> u32 res" where
  "get_u32_le p = (case p of
     c0 # c1 # c2 # c3 # _ \<Rightarrow>
       Inr (ucast c0 OR push_bit 8 (ucast c1) OR push_bit 16 (ucast c2) OR push_bit 24 (ucast c3))
   | _ \<Rightarrow> Inl Out_of_bounds)"

definition get_u64_le :: "byte list \<Rightarrow> u64 res" where
  "get_u64_le p = (case get_u32_le p of
     Inl f \<Rightarrow> Inl f
   | Inr lo \<Rightarrow> (case get_u32_le (drop 4 p) of
       Inl f \<Rightarrow> Inl f
     | Inr hi \<Rightarrow> Inr (ucast lo OR push_bit 32 (ucast hi))))"

definition put_u16_le :: "uint \<Rightarrow> byte list" where
  "put_u16_le x = [ucast x, ucast (drop_bit 8 x)]"

definition put_u32_le :: "u32 \<Rightarrow> byte list" where
  "put_u32_le x = [ucast x, ucast (drop_bit 8 x), ucast (drop_bit 16 x), ucast (drop_bit 24 x)]"

definition put_u64_le :: "u64 \<Rightarrow> byte list" where
  "put_u64_le x = put_u32_le (ucast x) @ put_u32_le (ucast (drop_bit 32 x))"

definition get_u40_le :: "byte list \<Rightarrow> u64 res" where
  "get_u40_le p = (case get_u32_le p of
     Inl f \<Rightarrow> Inl f
   | Inr lo \<Rightarrow> (case drop 4 p of
       [] \<Rightarrow> Inl Out_of_bounds
     | c4 # _ \<Rightarrow> Inr (ucast lo OR push_bit 32 (ucast c4))))"

definition put_u40_le :: "u64 \<Rightarrow> byte list" where
  "put_u40_le x = put_u32_le (ucast x) @ [ucast (drop_bit 32 x)]"

section \<open>Lemmas\<close>

lemmas unaligned_defs =
  get_u16_be_def get_u32_be_def get_u64_be_def get_u40_be_def
  get_u16_le_def get_u32_le_def get_u64_le_def get_u40_le_def
  put_u16_be_def put_u32_be_def put_u64_be_def put_u40_be_def
  put_u16_le_def put_u32_le_def put_u64_le_def put_u40_le_def

lemma length_put_unaligned [simp]:
  "length (put_u16_be x) = 2" "length (put_u16_le x) = 2"
  "length (put_u32_be y) = 4" "length (put_u32_le y) = 4"
  "length (put_u40_be z) = 5" "length (put_u40_le z) = 5"
  "length (put_u64_be z) = 8" "length (put_u64_le z) = 8"
  by (simp_all add: unaligned_defs)

lemma get_u16_put:
  "x < 0x10000 \<Longrightarrow> get_u16_le (put_u16_le x @ r) = Inr x"
  "x < 0x10000 \<Longrightarrow> get_u16_be (put_u16_be x @ r) = Inr x"
proof -
  have "push_bit 8 (ucast (ucast (drop_bit 8 x) :: byte)) OR ucast (ucast x :: byte) = take_bit 16 x"
    by (rule bit_word_eqI) (auto simp: bit_simps)
  moreover assume "x < 0x10000"
  ultimately show "get_u16_le (put_u16_le x @ r) = Inr x" "get_u16_be (put_u16_be x @ r) = Inr x"
    using take_bit_small [of x 16]
    by (simp_all add: get_u16_le_def put_u16_le_def get_u16_be_def put_u16_be_def or.commute)
qed

lemma drop_put_u16 [simp]: "drop 2 (put_u16_le x @ r) = r" "drop 2 (put_u16_be x @ r) = r"
  by (simp_all add: put_u16_le_def put_u16_be_def)

lemma drop_put_u32 [simp]: "drop 4 (put_u32_le y @ r) = r" "drop 4 (put_u32_be y @ r) = r"
  by (simp_all add: put_u32_le_def put_u32_be_def)

lemma u32_bytes:
  "push_bit 24 (ucast (ucast (drop_bit 24 y) :: byte)) OR push_bit 16 (ucast (ucast (drop_bit 16 y) :: byte)) OR
   push_bit 8 (ucast (ucast (drop_bit 8 y) :: byte)) OR ucast (ucast y :: byte) = y" for y :: u32
proof (rule bit_word_eqI)
  fix n :: nat
  assume "n < LENGTH(32)"
  then have "n < 8 \<or> (\<exists>k<8. n = k + 8) \<or> (\<exists>k<8. n = k + 16) \<or> (\<exists>k<8. n = k + 24)"
    by simp presburger
  then show "bit (push_bit 24 (ucast (ucast (drop_bit 24 y) :: byte) :: u32) OR
      push_bit 16 (ucast (ucast (drop_bit 16 y) :: byte)) OR
      push_bit 8 (ucast (ucast (drop_bit 8 y) :: byte)) OR ucast (ucast y :: byte)) n = bit y n"
    by (elim disjE exE conjE) (auto simp: bit_simps add.commute)
qed

lemma get_u32_put: "get_u32_le (put_u32_le y @ r) = Inr y" "get_u32_be (put_u32_be y @ r) = Inr y"
  using u32_bytes [of y]
  by (simp_all add: get_u32_le_def put_u32_le_def get_u32_be_def put_u32_be_def or.commute or.left_commute)

lemma halves: "push_bit 32 (ucast (ucast (drop_bit 32 z) :: u32)) OR ucast (ucast z :: u32) = z"
  for z :: u64
  by (rule bit_word_eqI) (auto simp: bit_simps)

lemma get_u64_put: "get_u64_le (put_u64_le z @ r) = Inr z" "get_u64_be (put_u64_be z @ r) = Inr z"
  using halves [of z]
  by (simp_all add: get_u64_le_def put_u64_le_def get_u64_be_def put_u64_be_def get_u32_put or.commute
      del: drop_append)

lemma get_u40_put:
  "z < 2 ^ 40 \<Longrightarrow> get_u40_le (put_u40_le z @ r) = Inr z"
  "z < 2 ^ 40 \<Longrightarrow> get_u40_be (put_u40_be z @ r) = Inr z"
proof -
  assume z: "z < 2 ^ 40"
  have "push_bit 32 (ucast (ucast (drop_bit 32 z) :: byte)) OR ucast (ucast z :: u32) = take_bit 40 z"
    by (rule bit_word_eqI) (auto simp: bit_simps)
  then have "push_bit 32 (ucast (ucast (drop_bit 32 z) :: byte)) OR ucast (ucast z :: u32) = z"
    using take_bit_small [OF z] by simp
  then show "get_u40_le (put_u40_le z @ r) = Inr z" "get_u40_be (put_u40_be z @ r) = Inr z"
    by (simp_all add: get_u40_le_def put_u40_le_def get_u40_be_def put_u40_be_def get_u32_put
        or.commute del: drop_append)
qed

lemma put_le_rev_be:
  "put_u16_le x = rev (put_u16_be x)" "put_u32_le y = rev (put_u32_be y)"
  "put_u40_le z = rev (put_u40_be z)" "put_u64_le z = rev (put_u64_be z)"
  by (simp_all add: unaligned_defs)

lemma be_put_numeral: "be_put (numeral k) u = be_put (pred_numeral k) (drop_bit 8 u) @ [ucast u]"
  by (simp add: numeral_eq_Suc)

lemma ucast_u32_byte:
  "ucast (ucast z :: u32) = (ucast z :: byte)"
  "k \<le> 24 \<Longrightarrow> ucast (drop_bit k (ucast z :: u32)) = (ucast (drop_bit k z) :: byte)" for z :: u64
  by (rule bit_word_eqI, auto simp: bit_simps)+

lemma put_be_put:
  "put_u16_be x = be_put 2 x" "put_u32_be y = be_put 4 y"
  "put_u40_be z = be_put 5 z" "put_u64_be z = be_put 8 z"
  by (simp_all add: unaligned_defs be_put_numeral ucast_u32_byte)

section \<open>Properties\<close>

text \<open>C25: unaligned numbers are read back from where they were stored, in both byte orders and all
  four widths; the big-endian bytes are the base-256 digits of the number and the little-endian
  bytes are their reversal.\<close>

theorem unaligned_roundtrip:
  assumes "x < 0x10000" "z < 2 ^ 40"
  shows "get_u16_be (put_u16_be x @ r) = Inr x \<and> get_u16_le (put_u16_le x @ r) = Inr x \<and>
    get_u32_be (put_u32_be y @ r) = Inr y \<and> get_u32_le (put_u32_le y @ r) = Inr y \<and>
    get_u40_be (put_u40_be z @ r) = Inr z \<and> get_u40_le (put_u40_le z @ r) = Inr z \<and>
    get_u64_be (put_u64_be w @ r) = Inr w \<and> get_u64_le (put_u64_le w @ r) = Inr w \<and>
    be_nat (put_u16_be x) = unat x \<and> put_u16_le x = rev (put_u16_be x) \<and>
    be_nat (put_u32_be y) = unat y \<and> put_u32_le y = rev (put_u32_be y) \<and>
    be_nat (put_u40_be z) = unat z \<and> put_u40_le z = rev (put_u40_be z) \<and>
    be_nat (put_u64_be w) = unat w \<and> put_u64_le w = rev (put_u64_be w)"
proof -
  have "unat x < 256 ^ 2" "unat z < 256 ^ 5"
    using assms(1) unat_less_exp [OF assms(2)] by (simp_all add: word_less_nat_alt)
  moreover have "unat y < 256 ^ 4" "unat w < 256 ^ 8"
    using unsigned_less [of y] unsigned_less [of w] by simp_all
  ultimately have "be_nat (put_u16_be x) = unat x" "be_nat (put_u32_be y) = unat y"
    "be_nat (put_u40_be z) = unat z" "be_nat (put_u64_be w) = unat w"
    by (simp_all add: put_be_put be_nat_put)
  then show ?thesis
    by (simp add: put_le_rev_be [symmetric] get_u16_put [OF assms(1)] get_u40_put [OF assms(2)]
        get_u32_put get_u64_put)
qed

theorem unaligned_roundtrip_witness:
  "get_u40_le [5, 0, 0, 0, 0] = Inr 5 \<and> be_nat [0, 0, 0, 0, 5] = 5"
  using unaligned_roundtrip [of 7 5 "[]"]
  by (simp add: put_u40_le_def put_u40_be_def put_u32_le_def put_u32_be_def)

end
