(* ===== verification/Unicode.thy ===== *)
theory Unicode
  imports Unaligned
begin

text \<open>
  \<open>ucw/unicode.h\<close> and \<open>ucw/unicode.c\<close>: UTF-8 and
  UTF-16 encoding, decoding, skipping and counting. Encoders return the bytes they store, decoders
  the character with the memory behind it. A C string is the list of the bytes readable from the
  pointer; it contains its terminating zero.
\<close>

section \<open>UTF-8 encoding\<close>

definition UNI_REPLACEMENT :: uint where "UNI_REPLACEMENT = 0xfffc"

definition utf8_put :: "uint \<Rightarrow> byte list res" where
  "utf8_put u =
    (if u < 0x80 then Inr [ucast u]
     else if u < 0x800 then
       Inr [ucast (0xc0 OR drop_bit 6 u), ucast (0x80 OR (u AND 0x3f))]
     else if \<not> u < 0x10000 then Inl Assert_failed
     else Inr [ucast (0xe0 OR drop_bit 12 u), ucast (0x80 OR (drop_bit 6 u AND 0x3f)),
            ucast (0x80 OR (u AND 0x3f))])"

definition put_tail :: "uint \<Rightarrow> nat \<Rightarrow> byte" where
  "put_tail u s = ucast (0x80 OR (drop_bit s u AND 0x3f))"

definition utf8_32_put :: "uint \<Rightarrow> byte list res" where
  "utf8_32_put u =
    (if u < 0x80 then Inr [ucast u]
     else if u < 0x800 then Inr [ucast (0xc0 OR drop_bit 6 u), put_tail u 0]
     else if u < 0x10000 then
       Inr [ucast (0xe0 OR drop_bit 12 u), put_tail u 6, put_tail u 0]
     else if u < 0x200000 then
       Inr [ucast (0xf0 OR drop_bit 18 u), put_tail u 12, put_tail u 6, put_tail u 0]
     else if u < 0x4000000 then
       Inr [ucast (0xf8 OR drop_bit 24 u), put_tail u 18, put_tail u 12, put_tail u 6, put_tail u 0]
     else if u < 0x80000000 then
       Inr [ucast (0xfc OR drop_bit 30 u), put_tail u 24, put_tail u 18, put_tail u 12,
         put_tail u 6, put_tail u 0]
     else Inl Assert_failed)"

section \<open>UTF-8 decoding\<close>

text \<open>\<open>UTF8_GET_NEXT\<close> either jumps to \<open>bad\<close> (the flag is \<open>False\<close>) without moving the pointer, or
  shifts six more bits in.\<close>

fun UTF8_GET_NEXT :: "uint \<Rightarrow> byte list \<Rightarrow> (bool \<times> uint \<times> byte list) res" where
  "UTF8_GET_NEXT u [] = Inl Out_of_bounds"
| "UTF8_GET_NEXT u (b # p) =
    (if b AND 0xc0 \<noteq> 0x80 then Inr (False, u, b # p)
     else Inr (True, push_bit 6 u OR ucast (b AND 0x3f), p))"

text \<open>A run of \<open>n\<close> consecutive \<open>UTF8_GET_NEXT\<close>, as the labels \<open>get4\<close> \<dots> \<open>get1\<close> fall through.\<close>

primrec get_nexts :: "nat \<Rightarrow> uint \<Rightarrow> byte list \<Rightarrow> (bool \<times> uint \<times> byte list) res" where
  "get_nexts 0 u p = Inr (True, u, p)"
| "get_nexts (Suc n) u p = (case UTF8_GET_NEXT u p of
     Inl f \<Rightarrow> Inl f
   | Inr (False, u, p) \<Rightarrow> Inr (False, u, p)
   | Inr (True, u, p) \<Rightarrow> get_nexts n u p)"

text \<open>The tail of both decoders: \<open>n\<close> continuation bytes and the check against overlong forms.\<close>

definition get_checked :: "uint \<Rightarrow> nat \<Rightarrow> uint \<Rightarrow> uint \<Rightarrow> byte list \<Rightarrow> (uint \<times> byte list) res" where
  "get_checked repl n u limit p = (case get_nexts n u p of
     Inl f \<Rightarrow> Inl f
   | Inr (good, u, p) \<Rightarrow> if good \<and> \<not> u < limit then Inr (u, p) else Inr (repl, p))"

definition utf8_get_repl :: "uint \<Rightarrow> byte list \<Rightarrow> (uint \<times> byte list) res" where
  "utf8_get_repl repl p = (case p of
     [] \<Rightarrow> Inl Out_of_bounds
   | b # p \<Rightarrow>
       let u = ucast b in
       if u < 0x80 then Inr (u, p)
       else if u < 0xc0 then Inr (repl, p)
       else if u < 0xe0 then get_checked repl 1 (u AND 0x1f) 0x80 p
       else if u < 0xf0 then get_checked repl 2 (u AND 0x0f) 0x800 p
       else Inr (repl, p))"

definition utf8_32_get_repl :: "uint \<Rightarrow> byte list \<Rightarrow> (uint \<times> byte list) res" where
  "utf8_32_get_repl repl p = (case p of
     [] \<Rightarrow> Inl Out_of_bounds
   | b # p \<Rightarrow>
       let u = ucast b in
       if u < 0x80 then Inr (u, p)
       else if u < 0xc0 then Inr (repl, p)
       else if u < 0xe0 then get_checked repl 1 (u AND 0x1f) 0x80 p
       else if u < 0xf0 then get_checked repl 2 (u AND 0x0f) 0x800 p
       else if u < 0xf8 then get_checked repl 3 (u AND 0x07) 0x10000 p
       else if u < 0xfc then get_checked repl 4 (u AND 0x03) 0x200000 p
       else if u < 0xfe then get_checked repl 5 (u AND 0x01) 0x4000000 p
       else Inr (repl, p))"

definition utf8_get :: "byte list \<Rightarrow> (uint \<times> byte list) res" where
  "utf8_get p = utf8_get_repl UNI_REPLACEMENT p"

definition utf8_32_get :: "byte list \<Rightarrow> (uint \<times> byte list) res" where
  "utf8_32_get p = utf8_32_get_repl UNI_REPLACEMENT p"

section \<open>Skipping and lengths\<close>

fun skip_loop :: "uint \<Rightarrow> byte list \<Rightarrow> byte list res" where
  "skip_loop c [] = (if c AND 0x40 \<noteq> 0 then Inl Out_of_bounds else Inr [])"
| "skip_loop c (b # p) =
    (if c AND 0x40 \<noteq> 0 \<and> b \<ge> 0x80 \<and> b < 0xc0 then skip_loop (push_bit 1 c) p else Inr (b # p))"

definition UTF8_SKIP :: "byte list \<Rightarrow> byte list res" where
  "UTF8_SKIP p = (case p of
     [] \<Rightarrow> Inl Out_of_bounds
   | b # p \<Rightarrow> let c = ucast b in if c \<ge> 0xc0 then skip_loop c p else Inr p)"

text \<open>Backwards, the pointer splits the memory into the bytes before it, last one first, and the
  bytes from it on.\<close>

fun UTF8_SKIP_BWD :: "byte list \<Rightarrow> byte list \<Rightarrow> (byte list \<times> byte list) res" where
  "UTF8_SKIP_BWD [] p = Inl Out_of_bounds"
| "UTF8_SKIP_BWD (b # before) p =
    (if b AND 0xc0 = 0x80 then UTF8_SKIP_BWD before (b # p) else Inr (before, b # p))"

definition utf8_space :: "uint \<Rightarrow> uint" where
  "utf8_space u =
    (if u < 0x80 then 1
     else if u < 0x800 then 2
     else if u < 0x10000 then 3
     else if u < 0x200000 then 4
     else if u < 0x4000000 then 5
     else 6)"

definition utf8_encoding_len :: "uint \<Rightarrow> uint res" where
  "utf8_encoding_len c =
    (if c < 0x80 then Inr 1
     else if \<not> (c \<ge> 0xc0 \<and> c < 0xfe) then Inl Assert_failed
     else if c < 0xe0 then Inr 2
     else if c < 0xf0 then Inr 3
     else if c < 0xf8 then Inr 4
     else if c < 0xfc then Inr 5
     else Inr 6)"

text \<open>The loops of \<open>utf8_strlen\<close> and \<open>utf8_strnlen\<close>; every round consumes at least one byte, so the
  length of the memory bounds the number of rounds. The second one compares the pointer with
  \<open>end = str + n\<close>, where \<open>n\<close> counts down by the bytes skipped and may be overrun.\<close>

lemma skip_loop_length: "skip_loop c p = Inr q \<Longrightarrow> length q \<le> length p"
  by (induction c p rule: skip_loop.induct) (auto split: if_splits)

lemma UTF8_SKIP_length: "UTF8_SKIP p = Inr q \<Longrightarrow> length q < length p"
  by (auto simp: UTF8_SKIP_def Let_def split: list.splits if_splits dest: skip_loop_length)

function utf8_strlen_loop :: "nat \<Rightarrow> byte list \<Rightarrow> nat res" where
  "utf8_strlen_loop len str = (case str of
     [] \<Rightarrow> Inl Out_of_bounds
   | b # _ \<Rightarrow> if b = 0 then Inr len
       else (case UTF8_SKIP str of
           Inl f \<Rightarrow> Inl f
         | Inr str' \<Rightarrow> utf8_strlen_loop (len + 1) str'))"
  by pat_completeness auto
termination
  by (relation "measure (\<lambda>(len, str). length str)") (auto dest: UTF8_SKIP_length)

definition utf8_strlen :: "byte list \<Rightarrow> nat res" where
  "utf8_strlen str = utf8_strlen_loop 0 str"

function utf8_strnlen_loop :: "nat \<Rightarrow> nat \<Rightarrow> byte list \<Rightarrow> nat res" where
  "utf8_strnlen_loop len n str =
    (if 0 < n then (case UTF8_SKIP str of
         Inl f \<Rightarrow> Inl f
       | Inr str' \<Rightarrow> utf8_strnlen_loop (len + 1) (n - (length str - length str')) str')
     else Inr len)"
  by pat_completeness auto
termination
  by (relation "measure (\<lambda>(len, n, str). length str)") (auto dest: UTF8_SKIP_length)

definition utf8_strnlen :: "byte list \<Rightarrow> nat \<Rightarrow> nat res" where
  "utf8_strnlen str n = utf8_strnlen_loop 0 n str"

section \<open>UTF-16\<close>

definition utf16_le_put :: "uint \<Rightarrow> byte list res" where
  "utf16_le_put u =
    (if u < 0xd800 \<or> (u < 0x10000 \<and> u \<ge> 0xe000) then Inr (put_u16_le u)
     else let u = u - 0x10000 in
       if u < 0x100000 then
         Inr (put_u16_le (0xd800 OR drop_bit 10 u) @ put_u16_le (0xdc00 OR (u AND 0x3ff)))
       else Inl Assert_failed)"

definition utf16_be_put :: "uint \<Rightarrow> byte list res" where
  "utf16_be_put u =
    (if u < 0xd800 \<or> (u < 0x10000 \<and> u \<ge> 0xe000) then Inr (put_u16_be u)
     else let u = u - 0x10000 in
       if u < 0x100000 then
         Inr (put_u16_be (0xd800 OR drop_bit 10 u) @ put_u16_be (0xdc00 OR (u AND 0x3ff)))
       else Inl Assert_failed)"

definition utf16_le_get_repl :: "uint \<Rightarrow> byte list \<Rightarrow> (uint \<times> byte list) res" where
  "utf16_le_get_repl repl p = (case get_u16_le p of
     Inl f \<Rightarrow> Inl f
   | Inr u \<Rightarrow>
       let x = u - 0xd800 in
       if x < 0x800 then
         (if x < 0x400 then
            (case get_u16_le (drop 2 p) of
               Inl f \<Rightarrow> Inl f
             | Inr w \<Rightarrow>
                 let y = w - 0xdc00 in
                 if y < 0x400 then Inr (0x10000 + push_bit 10 x + y, drop 4 p)
                 else Inr (repl, drop 2 p))
          else Inr (repl, drop 2 p))
       else Inr (u, drop 2 p))"

definition utf16_be_get_repl :: "uint \<Rightarrow> byte list \<Rightarrow> (uint \<times> byte list) res" where
  "utf16_be_get_repl repl p = (case get_u16_be p of
     Inl f \<Rightarrow> Inl f
   | Inr u \<Rightarrow>
       let x = u - 0xd800 in
       if x < 0x800 then
         (if x < 0x400 then
            (case get_u16_be (drop 2 p) of
               Inl f \<Rightarrow> Inl f
             | Inr w \<Rightarrow>
                 let y = w - 0xdc00 in
                 if y < 0x400 then Inr (0x10000 + push_bit 10 x + y, drop 4 p)
                 else Inr (repl, drop 2 p))
          else Inr (repl, drop 2 p))
       else Inr (u, drop 2 p))"

definition utf16_le_get :: "byte list \<Rightarrow> (uint \<times> byte list) res" where
  "utf16_le_get p = utf16_le_get_repl UNI_REPLACEMENT p"

definition utf16_be_get :: "byte list \<Rightarrow> (uint \<times> byte list) res" where
  "utf16_be_get p = utf16_be_get_repl UNI_REPLACEMENT p"

section \<open>Sanity check\<close>

definition unicode_sanitize_char :: "uint \<Rightarrow> uint" where
  "unicode_sanitize_char u =
    (if u \<ge> 0x10000 \<or> (u \<ge> 0xd800 \<and> u < 0xf900) \<or> (u \<ge> 0x80 \<and> u < 0xa0) \<or>
        (u < 0x20 \<and> u \<noteq> 9)
     then UNI_REPLACEMENT else u)"

section \<open>Encoding and decoding\<close>

primrec tails :: "nat \<Rightarrow> uint \<Rightarrow> byte list" where
  "tails 0 u = []"
| "tails (Suc n) u = put_tail u (6 * n) # tails n u"

lemma tails_simps:
  "tails 1 u = [put_tail u 0]" "tails 2 u = [put_tail u 6, put_tail u 0]"
  "tails 3 u = [put_tail u 12, put_tail u 6, put_tail u 0]"
  "tails 4 u = [put_tail u 18, put_tail u 12, put_tail u 6, put_tail u 0]"
  "tails 5 u = [put_tail u 24, put_tail u 18, put_tail u 12, put_tail u 6, put_tail u 0]"
  by (simp_all add: eval_nat_numeral)

lemma put_tail_alt: "put_tail u s = 0x80 OR (ucast (drop_bit s u) AND 0x3f)"
  by (simp add: put_tail_def unsigned_or_eq unsigned_and_eq)

lemma put_tail_bits:
  "put_tail u s AND 0xc0 = 0x80" "ucast (put_tail u s AND 0x3f) = take_bit 6 (drop_bit s u)"
proof -
  show "put_tail u s AND 0xc0 = 0x80"
    by (simp add: put_tail_alt bit.conj_disj_distrib2 and.assoc)
  have "put_tail u s AND 0x3f = take_bit 6 (ucast (drop_bit s u))"
    by (simp add: put_tail_alt bit.conj_disj_distrib2 and.assoc flip: and_low_mask(1))
  also have "ucast (take_bit 6 (ucast (drop_bit s u) :: byte)) = take_bit 6 (drop_bit s u)"
    by (rule bit_word_eqI) (auto simp: bit_simps)
  finally show "ucast (put_tail u s AND 0x3f) = take_bit 6 (drop_bit s u)" .
qed

lemma get_nexts_tails: "get_nexts n (drop_bit (6 * n) u) (tails n u @ r) = Inr (True, u, r)"
proof (induction n)
  case (Suc n)
  have "push_bit 6 (drop_bit (6 * Suc n) u) OR take_bit 6 (drop_bit (6 * n) u) = drop_bit (6 * n) u"
    by (rule bit_word_eqI) (auto simp: bit_simps)
  with Suc show ?case by (simp add: put_tail_bits)
qed simp

lemma head_bits:
  fixes m t :: uint
  assumes t: "t < 2 ^ j" and m: "take_bit j m = 0" "unat m + 2 ^ j \<le> 256"
  shows "unat (m OR t) = unat m + unat t" "take_bit j (m OR t) = t" 
    "ucast (ucast (m OR t) :: byte) = m OR t"
proof -
  show u: "unat (m OR t) = unat m + unat t"
    using unat_or_disjoint [OF take_bit_small [OF t] m(1)] by (simp add: or.commute)
  show "take_bit j (m OR t) = t" using take_bit_small [OF t] m(1) by simp
  have "m OR t < 2 ^ 8" using u m(2) unat_less_exp [OF t] by (simp add: word_less_nat_alt)
  then show "ucast (ucast (m OR t) :: byte) = m OR t" by (rule ucast_byte_uint)
qed

lemma utf8_32_get_dispatch:
  "unat h < 0x80 \<Longrightarrow> utf8_32_get_repl repl (h # q) = Inr (ucast h, q)"
  "0x80 \<le> unat h \<Longrightarrow> unat h < 0xc0 \<Longrightarrow> utf8_32_get_repl repl (h # q) = Inr (repl, q)"
  "0xc0 \<le> unat h \<Longrightarrow> unat h < 0xe0 \<Longrightarrow>
     utf8_32_get_repl repl (h # q) = get_checked repl 1 (take_bit 5 (ucast h)) 0x80 q"
  "0xe0 \<le> unat h \<Longrightarrow> unat h < 0xf0 \<Longrightarrow>
     utf8_32_get_repl repl (h # q) = get_checked repl 2 (take_bit 4 (ucast h)) 0x800 q"
  "0xf0 \<le> unat h \<Longrightarrow> unat h < 0xf8 \<Longrightarrow>
     utf8_32_get_repl repl (h # q) = get_checked repl 3 (take_bit 3 (ucast h)) 0x10000 q"
  "0xf8 \<le> unat h \<Longrightarrow> unat h < 0xfc \<Longrightarrow>
     utf8_32_get_repl repl (h # q) = get_checked repl 4 (take_bit 2 (ucast h)) 0x200000 q"
  "0xfc \<le> unat h \<Longrightarrow> unat h < 0xfe \<Longrightarrow>
     utf8_32_get_repl repl (h # q) = get_checked repl 5 (take_bit 1 (ucast h)) 0x4000000 q"
  "0xfe \<le> unat h \<Longrightarrow> utf8_32_get_repl repl (h # q) = Inr (repl, q)"
  by (simp_all add: utf8_32_get_repl_def Let_def word_less_nat_alt unat_ucast_byte_uint
      and_low_mask(2-6) del: One_nat_def)

lemma get_checked_tails: "\<not> u < limit \<Longrightarrow>
  get_checked repl n (drop_bit (6 * n) u) limit (tails n u @ r) = Inr (u, r)"
  by (simp add: get_checked_def get_nexts_tails)

lemma head_byte:
  fixes u m :: uint
  assumes "u < 2 ^ (6 * n + j)" "j < 8" "take_bit j m = 0" "unat m + 2 ^ j \<le> 256"
  defines "h \<equiv> ucast (m OR drop_bit (6 * n) u) :: byte"
  shows "unat m \<le> unat h" "unat h < unat m + 2 ^ j" "take_bit j (ucast h) = drop_bit (6 * n) u"
proof -
  have t: "drop_bit (6 * n) u < 2 ^ j" using assms(1,2) by (intro drop_bit_less) auto
  note hb = head_bits [OF t assms(3,4)]
  have "unat h = unat m + unat (drop_bit (6 * n) u)"
    using hb(1,3) unat_ucast_byte_uint [of h] unfolding h_def by simp
  then show "unat m \<le> unat h" "unat h < unat m + 2 ^ j" using unat_less_exp [OF t] by simp_all
  show "take_bit j (ucast h) = drop_bit (6 * n) u" using hb(2,3) unfolding h_def by simp
qed

lemma utf8_32_put_cases:
  assumes "utf8_32_put u = Inr bs"
  obtains "u < 0x80" "bs = [ucast u]"
  | "0x80 \<le> u" "u < 0x800" "bs = ucast (0xc0 OR drop_bit (6 * 1) u) # tails 1 u"
  | "0x800 \<le> u" "u < 0x10000" "bs = ucast (0xe0 OR drop_bit (6 * 2) u) # tails 2 u"
  | "0x10000 \<le> u" "u < 0x200000" "bs = ucast (0xf0 OR drop_bit (6 * 3) u) # tails 3 u"
  | "0x200000 \<le> u" "u < 0x4000000" "bs = ucast (0xf8 OR drop_bit (6 * 4) u) # tails 4 u"
  | "0x4000000 \<le> u" "u < 0x80000000" "bs = ucast (0xfc OR drop_bit (6 * 5) u) # tails 5 u"
  using assms by (auto simp: utf8_32_put_def not_less tails_simps split: if_splits)

lemma utf8_32_put_get:
  assumes "utf8_32_put u = Inr bs"
  shows "utf8_32_get_repl repl (bs @ r) = Inr (u, r)"
  using assms
proof (cases rule: utf8_32_put_cases)
  case 1
  then have "unat (ucast u :: byte) < 0x80" "ucast (ucast u :: byte) = u"
    using ucast_byte_uint [of u] 
    by (auto simp: word_less_nat_alt unat_ucast_byte)
  then show ?thesis using 1 utf8_32_get_dispatch(1) by simp
next
  case 2
  then have "u < 2 ^ (6 * 1 + 5)" by simp
  note h = head_byte [OF this, of "0xc0"]
  show ?thesis
    using 2 h utf8_32_get_dispatch(3) [OF order_trans [OF _ h(1)] order_less_le_trans [OF h(2)]]
      get_checked_tails [of u "0x80" repl 1 r]
    by (simp add: not_less)
next
  case 3
  then have "u < 2 ^ (6 * 2 + 4)" by simp
  note h = head_byte [OF this, of "0xe0"]
  show ?thesis
    using 3 h utf8_32_get_dispatch(4) [OF order_trans [OF _ h(1)] order_less_le_trans [OF h(2)]]
      get_checked_tails [of u "0x800" repl 2 r]
    by (simp add: not_less)
next
  case 4
  then have "u < 2 ^ (6 * 3 + 3)" by simp
  note h = head_byte [OF this, of "0xf0"]
  show ?thesis
    using 4 h utf8_32_get_dispatch(5) [OF order_trans [OF _ h(1)] order_less_le_trans [OF h(2)]]
      get_checked_tails [of u "0x10000" repl 3 r]
    by (simp add: not_less)
next
  case 5
  then have "u < 2 ^ (6 * 4 + 2)" by simp
  note h = head_byte [OF this, of "0xf8"]
  show ?thesis
    using 5 h utf8_32_get_dispatch(6) [OF order_trans [OF _ h(1)] order_less_le_trans [OF h(2)]]
      get_checked_tails [of u "0x200000" repl 4 r]
    by (simp add: not_less)
next
  case 6
  then have "u < 2 ^ (6 * 5 + 1)" by simp
  note h = head_byte [OF this, of "0xfc"]
  show ?thesis
    using 6 h utf8_32_get_dispatch(7) [OF order_trans [OF _ h(1)] order_less_le_trans [OF h(2)]]
      get_checked_tails [of u "0x4000000" repl 5 r]
    by (simp add: not_less)
qed

lemma get_nexts_inv:
  "get_nexts n u0 p = Inr (True, u, r) \<Longrightarrow> (\<And>i. bit u0 i \<Longrightarrow> i + 6 * n < 32) \<Longrightarrow> n \<le> 5 \<Longrightarrow>
     p = tails n u @ r \<and> drop_bit (6 * n) u = u0"
proof (induction n arbitrary: u0 p)
  case (Suc n)
  from Suc.prems(1) obtain b q where p: "p = b # q" and b: "b AND 0xc0 = 0x80"
    and g: "get_nexts n (push_bit 6 u0 OR ucast (b AND 0x3f)) q = Inr (True, u, r)"
    by (cases p) (auto split: if_splits)
  let ?u1 = "push_bit 6 u0 OR ucast (b AND 0x3f)"
  have bits: "bit ?u1 i \<Longrightarrow> i + 6 * n < 32" for i
    using Suc.prems(2) [of "i - 6"] Suc.prems(3) by (auto simp: bit_simps and_low_mask)
  from Suc.IH [OF g bits] Suc.prems(3) have q: "q = tails n u @ r" and d: "drop_bit (6 * n) u = ?u1"
    by auto
  have "drop_bit (6 * Suc n) u = drop_bit 6 (drop_bit (6 * n) u)"
    by (simp add: add.commute)
  also have "\<dots> = u0"
    unfolding d using Suc.prems(2) by (intro bit_word_eqI) (fastforce simp: bit_simps and_low_mask)
  finally have u0: "drop_bit (6 * Suc n) u = u0" .
  have "ucast (drop_bit (6 * n) u) AND 0x3f = b AND 0x3f"
    unfolding d and_low_mask by (rule bit_word_eqI) (auto simp: bit_simps)
  with byte_split [OF b] have "b = put_tail u (6 * n)" by (simp add: put_tail_alt)
  with u0 q p show ?case by simp
qed simp

lemma head_inv:
  fixes h :: byte and m :: uint
  assumes "unat m \<le> unat h" "unat h < unat m + 2 ^ j" "2 ^ j dvd unat m" "j < 8"
  shows "h = ucast (m OR take_bit j (ucast h))"
proof -
  have h: "unat h mod 2 ^ j = unat h - unat m"
  proof -
    obtain k where "unat m = 2 ^ j * k" using assms(3) by blast
    moreover have "unat h = unat m + (unat h - unat m)" using assms(1) by simp
    ultimately have "unat h mod 2 ^ j = (unat h - unat m) mod 2 ^ j"
      by (metis mod_mult_self4)
    moreover have "unat h - unat m < 2 ^ j" using assms(1,2) by linarith
    ultimately show ?thesis by simp
  qed
  have t: "unat (take_bit j (ucast h :: uint)) = unat h - unat m"
    using h by (simp add: unat_take_bit unat_ucast_byte_uint)
  have "take_bit j m = 0"
    using assms(3) by (simp add: word_unat_eq_iff unat_take_bit)
  then have "unat (take_bit j (ucast h) OR m) = unat h - unat m + unat m"
    using t by (subst unat_or_disjoint [of j]) auto
  then have "unat (m OR take_bit j (ucast h)) = unat h" using assms(1) by (simp add: or.commute)
  then show ?thesis by (metis unat_ucast_byte unat_less_256 mod_less word_unat_eq_iff)
qed

lemma get_checked_inv:
  assumes "get_checked repl n (take_bit j (ucast h)) limit q = Inr (u, r)" "u \<noteq> repl"
    and "j + 6 * n < 32" "n \<le> 5" "j < 8"
    and "unat m \<le> unat h" "unat h < unat m + 2 ^ j" "2 ^ j dvd unat m"
  shows "h # q = ucast (m OR drop_bit (6 * n) u) # tails n u @ r" "\<not> u < limit" "u < 2 ^ (6 * n + j)"
proof -
  from assms(1,2) have g: "get_nexts n (take_bit j (ucast h)) q = Inr (True, u, r)"
    and l: "\<not> u < limit"
    by (auto simp: get_checked_def split: sum.splits if_splits)
  have inv: "q = tails n u @ r" "drop_bit (6 * n) u = take_bit j (ucast h)"
    using get_nexts_inv [OF g] assms(3,4) by (auto simp: bit_simps)
  then show "h # q = ucast (m OR drop_bit (6 * n) u) # tails n u @ r"
    using head_inv [OF assms(6-8,5)] by simp
  have "unat (drop_bit (6 * n) u) < 2 ^ j"
    unfolding inv(2) by (simp add: unat_take_bit)
  then have "unat u div 2 ^ (6 * n) < 2 ^ j"
    unfolding unat_drop_bit_eq by (simp add: drop_bit_eq_div)
  then have "unat u < 2 ^ (6 * n + j)"
    by (simp add: power_add div_less_iff_less_mult mult.commute)
  then show "u < 2 ^ (6 * n + j)" using assms(3) by (intro less_exp_unat) auto
  show "\<not> u < limit" by (rule l)
qed

lemma utf8_32_get_canonical:
  assumes "utf8_32_get_repl repl p = Inr (u, r)" "u \<noteq> repl"
  shows "\<exists>bs. utf8_32_put u = Inr bs \<and> p = bs @ r"
proof (cases p)
  case Nil
  with assms(1) show ?thesis by (simp add: utf8_32_get_repl_def)
next
  case (Cons h q)
  consider "unat h < 0x80" | "0x80 \<le> unat h" "unat h < 0xc0" | "0xc0 \<le> unat h" "unat h < 0xe0"
    | "0xe0 \<le> unat h" "unat h < 0xf0" | "0xf0 \<le> unat h" "unat h < 0xf8"
    | "0xf8 \<le> unat h" "unat h < 0xfc" | "0xfc \<le> unat h" "unat h < 0xfe" | "0xfe \<le> unat h"
    by linarith
  then show ?thesis
  proof cases
    case 1
    then have "ucast h < (0x80 :: uint)" "ucast (ucast h :: uint) = h"
      by (auto simp: word_less_nat_alt unat_ucast_byte_uint ucast_uint_byte)
    then show ?thesis using assms(1) Cons utf8_32_get_dispatch(1) [OF 1, of repl q]
      by (auto simp: utf8_32_put_def)
  next
    case 3
    with assms Cons utf8_32_get_dispatch(3) [OF 3]
    have "get_checked repl 1 (take_bit 5 (ucast h)) 0x80 q = Inr (u, r)" by simp
    from get_checked_inv [OF this assms(2), where m = "0xc0"] 3 Cons show ?thesis
      by (simp add: utf8_32_put_def tails_simps)
  next
    case 4
    with assms Cons utf8_32_get_dispatch(4) [OF 4]
    have "get_checked repl 2 (take_bit 4 (ucast h)) 0x800 q = Inr (u, r)" by simp
    from get_checked_inv [OF this assms(2), where m = "0xe0"] 4 Cons show ?thesis
      by (simp add: utf8_32_put_def tails_simps word_less_nat_alt)
  next
    case 5
    with assms Cons utf8_32_get_dispatch(5) [OF 5]
    have "get_checked repl 3 (take_bit 3 (ucast h)) 0x10000 q = Inr (u, r)" by simp
    from get_checked_inv [OF this assms(2), where m = "0xf0"] 5 Cons show ?thesis
      by (simp add: utf8_32_put_def tails_simps word_less_nat_alt)
  next
    case 6
    with assms Cons utf8_32_get_dispatch(6) [OF 6]
    have "get_checked repl 4 (take_bit 2 (ucast h)) 0x200000 q = Inr (u, r)" by simp
    from get_checked_inv [OF this assms(2), where m = "0xf8"] 6 Cons show ?thesis
      by (simp add: utf8_32_put_def tails_simps word_less_nat_alt)
  next
    case 7
    with assms Cons utf8_32_get_dispatch(7) [OF 7]
    have "get_checked repl 5 (take_bit 1 (ucast h)) 0x4000000 q = Inr (u, r)" by simp
    from get_checked_inv [OF this assms(2), where m = "0xfc"] 7 Cons show ?thesis
      by (simp add: utf8_32_put_def tails_simps word_less_nat_alt)
  qed (use assms Cons in \<open>auto simp: utf8_32_get_dispatch\<close>)
qed

subsection \<open>The 16-bit variants\<close>

lemma utf8_put_32: "u < 0x10000 \<Longrightarrow> utf8_put u = utf8_32_put u"
  by (auto simp: utf8_put_def utf8_32_put_def put_tail_def)

lemma utf8_get_32:
  assumes "unat h < 0xf0"
  shows "utf8_get_repl repl (h # q) = utf8_32_get_repl repl (h # q)"
proof -
  have "ucast h < (0xf0 :: uint)" using assms by (simp add: word_less_nat_alt unat_ucast_byte_uint)
  then show ?thesis by (simp add: utf8_get_repl_def utf8_32_get_repl_def Let_def)
qed

lemma utf8_32_put_hd:
  assumes "utf8_32_put u = Inr bs" "u < 0x10000"
  shows "unat (hd bs) < 0xf0"
  using assms(1)
proof (cases rule: utf8_32_put_cases)
  case 1
  then show ?thesis by (simp add: unat_ucast_byte word_less_nat_alt)
next
  case 2
  then have "u < 2 ^ (6 * 1 + 5)" by simp
  from head_byte(2) [OF this, of "0xc0"] 2 show ?thesis by simp
next
  case 3
  then have "u < 2 ^ (6 * 2 + 4)" by simp
  from head_byte(2) [OF this, of "0xe0"] 3 show ?thesis by simp
qed (use assms(2) in \<open>auto simp: word_less_nat_alt word_le_nat_alt\<close>)

lemma utf8_put_get:
  assumes "utf8_put u = Inr bs"
  shows "utf8_get_repl repl (bs @ r) = Inr (u, r)"
proof -
  have u: "u < 0x10000" using assms
    by (auto simp: utf8_put_def not_less split: if_splits intro: order_less_trans)
  with assms have bs: "utf8_32_put u = Inr bs" by (simp add: utf8_put_32)
  obtain h q where "bs = h # q" using bs by (auto simp: utf8_32_put_def split: if_splits)
  with utf8_32_put_hd [OF bs u] utf8_32_put_get [OF bs, of repl r] show ?thesis
    by (simp add: utf8_get_32)
qed

subsection \<open>Skipping\<close>

lemma and_0x40: "(c AND 0x40 = 0) \<longleftrightarrow> \<not> bit c 6" for c :: uint
  using word_and_eq_0_iff_bit [of 6 c] by auto

lemma put_tail_range: "put_tail u s \<ge> 0x80" "put_tail u s < 0xc0"
proof -
  have "unat (put_tail u s) = 0x80 + unat (ucast (drop_bit s u) AND 0x3f :: byte)"
    unfolding put_tail_alt and_low_mask
    by (subst or.commute, subst unat_or_disjoint [of 6]) auto
  moreover have "unat (ucast (drop_bit s u) AND 0x3f :: byte) < 64"
    unfolding and_low_mask by (simp add: unat_take_bit)
  ultimately show "put_tail u s \<ge> 0x80" "put_tail u s < 0xc0"
    by (simp_all add: word_le_nat_alt word_less_nat_alt)
qed

lemma skip_loop_tails:
  "n \<le> 6 \<Longrightarrow> (\<forall>i<n. bit c (6 - i)) \<Longrightarrow> \<not> bit c (6 - n) \<Longrightarrow> skip_loop c (tails n u @ r) = Inr r"
proof (induction n arbitrary: c)
  case 0
  then show ?case by (cases r) (auto simp: and_0x40)
next
  case (Suc n)
  have "skip_loop (push_bit 1 c) (tails n u @ r) = Inr r"
  proof (rule Suc.IH)
    show "\<forall>i<n. bit (push_bit 1 c) (6 - i)"
    proof (intro allI impI)
      fix i assume "i < n"
      then have "bit c (6 - Suc i)" using Suc.prems(2) by blast
      with \<open>i < n\<close> Suc.prems(1) show "bit (push_bit 1 c) (6 - i)"
        unfolding bit_push_bit_iff by simp linarith
    qed
    show "\<not> bit (push_bit 1 c) (6 - n)" using Suc.prems(3) unfolding bit_push_bit_iff by auto
  qed (use Suc.prems in simp)
  moreover have "bit c 6" using Suc.prems(2) by force
  ultimately show ?case using put_tail_range by (simp add: and_0x40)
qed

lemma skip_head:
  fixes u m :: uint
  assumes "u < 2 ^ (6 * n + j)"
  shows "bit (ucast (ucast (m OR drop_bit (6 * n) u) :: byte) :: uint) i =
    (i < 8 \<and> (bit m i \<or> bit u (6 * n + i)))" "\<not> bit u (6 * n + j)"
  using bit_less_exp [OF assms, of "6 * n + j"] by (auto simp: bit_simps)

lemma UTF8_SKIP_multi: "0xc0 \<le> unat h \<Longrightarrow> UTF8_SKIP (h # q) = skip_loop (ucast h) q"
  by (simp add: UTF8_SKIP_def Let_def word_le_nat_alt unat_ucast_byte_uint)

lemma UTF8_SKIP_put:
  assumes "utf8_32_put u = Inr bs"
  shows "UTF8_SKIP (bs @ r) = Inr r"
  using assms
proof (cases rule: utf8_32_put_cases)
  case 1
  then have "unat (ucast u :: byte) < 0x80" by (simp add: word_less_nat_alt unat_ucast_byte)
  with 1 show ?thesis
    by (auto simp: UTF8_SKIP_def Let_def word_le_nat_alt unat_ucast_byte_uint)
next
  case 2
  then have u: "u < 2 ^ (6 * 1 + 5)" by simp
  have "skip_loop (ucast (ucast (0xc0 OR drop_bit (6 * 1) u) :: byte)) (tails 1 u @ r) = Inr r"
    by (rule skip_loop_tails)
      (simp_all only: all_less_simps less_one skip_head(1) [OF u], use skip_head(2) [OF u] in simp_all)
  then show ?thesis
    unfolding 2(3) append_Cons using head_byte(1) [OF u, of "0xc0"]
    by (subst UTF8_SKIP_multi) simp_all
next
  case 3
  then have u: "u < 2 ^ (6 * 2 + 4)" by simp
  have "skip_loop (ucast (ucast (0xe0 OR drop_bit (6 * 2) u) :: byte)) (tails 2 u @ r) = Inr r"
    by (rule skip_loop_tails)
      (simp_all only: all_less_simps less_one skip_head(1) [OF u], use skip_head(2) [OF u] in simp_all)
  then show ?thesis
    unfolding 3(3) append_Cons using head_byte(1) [OF u, of "0xe0"]
    by (subst UTF8_SKIP_multi) simp_all
next
  case 4
  then have u: "u < 2 ^ (6 * 3 + 3)" by simp
  have "skip_loop (ucast (ucast (0xf0 OR drop_bit (6 * 3) u) :: byte)) (tails 3 u @ r) = Inr r"
    by (rule skip_loop_tails)
      (simp_all only: all_less_simps less_one skip_head(1) [OF u], use skip_head(2) [OF u] in simp_all)
  then show ?thesis
    unfolding 4(3) append_Cons using head_byte(1) [OF u, of "0xf0"]
    by (subst UTF8_SKIP_multi) simp_all
next
  case 5
  then have u: "u < 2 ^ (6 * 4 + 2)" by simp
  have "skip_loop (ucast (ucast (0xf8 OR drop_bit (6 * 4) u) :: byte)) (tails 4 u @ r) = Inr r"
    by (rule skip_loop_tails)
      (simp_all only: all_less_simps less_one skip_head(1) [OF u], use skip_head(2) [OF u] in simp_all)
  then show ?thesis
    unfolding 5(3) append_Cons using head_byte(1) [OF u, of "0xf8"]
    by (subst UTF8_SKIP_multi) simp_all
next
  case 6
  then have u: "u < 2 ^ (6 * 5 + 1)" by simp
  have "skip_loop (ucast (ucast (0xfc OR drop_bit (6 * 5) u) :: byte)) (tails 5 u @ r) = Inr r"
    by (rule skip_loop_tails)
      (simp_all only: all_less_simps less_one skip_head(1) [OF u], use skip_head(2) [OF u] in simp_all)
  then show ?thesis
    unfolding 6(3) append_Cons using head_byte(1) [OF u, of "0xfc"]
    by (subst UTF8_SKIP_multi) simp_all
qed

lemma UTF8_SKIP_BWD_tails: "UTF8_SKIP_BWD (rev (tails n u) @ before) p = UTF8_SKIP_BWD before (tails n u @ p)"
proof (induction n arbitrary: before)
  case (Suc n)
  then show ?case by (simp add: put_tail_bits)
qed simp

lemma utf8_32_put_hd_bits:
  assumes "utf8_32_put u = Inr bs"
  shows "\<not> (bit (hd bs) 7 \<and> \<not> bit (hd bs) 6)"
  using assms
proof (cases rule: utf8_32_put_cases)
  case 1
  then show ?thesis using bit_less_exp [of u 7 7] by (auto simp: bit_simps)
qed (auto simp: bit_simps)

lemma UTF8_SKIP_BWD_put:
  assumes "utf8_32_put u = Inr bs"
  shows "UTF8_SKIP_BWD (rev bs @ before) p = Inr (before, bs @ p)"
proof -
  obtain h n where "bs = h # tails n u"
    using assms by (cases rule: utf8_32_put_cases) (metis tails.simps(1), blast+)
  with utf8_32_put_hd_bits [OF assms] show ?thesis
    by (auto simp: UTF8_SKIP_BWD_tails and_c0)
qed

lemma utf8_32_put_space:
  assumes "utf8_32_put u = Inr bs"
  shows "length bs = unat (utf8_space u)"
  using assms
  by (auto simp: utf8_32_put_def utf8_space_def split: if_splits)

declare utf8_strlen_loop.simps [simp del] utf8_strnlen_loop.simps [simp del]

lemma utf8_32_put_hd_nz:
  assumes "utf8_32_put u = Inr bs"
  shows "bs \<noteq> [] \<and> (u \<noteq> 0 \<longrightarrow> hd bs \<noteq> 0)"
  using assms
proof (cases rule: utf8_32_put_cases)
  case 1
  then have "ucast (ucast u :: byte) = u" by (intro ucast_byte_uint) (auto intro: order_less_trans)
  then show ?thesis using 1 by (metis list.sel(1) list.distinct(1) unsigned_0)
qed (simp_all add: byte_eq_0_bits bit_simps)

lemma utf8_strlen_loop_put:
  "enc_all utf8_32_put us = Inr bs \<Longrightarrow> 0 \<notin> set us \<Longrightarrow>
     utf8_strlen_loop len (bs @ 0 # r) = Inr (len + length us)"
proof (induction us arbitrary: bs len)
  case Nil
  then show ?case by (simp add: utf8_strlen_loop.simps)
next
  case (Cons u us)
  obtain cs ds where bs: "utf8_32_put u = Inr cs" "enc_all utf8_32_put us = Inr ds" "bs = cs @ ds"
    using Cons.prems(1) by (auto split: sum.splits)
  obtain h q where h: "cs = h # q" "h \<noteq> 0"
    using utf8_32_put_hd_nz [OF bs(1)] Cons.prems(2) by (cases cs) auto
  have "UTF8_SKIP (cs @ ds @ 0 # r) = Inr (ds @ 0 # r)" by (rule UTF8_SKIP_put [OF bs(1)])
  then show ?case using Cons.IH [OF bs(2), of "len + 1"] Cons.prems(2) h bs(3)
    by (subst utf8_strlen_loop.simps) simp
qed

abbreviation utf16_char :: "uint \<Rightarrow> bool" where
  "utf16_char u \<equiv> u < 0x110000 \<and> \<not> (0xd800 \<le> u \<and> u < 0xe000)"

lemma utf16_cases:
  assumes "utf16_char u"
  obtains "u < 0x10000" "\<not> u - 0xd800 < 0x800" "u < 0xd800 \<or> (u < 0x10000 \<and> u \<ge> 0xe000)"
  | x y where "\<not> (u < 0xd800 \<or> (u < 0x10000 \<and> u \<ge> 0xe000))" "u - 0x10000 < 0x100000"
    "0xd800 OR drop_bit 10 (u - 0x10000) = 0xd800 + x"
    "0xdc00 OR (u - 0x10000 AND 0x3ff) = 0xdc00 + y" "x < 0x400" "y < 0x400"
    "0x10000 + push_bit 10 x + y = u"
proof (cases "u < 0x10000")
  case True
  then have "\<not> u - 0xd800 < 0x800" "u < 0xd800 \<or> (u < 0x10000 \<and> u \<ge> 0xe000)"
    using assms by (auto simp: word_less_nat_alt word_le_nat_alt unat_sub_if')
  with True that(1) show ?thesis by blast
next
  case False
  define v where "v = u - 0x10000"
  have v: "v < 2 ^ 20" using assms False by (simp add: v_def word_less_nat_alt unat_sub_if')
  have x: "drop_bit 10 v < 2 ^ 10" using v by (intro drop_bit_less) simp_all
  have y: "take_bit 10 v < 2 ^ 10" by (rule less_exp_unat) (simp_all add: unat_take_bit)
  have m: "v AND 0x3ff = take_bit 10 v" by (simp add: take_bit_eq_mask mask_eq_exp_minus_1)
  have "push_bit 10 (drop_bit 10 v) OR take_bit 10 v = v"
    by (rule bit_word_eqI) (auto simp: bit_simps)
  moreover have "push_bit 10 (drop_bit 10 v) OR take_bit 10 v = push_bit 10 (drop_bit 10 v) + take_bit 10 v"
    using y by (intro or_eq_add [of 10]) (auto simp: take_bit_push_bit)
  ultimately have "0x10000 + push_bit 10 (drop_bit 10 v) + take_bit 10 v = u"
    by (simp add: v_def add.assoc)
  moreover have "0xd800 OR drop_bit 10 v = 0xd800 + drop_bit 10 v"
    using x by (intro or_eq_add [of 10]) simp_all
  moreover have "0xdc00 OR (v AND 0x3ff) = 0xdc00 + take_bit 10 v"
    unfolding m using y by (intro or_eq_add [of 10]) simp_all
  moreover have "\<not> (u < 0xd800 \<or> (u < 0x10000 \<and> u \<ge> 0xe000))"
    using False by (auto simp: word_less_nat_alt word_le_nat_alt)
  moreover have "v < 0x100000" "drop_bit 10 v < 0x400" "take_bit 10 v < 0x400"
    using v x y by simp_all
  ultimately show ?thesis
    using that(2) [of "drop_bit 10 v" "take_bit 10 v"] unfolding v_def [symmetric] by blast
qed

lemma surrogates:
  fixes x y :: uint
  assumes "x < 0x400" "y < 0x400"
  shows "0xd800 + x < 0x10000" "0xdc00 + y < 0x10000" "x < 0x800"
  using assms by (auto simp: word_less_nat_alt unat_word_ariths)

lemma utf16_le_put_get:
  assumes "utf16_char u"
  shows "\<exists>bs. utf16_le_put u = Inr bs \<and> bs \<noteq> [] \<and> utf16_le_get_repl repl (bs @ r) = Inr (u, r)"
  using assms
proof (cases rule: utf16_cases)
  case 1
  then show ?thesis
    by (auto simp: utf16_le_put_def utf16_le_get_repl_def Let_def get_u16_put)
      (auto simp: put_u16_le_def)
next
  case (2 x y)
  have d: "drop 4 (put_u16_le a @ put_u16_le b @ r) = r" "put_u16_le a \<noteq> []" for a b
    by (simp_all add: put_u16_le_def)
  have "utf16_le_put u = Inr (put_u16_le (0xd800 + x) @ put_u16_le (0xdc00 + y))"
    unfolding utf16_le_put_def Let_def using 2(1-4) by presburger
  moreover have "utf16_le_get_repl repl (put_u16_le (0xd800 + x) @ put_u16_le (0xdc00 + y) @ r) = Inr (u, r)"
    using surrogates [OF 2(5,6)] 2(5-7) by (simp add: utf16_le_get_repl_def Let_def d get_u16_put drop_put_u16 del: drop_append)
  ultimately show ?thesis using d by simp
qed

lemma utf16_be_put_get:
  assumes "utf16_char u"
  shows "\<exists>bs. utf16_be_put u = Inr bs \<and> bs \<noteq> [] \<and> utf16_be_get_repl repl (bs @ r) = Inr (u, r)"
  using assms
proof (cases rule: utf16_cases)
  case 1
  then show ?thesis
    by (auto simp: utf16_be_put_def utf16_be_get_repl_def Let_def get_u16_put)
      (auto simp: put_u16_be_def)
next
  case (2 x y)
  have d: "drop 4 (put_u16_be a @ put_u16_be b @ r) = r" "put_u16_be a \<noteq> []" for a b
    by (simp_all add: put_u16_be_def)
  have "utf16_be_put u = Inr (put_u16_be (0xd800 + x) @ put_u16_be (0xdc00 + y))"
    unfolding utf16_be_put_def Let_def using 2(1-4) by presburger
  moreover have "utf16_be_get_repl repl (put_u16_be (0xd800 + x) @ put_u16_be (0xdc00 + y) @ r) = Inr (u, r)"
    using surrogates [OF 2(5,6)] 2(5-7) by (simp add: utf16_be_get_repl_def Let_def d get_u16_put drop_put_u16 del: drop_append)
  ultimately show ?thesis using d by simp
qed

lemma utf16_put_error: "\<not> utf16_char u \<Longrightarrow> utf16_le_put u = Inl Assert_failed \<and> utf16_be_put u = Inl Assert_failed"
  by (auto simp: utf16_le_put_def utf16_be_put_def Let_def word_less_nat_alt word_le_nat_alt unat_sub_if' split: if_splits)

lemma utf8_32_put_total: "u < 0x80000000 \<Longrightarrow> \<exists>bs. utf8_32_put u = Inr bs \<and> bs \<noteq> []"
  by (auto simp: utf8_32_put_def)
lemma utf8_32_put_error: "\<not> u < 0x80000000 \<Longrightarrow> utf8_32_put u = Inl Assert_failed"
  by (auto simp: utf8_32_put_def word_less_nat_alt)

lemma utf8_32_put_len:
  assumes "utf8_32_put u = Inr bs"
  shows "utf8_encoding_len (ucast (hd bs)) = Inr (utf8_space u)"
  using assms
proof (cases rule: utf8_32_put_cases)
  case 1
  then show ?thesis using ucast_byte_uint [of u] by (simp add: utf8_encoding_len_def utf8_space_def) (auto simp: word_less_nat_alt)
next
  case 2
  then have u: "u < 2 ^ (6 * 1 + 5)" by simp
  show ?thesis using 2 head_byte [OF u, of "0xc0"]
    by (simp add: utf8_encoding_len_def utf8_space_def word_less_nat_alt word_le_nat_alt unat_ucast_byte_uint)
next
  case 3
  then have u: "u < 2 ^ (6 * 2 + 4)" by simp
  show ?thesis using 3 head_byte [OF u, of "0xe0"]
    by (simp add: utf8_encoding_len_def utf8_space_def word_less_nat_alt word_le_nat_alt unat_ucast_byte_uint)
next
  case 4
  then have u: "u < 2 ^ (6 * 3 + 3)" by simp
  show ?thesis using 4 head_byte [OF u, of "0xf0"]
    by (simp add: utf8_encoding_len_def utf8_space_def word_less_nat_alt word_le_nat_alt unat_ucast_byte_uint)
next
  case 5
  then have u: "u < 2 ^ (6 * 4 + 2)" by simp
  show ?thesis using 5 head_byte [OF u, of "0xf8"]
    by (simp add: utf8_encoding_len_def utf8_space_def word_less_nat_alt word_le_nat_alt unat_ucast_byte_uint)
next
  case 6
  then have u: "u < 2 ^ (6 * 5 + 1)" by simp
  show ?thesis using 6 head_byte [OF u, of "0xfc"]
    by (simp add: utf8_encoding_len_def utf8_space_def word_less_nat_alt word_le_nat_alt unat_ucast_byte_uint)
qed

interpretation utf8_32: codec utf8_32_put "utf8_32_get_repl repl" "\<lambda>u. u < 0x80000000" for repl
  by unfold_locales (auto simp: utf8_32_put_total utf8_32_put_get)

interpretation utf8: codec utf8_put "utf8_get_repl repl" "\<lambda>u. u < 0x10000" for repl
proof
  fix u bs r assume "u < (0x10000 :: uint)"
  then show "\<exists>bs. utf8_put u = Inr bs \<and> bs \<noteq> []" by (auto simp: utf8_put_def)
  assume "utf8_put u = Inr bs" then show "utf8_get_repl repl (bs @ r) = Inr (u, r)" by (rule utf8_put_get)
qed

interpretation utf16_le: codec utf16_le_put "utf16_le_get_repl repl" utf16_char for repl
  by unfold_locales (use utf16_le_put_get in fastforce)+

interpretation utf16_be: codec utf16_be_put "utf16_be_get_repl repl" utf16_char for repl
  by unfold_locales (use utf16_be_put_get in fastforce)+

subsection \<open>Counting\<close>

lemma utf8_strnlen_loop_put:
  "enc_all utf8_32_put us = Inr bs \<Longrightarrow>
     utf8_strnlen_loop len (length bs) (bs @ r) = Inr (len + length us)"
proof (induction us arbitrary: bs len)
  case Nil
  then show ?case by (simp add: utf8_strnlen_loop.simps)
next
  case (Cons u us)
  obtain cs ds where bs: "utf8_32_put u = Inr cs" "enc_all utf8_32_put us = Inr ds" "bs = cs @ ds"
    using Cons.prems(1) by (auto split: sum.splits)
  have "UTF8_SKIP (cs @ ds @ r) = Inr (ds @ r)" by (rule UTF8_SKIP_put [OF bs(1)])
  then show ?case using Cons.IH [OF bs(2), of "len + 1"] utf8_32_put_hd_nz [OF bs(1)] bs(3)
    by (subst utf8_strnlen_loop.simps) simp
qed

lemma enc_all_utf8_32_total: "\<forall>u\<in>set us. u < 0x80000000 \<Longrightarrow> \<exists>bs. enc_all utf8_32_put us = Inr bs"
  using utf8_32.dec_all_enc_all [of us "length us"] by blast

section \<open>Properties\<close>

text \<open>C18: UTF-8. Every number below \<open>2\<^sup>3\<^sup>1\<close> has an encoding by \<open>utf8_32_put\<close>, which
  \<open>utf8_32_get_repl\<close> decodes whatever follows it, which \<open>UTF8_SKIP\<close> skips exactly and over which
  \<open>UTF8_SKIP_BWD\<close> steps back; larger numbers fail the assertion. On the range below \<open>0x10000\<close> the
  16-bit routines agree with the 32-bit ones. Sequences of characters are read back.\<close>

theorem utf8_roundtrip:
  "(if u < 0x80000000
    then \<exists>bs. utf8_32_put u = Inr bs \<and> utf8_32_get_repl repl (bs @ r) = Inr (u, r) \<and>
      UTF8_SKIP (bs @ r) = Inr r \<and> UTF8_SKIP_BWD (rev bs @ before) r = Inr (before, bs @ r)
    else utf8_32_put u = Inl Assert_failed) \<and>
   (if u < 0x10000
    then utf8_put u = utf8_32_put u \<and>
      (\<exists>bs. utf8_put u = Inr bs \<and> utf8_get_repl repl (bs @ r) = Inr (u, r))
    else utf8_put u = Inl Assert_failed) \<and>
   ((\<forall>u \<in> set us. u < 0x80000000) \<longrightarrow>
     (\<exists>bs. enc_all utf8_32_put us = Inr bs \<and>
      dec_all (utf8_32_get_repl repl) (length us) bs = Inr us))"
proof (intro conjI)
  show "if u < 0x80000000
    then \<exists>bs. utf8_32_put u = Inr bs \<and> utf8_32_get_repl repl (bs @ r) = Inr (u, r) \<and>
      UTF8_SKIP (bs @ r) = Inr r \<and> UTF8_SKIP_BWD (rev bs @ before) r = Inr (before, bs @ r)
    else utf8_32_put u = Inl Assert_failed"
    using utf8_32_put_total [of u] utf8_32_put_get UTF8_SKIP_put UTF8_SKIP_BWD_put
      utf8_32_put_error [of u] by auto
  show "if u < 0x10000
    then utf8_put u = utf8_32_put u \<and>
      (\<exists>bs. utf8_put u = Inr bs \<and> utf8_get_repl repl (bs @ r) = Inr (u, r))
    else utf8_put u = Inl Assert_failed"
    using utf8.enc_ok [of u] utf8_put_get [of u] utf8_put_32 [of u]
    by (auto simp: utf8_put_def word_less_nat_alt)
qed (simp add: utf8_32.dec_all_enc_all)

theorem utf8_roundtrip_witness:
  "utf8_32_put 0x20ac = Inr [0xe2, 0x82, 0xac] \<and>
   utf8_32_get_repl 0 [0xe2, 0x82, 0xac, 7] = Inr (0x20ac, [7])"
proof -
  have p: "utf8_32_put 0x20ac = Inr [0xe2, 0x82, 0xac]"
    by (simp add: utf8_32_put_def put_tail_def)
  show ?thesis using utf8_roundtrip [of "0x20ac" 0 "[7]" "[]" "[]"] p by simp
qed

text \<open>C26: the decoder is strict. Whenever \<open>utf8_32_get_repl\<close> returns something else than the
  replacement character, the bytes it consumed are the encoding \<open>utf8_32_put\<close> produces for that
  character: overlong forms, stray continuation bytes and the headers \<open>0xfe\<close>, \<open>0xff\<close> are never
  accepted.\<close>

theorem utf8_strict:
  assumes "utf8_32_get_repl repl p = Inr (u, r)" "u \<noteq> repl"
  shows "\<exists>bs. utf8_32_put u = Inr bs \<and> p = bs @ r"
  by (rule utf8_32_get_canonical [OF assms])

theorem utf8_strict_witness:
  "\<exists>bs. utf8_32_put 0xe9 = Inr bs \<and> [0xc3, 0xa9, 1] = bs @ [1]"
proof (rule utf8_strict)
  show "utf8_32_get_repl 0 [0xc3, 0xa9, 1] = Inr (0xe9, [1])"
    by (simp add: utf8_32_get_repl_def get_checked_def)
qed simp

text \<open>C27: lengths. The encoding of a character is as long as \<open>utf8_space\<close> says and as
  \<open>utf8_encoding_len\<close> reads from its first byte; \<open>utf8_strlen\<close> of an encoded text followed by a zero
  byte counts its characters.\<close>

theorem utf8_lengths:
  assumes "\<forall>u \<in> set us. u < 0x80000000 \<and> u \<noteq> 0"
  shows "(\<forall>u \<in> set us. \<exists>bs. utf8_32_put u = Inr bs \<and> length bs = unat (utf8_space u) \<and>
      utf8_encoding_len (ucast (hd bs)) = Inr (utf8_space u)) \<and>
    (\<exists>bs. enc_all utf8_32_put us = Inr bs \<and> utf8_strlen (bs @ 0 # r) = Inr (length us))"
proof (intro conjI ballI)
  fix u assume "u \<in> set us"
  with assms utf8_32_put_total [of u] utf8_32_put_space utf8_32_put_len
  show "\<exists>bs. utf8_32_put u = Inr bs \<and> length bs = unat (utf8_space u) \<and>
      utf8_encoding_len (ucast (hd bs)) = Inr (utf8_space u)" by blast
next
  obtain bs where "enc_all utf8_32_put us = Inr bs" using enc_all_utf8_32_total assms by blast
  moreover have "0 \<notin> set us" using assms by blast
  ultimately show "\<exists>bs. enc_all utf8_32_put us = Inr bs \<and> utf8_strlen (bs @ 0 # r) = Inr (length us)"
    by (auto simp: utf8_strlen_def utf8_strlen_loop_put)
qed

theorem utf8_lengths_witness: "utf8_strlen [0x61, 0xc3, 0xa9, 0] = Inr 2"
proof -
  have "enc_all utf8_32_put [0x61, 0xe9] = Inr [0x61, 0xc3, 0xa9]"
    by (simp add: utf8_32_put_def put_tail_def)
  then show ?thesis using utf8_lengths [of "[0x61, 0xe9]" "[]"] by simp
qed

text \<open>The documentation says that \<open>utf8_strnlen\<close> is \<open>utf8_strlen\<close> that returns at most \<open>n\<close> characters; the code
  counts the characters in the first \<open>n\<close> bytes, and does not stop at a zero byte.\<close>

lemma utf8_strnlen_counts_bytes:
  assumes "\<forall>u \<in> set us. u < 0x80000000"
  shows "\<exists>bs. enc_all utf8_32_put us = Inr bs \<and> utf8_strnlen (bs @ r) (length bs) = Inr (length us)"
  using enc_all_utf8_32_total [of us] assms by (auto simp: utf8_strnlen_def utf8_strnlen_loop_put)

lemma utf8_strnlen_differs:
  "utf8_strlen [0xc3, 0xa9, 0x61, 0] = Inr 2" "utf8_strnlen [0xc3, 0xa9, 0x61, 0] 2 = Inr 1"
  "utf8_strlen [0x61, 0, 0x61, 0] = Inr 1" "utf8_strnlen [0x61, 0, 0x61, 0] 3 = Inr 3"
  by code_simp+

text \<open>C28: UTF-16. In both byte orders every Unicode scalar value (below \<open>0x110000\<close>, no
  surrogate) can be stored, and each of them, and every sequence of them, is read back; storing a surrogate, or a number
  above \<open>0x11ffff\<close>, fails the assertion.\<close>

theorem utf16_roundtrip:
  "(u < 0x110000 \<and> \<not> (0xd800 \<le> u \<and> u < 0xe000) \<longrightarrow>
      (\<exists>bs. utf16_le_put u = Inr bs \<and> utf16_le_get_repl repl (bs @ r) = Inr (u, r)) \<and>
      (\<exists>bs. utf16_be_put u = Inr bs \<and> utf16_be_get_repl repl (bs @ r) = Inr (u, r))) \<and>
   (0xd800 \<le> u \<and> u < 0xe000 \<or> 0x11ffff < u \<longrightarrow> utf16_le_put u = Inl Assert_failed \<and> utf16_be_put u = Inl Assert_failed) \<and>
   ((\<forall>u \<in> set us. utf16_char u) \<longrightarrow>
     (\<exists>bs. enc_all utf16_le_put us = Inr bs \<and>
        dec_all (utf16_le_get_repl repl) (length us) bs = Inr us) \<and>
     (\<exists>bs. enc_all utf16_be_put us = Inr bs \<and>
        dec_all (utf16_be_get_repl repl) (length us) bs = Inr us))"
proof (intro conjI impI)
  assume "0xd800 \<le> u \<and> u < 0xe000 \<or> 0x11ffff < u"
  then have "\<not> utf16_char u" by (auto simp: word_less_nat_alt)
  then show "utf16_le_put u = Inl Assert_failed" "utf16_be_put u = Inl Assert_failed" using utf16_put_error by blast+
next
  assume "u < 0x110000 \<and> \<not> (0xd800 \<le> u \<and> u < 0xe000)"
  then show "\<exists>bs. utf16_le_put u = Inr bs \<and> utf16_le_get_repl repl (bs @ r) = Inr (u, r)"
    "\<exists>bs. utf16_be_put u = Inr bs \<and> utf16_be_get_repl repl (bs @ r) = Inr (u, r)"
    using utf16_le_put_get [of u repl r] utf16_be_put_get [of u repl r] by blast+
qed (use utf16_le.dec_all_enc_all [of us "length us" repl] utf16_be.dec_all_enc_all [of us "length us" repl] in blast)+

theorem utf16_roundtrip_witness:
  "utf16_le_put 0x1f600 = Inr [0x3d, 0xd8, 0x00, 0xde] \<and>
   utf16_le_get_repl 0 [0x3d, 0xd8, 0x00, 0xde, 7] = Inr (0x1f600, [7])"
proof -
  have p: "utf16_le_put 0x1f600 = Inr [0x3d, 0xd8, 0x00, 0xde]"
    by (simp add: utf16_le_put_def put_u16_le_def)
  show ?thesis using utf16_roundtrip [of "0x1f600" 0 "[7]" "[]"] p by simp
qed

text \<open>The comments of the encoders give the range up to \<open>0x11ffff\<close>; the numbers above \<open>0x10ffff\<close> fail the assertion.\<close>

lemma utf16_put_above_range:
  assumes "0x110000 \<le> u" "u \<le> 0x11ffff"
  shows "utf16_le_put u = Inl Assert_failed \<and> utf16_be_put u = Inl Assert_failed"
  by (rule utf16_put_error) (use assms in \<open>auto simp: word_le_nat_alt word_less_nat_alt\<close>)

end
