(* ===== verification/Fastbuf.thy ===== *)
theory Fastbuf
  imports Unaligned
begin

text \<open>
  \<open>ucw/fastbuf.h\<close> and \<open>ucw/fastbuf.c\<close>: the front-end of buffered streams. A \<open>struct fastbuf\<close> is a
  record whose pointers are offsets into the memory object \<open>mem\<close> the buffer lies in; the callbacks of
  a back-end are a record of functions passed to the front-end operations, and what a back-end keeps
  behind the structure is the field \<open>priv\<close>. The two locales at the end state what the front-end needs
  from a back-end that is read from and from one that is written to; the theories of the back-ends
  interpret them.

  Sizes are unsigned 32-bit in C: the difference of two pointers assigned to a \<open>uint\<close> wraps around.
  File positions (\<open>ucw_off_t\<close>, 64-bit signed) are unbounded here.
\<close>

section \<open>Data\<close>

record 'b fastbuf =
  bptr :: nat
  bstop :: nat
  mem :: "byte list"
  buffer :: nat
  bufend :: nat
  pos :: int
  dead :: bool
  die_on_eof :: bool
  tied :: bool
  priv :: 'b

datatype seek_whence = SEEK_SET | SEEK_CUR | SEEK_END

record 'b fb_ops =
  refill :: "('b fastbuf \<Rightarrow> (bool \<times> 'b fastbuf) res) option"
  spout :: "('b fastbuf \<Rightarrow> 'b fastbuf res) option"
  seek :: "('b fastbuf \<Rightarrow> int \<Rightarrow> seek_whence \<Rightarrow> (bool \<times> 'b fastbuf) res) option"
  close :: "('b fastbuf \<Rightarrow> 'b res) option"
  config :: "('b fastbuf \<Rightarrow> nat \<Rightarrow> int \<Rightarrow> (int \<times> 'b fastbuf) res) option"

text \<open>The difference of two pointers into the buffer as a \<open>uint\<close>.\<close>

definition uint_diff :: "nat \<Rightarrow> nat \<Rightarrow> nat" where
  "uint_diff a b = nat ((int a - int b) mod 2 ^ 32)"

definition btell :: "'b fastbuf \<Rightarrow> int" where
  "btell f = pos f + (int (bptr f) - int (bstop f))"

definition bavailr :: "'b fastbuf \<Rightarrow> nat" where
  "bavailr f = uint_diff (bstop f) (bptr f)"

definition bavailw :: "'b fastbuf \<Rightarrow> nat" where
  "bavailw f = uint_diff (bufend f) (bptr f)"

text \<open>The memory accesses at \<open>bptr\<close>: reading a byte, storing a byte and moving on, and the two
  directions of \<open>memcpy\<close> followed by \<open>bptr += k\<close>.\<close>

definition deref :: "'b fastbuf \<Rightarrow> byte res" where
  "deref f = (if bptr f < length (mem f) then Inr (mem f ! bptr f) else Inl Out_of_bounds)"

definition store :: "byte \<Rightarrow> 'b fastbuf \<Rightarrow> 'b fastbuf res" where
  "store c f = (if bptr f < length (mem f)
     then Inr (f\<lparr>mem := (mem f)[bptr f := c], bptr := bptr f + 1\<rparr>) else Inl Out_of_bounds)"

definition copy_out :: "nat \<Rightarrow> 'b fastbuf \<Rightarrow> (byte list \<times> 'b fastbuf) res" where
  "copy_out k f = (if bptr f + k \<le> length (mem f)
     then Inr (take k (drop (bptr f) (mem f)), f\<lparr>bptr := bptr f + k\<rparr>) else Inl Out_of_bounds)"

definition copy_in :: "byte list \<Rightarrow> 'b fastbuf \<Rightarrow> 'b fastbuf res" where
  "copy_in bs f = (if bptr f + length bs \<le> length (mem f)
     then Inr (f\<lparr>mem := take (bptr f) (mem f) @ bs @ drop (bptr f + length bs) (mem f),
       bptr := bptr f + length bs\<rparr>) else Inl Out_of_bounds)"

section \<open>Refilling, spouting, seeking\<close>

text \<open>An error on a stream that is tied to a resource throws an exception, on any other one the program dies. The handler
  of the exception finds the stream dead, with the pointers at the end of the buffer.\<close>

definition fb_fault :: "'b fastbuf \<Rightarrow> string \<Rightarrow> fault" where
  "fb_fault f i = (if tied f then Throw i else Die)"

definition bthrow :: "'b fastbuf \<Rightarrow> string \<Rightarrow> 'a res" where
  "bthrow f i = ensure (\<not> dead f) (Inl (fb_fault f i))"

definition after_throw :: "'b fastbuf \<Rightarrow> 'b fastbuf" where
  "after_throw f = f\<lparr>dead := True, bptr := bufend f, bstop := bufend f\<rparr>"

definition fb_tie :: "'b fastbuf \<Rightarrow> 'b fastbuf" where
  "fb_tie f = f\<lparr>tied := True\<rparr>"

definition brefill :: "'b fb_ops \<Rightarrow> bool \<Rightarrow> 'b fastbuf \<Rightarrow> (bool \<times> 'b fastbuf) res" where
  "brefill ops allow_eof f =
    ensure (\<not> dead f \<and> buffer f \<le> bstop f \<and> bstop f \<le> bptr f \<and> bptr f \<le> bufend f)
     (case refill ops of
        None \<Rightarrow> bthrow f ''read''
      | Some r \<Rightarrow> res_bind (r f) (\<lambda>(ok, f).
          if ok then ensure (buffer f \<le> bptr f \<and> bptr f < bstop f \<and> bstop f \<le> bufend f) (Inr (True, f))
          else ensure (buffer f \<le> bptr f \<and> bptr f = bstop f \<and> bstop f \<le> bufend f)
            (if \<not> allow_eof \<and> die_on_eof f then bthrow f ''eof'' else Inr (False, f))))"

definition do_spout :: "'b fb_ops \<Rightarrow> 'b fastbuf \<Rightarrow> 'b fastbuf res" where
  "do_spout ops f =
    ensure (\<not> dead f \<and> buffer f \<le> bstop f \<and> bstop f \<le> bptr f \<and> bptr f \<le> bufend f)
     (case spout ops of
        None \<Rightarrow> bthrow f ''write''
      | Some s \<Rightarrow> res_bind (s f) (\<lambda>f.
          ensure (buffer f \<le> bstop f \<and> bstop f \<le> bptr f \<and> bptr f \<le> bufend f) (Inr f)))"

definition bspout :: "'b fb_ops \<Rightarrow> 'b fastbuf \<Rightarrow> 'b fastbuf res" where
  "bspout ops f = res_bind (do_spout ops f) (\<lambda>f.
     if bstop f = bufend f
     then res_bind (do_spout ops f) (\<lambda>f. ensure (bstop f < bufend f) (Inr f))
     else Inr f)"

definition bflush :: "'b fb_ops \<Rightarrow> 'b fastbuf \<Rightarrow> 'b fastbuf res" where
  "bflush ops f = (if bptr f > bstop f then do_spout ops f else Inr (f\<lparr>bptr := bstop f\<rparr>))"

definition bclose :: "'b fb_ops \<Rightarrow> 'b fastbuf \<Rightarrow> 'b res" where
  "bclose ops f = res_bind (bflush ops f) (\<lambda>f.
     case close ops of None \<Rightarrow> Inr (priv f) | Some c \<Rightarrow> c f)"

definition do_seek :: "'b fb_ops \<Rightarrow> int \<Rightarrow> seek_whence \<Rightarrow> 'b fastbuf \<Rightarrow> 'b fastbuf res" where
  "do_seek ops p whence f = res_bind (bflush ops f) (\<lambda>f.
     case seek ops of
       None \<Rightarrow> bthrow f ''seek''
     | Some s \<Rightarrow> res_bind (s f p whence) (\<lambda>(ok, f).
         if \<not> ok then bthrow f ''seek''
         else ensure (buffer f \<le> bstop f \<and> bstop f \<le> bptr f \<and> bptr f \<le> bufend f)
           (if whence = SEEK_SET then ensure (p = btell f) (Inr f)
            else ensure (btell f \<ge> 0) (Inr f))))"

definition bsetpos :: "'b fb_ops \<Rightarrow> int \<Rightarrow> 'b fastbuf \<Rightarrow> 'b fastbuf res" where
  "bsetpos ops p f =
    (if bptr f < bstop f \<and> p \<le> pos f \<and> p \<ge> pos f - (int (bstop f) - int (buffer f))
     then Inr (f\<lparr>bptr := nat (int (bstop f) + (p - pos f))\<rparr>)
     else if p \<noteq> btell f then (if p < 0 then bthrow f ''seek'' else do_seek ops p SEEK_SET f)
     else Inr f)"

definition bseek :: "'b fb_ops \<Rightarrow> int \<Rightarrow> seek_whence \<Rightarrow> 'b fastbuf \<Rightarrow> 'b fastbuf res" where
  "bseek ops p whence f = (case whence of
     SEEK_SET \<Rightarrow> bsetpos ops p f
   | SEEK_CUR \<Rightarrow> bsetpos ops (btell f + p) f
   | SEEK_END \<Rightarrow> if p > 0 then bthrow f ''seek'' else do_seek ops p SEEK_END f)"

definition brewind :: "'b fb_ops \<Rightarrow> 'b fastbuf \<Rightarrow> 'b fastbuf res" where
  "brewind ops f = res_bind (bflush ops f) (bsetpos ops 0)"

definition bfilesize :: "'b fb_ops \<Rightarrow> 'b fastbuf \<Rightarrow> (int \<times> 'b fastbuf) res" where
  "bfilesize ops f = (case seek ops of
     None \<Rightarrow> Inr (- 1, f)
   | Some s \<Rightarrow> let p = btell f in
       res_bind (bflush ops f) (\<lambda>f. res_bind (s f 0 SEEK_END) (\<lambda>(ok, f).
         if \<not> ok then Inr (- 1, f)
         else let len = btell f in res_bind (bsetpos ops p f) (\<lambda>f. Inr (len, f)))))"

definition bconfig :: "'b fb_ops \<Rightarrow> nat \<Rightarrow> int \<Rightarrow> 'b fastbuf \<Rightarrow> (int \<times> 'b fastbuf) res" where
  "bconfig ops item val f = (case config ops of
     Some c \<Rightarrow> if \<not> dead f then c f item val else Inr (- 1, f)
   | None \<Rightarrow> Inr (- 1, f))"

section \<open>Reading and writing characters\<close>

text \<open>Characters are returned as an \<open>int\<close>, with \<open>- 1\<close> for the end of file.\<close>

definition get_byte :: "'b fastbuf \<Rightarrow> (int \<times> 'b fastbuf) res" where
  "get_byte f = res_bind (deref f) (\<lambda>c. Inr (uint c, f\<lparr>bptr := bptr f + 1\<rparr>))"

definition bgetc_slow :: "'b fb_ops \<Rightarrow> 'b fastbuf \<Rightarrow> (int \<times> 'b fastbuf) res" where
  "bgetc_slow ops f =
    (if bptr f < bstop f then get_byte f
     else res_bind (brefill ops False f) (\<lambda>(ok, f). if \<not> ok then Inr (- 1, f) else get_byte f))"

definition bgetc :: "'b fb_ops \<Rightarrow> 'b fastbuf \<Rightarrow> (int \<times> 'b fastbuf) res" where
  "bgetc ops f = (if bptr f < bstop f then get_byte f else bgetc_slow ops f)"

definition bpeekc_slow :: "'b fb_ops \<Rightarrow> 'b fastbuf \<Rightarrow> (int \<times> 'b fastbuf) res" where
  "bpeekc_slow ops f =
    (if bptr f < bstop f then res_bind (deref f) (\<lambda>c. Inr (uint c, f))
     else res_bind (brefill ops False f) (\<lambda>(ok, f).
       if \<not> ok then Inr (- 1, f) else res_bind (deref f) (\<lambda>c. Inr (uint c, f))))"

definition bpeekc :: "'b fb_ops \<Rightarrow> 'b fastbuf \<Rightarrow> (int \<times> 'b fastbuf) res" where
  "bpeekc ops f =
    (if bptr f < bstop f then res_bind (deref f) (\<lambda>c. Inr (uint c, f)) else bpeekc_slow ops f)"

definition beof_slow :: "'b fb_ops \<Rightarrow> 'b fastbuf \<Rightarrow> (bool \<times> 'b fastbuf) res" where
  "beof_slow ops f =
    (if bptr f \<ge> bstop f then res_bind (brefill ops True f) (\<lambda>(ok, f). Inr (\<not> ok, f))
     else Inr (False, f))"

definition beof :: "'b fb_ops \<Rightarrow> 'b fastbuf \<Rightarrow> (bool \<times> 'b fastbuf) res" where
  "beof ops f = (if bptr f < bstop f then Inr (False, f) else beof_slow ops f)"

definition bungetc :: "'b fastbuf \<Rightarrow> 'b fastbuf res" where
  "bungetc f = (if bptr f = 0 then Inl Out_of_bounds else Inr (f\<lparr>bptr := bptr f - 1\<rparr>))"

definition bputc_slow :: "'b fb_ops \<Rightarrow> byte \<Rightarrow> 'b fastbuf \<Rightarrow> 'b fastbuf res" where
  "bputc_slow ops c f =
    res_bind (if bptr f \<ge> bufend f then bspout ops f else Inr f) (store c)"

definition bputc :: "'b fb_ops \<Rightarrow> byte \<Rightarrow> 'b fastbuf \<Rightarrow> 'b fastbuf res" where
  "bputc ops c f = (if bptr f < bufend f then store c f else bputc_slow ops c f)"

section \<open>Reading and writing blocks\<close>

text \<open>The loop of \<open>bread_slow\<close> with the bytes copied so far; it returns how many bytes are missing.\<close>

function bread_loop ::
    "'b fb_ops \<Rightarrow> bool \<Rightarrow> nat \<Rightarrow> byte list \<Rightarrow> 'b fastbuf \<Rightarrow> (nat \<times> byte list \<times> 'b fastbuf) res" where
  "bread_loop ops check l b f =
    (if l = 0 then Inr (0, b, f)
     else res_bind
       (if bavailr f = 0 then res_bind (brefill ops check f) (\<lambda>(_, f). Inr f) else Inr f) (\<lambda>f.
         let k = bavailr f in
         if k = 0 then Inr (l, b, f)
         else let k = min k l in
           res_bind (copy_out k f) (\<lambda>(bs, f). bread_loop ops check (l - k) (b @ bs) f)))"
  by pat_completeness auto
termination
  by (relation "measure (\<lambda>(ops, check, l, b, f). l)") auto

definition bread_slow :: "'b fb_ops \<Rightarrow> nat \<Rightarrow> bool \<Rightarrow> 'b fastbuf \<Rightarrow> (byte list \<times> 'b fastbuf) res" where
  "bread_slow ops l check f = res_bind (bread_loop ops check l [] f) (\<lambda>(l, b, f).
     if check \<and> b \<noteq> [] \<and> l \<noteq> 0 then bthrow f ''eof'' else Inr (b, f))"

definition bread :: "'b fb_ops \<Rightarrow> nat \<Rightarrow> 'b fastbuf \<Rightarrow> (byte list \<times> 'b fastbuf) res" where
  "bread ops l f = (if bavailr f \<ge> l then copy_out l f else bread_slow ops l False f)"

definition breadb :: "'b fb_ops \<Rightarrow> nat \<Rightarrow> 'b fastbuf \<Rightarrow> (byte list \<times> 'b fastbuf) res" where
  "breadb ops l f = (if bavailr f \<ge> l then copy_out l f else bread_slow ops l True f)"

text \<open>One round of \<open>bwrite_slow\<close>, with the bytes left; a back-end that never provides room makes the
  loop run forever.\<close>

definition bwrite_round :: "'b fb_ops \<Rightarrow> byte list \<Rightarrow> 'b fastbuf \<Rightarrow> (byte list \<times> 'b fastbuf) res" where
  "bwrite_round ops b f = res_bind (if bavailw f = 0 then bspout ops f else Inr f) (\<lambda>f.
     let k = min (bavailw f) (length b) in
     res_bind (copy_in (take k b) f) (\<lambda>f. Inr (drop k b, f)))"

partial_function (option) bwrite_loop ::
    "'b fb_ops \<Rightarrow> byte list \<Rightarrow> 'b fastbuf \<Rightarrow> 'b fastbuf res option" where
  "bwrite_loop ops b f =
    (if b = [] then Some (Inr f)
     else case bwrite_round ops b f of
       Inl e \<Rightarrow> Some (Inl e)
     | Inr bf \<Rightarrow> bwrite_loop ops (fst bf) (snd bf))"

definition bwrite_slow :: "'b fb_ops \<Rightarrow> byte list \<Rightarrow> 'b fastbuf \<Rightarrow> 'b fastbuf res" where
  "bwrite_slow ops b f = (case bwrite_loop ops b f of None \<Rightarrow> Inl Diverges | Some r \<Rightarrow> r)"

definition bwrite :: "'b fb_ops \<Rightarrow> byte list \<Rightarrow> 'b fastbuf \<Rightarrow> 'b fastbuf res" where
  "bwrite ops b f = (if bavailw f \<ge> length b then copy_in b f else bwrite_slow ops b f)"

text \<open>A C string without its terminating zero is a list of bytes.\<close>

definition bputs :: "'b fb_ops \<Rightarrow> byte list \<Rightarrow> 'b fastbuf \<Rightarrow> 'b fastbuf res" where
  "bputs ops b f = bwrite ops b f"

definition bputs0 :: "'b fb_ops \<Rightarrow> byte list \<Rightarrow> 'b fastbuf \<Rightarrow> 'b fastbuf res" where
  "bputs0 ops b f = bwrite ops (b @ [0]) f"

definition bputsn :: "'b fb_ops \<Rightarrow> byte list \<Rightarrow> 'b fastbuf \<Rightarrow> 'b fastbuf res" where
  "bputsn ops b f = res_bind (bputs ops b f) (bputc ops 10)"

section \<open>Direct access to the buffer\<close>

definition bdirect_read_prepare :: "'b fb_ops \<Rightarrow> 'b fastbuf \<Rightarrow> (nat \<times> 'b fastbuf) res" where
  "bdirect_read_prepare ops f =
    (if bptr f = bstop f
     then (case refill ops of
         None \<Rightarrow> Inl Null_call
       | Some r \<Rightarrow> res_bind (r f) (\<lambda>(ok, f). Inr (if ok then bavailr f else 0, f)))
     else Inr (bavailr f, f))"

definition bdirect_read_commit :: "nat \<Rightarrow> 'b fastbuf \<Rightarrow> 'b fastbuf" where
  "bdirect_read_commit p f = f\<lparr>bptr := p\<rparr>"

definition bdirect_read_commit_modified :: "nat \<Rightarrow> 'b fastbuf \<Rightarrow> 'b fastbuf" where
  "bdirect_read_commit_modified p f = f\<lparr>bptr := p, buffer := p\<rparr>"

definition bdirect_write_prepare :: "'b fb_ops \<Rightarrow> 'b fastbuf \<Rightarrow> (nat \<times> 'b fastbuf) res" where
  "bdirect_write_prepare ops f = res_bind
     (if bptr f = bufend f then (case spout ops of None \<Rightarrow> Inl Null_call | Some s \<Rightarrow> s f) else Inr f)
     (\<lambda>f. Inr (bavailw f, f))"

definition bdirect_write_commit :: "nat \<Rightarrow> 'b fastbuf \<Rightarrow> 'b fastbuf" where
  "bdirect_write_commit p f = f\<lparr>bptr := p\<rparr>"

function bskip_slow :: "'b fb_ops \<Rightarrow> nat \<Rightarrow> 'b fastbuf \<Rightarrow> (bool \<times> 'b fastbuf) res" where
  "bskip_slow ops len f =
    (if len = 0 then Inr (True, f)
     else res_bind (bdirect_read_prepare ops f) (\<lambda>(l, f).
       if l = 0 then Inr (False, f)
       else let l = min l len in
         bskip_slow ops (len - l) (bdirect_read_commit (bptr f + l) f)))"
  by pat_completeness auto
termination
  by (relation "measure (\<lambda>(ops, len, f). len)") auto

definition bskip :: "'b fb_ops \<Rightarrow> nat \<Rightarrow> 'b fastbuf \<Rightarrow> (bool \<times> 'b fastbuf) res" where
  "bskip ops len f =
    (if bavailr f \<ge> len then Inr (True, f\<lparr>bptr := bptr f + len\<rparr>) else bskip_slow ops len f)"

text \<open>One round of \<open>bbcopy_slow\<close>; the flag is cleared when the loop ends at the end of the source.
  The length \<open>~0U\<close> means everything.\<close>

definition bbcopy_round :: "'b fb_ops \<Rightarrow> 'c fb_ops \<Rightarrow> nat \<Rightarrow> 'b fastbuf \<Rightarrow> 'c fastbuf \<Rightarrow>
    (bool \<times> nat \<times> 'b fastbuf \<times> 'c fastbuf) res" where
  "bbcopy_round fo to l f t = res_bind (bdirect_read_prepare fo f) (\<lambda>(favail, f).
     if favail = 0 then (if l = 2 ^ 32 - 1 then Inr (False, l, f, t) else bthrow f ''eof'')
     else res_bind (bdirect_write_prepare to t) (\<lambda>(tavail, t).
       let n = min (min l favail) tavail in
       res_bind (copy_out n f) (\<lambda>(bs, f). res_bind (copy_in bs t) (\<lambda>t.
         Inr (True, if l \<noteq> 2 ^ 32 - 1 then l - n else l, f, t)))))"

partial_function (option) bbcopy_loop :: "'b fb_ops \<Rightarrow> 'c fb_ops \<Rightarrow> nat \<Rightarrow> 'b fastbuf \<Rightarrow> 'c fastbuf \<Rightarrow>
    ('b fastbuf \<times> 'c fastbuf) res option" where
  "bbcopy_loop fo to l f t =
    (if l = 0 then Some (Inr (f, t))
     else case bbcopy_round fo to l f t of
       Inl e \<Rightarrow> Some (Inl e)
     | Inr x \<Rightarrow> if \<not> fst x then Some (Inr (snd (snd x)))
         else bbcopy_loop fo to (fst (snd x)) (fst (snd (snd x))) (snd (snd (snd x))))"

definition bbcopy_slow :: "'b fb_ops \<Rightarrow> 'c fb_ops \<Rightarrow> nat \<Rightarrow> 'b fastbuf \<Rightarrow> 'c fastbuf \<Rightarrow>
    ('b fastbuf \<times> 'c fastbuf) res" where
  "bbcopy_slow fo to l f t = (case bbcopy_loop fo to l f t of None \<Rightarrow> Inl Diverges | Some r \<Rightarrow> r)"

definition bbcopy :: "'b fb_ops \<Rightarrow> 'c fb_ops \<Rightarrow> nat \<Rightarrow> 'b fastbuf \<Rightarrow> 'c fastbuf \<Rightarrow>
    ('b fastbuf \<times> 'c fastbuf) res" where
  "bbcopy fo to l f t =
    (if bavailr f \<ge> l \<and> bavailw t \<ge> l
     then res_bind (copy_out l f) (\<lambda>(bs, f). res_bind (copy_in bs t) (\<lambda>t. Inr (f, t)))
     else bbcopy_slow fo to l f t)"

declare bread_loop.simps [simp del] bskip_slow.simps [simp del]

text \<open>After an exception every further use of the back-end is refused.\<close>

lemma after_throw_refused:
  "brefill ops e (after_throw f) = Inl Assert_failed" "do_spout ops (after_throw f) = Inl Assert_failed" "bthrow (after_throw f) i = Inl Assert_failed"
  "bgetc ops (after_throw f) = Inl Assert_failed" "bputc ops c (after_throw f) = Inl Assert_failed"
  by (simp_all add: after_throw_def brefill_def do_spout_def bthrow_def bgetc_def bgetc_slow_def bputc_def bputc_slow_def bspout_def)

section \<open>The contract of a back-end that is read from\<close>

definition window :: "'b fastbuf \<Rightarrow> byte list" where
  "window f = take (bstop f - bptr f) (drop (bptr f) (mem f))"

lemma linear_window:
  "buffer f \<le> bptr f \<Longrightarrow> bptr f \<le> bstop f \<Longrightarrow> bstop f \<le> e \<Longrightarrow>
     take (bstop f - bptr f) (drop (bptr f - buffer f) (drop (buffer f) (take e (mem f)))) = window f"
  by (simp add: window_def drop_take min_def)

text \<open>A stream to be read is flushed (\<open>bstop \<le> bptr\<close>) or in the reading state (\<open>bptr \<le> bstop\<close>).
  \<open>data f\<close> is everything the stream contains, whatever the position; in the reading state the buffer
  holds the bytes of the file at the position. A refill succeeds exactly when there is something left;
  it keeps the position and leads to the reading state. The operations on characters work from both
  states, those on blocks only from the reading state: in a flushed state with \<open>bstop < bptr\<close> the
  difference \<open>bavailr\<close> computes wraps around.\<close>

locale fb_reader =
  fixes ops :: "'b fb_ops"
    and inv :: "'b fastbuf \<Rightarrow> bool"
    and data :: "'b fastbuf \<Rightarrow> byte list"
  assumes inv_wf: "inv f \<Longrightarrow>
      \<not> dead f \<and> buffer f \<le> bptr f \<and> buffer f \<le> bstop f \<and> bptr f \<le> bufend f \<and>
      bstop f \<le> bufend f \<and> bufend f \<le> length (mem f) \<and> bufend f < 2 ^ 32 \<and> 0 \<le> btell f"
    and window_data: "inv f \<Longrightarrow> bptr f \<le> bstop f \<Longrightarrow>
      take (bstop f - bptr f) (drop (nat (btell f)) (data f)) = window f"
    and inv_move: "inv f \<Longrightarrow> bptr f \<le> bstop f \<Longrightarrow> buffer f \<le> k \<Longrightarrow> k \<le> bstop f \<Longrightarrow>
      inv (f\<lparr>bptr := k\<rparr>) \<and> data (f\<lparr>bptr := k\<rparr>) = data f"
    and refill_ok: "inv f \<Longrightarrow> bstop f \<le> bptr f \<Longrightarrow>
      \<exists>r ok f'. refill ops = Some r \<and> r f = Inr (ok, f') \<and> inv f' \<and> bptr f' \<le> bstop f' \<and>
        data f' = data f \<and> btell f' = btell f \<and> die_on_eof f' = die_on_eof f \<and> tied f' = tied f \<and>
        (ok \<longleftrightarrow> bptr f' < bstop f') \<and> (ok \<longleftrightarrow> btell f < int (length (data f)))"
begin

text \<open>What is left to be read.\<close>

definition content :: "'b fastbuf \<Rightarrow> byte list" where
  "content f = drop (nat (btell f)) (data f)"

text \<open>\<open>reads f bs g\<close>: from \<open>f\<close> the bytes \<open>bs\<close> have been consumed.\<close>

definition reads :: "'b fastbuf \<Rightarrow> byte list \<Rightarrow> 'b fastbuf \<Rightarrow> bool" where
  "reads f bs g \<longleftrightarrow> inv g \<and> bptr g \<le> bstop g \<and> data g = data f \<and> content f = bs @ content g \<and>
     btell g = btell f + int (length bs) \<and> die_on_eof g = die_on_eof f \<and> tied g = tied f"

lemma reads_refl: "inv f \<Longrightarrow> bptr f \<le> bstop f \<Longrightarrow> reads f [] f"
  by (simp add: reads_def)

lemma reads_trans: "reads f a g \<Longrightarrow> reads g b h \<Longrightarrow> reads f (a @ b) h"
  by (simp add: reads_def)

lemma reads_inv: "reads f a g \<Longrightarrow> inv g"
  by (simp add: reads_def)

lemma reads_state: "reads f a g \<Longrightarrow> bptr g \<le> bstop g"
  by (simp add: reads_def)

lemma reads_content: "reads f a g \<Longrightarrow> content f = a @ content g"
  by (simp add: reads_def)

lemma reads_die: "reads f a g \<Longrightarrow> die_on_eof g = die_on_eof f \<and> tied g = tied f"
  by (simp add: reads_def)

definition ready :: "'b fastbuf \<Rightarrow> bool" where
  "ready f \<longleftrightarrow> inv f \<and> bptr f \<le> bstop f"

lemma reads_ready: "reads f a g \<Longrightarrow> ready g"
  by (simp add: reads_def ready_def)

lemma ready_refl: "ready f \<Longrightarrow> reads f [] f"
  by (simp add: reads_refl ready_def)

lemma ready_inv: "ready f \<Longrightarrow> inv f"
  by (simp add: ready_def)

lemma avail: "ready f \<Longrightarrow> bavailr f = bstop f - bptr f"
  using inv_wf [of f] unfolding ready_def
  by (simp add: bavailr_def uint_diff_def of_nat_diff nat_mod_distrib)

lemma window_content: "ready f \<Longrightarrow> take (bstop f - bptr f) (content f) = window f"
  using window_data [of f] by (simp add: ready_def content_def)

lemma length_window: "inv f \<Longrightarrow> length (window f) = bstop f - bptr f"
  using inv_wf [of f] by (auto simp: window_def min_def)

lemma window_le: "ready f \<Longrightarrow> bstop f - bptr f \<le> length (content f)"
  using window_content [of f] length_window [of f] ready_inv [of f]
  by (metis length_take min.cobounded1)

lemma take_content:
  assumes "ready f" "k \<le> bstop f - bptr f"
  shows "take k (content f) = take k (drop (bptr f) (mem f))"
proof -
  have "take k (content f) = take k (window f)"
    using assms(2) unfolding window_content [OF assms(1), symmetric] by simp
  then show ?thesis using assms(2) by (simp add: window_def)
qed

lemma move:
  assumes "inv f" "bptr f \<le> bstop f" "k \<le> bstop f - bptr f"
  shows "reads f (take k (drop (bptr f) (mem f))) (f\<lparr>bptr := bptr f + k\<rparr>)"
proof -
  note wf = inv_wf [OF assms(1)]
  have r: "ready f" using assms by (simp add: ready_def)
  have m: "inv (f\<lparr>bptr := bptr f + k\<rparr>) \<and> data (f\<lparr>bptr := bptr f + k\<rparr>) = data f"
    using assms(2,3) wf by (intro inv_move [OF assms(1,2)]) linarith+
  have b: "btell (f\<lparr>bptr := bptr f + k\<rparr>) = btell f + int k" by (simp add: btell_def)
  have "nat (btell f + int k) = k + nat (btell f)" using wf by (simp add: nat_add_distrib)
  then have "content (f\<lparr>bptr := bptr f + k\<rparr>) = drop k (content f)"
    using m b by (simp add: content_def add.commute)
  then have "content f = take k (drop (bptr f) (mem f)) @ content (f\<lparr>bptr := bptr f + k\<rparr>)"
    using take_content [OF r assms(3)] by (metis append_take_drop_id)
  moreover have "k \<le> length (mem f) - bptr f" using assms(2,3) wf by linarith
  ultimately show ?thesis
    using m b assms(2,3) by (simp add: reads_def)
qed

text \<open>Every operation first makes sure that something is in the buffer.\<close>

lemma refilled:
  assumes "inv f" "bstop f \<le> bptr f"
  obtains r ok f' where "refill ops = Some r" "r f = Inr (ok, f')" "reads f [] f'"
    "ok \<longleftrightarrow> content f \<noteq> []" "ok \<longleftrightarrow> bptr f' < bstop f'"
proof -
  have "content f \<noteq> [] \<longleftrightarrow> btell f < int (length (data f))"
    using inv_wf [OF assms(1)] by (auto simp: content_def)
  moreover obtain r ok f' where "refill ops = Some r" "r f = Inr (ok, f')" "inv f'" "bptr f' \<le> bstop f'"
    "data f' = data f" "btell f' = btell f" "die_on_eof f' = die_on_eof f \<and> tied f' = tied f"
    "ok \<longleftrightarrow> bptr f' < bstop f'" "ok \<longleftrightarrow> btell f < int (length (data f))"
    using refill_ok [OF assms] by blast
  ultimately show thesis
    using that [of r ok f'] by (simp add: reads_def content_def)
qed

lemma at_eof: "inv f \<Longrightarrow> content f = [] \<Longrightarrow> bstop f \<le> bptr f"
  using window_le [of f] by (cases "bptr f \<le> bstop f") (auto simp: ready_def)

lemma brefill_some:
  assumes "inv f" "bstop f \<le> bptr f" "content f \<noteq> []"
  obtains f' where "brefill ops e f = Inr (True, f')" "reads f [] f'" "bptr f' < bstop f'"
proof -
  obtain r ok f' where r: "refill ops = Some r" "r f = Inr (ok, f')" "reads f [] f'"
    "ok \<longleftrightarrow> content f \<noteq> []" "ok \<longleftrightarrow> bptr f' < bstop f'"
    by (rule refilled [OF assms(1,2)])
  then show ?thesis
    using assms inv_wf [OF assms(1)] inv_wf [OF reads_inv [OF r(3)]]
    by (intro that [of f']) (simp_all add: brefill_def)
qed

lemma brefill_eof:
  assumes "inv f" "content f = []"
  obtains f' where "reads f [] f'" "bptr f' = bstop f'"
    "brefill ops e f = (if \<not> e \<and> die_on_eof f then Inl (fb_fault f ''eof'') else Inr (False, f'))"
proof -
  have b: "bstop f \<le> bptr f" by (rule at_eof [OF assms])
  obtain r ok f' where r: "refill ops = Some r" "r f = Inr (ok, f')" "reads f [] f'"
    "ok \<longleftrightarrow> content f \<noteq> []" "ok \<longleftrightarrow> bptr f' < bstop f'"
    by (rule refilled [OF assms(1) b])
  moreover have "bptr f' = bstop f'"
    using r(4,5) assms(2) reads_state [OF r(3)] by simp
  ultimately show ?thesis
    using assms b inv_wf [OF assms(1)] inv_wf [OF reads_inv [OF r(3)]] reads_die [OF r(3)]
    by (intro that [of f']) (simp_all add: brefill_def bthrow_def fb_fault_def)
qed

lemma deref_window:
  assumes "inv f" "bptr f < bstop f"
  obtains c cs where "content f = c # cs" "deref f = Inr c" "reads f [c] (f\<lparr>bptr := bptr f + 1\<rparr>)"
proof -
  note wf = inv_wf [OF assms(1)]
  have m: "reads f [mem f ! bptr f] (f\<lparr>bptr := bptr f + 1\<rparr>)"
    using move [OF assms(1), of 1] assms(2) wf by (simp add: take_Suc hd_drop_conv_nth)
  then show ?thesis
    using that [of "mem f ! bptr f"] reads_content [OF m] assms(2) wf by (simp add: deref_def)
qed

subsection \<open>Characters\<close>

lemma bgetc_some:
  assumes "inv f" "content f = c # cs"
  obtains f' g where "bgetc ops f = Inr (uint c, f')" "reads f [c] f'"
    "bungetc f' = Inr g" "reads f [] g"
proof -
  note result = that
  have step: thesis if g: "inv g" "bptr g < bstop g" "reads f [] g" "bgetc ops f = get_byte g" for g
  proof -
    obtain d ds where d: "content g = d # ds" "deref g = Inr d" "reads g [d] (g\<lparr>bptr := bptr g + 1\<rparr>)"
      by (rule deref_window [OF g(1,2)])
    have "d = c" using d(1) reads_content [OF g(3)] assms(2) by simp
    then show thesis
      using result [of "g\<lparr>bptr := bptr g + 1\<rparr>" g] g d reads_trans [OF g(3) d(3)]
      by (simp add: get_byte_def bungetc_def)
  qed
  show thesis
  proof (cases "bptr f < bstop f")
    case True
    then show thesis using step [of f] assms(1) reads_refl by (simp add: bgetc_def)
  next
    case False
    then have b: "bstop f \<le> bptr f" by simp
    obtain g where g: "brefill ops False f = Inr (True, g)" "reads f [] g" "bptr g < bstop g"
      by (rule brefill_some [OF assms(1) b, of False]) (use assms(2) in auto)
    then show thesis using step [of g] reads_inv b by (simp add: bgetc_def bgetc_slow_def)
  qed
qed

lemma bgetc_eof:
  assumes "inv f" "content f = []"
  obtains f' where "reads f [] f'"
    "bgetc ops f = (if die_on_eof f then Inl (fb_fault f ''eof'') else Inr (- 1, f'))"
proof -
  obtain f' where f': "reads f [] f'"
    "brefill ops False f = (if \<not> False \<and> die_on_eof f then Inl (fb_fault f ''eof'') else Inr (False, f'))"
    by (rule brefill_eof [OF assms])
  show thesis
    by (rule that [OF f'(1)]) (use at_eof [OF assms] in \<open>simp add: bgetc_def bgetc_slow_def f'(2)\<close>)
qed

lemma deref_content:
  assumes "inv f" "bptr f < bstop f" "content f = c # cs"
  shows "deref f = Inr c"
  by (rule deref_window [OF assms(1,2)]) (use assms(3) in simp)

lemma bpeekc_some:
  assumes "inv f" "content f = c # cs"
  obtains f' where "bpeekc ops f = Inr (uint c, f')" "reads f [] f'" "bptr f' < bstop f'"
proof (cases "bptr f < bstop f")
  case True
  then show thesis
    using deref_content [OF assms(1) True assms(2)] that [of f] reads_refl [OF assms(1)] True
    by (simp add: bpeekc_def)
next
  case False
  then have b: "bstop f \<le> bptr f" by simp
  obtain g where g: "brefill ops False f = Inr (True, g)" "reads f [] g" "bptr g < bstop g"
    by (rule brefill_some [OF assms(1) b, of False]) (use assms(2) in auto)
  moreover have "deref g = Inr c"
    using deref_content [OF reads_inv [OF g(2)] g(3), of c cs] reads_content [OF g(2)] assms(2) by simp
  ultimately show thesis
    using that [of g] b by (simp add: bpeekc_def bpeekc_slow_def)
qed

lemma bpeekc_eof:
  assumes "inv f" "content f = []"
  obtains f' where "reads f [] f'"
    "bpeekc ops f = (if die_on_eof f then Inl (fb_fault f ''eof'') else Inr (- 1, f'))"
proof -
  obtain f' where f': "reads f [] f'"
    "brefill ops False f = (if \<not> False \<and> die_on_eof f then Inl (fb_fault f ''eof'') else Inr (False, f'))"
    by (rule brefill_eof [OF assms])
  show thesis
    by (rule that [OF f'(1)]) (use at_eof [OF assms] in \<open>simp add: bpeekc_def bpeekc_slow_def f'(2)\<close>)
qed

lemma beof_ok:
  assumes "inv f"
  obtains f' where "beof ops f = Inr (content f = [], f')" "reads f [] f'"
proof (cases "content f = []")
  case True
  show thesis
    by (rule brefill_eof [OF assms True, of True])
      (use that at_eof [OF assms True] True in \<open>auto simp: beof_def beof_slow_def\<close>)
next
  case False
  show thesis
  proof (cases "bptr f < bstop f")
    case True
    then show thesis using that [of f] False reads_refl [OF assms] True by (simp add: beof_def)
  next
    case outer: False
    then have b: "bstop f \<le> bptr f" by simp
    show thesis
      by (rule brefill_some [OF assms b False, of True])
        (use that b False in \<open>auto simp: beof_def beof_slow_def\<close>)
  qed
qed

subsection \<open>Blocks\<close>

lemma fill_some:
  assumes "ready f" "content f \<noteq> []"
  obtains g where
    "(if bavailr f = 0 then res_bind (brefill ops e f) (\<lambda>(_, f). Inr f) else Inr f) = Inr g"
    "reads f [] g" "bptr g < bstop g"
proof (cases "bptr f < bstop f")
  case True
  then show thesis
    using that [of f] ready_refl [OF assms(1)] avail [OF assms(1)] by simp
next
  case False
  then have b: "bptr f = bstop f" "bstop f \<le> bptr f" using assms(1) by (simp_all add: ready_def)
  obtain g where "brefill ops e f = Inr (True, g)" "reads f [] g" "bptr g < bstop g"
    by (rule brefill_some [OF ready_inv [OF assms(1)] b(2) assms(2)])
  then show thesis using that [of g] avail [OF assms(1)] b by simp
qed

lemma copy_out_window:
  assumes "ready g" "k \<le> bstop g - bptr g"
  shows "copy_out k g = Inr (take k (content g), g\<lparr>bptr := bptr g + k\<rparr>) \<and>
    reads g (take k (content g)) (g\<lparr>bptr := bptr g + k\<rparr>)"
proof -
  note mv = move [OF ready_inv [OF assms(1)] _ assms(2)]
  have r: "bptr g \<le> bstop g" using assms(1) by (simp add: ready_def)
  note wf = inv_wf [OF ready_inv [OF assms(1)]]
  have k: "k \<le> length (mem g) - bptr g" "bptr g + k \<le> length (mem g)" using wf r assms(2) by linarith+
  have "take k (content g) = take k (drop (bptr g) (mem g))"
    using reads_content [OF mv [OF r]] k by simp
  then show ?thesis using mv [OF r] k by (simp add: copy_out_def)
qed

lemma bread_loop_ok:
  "ready f \<Longrightarrow> \<exists>f'. reads f (take l (content f)) f' \<and> bread_loop ops check l b f =
     (if length (content f) < l \<and> \<not> check \<and> die_on_eof f then Inl (fb_fault f ''eof'')
      else Inr (l - length (content f), b @ take l (content f), f'))"
proof (induction l arbitrary: b f rule: less_induct)
  case (less l)
  consider "l = 0" | "l \<noteq> 0" "content f = []" | "l \<noteq> 0" "content f \<noteq> []" by blast
  then show ?case
  proof cases
    case 1
    then show ?thesis using ready_refl [OF less.prems] by (auto simp: bread_loop.simps)
  next
    case 2
    obtain f' where f': "reads f [] f'" "bptr f' = bstop f'"
      "brefill ops check f = (if \<not> check \<and> die_on_eof f then Inl (fb_fault f ''eof'') else Inr (False, f'))"
      by (rule brefill_eof [OF ready_inv [OF less.prems] 2(2)])
    have "bavailr f = 0" "bavailr f' = 0"
      using f' avail reads_ready less.prems at_eof [OF ready_inv [OF less.prems] 2(2)] by simp_all
    then show ?thesis using f' 2 by (auto simp: bread_loop.simps [of ops check l b f] Let_def)
  next
    case 3
    obtain g where g: "(if bavailr f = 0 then res_bind (brefill ops check f) (\<lambda>(_, f). Inr f) else Inr f) = Inr g"
      "reads f [] g" "bptr g < bstop g"
      by (rule fill_some [OF less.prems 3(2)])
    define k where "k = min (bavailr g) l"
    have k: "0 < k" "k \<le> l" "k \<le> bstop g - bptr g"
      using g avail [OF reads_ready [OF g(2)]] 3(1) by (auto simp: k_def)
    let ?h = "g\<lparr>bptr := bptr g + k\<rparr>"
    have c: "copy_out k g = Inr (take k (content g), ?h)" "reads g (take k (content g)) ?h"
      using copy_out_window [OF reads_ready [OF g(2)] k(3)] by auto
    have h: "content f = take k (content f) @ content ?h" "content g = content f"
      "die_on_eof ?h = die_on_eof f \<and> tied ?h = tied f"
      using reads_content [OF c(2)] reads_content [OF g(2)] reads_die [OF c(2)] reads_die [OF g(2)]
      by auto
    obtain f' where f': "reads ?h (take (l - k) (content ?h)) f'"
      "bread_loop ops check (l - k) (b @ take k (content f)) ?h =
        (if length (content ?h) < l - k \<and> \<not> check \<and> die_on_eof ?h then Inl (fb_fault ?h ''eof'')
         else Inr (l - k - length (content ?h), (b @ take k (content f)) @ take (l - k) (content ?h), f'))"
      using less.IH [of "l - k" ?h "b @ take k (content f)"] reads_ready [OF c(2)] k 3(1) by auto
    have kl: "k \<le> length (content f)"
      using k(3) window_le [OF reads_ready [OF g(2)]] unfolding h(2) [symmetric] by simp
    have len: "length (content f) = k + length (content ?h)"
      using arg_cong [OF h(1), of length] kl by simp
    have tk: "take l (content f) = take k (content f) @ take (l - k) (content ?h)"
      using arg_cong [OF h(1), of "take l"] kl k(2) by (simp add: min_def)
    have "reads f (take l (content f)) f'"
      using reads_trans [OF g(2) reads_trans [OF c(2) f'(1)]] tk h(2) by simp
    moreover have "bread_loop ops check l b f = bread_loop ops check (l - k) (b @ take k (content f)) ?h"
      using 3(1) g avail [OF reads_ready [OF g(2)]] c(1) h(2)
      by (subst bread_loop.simps) (simp add: k_def Let_def)
    ultimately show ?thesis using f'(2) len tk h(3) k by (auto simp: fb_fault_def)
  qed
qed

lemma take_window: "ready f \<Longrightarrow> l \<le> bavailr f \<Longrightarrow> l \<le> length (content f)"
  using window_le [of f] avail [of f] by simp

lemma bread_ok:
  assumes "ready f"
  obtains f' where "reads f (take l (content f)) f'"
    "bread ops l f = (if length (content f) < l \<and> die_on_eof f then Inl (fb_fault f ''eof'')
       else Inr (take l (content f), f'))"
proof (cases "l \<le> bavailr f")
  case True
  then show thesis
    using that [of "f\<lparr>bptr := bptr f + l\<rparr>"] copy_out_window [OF assms, of l]
      take_window [OF assms True] avail [OF assms]
    by (simp add: bread_def not_less)
next
  case False
  obtain f' where "reads f (take l (content f)) f'" "bread_loop ops False l [] f =
     (if length (content f) < l \<and> \<not> False \<and> die_on_eof f then Inl (fb_fault f ''eof'')
      else Inr (l - length (content f), [] @ take l (content f), f'))"
    using bread_loop_ok [OF assms, of l False "[]"] by blast
  then show thesis using that False by (simp add: bread_def bread_slow_def)
qed

lemma breadb_ok:
  assumes "ready f"
  obtains f' where "reads f (take l (content f)) f'"
    "breadb ops l f = (if content f \<noteq> [] \<and> length (content f) < l then Inl (fb_fault f ''eof'')
       else Inr (take l (content f), f'))"
proof (cases "l \<le> bavailr f")
  case True
  then show thesis
    using that [of "f\<lparr>bptr := bptr f + l\<rparr>"] copy_out_window [OF assms, of l]
      take_window [OF assms True] avail [OF assms]
    by (simp add: breadb_def not_less)
next
  case False
  obtain f' where f': "reads f (take l (content f)) f'" "bread_loop ops True l [] f =
     (if length (content f) < l \<and> \<not> True \<and> die_on_eof f then Inl (fb_fault f ''eof'')
      else Inr (l - length (content f), [] @ take l (content f), f'))"
    using bread_loop_ok [OF assms, of l True "[]"] by blast
  have "\<not> dead f'" using inv_wf [OF reads_inv [OF f'(1)]] by simp
  with f' that False reads_die [OF f'(1)] show thesis by (auto simp: breadb_def bread_slow_def bthrow_def fb_fault_def)
qed

lemma direct_some:
  assumes "ready f" "content f \<noteq> []"
  obtains g where "bdirect_read_prepare ops f = Inr (bavailr g, g)" "reads f [] g" "0 < bavailr g"
proof (cases "bptr f = bstop f")
  case True
  obtain r ok g where r: "refill ops = Some r" "r f = Inr (ok, g)" "reads f [] g"
    "ok \<longleftrightarrow> content f \<noteq> []" "ok \<longleftrightarrow> bptr g < bstop g"
    by (rule refilled [OF ready_inv [OF assms(1)]]) (use True in auto)
  then show thesis
    using that [of g] assms(2) True avail [OF reads_ready [OF r(3)]] by (simp add: bdirect_read_prepare_def)
next
  case False
  then show thesis
    using that [of f] ready_refl [OF assms(1)] avail [OF assms(1)] assms(1)
    by (simp add: bdirect_read_prepare_def ready_def)
qed

lemma direct_eof:
  assumes "ready f" "content f = []"
  obtains g where "bdirect_read_prepare ops f = Inr (0, g)" "reads f [] g"
proof -
  obtain r ok g where r: "refill ops = Some r" "r f = Inr (ok, g)" "reads f [] g"
    "ok \<longleftrightarrow> content f \<noteq> []" "ok \<longleftrightarrow> bptr g < bstop g"
    by (rule refilled [OF ready_inv [OF assms(1)]]) (use at_eof [OF ready_inv [OF assms(1)] assms(2)] in auto)
  then show thesis
    using that [of g] assms at_eof [OF ready_inv [OF assms(1)] assms(2)]
    by (simp add: bdirect_read_prepare_def ready_def)
qed

lemma bskip_slow_ok:
  "ready f \<Longrightarrow> \<exists>f'. bskip_slow ops len f = Inr (len \<le> length (content f), f') \<and>
     reads f (take len (content f)) f'"
proof (induction len arbitrary: f rule: less_induct)
  case (less len)
  consider "len = 0" | "len \<noteq> 0" "content f = []" | "len \<noteq> 0" "content f \<noteq> []" by blast
  then show ?case
  proof cases
    case 1
    then show ?thesis using ready_refl [OF less.prems] by (simp add: bskip_slow.simps)
  next
    case 2
    obtain g where "bdirect_read_prepare ops f = Inr (0, g)" "reads f [] g"
      by (rule direct_eof [OF less.prems 2(2)])
    then show ?thesis using 2 by (simp add: bskip_slow.simps)
  next
    case 3
    obtain g where g: "bdirect_read_prepare ops f = Inr (bavailr g, g)" "reads f [] g" "0 < bavailr g"
      by (rule direct_some [OF less.prems 3(2)])
    define k where "k = min (bavailr g) len"
    let ?h = "g\<lparr>bptr := bptr g + k\<rparr>"
    have k: "0 < k" "k \<le> len" "k \<le> bstop g - bptr g"
      using g(3) avail [OF reads_ready [OF g(2)]] 3(1) by (auto simp: k_def)
    have c: "reads g (take k (content g)) ?h"
      using copy_out_window [OF reads_ready [OF g(2)] k(3)] by auto
    have r: "reads f (take k (content f)) ?h"
      using reads_trans [OF g(2) c] reads_content [OF g(2)] by simp
    have kl: "k \<le> length (content f)"
      using take_window [OF reads_ready [OF g(2)], of k] k(3) avail [OF reads_ready [OF g(2)]]
        reads_content [OF g(2)] by simp
    obtain f' where f': "bskip_slow ops (len - k) ?h = Inr (len - k \<le> length (content ?h), f')"
      "reads ?h (take (len - k) (content ?h)) f'"
      using less.IH [of "len - k" ?h] reads_ready [OF r] k 3(1) by auto
    have "take len (content f) = take k (content f) @ take (len - k) (content ?h)"
      using arg_cong [OF reads_content [OF r], of "take len"] kl k(2) by (simp add: min_def)
    moreover have "length (content f) = k + length (content ?h)"
      using arg_cong [OF reads_content [OF r], of length] kl by simp
    moreover have "bskip_slow ops len f = bskip_slow ops (len - k) ?h"
      using 3(1) g(1,3) by (subst bskip_slow.simps) (simp add: k_def Let_def bdirect_read_commit_def)
    ultimately show ?thesis using f' reads_trans [OF r f'(2)] k by auto
  qed
qed

lemma bskip_ok:
  assumes "ready f"
  obtains f' where "bskip ops len f = Inr (len \<le> length (content f), f')"
    "reads f (take len (content f)) f'"
proof (cases "len \<le> bavailr f")
  case True
  then show thesis
    using that [of "f\<lparr>bptr := bptr f + len\<rparr>"] copy_out_window [OF assms, of len]
      take_window [OF assms True] avail [OF assms] by (simp add: bskip_def)
next
  case False
  then show thesis using that bskip_slow_ok [OF assms, of len] by (auto simp: bskip_def)
qed

subsection \<open>Refinement of a position in a byte string\<close>

text \<open>The abstract view of a stream without \<open>FB_DIE_ON_EOF\<close>: a byte string and a position in it.\<close>

definition at :: "byte list \<Rightarrow> nat \<Rightarrow> 'b fastbuf \<Rightarrow> bool" where
  "at buf n f \<longleftrightarrow> inv f \<and> data f = buf \<and> btell f = int n \<and> \<not> die_on_eof f"

lemma at_content: "at buf n f \<Longrightarrow> content f = drop n buf"
  by (simp add: at_def content_def)

lemma reads_at: "at buf n f \<Longrightarrow> reads f bs g \<Longrightarrow> at buf (n + length bs) g \<and> ready g"
  by (simp add: at_def reads_def ready_def)

lemma bgetc_at:
  assumes "at buf n f"
  obtains g where "at buf (if n < length buf then n + 1 else n) g" "ready g"
    "bgetc ops f = Inr (if n < length buf then uint (buf ! n) else - 1, g)"
proof (cases "n < length buf")
  case True
  have f: "inv f" "content f = buf ! n # drop (Suc n) buf"
    using assms at_content [OF assms] True by (simp_all add: at_def Cons_nth_drop_Suc)
  show thesis
    by (rule bgetc_some [OF f]) (use that True reads_at [OF assms] in fastforce)
next
  case False
  have f: "inv f" "content f = []" "\<not> die_on_eof f"
    using assms at_content [OF assms] False by (simp_all add: at_def)
  show thesis
    by (rule bgetc_eof [OF f(1,2)]) (use that False reads_at [OF assms] f(3) in fastforce)
qed

lemma bpeekc_at:
  assumes "at buf n f"
  obtains g where "at buf n g" "ready g" "bpeekc ops f = Inr (if n < length buf then uint (buf ! n) else - 1, g)"
proof (cases "n < length buf")
  case True
  have f: "inv f" "content f = buf ! n # drop (Suc n) buf"
    using assms at_content [OF assms] True by (simp_all add: at_def Cons_nth_drop_Suc)
  obtain g where g: "bpeekc ops f = Inr (uint (buf ! n), g)" "reads f [] g" by (rule bpeekc_some [OF f])
  show thesis by (rule that [of g]) (use g True reads_at [OF assms g(2)] in simp_all)
next
  case False
  have f: "inv f" "content f = []" "\<not> die_on_eof f"
    using assms at_content [OF assms] False by (simp_all add: at_def)
  obtain g where g: "reads f [] g" "bpeekc ops f = (if die_on_eof f then Inl (fb_fault f ''eof'') else Inr (- 1, g))" by (rule bpeekc_eof [OF f(1,2)])
  show thesis by (rule that [of g]) (use g False f(3) reads_at [OF assms g(1)] in simp_all)
qed

lemma bread_at:
  assumes "at buf n f" "ready f"
  obtains g where "bread ops l f = Inr (take l (drop n buf), g)"
    "at buf (n + length (take l (drop n buf))) g" "ready g"
proof -
  obtain g where g: "reads f (take l (content f)) g" "bread ops l f =
      (if length (content f) < l \<and> die_on_eof f then Inl (fb_fault f ''eof'') else Inr (take l (content f), g))"
    by (rule bread_ok [OF assms(2)])
  then show thesis
    using that [of g] reads_at [OF assms(1) g(1)] at_content [OF assms(1)] assms(1)
    by (simp add: at_def)
qed

lemma bskip_at:
  assumes "at buf n f" "ready f"
  obtains g where "bskip ops l f = Inr (n + l \<le> length buf \<or> l = 0, g)"
    "at buf (n + length (take l (drop n buf))) g" "ready g"
proof -
  obtain g where g: "bskip ops l f = Inr (l \<le> length (content f), g)" "reads f (take l (content f)) g"
    by (rule bskip_ok [OF assms(2)])
  have "(l \<le> length (drop n buf)) = (n + l \<le> length buf \<or> l = 0)" by auto
  then show thesis
    using that [of g] g reads_at [OF assms(1) g(2)] at_content [OF assms(1)] by simp
qed

end

section \<open>The contract of a back-end that is written to\<close>

text \<open>\<open>written f\<close> is everything written so far, whether it has been passed on by the back-end or is
  still in the buffer. A back-end may refuse to spout (by an exception), but when it returns nothing
  is lost. The second locale adds that a full buffer always gives room.\<close>

locale fb_writer =
  fixes ops :: "'b fb_ops"
    and inv :: "'b fastbuf \<Rightarrow> bool"
    and written :: "'b fastbuf \<Rightarrow> byte list"
  assumes inv_wf: "inv f \<Longrightarrow>
      \<not> dead f \<and> buffer f \<le> bstop f \<and> bstop f \<le> bptr f \<and> bptr f \<le> bufend f \<and>
      bufend f \<le> length (mem f) \<and> bufend f < 2 ^ 32"
    and inv_copy: "inv f \<Longrightarrow> bptr f + length bs \<le> bufend f \<Longrightarrow> copy_in bs f = Inr g \<Longrightarrow>
      inv g \<and> written g = written f @ bs"
    and spout_ok: "inv f \<Longrightarrow> do_spout ops f = Inr g \<Longrightarrow>
      inv g \<and> written g = written f \<and> btell g = btell f \<and> die_on_eof g = die_on_eof f \<and> tied g = tied f \<and>
      bptr g < bufend g"
begin

definition writes :: "'b fastbuf \<Rightarrow> byte list \<Rightarrow> 'b fastbuf \<Rightarrow> bool" where
  "writes f bs g \<longleftrightarrow> inv g \<and> written g = written f @ bs \<and> btell g = btell f + int (length bs) \<and>
     die_on_eof g = die_on_eof f \<and> tied g = tied f"

lemma writes_refl: "inv f \<Longrightarrow> writes f [] f"
  by (simp add: writes_def)

lemma writes_trans: "writes f a g \<Longrightarrow> writes g b h \<Longrightarrow> writes f (a @ b) h"
  by (simp add: writes_def)

lemma writes_inv: "writes f a g \<Longrightarrow> inv g"
  by (simp add: writes_def)

lemma avail: "inv f \<Longrightarrow> bavailw f = bufend f - bptr f"
  using inv_wf [of f] by (simp add: bavailw_def uint_diff_def of_nat_diff nat_mod_distrib)

lemma copy_in_writes: "inv f \<Longrightarrow> bptr f + length bs \<le> bufend f \<Longrightarrow> copy_in bs f = Inr g \<Longrightarrow> writes f bs g"
  using inv_copy [of f bs g] by (auto simp: writes_def copy_in_def btell_def split: if_splits)

lemma copy_in_ok: "inv f \<Longrightarrow> bptr f + length bs \<le> bufend f \<Longrightarrow> \<exists>g. copy_in bs f = Inr g"
  using inv_wf [of f] by (auto simp: copy_in_def)

lemma store_copy_in: "store c f = copy_in [c] f"
  by (simp add: store_def copy_in_def upd_conv_take_nth_drop Suc_le_eq)

lemma do_spout_writes: "inv f \<Longrightarrow> do_spout ops f = Inr g \<Longrightarrow> writes f [] g \<and> bptr g < bufend g"
  using spout_ok [of f g] by (simp add: writes_def)

lemma bspout_writes:
  assumes "inv f" "bspout ops f = Inr g"
  shows "writes f [] g \<and> bptr g < bufend g"
proof -
  obtain h where h: "do_spout ops f = Inr h" using assms(2) by (auto simp: bspout_def res_bind_Inr)
  then have w: "writes f [] h" "bptr h < bufend h" using do_spout_writes [OF assms(1)] by auto
  then have "bstop h < bufend h" using inv_wf [OF writes_inv] by fastforce
  then show ?thesis using w h assms(2) by (simp add: bspout_def)
qed

lemma bflush_writes: "inv f \<Longrightarrow> bflush ops f = Inr g \<Longrightarrow> writes f [] g"
  using inv_wf [of f] by (auto simp: bflush_def dest: do_spout_writes intro: writes_refl split: if_splits)

lemma bputc_writes:
  assumes "inv f" "bputc ops c f = Inr g"
  shows "writes f [c] g"
proof (cases "bptr f < bufend f")
  case True
  then show ?thesis
    using assms copy_in_writes [OF assms(1), of "[c]" g] by (simp add: bputc_def store_copy_in)
next
  case False
  then obtain h where h: "bspout ops f = Inr h" "copy_in [c] h = Inr g"
    using assms(2) by (auto simp: bputc_def bputc_slow_def store_copy_in res_bind_Inr)
  then have w: "writes f [] h" "bptr h < bufend h" using bspout_writes [OF assms(1)] by auto
  then have "writes h [c] g" using copy_in_writes [OF writes_inv [OF w(1)] _ h(2)] by simp
  then show ?thesis using writes_trans [OF w(1)] by fastforce
qed

lemma bwrite_round_writes:
  assumes "inv f" "bwrite_round ops b f = Inr (r, g)"
  obtains k where "r = drop k b" "writes f (take k b) g"
proof -
  obtain h where h: "(if bavailw f = 0 then bspout ops f else Inr f) = Inr h"
      "copy_in (take (min (bavailw h) (length b)) b) h = Inr g" "r = drop (min (bavailw h) (length b)) b"
    using assms(2) by (auto simp: bwrite_round_def Let_def res_bind_Inr)
  have w: "writes f [] h" using h(1) bspout_writes [OF assms(1)] writes_refl [OF assms(1)]
    by (auto split: if_splits)
  have "bptr h + length (take (min (bavailw h) (length b)) b) \<le> bufend h"
    using avail [OF writes_inv [OF w]] inv_wf [OF writes_inv [OF w]] by auto
  from copy_in_writes [OF writes_inv [OF w] this h(2)] show thesis
    using that h(3) writes_trans [OF w] by fastforce
qed

lemma bwrite_loop_writes:
  assumes "bwrite_loop ops b f = Some r"
  shows "inv f \<Longrightarrow> r = Inr g \<Longrightarrow> writes f b g"
proof -
  have "\<forall>g. o' = ops \<longrightarrow> inv f \<longrightarrow> r = Inr g \<longrightarrow> writes f b g"
    if "bwrite_loop o' b f = Some r" for o' b f r
  proof (rule bwrite_loop.raw_induct [where P = "\<lambda>o' b f r. \<forall>g. o' = ops \<longrightarrow> inv f \<longrightarrow> r = Inr g \<longrightarrow> writes f b g", OF _ that], intro allI impI)
    fix loop o' b f r g
    assume ih: "\<And>o' b f r. loop o' b f = Some r \<Longrightarrow> \<forall>g. o' = ops \<longrightarrow> inv f \<longrightarrow> r = Inr g \<longrightarrow> writes f b g"
      and body: "(if b = [] then Some (Inr f) else case bwrite_round o' b f of
          Inl e \<Rightarrow> Some (Inl e) | Inr bf \<Rightarrow> loop o' (fst bf) (snd bf)) = Some r"
      and f: "o' = ops" "inv f" "r = Inr g"
    show "writes f b g"
    proof (cases "b = []")
      case True
      with f body show ?thesis by (auto intro: writes_refl)
    next
      case False
      then obtain b' h where h: "bwrite_round ops b f = Inr (b', h)" "loop ops b' h = Some (Inr g)"
        using body f by (auto split: sum.splits)
      obtain k where k: "b' = drop k b" "writes f (take k b) h"
        by (rule bwrite_round_writes [OF f(2) h(1)])
      have "writes h b' g" using ih [OF h(2)] writes_inv [OF k(2)] by simp
      then show ?thesis using writes_trans [OF k(2)] k(1) by fastforce
    qed
  qed
  with assms show "inv f \<Longrightarrow> r = Inr g \<Longrightarrow> writes f b g" by blast
qed

lemma bwrite_writes: "inv f \<Longrightarrow> bwrite ops b f = Inr g \<Longrightarrow> writes f b g"
  using inv_wf [of f] avail [of f] bwrite_loop_writes [of b f "Inr g" g] copy_in_writes [of f b g]
  by (auto simp: bwrite_def bwrite_slow_def split: if_splits option.splits)

end

locale fb_writer_total = fb_writer +
  assumes spout_room: "inv f \<Longrightarrow> bptr f = bufend f \<Longrightarrow>
      \<exists>g. do_spout ops f = Inr g"
begin

lemma bspout_total:
  assumes "inv f" "bptr f = bufend f"
  obtains g where "bspout ops f = Inr g" "writes f [] g" "bptr g < bufend g"
proof -
  obtain g where g: "do_spout ops f = Inr g" using spout_room [OF assms] by blast
  have w: "writes f [] g" "bptr g < bufend g" using do_spout_writes [OF assms(1) g] by auto
  then have "bstop g < bufend g" using inv_wf [OF writes_inv] by fastforce
  then show thesis using that [of g] g w by (simp add: bspout_def)
qed

lemma bputc_total:
  assumes "inv f"
  obtains g where "bputc ops c f = Inr g" "writes f [c] g"
proof -
  have "\<exists>g. bputc ops c f = Inr g"
  proof (cases "bptr f < bufend f")
    case True
    then show ?thesis using copy_in_ok [OF assms, of "[c]"] by (simp add: bputc_def store_copy_in)
  next
    case False
    then have "bptr f = bufend f" using inv_wf [OF assms] by simp
    then obtain g where g: "bspout ops f = Inr g" "writes f [] g" "bptr g < bufend g"
      using bspout_total [OF assms] by blast
    then show ?thesis
      using False copy_in_ok [OF writes_inv [OF g(2)], of "[c]"]
      by (simp add: bputc_def bputc_slow_def store_copy_in)
  qed
  then show thesis using that bputc_writes [OF assms] by blast
qed

lemma bwrite_round_total:
  assumes "inv f" "b \<noteq> []"
  obtains k g where "bwrite_round ops b f = Inr (drop k b, g)" "writes f (take k b) g" "0 < k"
proof -
  obtain h where h: "(if bavailw f = 0 then bspout ops f else Inr f) = Inr h" "writes f [] h"
    "bptr h < bufend h"
  proof (cases "bptr f = bufend f")
    case True
    then show thesis using that bspout_total [OF assms(1) True] avail [OF assms(1)] by auto
  next
    case False
    then show thesis
      using that [of f] avail [OF assms(1)] inv_wf [OF assms(1)] writes_refl [OF assms(1)] by simp
  qed
  define k where "k = min (bavailw h) (length b)"
  have k: "0 < k" "k \<le> length b" "bptr h + k \<le> bufend h"
    using h(3) avail [OF writes_inv [OF h(2)]] assms(2) by (auto simp: k_def)
  then obtain g where g: "copy_in (take k b) h = Inr g"
    using copy_in_ok [OF writes_inv [OF h(2)], of "take k b"] by auto
  have "writes f (take k b) g"
    using writes_trans [OF h(2) copy_in_writes [OF writes_inv [OF h(2)] _ g]] k by simp
  moreover have "bwrite_round ops b f = Inr (drop k b, g)"
    using g unfolding bwrite_round_def h(1) by (simp add: k_def Let_def)
  ultimately show thesis using that k(1) by blast
qed

lemma bwrite_loop_total: "inv f \<Longrightarrow> \<exists>g. bwrite_loop ops b f = Some (Inr g) \<and> writes f b g"
proof (induction "length b" arbitrary: b f rule: less_induct)
  case less
  show ?case
  proof (cases "b = []")
    case True
    then show ?thesis using writes_refl [OF less.prems] by (simp add: bwrite_loop.simps)
  next
    case False
    obtain k g where g: "bwrite_round ops b f = Inr (drop k b, g)" "writes f (take k b) g" "0 < k"
      by (rule bwrite_round_total [OF less.prems False])
    obtain h where "bwrite_loop ops (drop k b) g = Some (Inr h)" "writes g (drop k b) h"
      using less.hyps [of "drop k b" g] writes_inv [OF g(2)] g(3) False by auto
    then show ?thesis
      using writes_trans [OF g(2), of "drop k b" h] g(1) False by (auto simp: bwrite_loop.simps)
  qed
qed

lemma bwrite_total: "inv f \<Longrightarrow> \<exists>g. bwrite ops b f = Inr g \<and> writes f b g"
proof (cases "length b \<le> bavailw f")
  case True
  assume f: "inv f"
  then have "bptr f + length b \<le> bufend f"
    using True avail [OF f] inv_wf [OF f] by linarith
  then show ?thesis
    using True copy_in_ok [OF f, of b] copy_in_writes [OF f, of b] by (simp add: bwrite_def) blast
next
  case False
  assume f: "inv f"
  then show ?thesis using False bwrite_loop_total [OF f, of b] by (auto simp: bwrite_def bwrite_slow_def)
qed

end

end
