(* ===== verification/Fb_Grow.thy ===== *)
theory Fb_Grow
  imports Fastbuf
begin

text \<open>
  \<open>ucw/fb-grow.c\<close>: a growing memory buffer, written first and read after a rewind. The private part
  is the \<open>end\<close> of the data, which is null until data are flushed or the buffer is reset, and whether the memory comes from a memory
  pool. Null is lower than all pointers into the buffer, the difference of null and such a pointer is a fault. Memory obtained from an
  allocator is filled with zeroes here; its contents are unspecified in C.
\<close>

section \<open>Callbacks\<close>

record fb_gbuf =
  has_mp :: bool
  gend :: "nat option"

definition fbgrow_refill :: "fb_gbuf fastbuf \<Rightarrow> (bool \<times> fb_gbuf fastbuf) res" where
  "fbgrow_refill b = (case gend (priv b) of
     None \<Rightarrow> Inl Out_of_bounds
   | Some e \<Rightarrow> let b = b\<lparr>bstop := e, pos := int e - int (buffer b)\<rparr> in Inr (bstop b > bptr b, b))"

text \<open>The enlarged buffer: from the pool a new block into which the old one is copied, else
  \<open>xrealloc\<close>. The new size is computed in a \<open>uint\<close>.\<close>

definition fbgrow_enlarge :: "fb_gbuf fastbuf \<Rightarrow> nat \<Rightarrow> byte list res" where
  "fbgrow_enlarge b len =
    (let size = (2 * len) mod 2 ^ 32; old = take len (drop (buffer b) (mem b))
     in if has_mp (priv b) \<and> len > size then Inl Out_of_bounds
        else Inr (take size (old @ replicate size 0)))"

definition fbgrow_spout :: "fb_gbuf fastbuf \<Rightarrow> fb_gbuf fastbuf res" where
  "fbgrow_spout b = res_bind
    (if bptr b = bufend b then
       (let len = uint_diff (bufend b) (buffer b) in
        res_bind (fbgrow_enlarge b len) (\<lambda>new.
          Inr (b\<lparr>mem := new, buffer := 0, bufend := length new, bptr := len,
            priv := (priv b)\<lparr>gend := Some len\<rparr>\<rparr>)))
     else if (case gend (priv b) of None \<Rightarrow> True | Some e \<Rightarrow> e < bptr b) then Inr (b\<lparr>priv := (priv b)\<lparr>gend := Some (bptr b)\<rparr>\<rparr>)
     else Inr b)
    (\<lambda>b. Inr (b\<lparr>bstop := buffer b, pos := 0\<rparr>))"

definition fbgrow_seek :: "fb_gbuf fastbuf \<Rightarrow> int \<Rightarrow> seek_whence \<Rightarrow> (bool \<times> fb_gbuf fastbuf) res" where
  "fbgrow_seek b p whence = (case gend (priv b) of
     None \<Rightarrow> Inl Out_of_bounds
   | Some e \<Rightarrow>
     let len = int e - int (buffer b);
         p = (if whence = SEEK_END then p + len else p)
     in if p < 0 \<or> p > len then bthrow b ''seek''
        else Inr (True, b\<lparr>bptr := buffer b + nat p, bstop := buffer b, pos := 0\<rparr>))"

definition fbgrow_ops :: "fb_gbuf fb_ops" where
  "fbgrow_ops = \<lparr>refill = Some fbgrow_refill, spout = Some fbgrow_spout, seek = Some fbgrow_seek,
     close = None, config = None\<rparr>"

definition fbgrow_create_mp :: "bool \<Rightarrow> nat \<Rightarrow> fb_gbuf fastbuf res" where
  "fbgrow_create_mp mp basic_size = ensure (basic_size \<noteq> 0)
    (Inr \<lparr>bptr = 0, bstop = 0, mem = replicate basic_size 0, buffer = 0, bufend = basic_size, pos = 0,
      dead = False, die_on_eof = False, tied = False, priv = \<lparr>has_mp = mp, gend = None\<rparr>\<rparr>)"

definition fbgrow_create :: "nat \<Rightarrow> fb_gbuf fastbuf res" where
  "fbgrow_create basic_size = fbgrow_create_mp False basic_size"

definition fbgrow_reset :: "fb_gbuf fastbuf \<Rightarrow> fb_gbuf fastbuf" where
  "fbgrow_reset b = b\<lparr>bptr := buffer b, bstop := buffer b, priv := (priv b)\<lparr>gend := Some (buffer b)\<rparr>, pos := 0\<rparr>"

definition fbgrow_rewind :: "fb_gbuf fastbuf \<Rightarrow> fb_gbuf fastbuf res" where
  "fbgrow_rewind b = brewind fbgrow_ops b"

definition fbgrow_get_buf :: "fb_gbuf fastbuf \<Rightarrow> nat \<times> byte list" where
  "fbgrow_get_buf b = (let e = (case gend (priv b) of None \<Rightarrow> bptr b | Some e \<Rightarrow> max e (bptr b))
     in (uint_diff e (buffer b), take (e - buffer b) (drop (buffer b) (mem b))))"

section \<open>Reading\<close>

definition data_end :: "fb_gbuf fastbuf \<Rightarrow> nat" where
  "data_end f = (case gend (priv f) of None \<Rightarrow> 0 | Some e \<Rightarrow> e)"

definition fbgrow_inv :: "fb_gbuf fastbuf \<Rightarrow> bool" where
  "fbgrow_inv f \<longleftrightarrow> \<not> dead f \<and> buffer f = 0 \<and> gend (priv f) = Some (data_end f) \<and> bptr f \<le> data_end f \<and> bstop f \<le> data_end f \<and>
     data_end f \<le> bufend f \<and> bufend f \<le> length (mem f) \<and> bufend f < 2 ^ 32 \<and> pos f = int (bstop f)"

definition fbgrow_data :: "fb_gbuf fastbuf \<Rightarrow> byte list" where
  "fbgrow_data f = take (data_end f) (mem f)"

lemma data_end_cong: "priv g = priv f \<Longrightarrow> data_end g = data_end f"
  by (simp add: data_end_def)

lemma data_end_update [simp]:
  "data_end (f\<lparr>bptr := a\<rparr>) = data_end f" "data_end (f\<lparr>bstop := a\<rparr>) = data_end f" "data_end (f\<lparr>pos := q\<rparr>) = data_end f"
  "data_end (f\<lparr>mem := m\<rparr>) = data_end f" "data_end (f\<lparr>bufend := a\<rparr>) = data_end f"
  "data_end (f\<lparr>priv := (priv f)\<lparr>gend := Some a\<rparr>\<rparr>) = a"
  by (simp_all add: data_end_def)

interpretation fbgrow: fb_reader fbgrow_ops fbgrow_inv fbgrow_data
proof
  fix f k
  assume f: "fbgrow_inv f"
  then have b: "btell f = int (bptr f)" by (simp add: fbgrow_inv_def btell_def)
  show "\<not> dead f \<and> buffer f \<le> bptr f \<and> buffer f \<le> bstop f \<and> bptr f \<le> bufend f \<and>
      bstop f \<le> bufend f \<and> bufend f \<le> length (mem f) \<and> bufend f < 2 ^ 32 \<and> 0 \<le> btell f"
    using f b by (simp add: fbgrow_inv_def)
  show "bptr f \<le> bstop f \<Longrightarrow> take (bstop f - bptr f) (drop (nat (btell f)) (fbgrow_data f)) = window f"
    using f b linear_window [of f "data_end f"] by (simp add: fbgrow_inv_def fbgrow_data_def)
  show "bptr f \<le> bstop f \<Longrightarrow> buffer f \<le> k \<Longrightarrow> k \<le> bstop f \<Longrightarrow>
      fbgrow_inv (f\<lparr>bptr := k\<rparr>) \<and> fbgrow_data (f\<lparr>bptr := k\<rparr>) = fbgrow_data f"
    using f by (simp add: fbgrow_inv_def fbgrow_data_def)
  show "bstop f \<le> bptr f \<Longrightarrow>
      \<exists>r ok f'. refill fbgrow_ops = Some r \<and> r f = Inr (ok, f') \<and> fbgrow_inv f' \<and>
        bptr f' \<le> bstop f' \<and> fbgrow_data f' = fbgrow_data f \<and> btell f' = btell f \<and>
        die_on_eof f' = die_on_eof f \<and> tied f' = tied f \<and> (ok \<longleftrightarrow> bptr f' < bstop f') \<and>
        (ok \<longleftrightarrow> btell f < int (length (fbgrow_data f)))"
    using f b by (auto simp: fbgrow_ops_def fbgrow_refill_def fbgrow_inv_def fbgrow_data_def
        btell_def Let_def)
qed

section \<open>Writing\<close>

definition fbgrow_winv :: "fb_gbuf fastbuf \<Rightarrow> bool" where
  "fbgrow_winv f \<longleftrightarrow> \<not> dead f \<and> buffer f = 0 \<and> bstop f = 0 \<and> pos f = 0 \<and> bptr f \<le> bufend f \<and>
     0 < bufend f \<and> bufend f \<le> length (mem f) \<and> bufend f < 2 ^ 32 \<and> data_end f \<le> bptr f"

definition fbgrow_written :: "fb_gbuf fastbuf \<Rightarrow> byte list" where
  "fbgrow_written f = take (bptr f) (mem f)"

lemma fbgrow_spout_full:
  assumes "fbgrow_winv f" "bptr f = bufend f" "bufend f < 2 ^ 31"
  shows "do_spout fbgrow_ops f = Inr (f\<lparr>mem := take (bptr f) (mem f) @ replicate (bptr f) 0,
     bufend := 2 * bptr f, priv := (priv f)\<lparr>gend := Some (bptr f)\<rparr>\<rparr>)"
proof -
  have "(2 * bufend f) mod 2 ^ 32 = 2 * bufend f" using assms(3) by simp
  moreover have "uint_diff (bufend f) 0 = bufend f" using assms(3) by (simp add: uint_diff_def nat_mod_as_int)
  ultimately show ?thesis
    using assms unfolding do_spout_def fbgrow_ops_def fbgrow_spout_def fbgrow_enlarge_def fbgrow_winv_def
    by (simp add: Let_def ensure_def)
qed

lemma fbgrow_spout_room:
  assumes "fbgrow_winv f" "bptr f < bufend f"
  shows "do_spout fbgrow_ops f = Inr (f\<lparr>priv := (priv f)\<lparr>gend := Some (bptr f)\<rparr>\<rparr>)"
proof -
  have z: "f\<lparr>bstop := 0, pos := 0\<rparr> = f" using assms(1) by (cases f) (simp add: fbgrow_winv_def)
  have "priv f\<lparr>gend := Some (bptr f)\<rparr> = priv f" if "gend (priv f) = Some e" "\<not> e < bptr f" for e
    using that assms(1) by (cases "priv f") (simp add: fbgrow_winv_def data_end_def)
  then show ?thesis using assms z
    by (cases "gend (priv f)") (auto simp: do_spout_def fbgrow_ops_def fbgrow_spout_def fbgrow_winv_def ensure_def)
qed

text \<open>A buffer of 2 GB cannot be doubled: the new size wraps around and the check after the spout
  fails (or, with a pool, the old data do not fit the new block).\<close>

lemma fbgrow_spout_wraps:
  assumes "fbgrow_winv f" "bptr f = bufend f" "2 ^ 31 \<le> bufend f"
  shows "do_spout fbgrow_ops f \<noteq> Inr g"
proof -
  have b: "bufend f < 2 ^ 32" using assms(1) by (simp add: fbgrow_winv_def)
  have "(2 * bufend f) mod 2 ^ 32 = 2 * bufend f - 2 ^ 32"
    using assms(3) b by (subst le_mod_geq) simp_all
  then have s: "(2 * bufend f) mod 2 ^ 32 < bufend f" using b assms(3) by simp
  moreover have "uint_diff (bufend f) 0 = bufend f" using b by (simp add: uint_diff_def nat_mod_as_int)
  ultimately show ?thesis
    using assms(1,2) unfolding do_spout_def fbgrow_ops_def fbgrow_spout_def fbgrow_enlarge_def fbgrow_winv_def
    by (auto simp: Let_def ensure_def split: if_splits)
qed

interpretation fbgroww: fb_writer fbgrow_ops fbgrow_winv fbgrow_written
proof
  fix f g bs
  assume f: "fbgrow_winv f"
  then show "\<not> dead f \<and> buffer f \<le> bstop f \<and> bstop f \<le> bptr f \<and> bptr f \<le> bufend f \<and>
      bufend f \<le> length (mem f) \<and> bufend f < 2 ^ 32"
    by (simp add: fbgrow_winv_def)
  show "bptr f + length bs \<le> bufend f \<Longrightarrow> copy_in bs f = Inr g \<Longrightarrow>
      fbgrow_winv g \<and> fbgrow_written g = fbgrow_written f @ bs"
    using f by (auto simp: copy_in_def fbgrow_winv_def fbgrow_written_def split: if_splits)
  assume g: "do_spout fbgrow_ops f = Inr g"
  consider "bptr f < bufend f" | "bptr f = bufend f" "bufend f < 2 ^ 31" | "bptr f = bufend f" "2 ^ 31 \<le> bufend f"
    using f by (auto simp: fbgrow_winv_def) linarith
  then show "fbgrow_winv g \<and> fbgrow_written g = fbgrow_written f \<and> btell g = btell f \<and> die_on_eof g = die_on_eof f \<and> tied g = tied f \<and>
      bptr g < bufend g"
  proof cases
    case 1
    then show ?thesis using f g fbgrow_spout_room [OF f 1]
      by (auto simp: fbgrow_winv_def fbgrow_written_def btell_def)
  next
    case 2
    then show ?thesis using f g fbgrow_spout_full [OF f 2]
      by (auto simp: data_end_def fbgrow_winv_def fbgrow_written_def btell_def)
  next
    case 3
    then show ?thesis using fbgrow_spout_wraps [OF f 3, of g] g by blast
  qed
qed

lemma fbgrow_round:
  assumes "fbgrow_winv f" "bptr f + length b < 2 ^ 31" "b \<noteq> []"
  obtains k g where "bwrite_round fbgrow_ops b f = Inr (drop k b, g)" "0 < k" "k \<le> length b"
    "fbgrow_winv g" "bptr g = bptr f + k"
proof -
  obtain h where h: "(if bavailw f = 0 then bspout fbgrow_ops f else Inr f) = Inr h" "fbgrow_winv h"
    "bptr h = bptr f" "bptr h < bufend h"
  proof (cases "bptr f = bufend f")
    case True
    then have s: "do_spout fbgrow_ops f = Inr (f\<lparr>mem := take (bptr f) (mem f) @ replicate (bptr f) 0,
        bufend := 2 * bptr f, priv := (priv f)\<lparr>gend := Some (bptr f)\<rparr>\<rparr>)" (is "_ = Inr ?h")
      using assms by (intro fbgrow_spout_full) auto
    have "bspout fbgrow_ops f = Inr ?h"
      using s assms(1) True by (simp add: bspout_def fbgrow_winv_def)
    then show thesis
      using that [of ?h] fbgroww.spout_ok [OF assms(1) s] fbgroww.avail [OF assms(1)] True by simp
  next
    case False
    then show thesis
      using that [of f] fbgroww.avail [OF assms(1)] assms(1) by (auto simp: fbgrow_winv_def)
  qed
  define k where "k = min (bavailw h) (length b)"
  have k: "0 < k" "k \<le> length b" "bptr h + k \<le> bufend h"
    using h(4) fbgroww.avail [OF h(2)] assms(3) by (auto simp: k_def)
  then obtain g where g: "copy_in (take k b) h = Inr g"
    using fbgroww.copy_in_ok [OF h(2), of "take k b"] by auto
  have "fbgrow_winv g" using fbgroww.inv_copy [OF h(2) _ g] k by simp
  moreover have "bptr g = bptr f + k"
    using g h(3) k by (auto simp: copy_in_def split: if_splits)
  moreover have "bwrite_round fbgrow_ops b f = Inr (drop k b, g)"
    using g unfolding bwrite_round_def h(1) by (simp add: k_def Let_def)
  ultimately show thesis using that k by blast
qed

lemma fbgrow_bwrite_loop:
  "fbgrow_winv f \<Longrightarrow> bptr f + length b < 2 ^ 31 \<Longrightarrow> \<exists>g. bwrite_loop fbgrow_ops b f = Some (Inr g)"
proof (induction "length b" arbitrary: b f rule: less_induct)
  case less
  show ?case
  proof (cases "b = []")
    case True
    then show ?thesis by (simp add: bwrite_loop.simps)
  next
    case False
    obtain k g where g: "bwrite_round fbgrow_ops b f = Inr (drop k b, g)" "0 < k" "k \<le> length b"
      "fbgrow_winv g" "bptr g = bptr f + k"
      by (rule fbgrow_round [OF less.prems False])
    then obtain h where "bwrite_loop fbgrow_ops (drop k b) g = Some (Inr h)"
      using less.hyps [of "drop k b" g] less.prems False by auto
    then show ?thesis using g(1) False by (simp add: bwrite_loop.simps [of _ b])
  qed
qed

lemma fbgrow_bwrite:
  assumes "fbgrow_winv f" "bptr f + length b < 2 ^ 31"
  obtains g where "bwrite fbgrow_ops b f = Inr g" "fbgrow_winv g" "fbgrow_written g = fbgrow_written f @ b"
    "die_on_eof g = die_on_eof f \<and> tied g = tied f"
proof -
  have "\<exists>g. bwrite fbgrow_ops b f = Inr g"
  proof (cases "length b \<le> bavailw f")
    case True
    then have "bptr f + length b \<le> bufend f"
      using fbgroww.avail [OF assms(1)] fbgroww.inv_wf [OF assms(1)] by linarith
    then show ?thesis using True fbgroww.copy_in_ok [OF assms(1)] by (auto simp: bwrite_def)
  next
    case False
    then show ?thesis using fbgrow_bwrite_loop [OF assms] by (auto simp: bwrite_def bwrite_slow_def)
  qed
  then show thesis
    using that fbgroww.bwrite_writes [OF assms(1)] by (auto simp: fbgroww.writes_def)
qed

lemma fbgrow_flush:
  assumes "fbgrow_winv f" "bptr f < 2 ^ 31"
  obtains g where "bflush fbgrow_ops f = Inr g" "fbgrow_winv g" "fbgrow_written g = fbgrow_written f"
    "bptr g = bptr f" "bptr f \<noteq> 0 \<or> gend (priv f) \<noteq> None \<longrightarrow> gend (priv g) = Some (bptr f)" "die_on_eof g = die_on_eof f \<and> tied g = tied f" "bptr f = 0 \<or> bptr g < bufend g"
proof (cases "bptr f = 0")
  case True
  then show thesis
    using that [of f] assms(1) by (cases "gend (priv f)") (simp_all add: bflush_def fbgrow_winv_def data_end_def)
next
  case False
  have f: "bflush fbgrow_ops f = do_spout fbgrow_ops f"
    using False assms(1) by (simp add: bflush_def fbgrow_winv_def)
  show thesis
  proof (cases "bptr f < bufend f")
    case True
    from fbgrow_spout_room [OF assms(1) True] show thesis
      using f fbgroww.spout_ok [OF assms(1) fbgrow_spout_room [OF assms(1) True]]
      by (intro that [of "f\<lparr>priv := (priv f)\<lparr>gend := Some (bptr f)\<rparr>\<rparr>"]) simp_all
  next
    case full: False
    then have b: "bptr f = bufend f" "bufend f < 2 ^ 31" using assms by (auto simp: fbgrow_winv_def)
    from fbgrow_spout_full [OF assms(1) b] show thesis
      using f fbgroww.spout_ok [OF assms(1) fbgrow_spout_full [OF assms(1) b]]
      by (intro that [of "f\<lparr>mem := take (bptr f) (mem f) @ replicate (bptr f) 0,
        bufend := 2 * bptr f, priv := (priv f)\<lparr>gend := Some (bptr f)\<rparr>\<rparr>"]) simp_all
  qed
qed

text \<open>\<open>fbgrow_at buf n f\<close>: the stream \<open>f\<close> contains \<open>buf\<close> and will be read from position \<open>n\<close>.\<close>

definition fbgrow_at :: "byte list \<Rightarrow> nat \<Rightarrow> fb_gbuf fastbuf \<Rightarrow> bool" where
  "fbgrow_at buf n f \<longleftrightarrow> fbgrow_inv f \<and> fbgrow_data f = buf \<and> btell f = int n \<and> \<not> die_on_eof f"

lemma fbgrow_at_eq: "fbgrow_at = fbgrow.at"
  by (intro ext) (simp add: fbgrow_at_def fbgrow.at_def)

lemma fbgrow_rewind_ok:
  assumes "fbgrow_winv f" "bptr f < 2 ^ 31" "\<not> die_on_eof f" "bptr f \<noteq> 0 \<or> gend (priv f) \<noteq> None"
  obtains g where "fbgrow_rewind f = Inr g" "fbgrow_at (fbgrow_written f) 0 g" "bptr g \<le> bstop g"
proof -
  obtain h where h: "bflush fbgrow_ops f = Inr h" "fbgrow_winv h" "fbgrow_written h = fbgrow_written f"
    "bptr h = bptr f" "bptr f \<noteq> 0 \<or> gend (priv f) \<noteq> None \<longrightarrow> gend (priv h) = Some (bptr f)" "die_on_eof h = die_on_eof f \<and> tied h = tied f" "bptr f = 0 \<or> bptr h < bufend h"
    by (rule fbgrow_flush [OF assms(1,2)])
  show thesis
  proof (cases "bptr f = 0")
    case True
    then show thesis
      using that [of h] h assms(3,4)
      by (auto simp: fbgrow_rewind_def brewind_def bsetpos_def btell_def fbgrow_at_def fbgrow_inv_def
          fbgrow_winv_def fbgrow_data_def fbgrow_written_def)
  next
    case False
    have "do_spout fbgrow_ops h = Inr (h\<lparr>priv := (priv h)\<lparr>gend := Some (bptr h)\<rparr>\<rparr>)"
      using h False by (intro fbgrow_spout_room) auto
    then have "do_seek fbgrow_ops 0 SEEK_SET h = Inr (h\<lparr>priv := (priv h)\<lparr>gend := Some (bptr h)\<rparr>, bptr := 0,
        bstop := 0, pos := 0\<rparr>)" (is "_ = Inr ?g")
      using h(2,4) False
      by (simp add: do_seek_def bflush_def fbgrow_winv_def)
        (simp add: fbgrow_ops_def fbgrow_seek_def Let_def btell_def)
    then have "fbgrow_rewind f = Inr ?g"
      using h False by (simp add: fbgrow_rewind_def brewind_def bsetpos_def btell_def fbgrow_winv_def)
    then show thesis
      using that [of ?g] h assms(3)
      by (simp add: fbgrow_at_def fbgrow_inv_def fbgrow_winv_def fbgrow_data_def fbgrow_written_def btell_def)
  qed
qed

section \<open>Properties\<close>

text \<open>A sequence of writes.\<close>

definition write_each :: "byte list list \<Rightarrow> fb_gbuf fastbuf res \<Rightarrow> fb_gbuf fastbuf res" where
  "write_each bs r = foldl (\<lambda>r b. res_bind r (bwrite fbgrow_ops b)) r bs"

lemma bwrite_nothing: "fbgrow_winv f \<Longrightarrow> bwrite fbgrow_ops [] f = Inr f"
  by (simp add: bwrite_def copy_in_def fbgrow_winv_def)

lemma write_each_ok:
  "fbgrow_winv f \<Longrightarrow> bptr f + length (concat bs) < 2 ^ 31 \<Longrightarrow> \<exists>g. write_each bs (Inr f) = Inr g \<and> fbgrow_winv g \<and>
    fbgrow_written g = fbgrow_written f @ concat bs \<and> die_on_eof g = die_on_eof f \<and> (concat bs = [] \<longrightarrow> g = f)"
proof (induction bs arbitrary: f)
  case (Cons b bs)
  have "bptr f + length b < 2 ^ 31" using Cons.prems(2) by simp
  then obtain g where g: "bwrite fbgrow_ops b f = Inr g" "fbgrow_winv g" "fbgrow_written g = fbgrow_written f @ b"
      "die_on_eof g = die_on_eof f \<and> tied g = tied f"
    using fbgrow_bwrite [OF Cons.prems(1)] by blast
  have l: "bptr h = length (fbgrow_written h)" if "fbgrow_winv h" for h using that by (auto simp: fbgrow_winv_def fbgrow_written_def)
  have "bptr g = bptr f + length b" using l [OF g(2)] l [OF Cons.prems(1)] g(3) by simp
  then obtain h where "write_each bs (Inr g) = Inr h" "fbgrow_winv h" "fbgrow_written h = fbgrow_written g @ concat bs" "die_on_eof h = die_on_eof g"
      "concat bs = [] \<longrightarrow> h = g"
    using Cons.IH [OF g(2)] Cons.prems(2) by auto
  then show ?case using g bwrite_nothing [OF Cons.prems(1)] by (auto simp: write_each_def)
qed (simp add: write_each_def)

text \<open>C14: what is written to a growing buffer is what is read after a rewind. Starting from a created buffer
  of any size, with its memory from a pool or not, and possibly reset, any number of writes of together less than 2 GB succeed however often the buffer has to
  grow; \<open>fbgrow_get_buf\<close> shows the bytes, and after \<open>fbgrow_rewind\<close> the stream reads exactly these bytes and then the end of file.
  If the buffer has not been reset, at least one byte must have been written, as \<open>end\<close> is null before.\<close>

theorem fbgrow_write_read:
  assumes "0 < n" "n < 2 ^ 32" "length (concat bs) < 2 ^ 31" "reset \<or> concat bs \<noteq> []"
  shows "\<exists>f0 f g. fbgrow_create_mp mp n = Inr f0 \<and> write_each bs (Inr (if reset then fbgrow_reset f0 else f0)) = Inr f \<and>
    fbgrow_get_buf f = (length (concat bs), concat bs) \<and> fbgrow_rewind f = Inr g \<and>
    (\<exists>h. bread fbgrow_ops l g = Inr (take l (concat bs), h) \<and>
      (\<exists>h'. bgetc fbgrow_ops h = Inr (if l < length (concat bs) then uint (concat bs ! l) else - 1, h')))"
proof -
  let ?b = "concat bs"
  obtain f0 where c: "fbgrow_create_mp mp n = Inr f0" and f0: "fbgrow_winv f0" "bptr f0 = 0" "\<not> die_on_eof f0"
    using assms(1,2) by (simp add: fbgrow_create_mp_def fbgrow_winv_def data_end_def)
  define f1 where "f1 = (if reset then fbgrow_reset f0 else f0)"
  have f1: "fbgrow_winv f1" "bptr f1 = 0" "\<not> die_on_eof f1" "reset \<longrightarrow> gend (priv f1) \<noteq> None"
    using f0 by (auto simp: f1_def fbgrow_reset_def fbgrow_winv_def data_end_def)
  obtain f where f: "write_each bs (Inr f1) = Inr f" "fbgrow_winv f" "fbgrow_written f = ?b" "\<not> die_on_eof f" "?b = [] \<longrightarrow> f = f1"
    using write_each_ok [OF f1(1), of bs] f1 assms(3) by (auto simp: fbgrow_written_def)
  have p: "bptr f = length ?b" using arg_cong [OF f(3), of length] f(2) by (simp add: fbgrow_written_def fbgrow_winv_def min_def split: if_splits)
  have e: "bptr f \<noteq> 0 \<or> gend (priv f) \<noteq> None" using p f(5) f1(4) assms(4) by (cases "?b = []") auto
  obtain g where g: "fbgrow_rewind f = Inr g" "fbgrow_at ?b 0 g" "bptr g \<le> bstop g"
    by (rule fbgrow_rewind_ok [OF f(2) _ f(4) e]) (use p f(3) assms(3) in auto)
  have r: "fbgrow.ready g" using g by (simp add: fbgrow.ready_def fbgrow_at_def)
  obtain h where h: "bread fbgrow_ops l g = Inr (take l (drop 0 ?b), h)"
    "fbgrow.at ?b (0 + length (take l (drop 0 ?b))) h"
    by (rule fbgrow.bread_at [OF g(2) [unfolded fbgrow_at_eq] r])
  obtain h' where "bgetc fbgrow_ops h = Inr (if 0 + length (take l (drop 0 ?b)) < length ?b
      then uint (?b ! (0 + length (take l (drop 0 ?b)))) else - 1, h')"
    by (rule fbgrow.bgetc_at [OF h(2)])
  moreover have "fbgrow_get_buf f = (length ?b, ?b)"
    using f(2,3) p by (auto simp: fbgrow_get_buf_def fbgrow_winv_def fbgrow_written_def data_end_def Let_def uint_diff_def
        nat_mod_as_int max_def split: option.splits)
  ultimately show ?thesis using c f(1) g(1) h(1) unfolding f1_def by (auto simp: min_def split: if_splits)
qed

theorem fbgrow_write_read_witness:
  "\<exists>f0 f g h. fbgrow_create_mp False 1 = Inr f0 \<and> write_each [[7, 8], [], [9]] (Inr f0) = Inr f \<and>
    fbgrow_rewind f = Inr g \<and> bread fbgrow_ops 2 g = Inr ([7, 8], h)"
  using fbgrow_write_read [of 1 "[[7, 8], [], [9]]" False False 2] by auto

text \<open>Before the first flush or reset \<open>end\<close> is null: a created buffer cannot be read.\<close>

lemma fbgrow_created_unreadable: "fbgrow_create n = Inr f \<Longrightarrow> bgetc fbgrow_ops f = Inl Out_of_bounds"
  by (auto simp: fbgrow_create_def fbgrow_create_mp_def ensure_def bgetc_def bgetc_slow_def brefill_def fbgrow_ops_def fbgrow_refill_def split: if_splits)

lemma fbgrow_bsetpos:
  assumes "fbgrow_at buf n f" "bptr f \<le> bstop f" "0 \<le> p" "p \<le> int (length buf)"
  obtains g where "bsetpos fbgrow_ops p f = Inr g" "fbgrow_at buf (nat p) g"
proof -
  have f: "\<not> dead f" "buffer f = 0" "bptr f = n" "pos f = int (bstop f)" "length buf = data_end f" "gend (priv f) = Some (data_end f)"
    "bstop f \<le> data_end f" "data_end f \<le> bufend f" "\<not> die_on_eof f" "fbgrow_data f = buf"
    "bufend f \<le> length (mem f)" "bufend f < 2 ^ 32" "btell f = int n"
    using assms(1) by (auto simp: fbgrow_at_def fbgrow_inv_def fbgrow_data_def btell_def)
  show thesis
  proof (cases "bptr f < bstop f \<and> p \<le> pos f")
    case True
    then have "bsetpos fbgrow_ops p f = Inr (f\<lparr>bptr := nat p\<rparr>)"
      using f assms by (simp add: bsetpos_def)
    then show thesis
      using that [of "f\<lparr>bptr := nat p\<rparr>"] f True assms(3,4)
      by (simp add: fbgrow_at_def fbgrow_inv_def fbgrow_data_def btell_def nat_le_iff)
  next
    case False
    let ?g = "f\<lparr>bptr := nat p, bstop := 0, pos := 0\<rparr>"
    have s: "do_seek fbgrow_ops p SEEK_SET f = Inr ?g"
      using f assms(2-4)
      by (simp add: do_seek_def bflush_def fbgrow_ops_def fbgrow_seek_def Let_def btell_def ensure_def nat_le_iff)
    show thesis
    proof (cases "p = int n")
      case True
      then have "bsetpos fbgrow_ops p f = Inr f" using False f by (auto simp: bsetpos_def)
      then show thesis using that [of f] assms(1) True by simp
    next
      case other: False
      have "bsetpos fbgrow_ops p f = Inr ?g" using s False other f assms(3) by (auto simp: bsetpos_def)
      then show thesis
        using that [of ?g] f assms(3,4)
        by (simp add: fbgrow_at_def fbgrow_inv_def fbgrow_data_def btell_def)
    qed
  qed
qed

text \<open>C30: seeking in a growing buffer that is being read (\<open>bptr \<le> bstop\<close>, as every read leaves it): every position inside the data and
  their end can be reached, the character read from there is that of the data, at the end it is the end of file, and the stream
  is then at the position behind it, respectively still at the end.\<close>

theorem fbgrow_seek_getc:
  assumes "fbgrow_at buf n f" "bptr f \<le> bstop f" "p \<le> length buf"
  shows "\<exists>g h. bsetpos fbgrow_ops (int p) f = Inr g \<and> btell g = int p \<and>
    bgetc fbgrow_ops g = Inr (if p < length buf then uint (buf ! p) else - 1, h) \<and>
    fbgrow_at buf (if p < length buf then p + 1 else p) h \<and> bptr h \<le> bstop h"
proof -
  obtain g where g: "bsetpos fbgrow_ops (int p) f = Inr g" "fbgrow_at buf (nat (int p)) g"
    by (rule fbgrow_bsetpos [OF assms(1,2), of "int p"]) (use assms(3) in auto)
  obtain h where "fbgrow.at buf (if p < length buf then p + 1 else p) h" "fbgrow.ready h"
    "bgetc fbgrow_ops g = Inr (if p < length buf then uint (buf ! p) else - 1, h)"
    by (rule fbgrow.bgetc_at [of buf p g]) (use g(2) in \<open>auto simp: fbgrow_at_eq\<close>)
  then show ?thesis
    using g by (auto simp: fbgrow_at_eq fbgrow.ready_def fbgrow.at_def)
qed

theorem fbgrow_seek_getc_witness:
  "let f = \<lparr>bptr = 2, bstop = 3, mem = [7, 8, 9, 0], buffer = 0, bufend = 4, pos = 3,
      dead = False, die_on_eof = False, tied = False, priv = \<lparr>has_mp = False, gend = Some 3\<rparr>\<rparr> in
    (\<exists>g h. bsetpos fbgrow_ops (int 1) f = Inr g \<and> bgetc fbgrow_ops g = Inr (8, h)) \<and>
    (\<exists>g h. bsetpos fbgrow_ops (int 3) f = Inr g \<and> bgetc fbgrow_ops g = Inr (- 1, h))"
proof -
  define f :: "fb_gbuf fastbuf" where "f = \<lparr>bptr = 2, bstop = 3, mem = [7, 8, 9, 0], buffer = 0, bufend = 4, pos = 3,
      dead = False, die_on_eof = False, tied = False, priv = \<lparr>has_mp = False, gend = Some 3\<rparr>\<rparr>"
  have "fbgrow_at [7, 8, 9] 2 f" "bptr f \<le> bstop f"
    by (simp_all add: f_def fbgrow_at_def fbgrow_inv_def fbgrow_data_def data_end_def btell_def)
  then show ?thesis using fbgrow_seek_getc [of "[7, 8, 9]" 2 f 1] fbgrow_seek_getc [of "[7, 8, 9]" 2 f 3] unfolding f_def [symmetric] Let_def by auto
qed

text \<open>After such a seek the stream is flushed with \<open>bstop < bptr\<close>, a state \<open>fastbuf.h\<close> allows.
  There \<open>bavailr\<close> wraps around, so a block read takes its fast path and returns memory behind the end
  of the data: with three bytes written and the position at 1, reading five bytes returns five.\<close>

lemma fbgrow_bread_overreads:
  "\<exists>f0 f g h. fbgrow_create 8 = Inr f0 \<and> bwrite fbgrow_ops [7, 8, 9] f0 = Inr f \<and>
    bsetpos fbgrow_ops 1 f = Inr g \<and> bread fbgrow_ops 5 g = Inr ([8, 9, 0, 0, 0], h) \<and>
    fbgrow_get_buf f = (3, [7, 8, 9])"
proof -
  let ?f = "\<lparr>bptr = 3, bstop = 0, mem = [7, 8, 9, 0, 0, 0, 0, 0], buffer = 0, bufend = 8, pos = 0,
    dead = False, die_on_eof = False, tied = False, priv = \<lparr>has_mp = False, gend = None\<rparr>\<rparr> :: fb_gbuf fastbuf"
  let ?g = "\<lparr>bptr = 1, bstop = 0, mem = [7, 8, 9, 0, 0, 0, 0, 0], buffer = 0, bufend = 8, pos = 0,
    dead = False, die_on_eof = False, tied = False, priv = \<lparr>has_mp = False, gend = Some 3\<rparr>\<rparr> :: fb_gbuf fastbuf"
  have "replicate 8 (0 :: byte) = [0, 0, 0, 0, 0, 0, 0, 0]" by (simp add: numeral_eq_Suc)
  then obtain f0 where f0: "fbgrow_create 8 = Inr f0" "bwrite fbgrow_ops [7, 8, 9] f0 = Inr ?f"
    by (simp add: fbgrow_create_def fbgrow_create_mp_def bwrite_def bavailw_def uint_diff_def copy_in_def)
  have "bsetpos fbgrow_ops 1 ?f = Inr ?g"
    by (simp add: bsetpos_def btell_def do_seek_def bflush_def do_spout_def fbgrow_ops_def
        fbgrow_spout_def fbgrow_seek_def Let_def)
  moreover have "\<exists>h. bread fbgrow_ops 5 ?g = Inr ([8, 9, 0, 0, 0], h)"
    by (simp add: bread_def bavailr_def uint_diff_def copy_out_def)
  moreover have "fbgrow_get_buf ?f = (3, [7, 8, 9])"
    by (simp add: fbgrow_get_buf_def uint_diff_def Let_def)
  ultimately show ?thesis using f0 by blast
qed

end
