(* ===== verification/Fb_Mem.thy ===== *)
theory Fb_Mem
  imports Fastbuf
begin

text \<open>
  \<open>ucw/fb-mem.c\<close>: memory streams, a list of blocks of a fixed size filled by one writing stream and
  read by any number of reading streams. The linked list of the blocks is a list and a pointer to a
  block its index. A stream's buffer is the data of its current block; the copy of the data kept in
  the list is brought up to date by \<open>fbmem_spout\<close>, before which no reader looks at it. Memory
  obtained from \<open>xmalloc\<close> is filled with zeroes here.
\<close>

section \<open>Data and callbacks\<close>

record msblock =
  mpos :: int
  msize :: nat
  mdata :: "byte list"

record memstream =
  blocksize :: nat
  uc :: nat
  blocks :: "msblock list"

record fb_mem =
  stream :: memstream
  block :: "nat option"

text \<open>The tail of \<open>fbmem_refill\<close>: the buffer becomes block \<open>j\<close>, unless it is empty.\<close>

definition fbmem_enter :: "nat \<Rightarrow> fb_mem fastbuf \<Rightarrow> (bool \<times> fb_mem fastbuf) res" where
  "fbmem_enter j f =
    (let b = blocks (stream (priv f)) ! j in
     if msize b = 0 then Inr (False, f)
     else Inr (True, f\<lparr>bptr := 0, bstop := msize b, mem := mdata b, buffer := 0, bufend := msize b,
       pos := mpos b + int (msize b), priv := (priv f)\<lparr>block := Some j\<rparr>\<rparr>))"

definition fbmem_refill :: "fb_mem fastbuf \<Rightarrow> (bool \<times> fb_mem fastbuf) res" where
  "fbmem_refill f =
    (let bs = blocks (stream (priv f)) in
     case block (priv f) of
       None \<Rightarrow> if bs = [] then Inr (False, f) else fbmem_enter 0 f
     | Some i \<Rightarrow> let b = bs ! i in
         if buffer f = 0 \<and> bstop f < msize b
         then Inr (True, f\<lparr>bstop := msize b, mem := mdata b, pos := mpos b + int (msize b)\<rparr>)
         else if length bs \<le> i + 1 then Inr (False, f)
         else fbmem_enter (i + 1) f)"

text \<open>The tail of \<open>fbmem_spout\<close>: a new block at position \<open>p\<close> behind the blocks \<open>bs\<close>.\<close>

definition fbmem_new_block :: "msblock list \<Rightarrow> int \<Rightarrow> fb_mem fastbuf \<Rightarrow> fb_mem fastbuf" where
  "fbmem_new_block bs p f =
    (let s = stream (priv f); bb = \<lparr>mpos = p, msize = 0, mdata = replicate (blocksize s) 0\<rparr> in
     f\<lparr>bptr := 0, bstop := 0, mem := mdata bb, buffer := 0, bufend := blocksize s, pos := p,
       priv := \<lparr>stream = s\<lparr>blocks := bs @ [bb]\<rparr>, block = Some (length bs)\<rparr>\<rparr>)"

definition fbmem_spout :: "fb_mem fastbuf \<Rightarrow> fb_mem fastbuf res" where
  "fbmem_spout f =
    (let s = stream (priv f) in
     case block (priv f) of
       Some i \<Rightarrow>
         let b = (blocks s ! i)\<lparr>msize := bptr f, mdata := mem f\<rparr>; bs = (blocks s)[i := b] in
         if msize b < blocksize s then Inr (f\<lparr>priv := (priv f)\<lparr>stream := s\<lparr>blocks := bs\<rparr>\<rparr>\<rparr>)
         else Inr (fbmem_new_block (take (i + 1) bs) (mpos b + int (msize b)) f)
     | None \<Rightarrow> Inr (fbmem_new_block [] 0 f))"

fun find_block :: "int \<Rightarrow> nat \<Rightarrow> msblock list \<Rightarrow> (nat \<times> msblock) option" where
  "find_block p i [] = None"
| "find_block p i (b # bs) =
    (if p \<le> mpos b + int (msize b) then Some (i, b) else find_block p (i + 1) bs)"

definition fbmem_seek :: "fb_mem fastbuf \<Rightarrow> int \<Rightarrow> seek_whence \<Rightarrow> (bool \<times> fb_mem fastbuf) res" where
  "fbmem_seek f p whence = ensure (whence = SEEK_SET \<or> whence = SEEK_END)
    (let bs = blocks (stream (priv f));
         p = (if whence = SEEK_END then p + (\<Sum>b\<leftarrow>bs. int (msize b)) else p)
     in case find_block p 0 bs of
          Some (i, b) \<Rightarrow> if p < mpos b then Inl Out_of_bounds
            else Inr (True, f\<lparr>bptr := nat (p - mpos b), bstop := 0, mem := mdata b, buffer := 0,
              bufend := msize b, pos := mpos b, priv := (priv f)\<lparr>block := Some i\<rparr>\<rparr>)
        | None \<Rightarrow> if bs = [] \<and> p = 0
            then Inr (True, f\<lparr>bptr := 0, bstop := 0, mem := [], buffer := 0, bufend := 0, pos := 0,
              priv := (priv f)\<lparr>block := None\<rparr>\<rparr>)
            else bthrow f ''seek'')"

definition fbmem_close :: "fb_mem fastbuf \<Rightarrow> fb_mem res" where
  "fbmem_close f =
    (let s = stream (priv f); n = uc s - 1 in
     Inr ((priv f)\<lparr>stream := s\<lparr>uc := n, blocks := (if n = 0 then [] else blocks s)\<rparr>\<rparr>))"

definition fbmem_write_ops :: "fb_mem fb_ops" where
  "fbmem_write_ops = \<lparr>refill = None, spout = Some fbmem_spout, seek = None, close = Some fbmem_close,
     config = None\<rparr>"

definition fbmem_read_ops :: "fb_mem fb_ops" where
  "fbmem_read_ops = \<lparr>refill = Some fbmem_refill, spout = None, seek = Some fbmem_seek,
     close = Some fbmem_close, config = None\<rparr>"

text \<open>A zeroed \<open>struct fastbuf\<close> on a stream.\<close>

definition fbmem_null :: "memstream \<Rightarrow> fb_mem fastbuf" where
  "fbmem_null s = \<lparr>bptr = 0, bstop = 0, mem = [], buffer = 0, bufend = 0, pos = 0, dead = False,
     die_on_eof = False, tied = False, priv = \<lparr>stream = s, block = None\<rparr>\<rparr>"

definition fbmem_create :: "nat \<Rightarrow> fb_mem fastbuf" where
  "fbmem_create bsize = fbmem_null \<lparr>blocksize = bsize, uc = 1, blocks = []\<rparr>"

definition fbmem_clone_read :: "fb_mem fastbuf \<Rightarrow> (fb_mem fastbuf \<times> fb_mem fastbuf) res" where
  "fbmem_clone_read b = res_bind (bflush fbmem_write_ops b) (\<lambda>b.
     let s = (stream (priv b))\<lparr>uc := uc (stream (priv b)) + 1\<rparr> in
     Inr (b\<lparr>priv := (priv b)\<lparr>stream := s\<rparr>\<rparr>, fbmem_null s))"

section \<open>The stream as a byte string\<close>

definition flushed :: "msblock \<Rightarrow> byte list" where
  "flushed b = take (msize b) (mdata b)"

text \<open>All blocks but the last one are full.\<close>

definition ms_wf :: "memstream \<Rightarrow> bool" where
  "ms_wf s \<longleftrightarrow> 0 < blocksize s \<and> blocksize s < 2 ^ 32 \<and>
     (\<forall>i < length (blocks s). mpos (blocks s ! i) = int (i * blocksize s) \<and>
        length (mdata (blocks s ! i)) = blocksize s \<and> msize (blocks s ! i) \<le> blocksize s \<and>
        (i + 1 < length (blocks s) \<longrightarrow> msize (blocks s ! i) = blocksize s))"

definition ms_data :: "memstream \<Rightarrow> byte list" where
  "ms_data s = concat (map flushed (blocks s))"

lemma ms_prefix_length:
  assumes "ms_wf s" "i < length (blocks s)"
  shows "length (concat (map flushed (take i (blocks s)))) = i * blocksize s"
  using assms(2)
proof (induction i)
  case (Suc i)
  then have "length (flushed (blocks s ! i)) = blocksize s"
    using assms(1) by (simp add: ms_wf_def flushed_def)
  then show ?case using Suc by (simp add: take_Suc_conv_app_nth)
qed simp

lemma ms_split:
  assumes "ms_wf s" "i < length (blocks s)"
  obtains pre post where "ms_data s = pre @ flushed (blocks s ! i) @ post" "length pre = i * blocksize s"
    "i + 1 = length (blocks s) \<longrightarrow> post = []"
proof -
  have "blocks s = take i (blocks s) @ blocks s ! i # drop (Suc i) (blocks s)"
    by (rule id_take_nth_drop [OF assms(2)])
  then have "ms_data s = concat (map flushed (take i (blocks s))) @ flushed (blocks s ! i) @
      concat (map flushed (drop (Suc i) (blocks s)))"
    unfolding ms_data_def by (metis concat.simps(2) concat_append list.simps(9) map_append)
  then show thesis using that ms_prefix_length [OF assms] by simp
qed

section \<open>Writing\<close>

definition fbmem_winv :: "fb_mem fastbuf \<Rightarrow> bool" where
  "fbmem_winv f \<longleftrightarrow> \<not> dead f \<and> buffer f = 0 \<and> bstop f = 0 \<and> bptr f \<le> bufend f \<and>
     bufend f = length (mem f) \<and> ms_wf (stream (priv f)) \<and>
     (case block (priv f) of
        None \<Rightarrow> bufend f = 0 \<and> pos f = 0 \<and> blocks (stream (priv f)) = []
      | Some i \<Rightarrow> i + 1 = length (blocks (stream (priv f))) \<and> bufend f = blocksize (stream (priv f)) \<and>
          pos f = mpos (blocks (stream (priv f)) ! i) \<and> msize (blocks (stream (priv f)) ! i) \<le> bptr f)"

definition fbmem_written :: "fb_mem fastbuf \<Rightarrow> byte list" where
  "fbmem_written f = concat (map flushed (butlast (blocks (stream (priv f))))) @ take (bptr f) (mem f)"

text \<open>The well-formedness of a list of blocks, last block apart.\<close>

definition full_blocks :: "nat \<Rightarrow> msblock list \<Rightarrow> bool" where
  "full_blocks n bs \<longleftrightarrow> (\<forall>i < length bs. mpos (bs ! i) = int (i * n) \<and>
     length (mdata (bs ! i)) = n \<and> msize (bs ! i) = n)"

lemma full_blocks_snoc: "full_blocks n (bs @ [b]) \<longleftrightarrow>
  full_blocks n bs \<and> mpos b = int (length bs * n) \<and> length (mdata b) = n \<and> msize b = n"
  by (auto simp: full_blocks_def nth_append less_Suc_eq)

lemma ms_wf_snoc: "blocks s = bs @ [b] \<Longrightarrow> ms_wf s \<longleftrightarrow> 0 < blocksize s \<and> blocksize s < 2 ^ 32 \<and>
  full_blocks (blocksize s) bs \<and> mpos b = int (length bs * blocksize s) \<and>
  length (mdata b) = blocksize s \<and> msize b \<le> blocksize s"
  by (auto simp: ms_wf_def full_blocks_def nth_append less_Suc_eq)

lemma fbmem_spout_ok:
  assumes "fbmem_winv f" "fbmem_spout f = Inr g"
  shows "fbmem_winv g \<and> fbmem_written g = fbmem_written f \<and> btell g = btell f \<and>
    die_on_eof g = die_on_eof f \<and> tied g = tied f \<and> bptr g < bufend g \<and> ms_data (stream (priv g)) = fbmem_written f"
proof (cases "block (priv f)")
  case None
  then have "blocks (stream (priv f)) = []" "mem f = []" "buffer f = 0" "pos f = 0" "\<not> dead f" "bptr f = 0" "bstop f = 0"
    "0 < blocksize (stream (priv f))" "blocksize (stream (priv f)) < 2 ^ 32"
    using assms(1) by (auto simp: fbmem_winv_def ms_wf_def)
  then show ?thesis using None assms(2)
    by (auto simp: fbmem_spout_def fbmem_new_block_def fbmem_winv_def fbmem_written_def ms_wf_snoc [where bs = "[]"]
        full_blocks_def btell_def ms_data_def flushed_def Let_def)
next
  case (Some i)
  define s where "s = stream (priv f)"
  obtain bs x where bl: "blocks s = bs @ [x]" "i = length bs"
    using assms(1) Some by (cases "blocks s" rule: rev_cases) (auto simp: fbmem_winv_def s_def)
  define b where "b = x\<lparr>msize := bptr f, mdata := mem f\<rparr>"
  have wf: "ms_wf s" using assms(1) by (simp add: fbmem_winv_def s_def)
  have f: "0 < blocksize s" "blocksize s < 2 ^ 32" "full_blocks (blocksize s) bs"
    "mpos b = int (length bs * blocksize s)" "bptr f \<le> blocksize s" "bufend f = blocksize s"
    "pos f = mpos b" "length (mem f) = blocksize s" "\<not> dead f" "buffer f = 0" "bstop f = 0"
    using assms(1) Some bl wf unfolding ms_wf_snoc [OF bl(1)] by (auto simp: fbmem_winv_def b_def s_def)
  have w: "fbmem_written f = concat (map flushed (bs @ [b]))"
    by (simp add: fbmem_written_def s_def [symmetric] bl flushed_def b_def)
  show ?thesis
  proof (cases "bptr f < blocksize s")
    case True
    then have "g = f\<lparr>priv := (priv f)\<lparr>stream := s\<lparr>blocks := bs @ [b]\<rparr>\<rparr>\<rparr>"
      using assms(2) Some bl by (simp add: fbmem_spout_def s_def b_def Let_def)
    then show ?thesis
      using f True Some bl w
      by (simp add: fbmem_winv_def ms_wf_snoc b_def [symmetric] fbmem_written_def btell_def ms_data_def flushed_def)
        (simp add: b_def)
  next
    case False
    then have p: "bptr f = blocksize s" using f by simp
    then have "g = fbmem_new_block (bs @ [b]) (mpos b + int (blocksize s)) f"
      using assms(2) Some bl False by (simp add: fbmem_spout_def s_def b_def Let_def)
    then show ?thesis
      using f p w
      by (simp add: fbmem_new_block_def fbmem_winv_def ms_wf_snoc full_blocks_snoc fbmem_written_def
          btell_def ms_data_def flushed_def s_def [symmetric] Let_def)
        (simp add: b_def algebra_simps nth_append butlast_append flushed_def)
  qed
qed

lemma fbmem_spout_total: "fbmem_winv f \<Longrightarrow> \<exists>g. do_spout fbmem_write_ops f = Inr g"
proof -
  assume f: "fbmem_winv f"
  have "\<exists>g. fbmem_spout f = Inr g"
    by (simp add: fbmem_spout_def Let_def split: option.split)
  then obtain g where g: "fbmem_spout f = Inr g" by blast
  with fbmem_spout_ok [OF f g] f show ?thesis
    by (auto simp: do_spout_def fbmem_write_ops_def fbmem_winv_def)
qed

lemma fbmem_do_spout: "do_spout fbmem_write_ops f = Inr g \<Longrightarrow> fbmem_spout f = Inr g"
  by (auto simp: do_spout_def fbmem_write_ops_def ensure_def res_bind_Inr split: if_splits)

interpretation fbmemw: fb_writer_total fbmem_write_ops fbmem_winv fbmem_written
proof
  fix f g bs
  assume f: "fbmem_winv f"
  then show "\<not> dead f \<and> buffer f \<le> bstop f \<and> bstop f \<le> bptr f \<and> bptr f \<le> bufend f \<and>
      bufend f \<le> length (mem f) \<and> bufend f < 2 ^ 32"
    by (auto simp: fbmem_winv_def ms_wf_def split: option.splits)
  show "bptr f + length bs \<le> bufend f \<Longrightarrow> copy_in bs f = Inr g \<Longrightarrow>
      fbmem_winv g \<and> fbmem_written g = fbmem_written f @ bs"
    using f by (auto simp: copy_in_def fbmem_winv_def fbmem_written_def split: if_splits option.splits)
  show "do_spout fbmem_write_ops f = Inr g \<Longrightarrow>
      fbmem_winv g \<and> fbmem_written g = fbmem_written f \<and> btell g = btell f \<and> die_on_eof g = die_on_eof f \<and> tied g = tied f \<and>
      bptr g < bufend g"
    using fbmem_spout_ok [OF f fbmem_do_spout] by blast
  show "\<exists>g. do_spout fbmem_write_ops f = Inr g" by (rule fbmem_spout_total [OF f])
qed

section \<open>Reading\<close>

definition fbmem_inv :: "fb_mem fastbuf \<Rightarrow> bool" where
  "fbmem_inv f \<longleftrightarrow> \<not> dead f \<and> buffer f = 0 \<and> ms_wf (stream (priv f)) \<and>
     (case block (priv f) of
        None \<Rightarrow> bptr f = 0 \<and> bstop f = 0 \<and> bufend f = 0 \<and> pos f = 0
      | Some i \<Rightarrow> i < length (blocks (stream (priv f))) \<and>
          (let b = blocks (stream (priv f)) ! i in
             mem f = mdata b \<and> bufend f = msize b \<and> pos f = mpos b + int (bstop f) \<and>
             (bstop f = msize b \<and> bptr f \<le> bstop f \<or> bstop f = 0 \<and> bptr f < msize b)))"

definition fbmem_data :: "fb_mem fastbuf \<Rightarrow> byte list" where
  "fbmem_data f = ms_data (stream (priv f))"

lemma fbmem_block:
  assumes "ms_wf s" "j < length (blocks s)" "b = blocks s ! j"
  obtains pre post where "ms_data s = pre @ flushed b @ post" "mpos b = int (length pre)"
    "length (flushed b) = msize b" "length (mdata b) = blocksize s" "msize b \<le> blocksize s"
    "j + 1 < length (blocks s) \<longrightarrow> msize b = blocksize s \<and> mpos (blocks s ! (j + 1)) = mpos b + int (msize b)"
    "j + 1 = length (blocks s) \<or> msize b = 0 \<longrightarrow> post = []"
proof -
  have b: "mpos b = int (j * blocksize s)" "length (mdata b) = blocksize s" "msize b \<le> blocksize s"
    "j + 1 < length (blocks s) \<longrightarrow> msize b = blocksize s \<and> mpos (blocks s ! (j + 1)) = mpos b + int (msize b)"
    "0 < blocksize s"
    using assms by (auto simp: ms_wf_def algebra_simps)
  obtain pre post where p: "ms_data s = pre @ flushed b @ post" "length pre = j * blocksize s"
    "j + 1 = length (blocks s) \<longrightarrow> post = []"
    using ms_split [OF assms(1,2)] unfolding assms(3) by metis
  have "length (flushed b) = msize b" using b by (simp add: flushed_def)
  moreover have "j + 1 = length (blocks s) \<or> msize b = 0 \<longrightarrow> post = []"
    using p(3) b(4,5) assms(2) by (cases "j + 1 < length (blocks s)") auto
  ultimately show thesis using that p b by simp
qed

lemma fbmem_enter_ok:
  assumes "fbmem_inv f" "j < length (blocks (stream (priv f)))" "btell f = mpos (blocks (stream (priv f)) ! j)"
    "bptr f = bstop f"
  shows "\<exists>ok f'. fbmem_enter j f = Inr (ok, f') \<and> fbmem_inv f' \<and> bptr f' \<le> bstop f' \<and>
    fbmem_data f' = fbmem_data f \<and> btell f' = btell f \<and> die_on_eof f' = die_on_eof f \<and> tied f' = tied f \<and>
    (ok \<longleftrightarrow> bptr f' < bstop f') \<and> (ok \<longleftrightarrow> btell f < int (length (fbmem_data f)))"
proof -
  define b where "b = blocks (stream (priv f)) ! j"
  have wf: "ms_wf (stream (priv f))" using assms(1) by (simp add: fbmem_inv_def)
  obtain pre post where p: "ms_data (stream (priv f)) = pre @ flushed b @ post" "mpos b = int (length pre)"
    "length (flushed b) = msize b" "length (mdata b) = blocksize (stream (priv f))" "msize b \<le> blocksize (stream (priv f))"
    "j + 1 < length (blocks (stream (priv f))) \<longrightarrow> msize b = blocksize (stream (priv f)) \<and>
      mpos (blocks (stream (priv f)) ! (j + 1)) = mpos b + int (msize b)"
    "j + 1 = length (blocks (stream (priv f))) \<or> msize b = 0 \<longrightarrow> post = []"
    by (rule fbmem_block [OF wf assms(2) b_def])
  show ?thesis
  proof (cases "msize b = 0")
    case True
    then show ?thesis
      using assms p by (auto simp: fbmem_enter_def b_def [symmetric] fbmem_data_def)
  next
    case False
    then show ?thesis
      using assms p wf
      by (auto simp: fbmem_enter_def b_def [symmetric] fbmem_data_def fbmem_inv_def btell_def Let_def)
  qed
qed

lemma fbmem_window:
  assumes "fbmem_inv f" "bptr f \<le> bstop f"
  shows "take (bstop f - bptr f) (drop (nat (btell f)) (fbmem_data f)) = window f"
proof (cases "bptr f = bstop f")
  case True
  then show ?thesis by (simp add: window_def)
next
  case False
  then obtain i where i: "block (priv f) = Some i" using assms by (auto simp: fbmem_inv_def split: option.splits)
  define s b where "s = stream (priv f)" and "b = blocks s ! i"
  have f: "ms_wf s" "i < length (blocks s)" "mem f = mdata b" "bstop f = msize b" "bptr f \<le> msize b"
    "btell f = mpos b + int (bptr f)"
    using assms False i by (auto simp: fbmem_inv_def Let_def s_def b_def btell_def)
  obtain pre post where p: "ms_data s = pre @ flushed b @ post" "mpos b = int (length pre)"
    "length (flushed b) = msize b"
    by (rule fbmem_block [OF f(1,2) b_def]) blast
  have "nat (btell f) = length pre + bptr f" using f(6) p(2) by simp
  then have "take (bstop f - bptr f) (drop (nat (btell f)) (fbmem_data f)) = drop (bptr f) (flushed b)"
    using p f by (simp add: fbmem_data_def s_def [symmetric])
  also have "\<dots> = window f" using f by (simp add: window_def flushed_def drop_take)
  finally show ?thesis .
qed

lemma fbmem_refill_ok:
  assumes "fbmem_inv f" "bstop f \<le> bptr f"
  shows "\<exists>ok f'. fbmem_refill f = Inr (ok, f') \<and> fbmem_inv f' \<and> bptr f' \<le> bstop f' \<and>
    fbmem_data f' = fbmem_data f \<and> btell f' = btell f \<and> die_on_eof f' = die_on_eof f \<and> tied f' = tied f \<and>
    (ok \<longleftrightarrow> bptr f' < bstop f') \<and> (ok \<longleftrightarrow> btell f < int (length (fbmem_data f)))"
proof (cases "block (priv f)")
  case None
  then have n: "bptr f = 0" "bstop f = 0" "pos f = 0" "ms_wf (stream (priv f))"
    using assms(1) by (auto simp: fbmem_inv_def)
  show ?thesis
  proof (cases "blocks (stream (priv f)) = []")
    case True
    then show ?thesis
      using None n assms(1) by (auto simp: fbmem_refill_def fbmem_data_def ms_data_def btell_def)
  next
    case False
    then show ?thesis
      using fbmem_enter_ok [OF assms(1), of 0] None n by (auto simp: fbmem_refill_def btell_def ms_wf_def)
  qed
next
  case (Some i)
  define s b where "s = stream (priv f)" and "b = blocks s ! i"
  have f: "ms_wf s" "i < length (blocks s)" "buffer f = 0" "mem f = mdata b" "pos f = mpos b + int (bstop f)"
    "bufend f = msize b" "bstop f = msize b \<and> bptr f = bstop f \<or> bstop f = 0 \<and> bptr f < msize b"
    using assms Some by (auto simp: fbmem_inv_def Let_def s_def b_def)
  obtain pre post where p: "ms_data s = pre @ flushed b @ post" "mpos b = int (length pre)"
    "length (flushed b) = msize b" "length (mdata b) = blocksize s" "msize b \<le> blocksize s"
    "i + 1 < length (blocks s) \<longrightarrow> msize b = blocksize s \<and> mpos (blocks s ! (i + 1)) = mpos b + int (msize b)"
    "i + 1 = length (blocks s) \<or> msize b = 0 \<longrightarrow> post = []"
    by (rule fbmem_block [OF f(1,2) b_def])
  consider "bstop f = 0" "bptr f < msize b" | "bstop f = msize b" "bptr f = msize b" "i + 1 < length (blocks s)"
    | "bstop f = msize b" "bptr f = msize b" "i + 1 = length (blocks s)"
    using f(2,7) by force
  then show ?thesis
  proof cases
    case 1
    then have "fbmem_refill f = Inr (True, f\<lparr>bstop := msize b, mem := mdata b, pos := mpos b + int (msize b)\<rparr>)"
      using Some f(3) by (simp add: fbmem_refill_def s_def [symmetric] b_def [symmetric] Let_def)
    then show ?thesis
      using 1 f p Some assms(1)
      by (auto simp: fbmem_inv_def btell_def fbmem_data_def s_def [symmetric] b_def [symmetric] Let_def)
  next
    case 2
    then have "fbmem_refill f = fbmem_enter (i + 1) f"
      using Some by (simp add: fbmem_refill_def s_def [symmetric] b_def [symmetric] Let_def)
    then show ?thesis
      using fbmem_enter_ok [OF assms(1), of "i + 1"] 2 f(5) p(6) by (simp add: btell_def s_def [symmetric])
  next
    case 3
    then have "fbmem_refill f = Inr (False, f)"
      using Some by (simp add: fbmem_refill_def s_def [symmetric] b_def [symmetric] Let_def)
    then show ?thesis
      using assms(1) 3 f(5) p by (auto simp: btell_def fbmem_data_def s_def [symmetric])
  qed
qed

interpretation fbmem: fb_reader fbmem_read_ops fbmem_inv fbmem_data
proof
  fix f k
  assume f: "fbmem_inv f"
  show "\<not> dead f \<and> buffer f \<le> bptr f \<and> buffer f \<le> bstop f \<and> bptr f \<le> bufend f \<and>
      bstop f \<le> bufend f \<and> bufend f \<le> length (mem f) \<and> bufend f < 2 ^ 32 \<and> 0 \<le> btell f"
    using f by (auto simp: fbmem_inv_def Let_def ms_wf_def btell_def split: option.splits)
  show "bptr f \<le> bstop f \<Longrightarrow> take (bstop f - bptr f) (drop (nat (btell f)) (fbmem_data f)) = window f"
    by (rule fbmem_window [OF f])
  show "bptr f \<le> bstop f \<Longrightarrow> buffer f \<le> k \<Longrightarrow> k \<le> bstop f \<Longrightarrow>
      fbmem_inv (f\<lparr>bptr := k\<rparr>) \<and> fbmem_data (f\<lparr>bptr := k\<rparr>) = fbmem_data f"
    using f by (auto simp: fbmem_inv_def fbmem_data_def Let_def split: option.splits)
  show "bstop f \<le> bptr f \<Longrightarrow> \<exists>r ok f'. refill fbmem_read_ops = Some r \<and> r f = Inr (ok, f') \<and> fbmem_inv f' \<and>
        bptr f' \<le> bstop f' \<and> fbmem_data f' = fbmem_data f \<and> btell f' = btell f \<and>
        die_on_eof f' = die_on_eof f \<and> tied f' = tied f \<and> (ok \<longleftrightarrow> bptr f' < bstop f') \<and>
        (ok \<longleftrightarrow> btell f < int (length (fbmem_data f)))"
    using fbmem_refill_ok [OF f] by (simp add: fbmem_read_ops_def)
qed

section \<open>Properties\<close>

text \<open>\<open>fbmem_at buf n f\<close>: the stream \<open>f\<close> contains \<open>buf\<close> and will be read from position \<open>n\<close>.\<close>

definition fbmem_at :: "byte list \<Rightarrow> nat \<Rightarrow> fb_mem fastbuf \<Rightarrow> bool" where
  "fbmem_at buf n f \<longleftrightarrow> fbmem_inv f \<and> fbmem_data f = buf \<and> btell f = int n \<and> \<not> die_on_eof f"

lemma fbmem_at_eq: "fbmem_at = fbmem.at"
  by (intro ext) (simp add: fbmem_at_def fbmem.at_def)

primrec write_all :: "'b fb_ops \<Rightarrow> byte list list \<Rightarrow> 'b fastbuf \<Rightarrow> 'b fastbuf res" where
  "write_all ops [] f = Inr f"
| "write_all ops (b # bs) f = res_bind (bwrite ops b f) (write_all ops bs)"

lemma write_all_total: "fbmem_winv f \<Longrightarrow> \<exists>g. write_all fbmem_write_ops bs f = Inr g \<and> fbmemw.writes f (concat bs) g"
proof (induction bs arbitrary: f)
  case Nil
  then show ?case by (simp add: fbmemw.writes_refl)
next
  case (Cons b bs)
  obtain g where g: "bwrite fbmem_write_ops b f = Inr g" "fbmemw.writes f b g"
    using fbmemw.bwrite_total [OF Cons.prems] by blast
  with Cons.IH [OF fbmemw.writes_inv [OF g(2)]] show ?case
    using fbmemw.writes_trans by fastforce
qed

lemma fbmem_create_winv: "0 < n \<Longrightarrow> n < 2 ^ 32 \<Longrightarrow> fbmem_winv (fbmem_create n) \<and> fbmem_written (fbmem_create n) = []"
  by (simp add: fbmem_create_def fbmem_null_def fbmem_winv_def fbmem_written_def ms_wf_def)

lemma fbmem_flush:
  assumes "fbmem_winv f"
  obtains g where "bflush fbmem_write_ops f = Inr g" "fbmem_winv g" "ms_data (stream (priv g)) = fbmem_written f"
proof (cases "0 < bptr f")
  case True
  then have "bflush fbmem_write_ops f = do_spout fbmem_write_ops f"
    using assms by (simp add: bflush_def fbmem_winv_def)
  then show thesis
    using that fbmem_spout_total [OF assms] fbmem_spout_ok [OF assms fbmem_do_spout] by metis
next
  case False
  have "ms_data (stream (priv f)) = fbmem_written f"
  proof (cases "block (priv f)")
    case None
    then show ?thesis using assms by (auto simp: fbmem_winv_def ms_data_def fbmem_written_def)
  next
    case (Some i)
    obtain bs x where "blocks (stream (priv f)) = bs @ [x]" "msize x = 0"
      using assms Some False by (cases "blocks (stream (priv f))" rule: rev_cases) (auto simp: fbmem_winv_def)
    then show ?thesis using False by (simp add: ms_data_def fbmem_written_def flushed_def)
  qed
  then show thesis
    using that [of f] assms False by (simp add: bflush_def fbmem_winv_def)
qed

lemma fbmem_clone_read_ok:
  assumes "fbmem_winv f"
  obtains g r where "fbmem_clone_read f = Inr (g, r)" "fbmem_at (fbmem_written f) 0 r" "bptr r \<le> bstop r"
proof -
  obtain g where g: "bflush fbmem_write_ops f = Inr g" "fbmem_winv g" "ms_data (stream (priv g)) = fbmem_written f"
    by (rule fbmem_flush [OF assms])
  let ?s = "(stream (priv g))\<lparr>uc := uc (stream (priv g)) + 1\<rparr>"
  have "ms_wf ?s" "ms_data ?s = fbmem_written f"
    using g(2,3) by (simp_all add: fbmem_winv_def ms_wf_def ms_data_def)
  then have "fbmem_at (fbmem_written f) 0 (fbmem_null ?s)"
    by (simp add: fbmem_at_def fbmem_inv_def fbmem_null_def fbmem_data_def btell_def)
  then show thesis using that g(1) by (simp add: fbmem_clone_read_def Let_def fbmem_null_def)
qed

text \<open>C13: what is written to a memory stream is what its readers read. Whatever the block size and
  however the data are cut into writes, all writes succeed, and a reading stream made afterwards reads
  exactly the concatenation of the data.\<close>

theorem fbmem_write_read:
  assumes "0 < n" "n < 2 ^ 32"
  shows "\<exists>f f' r. write_all fbmem_write_ops bs (fbmem_create n) = Inr f \<and>
    btell f = int (length (concat bs)) \<and> fbmem_clone_read f = Inr (f', r) \<and>
    (\<exists>h. bread fbmem_read_ops l r = Inr (take l (concat bs), h) \<and>
      (\<exists>h'. bgetc fbmem_read_ops h =
        Inr (if l < length (concat bs) then uint (concat bs ! l) else - 1, h')))"
proof -
  obtain f where f: "write_all fbmem_write_ops bs (fbmem_create n) = Inr f" "fbmem_winv f"
    "fbmem_written f = concat bs" "btell f = int (length (concat bs))"
    using write_all_total [of "fbmem_create n" bs] fbmem_create_winv [OF assms]
    by (auto simp: fbmemw.writes_def fbmem_create_def fbmem_null_def btell_def)
  obtain f' r where r: "fbmem_clone_read f = Inr (f', r)" "fbmem_at (concat bs) 0 r" "bptr r \<le> bstop r"
    by (rule fbmem_clone_read_ok [OF f(2)]) (use f(3) in auto)
  have a: "fbmem.at (concat bs) 0 r" "fbmem.ready r"
    using r by (simp_all add: fbmem_at_eq fbmem.ready_def fbmem.at_def)
  obtain h where h: "bread fbmem_read_ops l r = Inr (take l (drop 0 (concat bs)), h)"
    "fbmem.at (concat bs) (0 + length (take l (drop 0 (concat bs)))) h"
    by (rule fbmem.bread_at [OF a])
  obtain h' where "bgetc fbmem_read_ops h = Inr (if 0 + length (take l (drop 0 (concat bs))) < length (concat bs)
      then uint (concat bs ! (0 + length (take l (drop 0 (concat bs))))) else - 1, h')"
    by (rule fbmem.bgetc_at [OF h(2)])
  then have "\<exists>h'. bgetc fbmem_read_ops h =
        Inr (if l < length (concat bs) then uint (concat bs ! l) else - 1, h')"
    by (auto simp: min_def split: if_splits)
  then show ?thesis using f(1,4) r(1) h(1) by auto
qed

theorem fbmem_write_read_witness:
  "\<exists>f f' r h. write_all fbmem_write_ops [[1, 2], [3, 4]] (fbmem_create 3) = Inr f \<and>
    fbmem_clone_read f = Inr (f', r) \<and> bread fbmem_read_ops 3 r = Inr ([1, 2, 3], h)"
  using fbmem_write_read [of 3 "[[1, 2], [3, 4]]" 3] by auto

text \<open>Seeking in a memory stream leaves the reader flushed with \<open>bstop < bptr\<close>. Three consequences, on
  a stream of five bytes in one block of seven: a second seek takes the position for unflushed data and
  fails with the error \<open>write\<close> (here the program dies, as the stream is not tied to a resource); a read at the end of the block, which \<open>fbmem_seek\<close> allows, fails the assertion of
  \<open>brefill\<close> instead of reporting the end of file; and a reader that has consumed a partly filled block
  fails the same assertion when the writer has added to the block, because \<open>bufend\<close> is not moved.\<close>

definition sample_stream :: memstream where
  "sample_stream = \<lparr>blocksize = 7, uc = 2, blocks = [\<lparr>mpos = 0, msize = 5, mdata = [1, 2, 3, 4, 5, 0, 0]\<rparr>]\<rparr>"

lemmas fbmem_eval = bsetpos_def do_seek_def bflush_def fbmem_seek_def fbmem_read_ops_def fbmem_null_def
  btell_def do_spout_def bthrow_def Let_def bgetc_def bgetc_slow_def brefill_def fbmem_refill_def
  fb_fault_def fbmem_enter_def get_byte_def deref_def sample_stream_def

lemma fbmem_second_seek_fails:
  "\<exists>g. bsetpos fbmem_read_ops 3 (fbmem_null sample_stream) = Inr g \<and>
     bsetpos fbmem_read_ops 1 g = Inl Die"
  by (simp add: fbmem_eval)

lemma fbmem_read_at_end_asserts:
  "\<exists>g. bsetpos fbmem_read_ops 5 (fbmem_null sample_stream) = Inr g \<and>
     bgetc fbmem_read_ops g = Inl Assert_failed"
  by (simp add: fbmem_eval)

lemma fbmem_reader_follows_asserts:
  "\<exists>w0 w1 r g w2. bputc fbmem_write_ops 1 (fbmem_create 3) = Inr w0 \<and> fbmem_clone_read w0 = Inr (w1, r) \<and>
     bgetc fbmem_read_ops r = Inr (1, g) \<and>
     res_bind (bputc fbmem_write_ops 2 w1) (bflush fbmem_write_ops) = Inr w2 \<and>
     bgetc fbmem_read_ops (g\<lparr>priv := (priv g)\<lparr>stream := stream (priv w2)\<rparr>\<rparr>) = Inl Assert_failed"
  by (simp add: fbmem_eval bputc_def bputc_slow_def bspout_def fbmem_create_def fbmem_write_ops_def
      fbmem_spout_def fbmem_new_block_def store_def fbmem_clone_read_def numeral_eq_Suc)

end
