(* ===== verification/Fb_Buffer.thy ===== *)
theory Fb_Buffer
  imports Fastbuf
begin

text \<open>
  \<open>ucw/fb-buffer.c\<close>: streams on a static buffer given by the caller. The back-end keeps no state of
  its own. Reading implements the contract \<open>fb_reader\<close>, writing \<open>fb_writer\<close>.
\<close>

section \<open>Callbacks\<close>

definition fbbuf_refill :: "'b fastbuf \<Rightarrow> (bool \<times> 'b fastbuf) res" where
  "fbbuf_refill f = (let f = f\<lparr>bstop := bufend f, pos := int (bufend f) - int (buffer f)\<rparr>
     in Inr (bptr f < bstop f, f))"

definition fbbuf_seek :: "'b fastbuf \<Rightarrow> int \<Rightarrow> seek_whence \<Rightarrow> (bool \<times> 'b fastbuf) res" where
  "fbbuf_seek f p whence =
    (let len = int (bufend f) - int (buffer f);
         p = (if whence = SEEK_END then p + len else p)
     in if p < 0 \<or> p > len then bthrow f ''seek''
        else Inr (True, f\<lparr>bstop := buffer f + nat p, bptr := buffer f + nat p, pos := p\<rparr>))"

definition fbbuf_read_ops :: "'b fb_ops" where
  "fbbuf_read_ops = \<lparr>refill = Some fbbuf_refill, spout = None, seek = Some fbbuf_seek,
     close = None, config = None\<rparr>"

definition fbbuf_init_read :: "byte list \<Rightarrow> unit fastbuf" where
  "fbbuf_init_read buf = \<lparr>bptr = 0, bstop = length buf, mem = buf, buffer = 0, bufend = length buf,
     pos = int (length buf), dead = False, die_on_eof = False, tied = False, priv = ()\<rparr>"

definition fbbuf_spout :: "'b fastbuf \<Rightarrow> 'b fastbuf res" where
  "fbbuf_spout f = (if bptr f \<ge> bufend f then bthrow f ''write'' else Inr f)"

definition fbbuf_write_ops :: "'b fb_ops" where
  "fbbuf_write_ops = \<lparr>refill = None, spout = Some fbbuf_spout, seek = None, close = None,
     config = None\<rparr>"

definition fbbuf_init_write :: "byte list \<Rightarrow> unit fastbuf" where
  "fbbuf_init_write buf = \<lparr>bptr = 0, bstop = 0, mem = buf, buffer = 0, bufend = length buf,
     pos = 0, dead = False, die_on_eof = False, tied = False, priv = ()\<rparr>"

definition fbbuf_count_written :: "'b fastbuf \<Rightarrow> nat" where
  "fbbuf_count_written f = uint_diff (bptr f) (bstop f)"

section \<open>Reading\<close>

definition fbbuf_inv :: "'b fastbuf \<Rightarrow> bool" where
  "fbbuf_inv f \<longleftrightarrow> \<not> dead f \<and> buffer f \<le> bptr f \<and> bptr f \<le> bstop f \<and> bstop f \<le> bufend f \<and>
     bufend f \<le> length (mem f) \<and> bufend f < 2 ^ 32 \<and> pos f = int (bstop f) - int (buffer f)"

definition fbbuf_data :: "'b fastbuf \<Rightarrow> byte list" where
  "fbbuf_data f = drop (buffer f) (take (bufend f) (mem f))"

interpretation fbbuf: fb_reader fbbuf_read_ops fbbuf_inv fbbuf_data
proof
  fix f :: "'b fastbuf" and k
  assume f: "fbbuf_inv f"
  then have b: "btell f = int (bptr f - buffer f)" by (auto simp: fbbuf_inv_def btell_def)
  show "\<not> dead f \<and> buffer f \<le> bptr f \<and> buffer f \<le> bstop f \<and> bptr f \<le> bufend f \<and>
      bstop f \<le> bufend f \<and> bufend f \<le> length (mem f) \<and> bufend f < 2 ^ 32 \<and> 0 \<le> btell f"
    using f b by (simp add: fbbuf_inv_def)
  show "take (bstop f - bptr f) (drop (nat (btell f)) (fbbuf_data f)) = window f"
    using f b linear_window [of f "bufend f"] by (simp add: fbbuf_inv_def fbbuf_data_def nat_diff_distrib')
  show "buffer f \<le> k \<Longrightarrow> k \<le> bstop f \<Longrightarrow>
      fbbuf_inv (f\<lparr>bptr := k\<rparr>) \<and> fbbuf_data (f\<lparr>bptr := k\<rparr>) = fbbuf_data f"
    using f by (simp add: fbbuf_inv_def fbbuf_data_def)
  show "bstop f \<le> bptr f \<Longrightarrow>
      \<exists>r ok f'. refill fbbuf_read_ops = Some r \<and> r f = Inr (ok, f') \<and> fbbuf_inv f' \<and>
        bptr f' \<le> bstop f' \<and> fbbuf_data f' = fbbuf_data f \<and> btell f' = btell f \<and>
        die_on_eof f' = die_on_eof f \<and> tied f' = tied f \<and> (ok \<longleftrightarrow> bptr f' < bstop f') \<and>
        (ok \<longleftrightarrow> btell f < int (length (fbbuf_data f)))"
    using f b by (auto simp: fbbuf_read_ops_def fbbuf_refill_def fbbuf_inv_def fbbuf_data_def
        btell_def Let_def)
qed

text \<open>\<open>fbbuf_at buf n f\<close>: the stream \<open>f\<close> reads the buffer \<open>buf\<close> and is at position \<open>n\<close>.\<close>

definition fbbuf_at :: "byte list \<Rightarrow> nat \<Rightarrow> 'b fastbuf \<Rightarrow> bool" where
  "fbbuf_at buf n f \<longleftrightarrow> fbbuf_inv f \<and> fbbuf_data f = buf \<and> btell f = int n \<and> \<not> die_on_eof f"

lemma fbbuf_at_eq: "fbbuf_at = fbbuf.at"
  by (intro ext) (simp add: fbbuf_at_def fbbuf.at_def)

lemma fbbuf_at_ready: "fbbuf_at buf n f \<Longrightarrow> fbbuf.ready f \<and> n \<le> length buf"
  by (auto simp: fbbuf_at_def fbbuf.ready_def fbbuf_inv_def fbbuf_data_def btell_def)

lemma fbbuf_at_init: "length buf < 2 ^ 32 \<Longrightarrow> fbbuf_at buf 0 (fbbuf_init_read buf)"
  by (simp add: fbbuf_at_def fbbuf_inv_def fbbuf_init_read_def fbbuf_data_def btell_def)

lemma fbbuf_at_positions:
  assumes "fbbuf_at buf n f"
  shows "length buf = bufend f - buffer f" "bptr f = buffer f + n" "pos f = int (bstop f) - int (buffer f)"
    "buffer f \<le> bstop f" "bptr f \<le> bstop f" "bstop f \<le> bufend f"
  using assms by (auto simp: fbbuf_at_def fbbuf_inv_def fbbuf_data_def btell_def)

lemma fbbuf_bsetpos:
  assumes "fbbuf_at buf n f"
  shows "if 0 \<le> p \<and> p \<le> int (length buf)
    then \<exists>g. bsetpos fbbuf_read_ops p f = Inr g \<and> fbbuf_at buf (nat p) g
    else bsetpos fbbuf_read_ops p f = Inl (fb_fault f ''seek'')"
proof -
  note q = fbbuf_at_positions [OF assms]
  have b: "btell f = int n" "\<not> dead f" using assms by (simp_all add: fbbuf_at_def fbbuf_inv_def)
  have seek: "do_seek fbbuf_read_ops p SEEK_SET f = (if 0 \<le> p \<and> p \<le> int (length buf)
    then Inr (f\<lparr>bptr := buffer f + nat p, bstop := buffer f + nat p, pos := p\<rparr>)
    else Inl (fb_fault f ''seek''))"
    using q b by (auto simp: do_seek_def bflush_def fbbuf_read_ops_def fbbuf_seek_def Let_def bthrow_def
        btell_def ensure_def fb_fault_def)
  show ?thesis
  proof (cases "bptr f < bstop f \<and> p \<le> pos f \<and> 0 \<le> p")
    case True
    then have "bsetpos fbbuf_read_ops p f = Inr (f\<lparr>bptr := buffer f + nat p\<rparr>)"
      using q b by (simp add: bsetpos_def nat_add_distrib add.commute)
    moreover have "fbbuf_at buf (nat p) (f\<lparr>bptr := buffer f + nat p\<rparr>)"
      using assms True q b by (auto simp: fbbuf_at_def fbbuf_inv_def fbbuf_data_def btell_def)
    ultimately show ?thesis using True q by auto
  next
    case False
    then have s: "bsetpos fbbuf_read_ops p f =
        (if p \<noteq> int n then (if p < 0 then Inl (fb_fault f ''seek'') else do_seek fbbuf_read_ops p SEEK_SET f)
         else Inr f)"
      using q b by (auto simp: bsetpos_def bthrow_def fb_fault_def)
    show ?thesis
      using assms q b unfolding s seek fb_fault_def
      by (auto simp: fbbuf_at_def fbbuf_inv_def fbbuf_data_def btell_def)
  qed
qed

section \<open>Writing\<close>

definition fbbuf_winv :: "'b fastbuf \<Rightarrow> bool" where
  "fbbuf_winv f \<longleftrightarrow> \<not> dead f \<and> buffer f = bstop f \<and> bstop f \<le> bptr f \<and> bptr f \<le> bufend f \<and>
     bufend f \<le> length (mem f) \<and> bufend f < 2 ^ 32"

definition fbbuf_written :: "'b fastbuf \<Rightarrow> byte list" where
  "fbbuf_written f = drop (buffer f) (take (bptr f) (mem f))"

interpretation fbbufw: fb_writer fbbuf_write_ops fbbuf_winv fbbuf_written
proof
  fix f g :: "'b fastbuf" and bs
  assume f: "fbbuf_winv f"
  then show "\<not> dead f \<and> buffer f \<le> bstop f \<and> bstop f \<le> bptr f \<and> bptr f \<le> bufend f \<and>
      bufend f \<le> length (mem f) \<and> bufend f < 2 ^ 32"
    by (simp add: fbbuf_winv_def)
  show "bptr f + length bs \<le> bufend f \<Longrightarrow> copy_in bs f = Inr g \<Longrightarrow>
      fbbuf_winv g \<and> fbbuf_written g = fbbuf_written f @ bs"
    using f by (auto simp: copy_in_def fbbuf_winv_def fbbuf_written_def split: if_splits)
  show "do_spout fbbuf_write_ops f = Inr g \<Longrightarrow>
      fbbuf_winv g \<and> fbbuf_written g = fbbuf_written f \<and> btell g = btell f \<and> die_on_eof g = die_on_eof f \<and> tied g = tied f \<and>
      bptr g < bufend g"
    using f by (auto simp: do_spout_def fbbuf_write_ops_def fbbuf_spout_def bthrow_def ensure_def
        split: if_splits)
qed

lemma fbbuf_spout_full: "fbbuf_winv f \<Longrightarrow> bavailw f = 0 \<Longrightarrow> bspout fbbuf_write_ops f = Inl (fb_fault f ''write'')"
  using fbbufw.avail [of f]
  by (auto simp: fbbuf_winv_def bspout_def do_spout_def fbbuf_write_ops_def fbbuf_spout_def bthrow_def)

lemma fbbuf_round_full:
  "fbbuf_winv f \<Longrightarrow> bavailw f = 0 \<Longrightarrow> bwrite_round fbbuf_write_ops b f = Inl (fb_fault f ''write'')"
  by (simp add: bwrite_round_def fbbuf_spout_full)

lemma fbbuf_bwrite:
  assumes "fbbuf_winv f"
  shows "if length b \<le> bufend f - bptr f
    then \<exists>g. bwrite fbbuf_write_ops b f = Inr g \<and> fbbuf_winv g \<and> fbbuf_written g = fbbuf_written f @ b
    else bwrite fbbuf_write_ops b f = Inl (fb_fault f ''write'')"
proof (cases "length b \<le> bufend f - bptr f")
  case True
  then have l: "bptr f + length b \<le> bufend f" using fbbufw.inv_wf [OF assms] by linarith
  then obtain g where "copy_in b f = Inr g" using fbbufw.copy_in_ok [OF assms] by blast
  then show ?thesis
    using True fbbufw.inv_copy [OF assms l] fbbufw.avail [OF assms] by (auto simp: bwrite_def)
next
  case False
  have a: "bavailw f = bufend f - bptr f" by (rule fbbufw.avail [OF assms])
  have "bwrite_loop fbbuf_write_ops b f = Some (Inl (fb_fault f ''write''))"
  proof (cases "bavailw f = 0")
    case True
    then show ?thesis using False fbbuf_round_full [OF assms] by (auto simp: bwrite_loop.simps)
  next
    case nz: False
    let ?k = "bavailw f"
    obtain g where g: "copy_in (take ?k b) f = Inr g"
      using fbbufw.copy_in_ok [OF assms, of "take ?k b"] a False fbbufw.inv_wf [OF assms] by auto
    have w: "fbbuf_winv g"
      using fbbufw.inv_copy [OF assms _ g] a False fbbufw.inv_wf [OF assms] by auto
    have full: "bavailw g = 0"
      using g a False fbbufw.inv_wf [OF assms] fbbufw.avail [OF w] by (auto simp: copy_in_def split: if_splits)
    have "bwrite_round fbbuf_write_ops b f = Inr (drop ?k b, g)"
      using g nz False a by (simp add: bwrite_round_def Let_def min_def)
    moreover have "tied g = tied f" using g by (auto simp: copy_in_def split: if_splits)
    then have "bwrite_loop fbbuf_write_ops (drop ?k b) g = Some (Inl (fb_fault f ''write''))"
      using fbbuf_round_full [OF w full] False a by (simp add: bwrite_loop.simps fb_fault_def)
    ultimately show ?thesis using False by (auto simp: bwrite_loop.simps [of _ b])
  qed
  then show ?thesis using False a by (simp add: bwrite_def bwrite_slow_def)
qed

section \<open>Properties\<close>

text \<open>C12: reading a static buffer refines a position in a byte string: a stream at position \<open>n\<close> of
  \<open>buf\<close> returns the byte there (or \<open>- 1\<close> at the end) and moves behind it or, when peeking, stays, reads and skips blocks, and
  seeks to exactly the positions inside the buffer; after each operation it is again a stream on \<open>buf\<close>, at the new
  position. A seek elsewhere throws the exception \<open>seek\<close> if the stream is tied to a resource, and kills the program otherwise.\<close>

theorem fbbuf_read_refines:
  assumes "fbbuf_at buf n f"
  shows "(\<exists>g. bgetc fbbuf_read_ops f = Inr (if n < length buf then uint (buf ! n) else - 1, g) \<and>
      fbbuf_at buf (if n < length buf then n + 1 else n) g) \<and>
    (\<exists>g. bpeekc fbbuf_read_ops f = Inr (if n < length buf then uint (buf ! n) else - 1, g) \<and> fbbuf_at buf n g) \<and>
    (\<exists>g. bread fbbuf_read_ops l f = Inr (take l (drop n buf), g) \<and>
      fbbuf_at buf (min (n + l) (length buf)) g) \<and>
    (\<exists>g. bskip fbbuf_read_ops l f = Inr (n + l \<le> length buf, g) \<and>
      fbbuf_at buf (min (n + l) (length buf)) g) \<and>
    (if 0 \<le> p \<and> p \<le> int (length buf)
     then \<exists>g. bsetpos fbbuf_read_ops p f = Inr g \<and> fbbuf_at buf (nat p) g
     else bsetpos fbbuf_read_ops p f = Inl (if tied f then Throw ''seek'' else Die))"
proof (intro conjI)
  have r: "fbbuf.ready f" and n: "n \<le> length buf" using fbbuf_at_ready [OF assms] by auto
  note a = assms [unfolded fbbuf_at_eq]
  show "\<exists>g. bgetc fbbuf_read_ops f = Inr (if n < length buf then uint (buf ! n) else - 1, g) \<and>
      fbbuf_at buf (if n < length buf then n + 1 else n) g"
    by (rule fbbuf.bgetc_at [OF a]) (unfold fbbuf_at_eq, blast)
  show "\<exists>g. bpeekc fbbuf_read_ops f = Inr (if n < length buf then uint (buf ! n) else - 1, g) \<and> fbbuf_at buf n g"
    by (rule fbbuf.bpeekc_at [OF a]) (unfold fbbuf_at_eq, blast)
  have l: "n + length (take l (drop n buf)) = min (n + l) (length buf)"
    "(n + l \<le> length buf \<or> l = 0) = (n + l \<le> length buf)"
    using n by auto
  show "\<exists>g. bread fbbuf_read_ops l f = Inr (take l (drop n buf), g) \<and>
      fbbuf_at buf (min (n + l) (length buf)) g"
    by (rule fbbuf.bread_at [OF a r, of l]) (unfold fbbuf_at_eq l, blast)
  show "\<exists>g. bskip fbbuf_read_ops l f = Inr (n + l \<le> length buf, g) \<and>
      fbbuf_at buf (min (n + l) (length buf)) g"
    by (rule fbbuf.bskip_at [OF a r, of l]) (unfold fbbuf_at_eq l, blast)
qed (rule fbbuf_bsetpos [OF assms, unfolded fb_fault_def])

theorem fbbuf_read_refines_witness:
  "(\<exists>g. bread fbbuf_read_ops 5 (fbbuf_init_read [1, 2, 3]) = Inr ([1, 2, 3], g)) \<and> (\<exists>g. bpeekc fbbuf_read_ops (fbbuf_init_read [1, 2, 3]) = Inr (1, g)) \<and>
   bsetpos fbbuf_read_ops 7 (fbbuf_init_read [1, 2, 3]) = Inl Die"
  using fbbuf_read_refines [of "[1, 2, 3]" 0 "fbbuf_init_read [1, 2, 3]" 5 7] fbbuf_at_init [of "[1, 2, 3]"]
  by (auto simp: fbbuf_init_read_def)

text \<open>C29: writing to a static buffer: a write that fits in the room left appends its bytes to those
  written before and is counted by \<open>fbbuf_count_written\<close>; a write that does not fit never stores outside the buffer: it throws the
  exception \<open>write\<close> if the stream is tied to a resource, and kills the program otherwise, in particular
  on a stream just initialized.\<close>

theorem fbbuf_write_bounded:
  assumes "fbbuf_winv f"
  shows "if length b \<le> bufend f - bptr f
    then \<exists>g. bwrite fbbuf_write_ops b f = Inr g \<and> fbbuf_winv g \<and>
      fbbuf_written g = fbbuf_written f @ b \<and> fbbuf_count_written g = length (fbbuf_written f @ b)
    else bwrite fbbuf_write_ops b f = Inl (if tied f then Throw ''write'' else Die)"
proof -
  have "fbbuf_count_written g = length (fbbuf_written g)" if "fbbuf_winv g" for g :: "'a fastbuf"
    using that by (auto simp: fbbuf_winv_def fbbuf_count_written_def fbbuf_written_def uint_diff_def
        of_nat_diff nat_mod_distrib)
  then show ?thesis using fbbuf_bwrite [OF assms, of b] by (auto simp: fb_fault_def split: if_splits)
qed

theorem fbbuf_write_bounded_witness:
  "bwrite fbbuf_write_ops [1, 2, 3] (fbbuf_init_write [0, 0]) = Inl Die \<and>
   bwrite fbbuf_write_ops [1, 2, 3] (fb_tie (fbbuf_init_write [0, 0])) = Inl (Throw ''write'')"
  using fbbuf_write_bounded [of "fbbuf_init_write [0, 0]" "[1, 2, 3]"] fbbuf_write_bounded [of "fb_tie (fbbuf_init_write [0, 0])" "[1, 2, 3]"]
  by (simp add: fbbuf_init_write_def fb_tie_def fbbuf_winv_def)

end
