(* ===== verification/Ff_String.thy ===== *)
theory Ff_String
  imports Fb_Buffer
begin

text \<open>
  \<open>ucw/ff-string.c\<close>: reading of lines and zero-terminated strings. The string is stored in the
  caller's buffer of \<open>l\<close> bytes; the functions here return it without its terminating zero.
\<close>

section \<open>Operations\<close>

text \<open>The inner loop of the readers: copy bytes up to the delimiter \<open>d\<close>; the flag says whether it was
  met.\<close>

fun scan_line :: "byte \<Rightarrow> byte list \<Rightarrow> byte list \<times> bool" where
  "scan_line d [] = ([], False)"
| "scan_line d (v # vs) = (if v = d then ([], True) else (let (w, e) = scan_line d vs in (v # w, e)))"

text \<open>The outer loop of \<open>bgets\<close> (delimiter newline) and \<open>bgets0\<close> (delimiter zero), with the room left,
  the bytes stored and the bytes available in the buffer.\<close>

function bgets_loop :: "byte \<Rightarrow> 'b fb_ops \<Rightarrow> nat \<Rightarrow> byte list \<Rightarrow> nat \<Rightarrow> 'b fastbuf \<Rightarrow>
    (byte list option \<times> 'b fastbuf) res" where
  "bgets_loop d ops l b src_len f =
    (if src_len = 0 then Inr (Some b, f)
     else let cnt = min l src_len; src = take cnt (drop (bptr f) (mem f)); (w, found) = scan_line d src in
       if found then Inr (Some (b @ w), bdirect_read_commit (bptr f + length w + 1) f)
       else if length src < cnt then Inl Out_of_bounds
       else if cnt = l then bthrow f ''toolong''
       else res_bind (bdirect_read_prepare ops (bdirect_read_commit (bptr f + cnt) f)) (\<lambda>(src_len, f).
         bgets_loop d ops (l - cnt) (b @ w) src_len f))"
  by pat_completeness auto
termination
  by (relation "measure (\<lambda>(d, ops, l, b, n, f). l)") auto



text \<open>\<open>bgets_nodie\<close> returns the length with the terminating zero, 0 at the end of file and \<open>- 1\<close>
  when the line is too long.\<close>

function bgets_nodie_loop :: "'b fb_ops \<Rightarrow> nat \<Rightarrow> byte list \<Rightarrow> nat \<Rightarrow> 'b fastbuf \<Rightarrow>
    (int \<times> byte list \<times> 'b fastbuf) res" where
  "bgets_nodie_loop ops l b src_len f =
    (if src_len = 0 then Inr (int (length b) + 1, b, f)
     else let cnt = min l src_len; src = take cnt (drop (bptr f) (mem f)); (w, found) = scan_line 10 src in
       if found
       then Inr (int (length (b @ w)) + 1, b @ w, bdirect_read_commit (bptr f + length w + 1) f)
       else if length src < cnt then Inl Out_of_bounds
       else if cnt = l then Inr (- 1, b @ w, bdirect_read_commit (bptr f + cnt) f)
       else res_bind (bdirect_read_prepare ops (bdirect_read_commit (bptr f + cnt) f)) (\<lambda>(src_len, f).
         bgets_nodie_loop ops (l - cnt) (b @ w) src_len f))"
  by pat_completeness auto
termination
  by (relation "measure (\<lambda>(ops, l, b, n, f). l)") auto

definition bgets_nodie :: "'b fb_ops \<Rightarrow> nat \<Rightarrow> 'b fastbuf \<Rightarrow> (int \<times> byte list \<times> 'b fastbuf) res" where
  "bgets_nodie ops l f = ensure (l \<noteq> 0) (res_bind (bdirect_read_prepare ops f) (\<lambda>(src_len, f).
     if src_len = 0 then Inr (0, [], f) else bgets_nodie_loop ops l [] src_len f))"

declare bgets_loop.simps [simp del] bgets_nodie_loop.simps [simp del]

section \<open>Lemmas\<close>

lemma scan_line: "scan_line d xs = (takeWhile (\<lambda>v. v \<noteq> d) xs, d \<in> set xs)"
  by (induction xs) auto

lemma takeWhile_split:
  "takeWhile P xs = (if \<forall>x \<in> set (take k xs). P x then take k xs @ takeWhile P (drop k xs)
     else takeWhile P (take k xs))"
proof (induction xs arbitrary: k)
  case (Cons x xs)
  show ?case
  proof (cases k)
    case (Suc j)
    then show ?thesis using Cons.IH [of j] by auto
  qed simp
qed simp

lemma length_takeWhile_less: "d \<in> set xs \<Longrightarrow> length (takeWhile (\<lambda>v. v \<noteq> d) xs) < length xs"
  by (induction xs) auto

text \<open>What reading up to a delimiter consumes: the string and the delimiter, if there is one.\<close>

definition delimited :: "byte \<Rightarrow> byte list \<Rightarrow> byte list" where
  "delimited d xs = take (length (takeWhile (\<lambda>v. v \<noteq> d) xs) + 1) xs"

context fb_reader
begin

lemma prepared:
  assumes "ready f"
  obtains g n where "bdirect_read_prepare ops f = Inr (n, g)" "reads f [] g" "n \<le> bavailr g"
    "n = 0 \<longleftrightarrow> content g = []" "n = 0 \<or> n = bavailr g"
proof (cases "content f = []")
  case True
  show thesis
    by (rule direct_eof [OF assms True]) (use that reads_content True in fastforce)
next
  case False
  show thesis
    by (rule direct_some [OF assms False]) (use that reads_content False in fastforce)
qed

text \<open>One round of the outer loops: the bytes looked at are the next bytes of the stream.\<close>

lemma round:
  assumes "ready f" "n = bavailr f" "cnt = min l n"
  shows "take cnt (drop (bptr f) (mem f)) = take cnt (content f)" "length (take cnt (content f)) = cnt"
    "k \<le> cnt \<Longrightarrow> reads f (take k (content f)) (bdirect_read_commit (bptr f + k) f)"
proof -
  have c: "cnt \<le> bstop f - bptr f" using assms avail [OF assms(1)] by simp
  show "take cnt (drop (bptr f) (mem f)) = take cnt (content f)"
    using take_content [OF assms(1) c] by simp
  show "length (take cnt (content f)) = cnt" using c window_le [OF assms(1)] by simp
  show "k \<le> cnt \<Longrightarrow> reads f (take k (content f)) (bdirect_read_commit (bptr f + k) f)"
    using copy_out_window [OF assms(1), of k] c by (simp add: bdirect_read_commit_def)
qed

lemma found_delimited:
  assumes "d \<in> set (take cnt (content f))"
  shows "takeWhile (\<lambda>v. v \<noteq> d) (take cnt (content f)) = takeWhile (\<lambda>v. v \<noteq> d) (content f)"
    "length (takeWhile (\<lambda>v. v \<noteq> d) (content f)) + 1 \<le> cnt"
proof -
  show e: "takeWhile (\<lambda>v. v \<noteq> d) (take cnt (content f)) = takeWhile (\<lambda>v. v \<noteq> d) (content f)"
    using takeWhile_split [of "\<lambda>v. v \<noteq> d" "content f" cnt] assms by auto
  show "length (takeWhile (\<lambda>v. v \<noteq> d) (content f)) + 1 \<le> cnt"
    using length_takeWhile_less [OF assms] unfolding e by simp
qed

lemma missed_delimited:
  assumes "d \<notin> set (take cnt (content f))" "reads f (take cnt (content f)) g" "length (take cnt (content f)) = cnt"
  shows "takeWhile (\<lambda>v. v \<noteq> d) (content f) = take cnt (content f) @ takeWhile (\<lambda>v. v \<noteq> d) (content g)"
    "delimited d (content f) = take cnt (content f) @ delimited d (content g)"
proof -
  have g: "content g = drop cnt (content f)"
    using reads_content [OF assms(2)] by (metis append_take_drop_id same_append_eq)
  show t: "takeWhile (\<lambda>v. v \<noteq> d) (content f) = take cnt (content f) @ takeWhile (\<lambda>v. v \<noteq> d) (content g)"
    using takeWhile_split [of "\<lambda>v. v \<noteq> d" "content f" cnt] assms(1) g by auto
  show "delimited d (content f) = take cnt (content f) @ delimited d (content g)"
    unfolding delimited_def t using assms(3) g
      take_add [of cnt "Suc (length (takeWhile (\<lambda>v. v \<noteq> d) (drop cnt (content f))))" "content f"] by simp
qed

lemma bgets_loop_ok:
  "ready f \<Longrightarrow> 0 < l \<Longrightarrow> n = 0 \<longleftrightarrow> content f = [] \<Longrightarrow> n = 0 \<or> n = bavailr f \<Longrightarrow>
   if length (takeWhile (\<lambda>v. v \<noteq> d) (content f)) < l
   then \<exists>g. bgets_loop d ops l b n f = Inr (Some (b @ takeWhile (\<lambda>v. v \<noteq> d) (content f)), g) \<and>
     reads f (delimited d (content f)) g
   else bgets_loop d ops l b n f = Inl (fb_fault f ''toolong'')"
proof (induction l arbitrary: b n f rule: less_induct)
  case (less l)
  show ?case
  proof (cases "n = 0")
    case True
    then show ?thesis
      using less.prems ready_refl by (auto simp: bgets_loop.simps delimited_def)
  next
    case False
    then have n: "n = bavailr f" using less.prems(4) by simp
    define cnt where "cnt = min l n"
    note r = round [OF less.prems(1) n cnt_def]
    have cnt: "0 < cnt" "cnt \<le> l" using False less.prems(2) by (auto simp: cnt_def)
    show ?thesis
    proof (cases "d \<in> set (take cnt (content f))")
      case True
      note u = found_delimited [OF True]
      have "bgets_loop d ops l b n f = Inr (Some (b @ takeWhile (\<lambda>v. v \<noteq> d) (content f)),
          bdirect_read_commit (bptr f + (length (takeWhile (\<lambda>v. v \<noteq> d) (content f)) + 1)) f)"
        using False True u(1) r(1) by (simp add: bgets_loop.simps cnt_def [symmetric] scan_line)
      then show ?thesis using r(3) [OF u(2)] u(2) cnt by (simp add: delimited_def)
    next
      case miss: False
      let ?h = "bdirect_read_commit (bptr f + cnt) f"
      have h: "reads f (take cnt (content f)) ?h" by (rule r(3)) simp
      note m = missed_delimited [OF miss h r(2)]
      have w: "takeWhile (\<lambda>v. v \<noteq> d) (take cnt (content f)) = take cnt (content f)"
        using miss by (auto simp: takeWhile_eq_all_conv)
      show ?thesis
      proof (cases "cnt = l")
        case True
        then have "bgets_loop d ops l b n f = Inl (fb_fault f ''toolong'')"
          using False miss r(1,2) inv_wf [OF ready_inv [OF less.prems(1)]]
          by (simp add: bgets_loop.simps cnt_def [symmetric] scan_line bthrow_def)
        then show ?thesis using m(1) r(2) True by (simp del: length_take)
      next
        case short: False
        obtain g n' where g: "bdirect_read_prepare ops ?h = Inr (n', g)" "reads ?h [] g"
          "n' = 0 \<longleftrightarrow> content g = []" "n' = 0 \<or> n' = bavailr g"
          using prepared [OF reads_ready [OF h]] by metis
        have e: "bgets_loop d ops l b n f = bgets_loop d ops (l - cnt) (b @ take cnt (content f)) n' g"
          using False miss short r(1,2) g(1) w
          by (simp add: bgets_loop.simps [of d ops l] cnt_def [symmetric] scan_line del: takeWhile_eq_all_conv)
        have c: "content ?h = content g" using reads_content [OF g(2)] by simp
        have fg: "reads f (take cnt (content f)) g" using reads_trans [OF h g(2)] by simp
        show ?thesis
          using less.IH [of "l - cnt" g n' "b @ take cnt (content f)"] cnt short reads_ready [OF g(2)] g(3,4)
            m r(2) reads_trans [OF fg] reads_die [OF fg] unfolding e c by (auto simp: fb_fault_def simp del: length_take split: if_splits)
      qed
    qed
  qed
qed

lemma bgets_gen_ok:
  assumes "ready f" "0 < l" "line = takeWhile (\<lambda>v. v \<noteq> d) (content f)"
  shows "if content f = [] then \<exists>g. res_bind (bdirect_read_prepare ops f) (\<lambda>(src_len, f).
       if src_len = 0 then Inr (None, f) else bgets_loop d ops l [] src_len f) = Inr (None, g) \<and> reads f [] g
    else if length line < l
    then \<exists>g. res_bind (bdirect_read_prepare ops f) (\<lambda>(src_len, f).
       if src_len = 0 then Inr (None, f) else bgets_loop d ops l [] src_len f) = Inr (Some line, g) \<and>
       reads f (delimited d (content f)) g
    else res_bind (bdirect_read_prepare ops f) (\<lambda>(src_len, f).
       if src_len = 0 then Inr (None, f) else bgets_loop d ops l [] src_len f) = Inl (fb_fault f ''toolong'')"
proof -
  obtain g n where g: "bdirect_read_prepare ops f = Inr (n, g)" "reads f [] g"
    "n = 0 \<longleftrightarrow> content g = []" "n = 0 \<or> n = bavailr g"
    using prepared [OF assms(1)] by metis
  have c: "content g = content f" using reads_content [OF g(2)] by simp
  show ?thesis
    using bgets_loop_ok [OF reads_ready [OF g(2)] assms(2) g(3,4), of d "[]"] g(1,2,3) c assms(3)
      reads_trans [OF g(2)] reads_die [OF g(2)]
    by (auto simp: fb_fault_def split: if_splits)
qed

lemma bgets_nodie_loop_ok:
  "ready f \<Longrightarrow> 0 < l \<Longrightarrow> n = 0 \<longleftrightarrow> content f = [] \<Longrightarrow> n = 0 \<or> n = bavailr f \<Longrightarrow>
   \<exists>g. let w = takeWhile (\<lambda>v. v \<noteq> 10) (content f) in
   if length w < l
   then bgets_nodie_loop ops l b n f = Inr (int (length (b @ w)) + 1, b @ w, g) \<and> reads f (delimited 10 (content f)) g
   else bgets_nodie_loop ops l b n f = Inr (- 1, b @ take l w, g) \<and> reads f (take l w) g"
proof (induction l arbitrary: b n f rule: less_induct)
  case (less l)
  show ?case
  proof (cases "n = 0")
    case True
    then show ?thesis
      using less.prems ready_refl by (auto simp: bgets_nodie_loop.simps delimited_def)
  next
    case False
    then have n: "n = bavailr f" using less.prems(4) by simp
    define cnt where "cnt = min l n"
    note r = round [OF less.prems(1) n cnt_def]
    have cnt: "0 < cnt" "cnt \<le> l" using False less.prems(2) by (auto simp: cnt_def)
    show ?thesis
    proof (cases "10 \<in> set (take cnt (content f))")
      case True
      note u = found_delimited [OF True]
      have "bgets_nodie_loop ops l b n f = Inr (int (length (b @ takeWhile (\<lambda>v. v \<noteq> 10) (content f))) + 1,
          b @ takeWhile (\<lambda>v. v \<noteq> 10) (content f),
          bdirect_read_commit (bptr f + (length (takeWhile (\<lambda>v. v \<noteq> 10) (content f)) + 1)) f)"
        using False True u(1) r(1) by (simp add: bgets_nodie_loop.simps cnt_def [symmetric] scan_line)
      then show ?thesis using r(3) [OF u(2)] u(2) cnt by (simp add: delimited_def Let_def)
    next
      case miss: False
      let ?h = "bdirect_read_commit (bptr f + cnt) f"
      have h: "reads f (take cnt (content f)) ?h" by (rule r(3)) simp
      note m = missed_delimited [OF miss h r(2)]
      have w: "takeWhile (\<lambda>v. v \<noteq> 10) (take cnt (content f)) = take cnt (content f)"
        using miss by (auto simp: takeWhile_eq_all_conv)
      show ?thesis
      proof (cases "cnt = l")
        case True
        then have "bgets_nodie_loop ops l b n f = Inr (- 1, b @ take cnt (content f), ?h)"
          using False miss r(1,2) w
          by (simp add: bgets_nodie_loop.simps cnt_def [symmetric] scan_line del: takeWhile_eq_all_conv)
        then show ?thesis using m(1) r(2) True h by (simp add: Let_def del: length_take)
      next
        case short: False
        obtain g n' where g: "bdirect_read_prepare ops ?h = Inr (n', g)" "reads ?h [] g"
          "n' = 0 \<longleftrightarrow> content g = []" "n' = 0 \<or> n' = bavailr g"
          using prepared [OF reads_ready [OF h]] by metis
        have e: "bgets_nodie_loop ops l b n f = bgets_nodie_loop ops (l - cnt) (b @ take cnt (content f)) n' g"
          using False miss short r(1,2) g(1) w
          by (simp add: bgets_nodie_loop.simps [of ops l] cnt_def [symmetric] scan_line del: takeWhile_eq_all_conv)
        have c: "content ?h = content g" using reads_content [OF g(2)] by simp
        have fg: "reads f (take cnt (content f)) g" using reads_trans [OF h g(2)] by simp
        obtain k where "let w = takeWhile (\<lambda>v. v \<noteq> 10) (content g) in
           if length w < l - cnt
           then bgets_nodie_loop ops (l - cnt) (b @ take cnt (content f)) n' g =
               Inr (int (length ((b @ take cnt (content f)) @ w)) + 1, (b @ take cnt (content f)) @ w, k) \<and>
             reads g (delimited 10 (content g)) k
           else bgets_nodie_loop ops (l - cnt) (b @ take cnt (content f)) n' g =
               Inr (- 1, (b @ take cnt (content f)) @ take (l - cnt) w, k) \<and> reads g (take (l - cnt) w) k"
          using less.IH [of "l - cnt" g n' "b @ take cnt (content f)"] cnt short reads_ready [OF g(2)] g(3,4)
          by auto
        then show ?thesis
          using cnt m r(2) reads_trans [OF fg] unfolding e c
          by (intro exI [of _ k]) (auto simp: Let_def simp del: length_take split: if_splits)
      qed
    qed
  qed
qed

end

section \<open>Properties\<close>

lemma fbbuf_at_reads:
  assumes "fbbuf_at buf n f" "fbbuf.reads f bs g"
  shows "fbbuf_at buf (n + length bs) g"
  using fbbuf.reads_at [of buf n f bs g] assms by (simp add: fbbuf_at_eq)

text \<open>\<open>bgets_nodie\<close> returns the length of the string with its zero, or \<open>- 1\<close> for a line that
  is too long, of which it then has consumed the first \<open>l\<close> bytes.\<close>

lemma bgets_nodie_ok:
  assumes "fbbuf_at buf n f" "0 < l" "line = takeWhile (\<lambda>v. v \<noteq> 10) (drop n buf)"
  shows "if n = length buf then \<exists>g. bgets_nodie fbbuf_read_ops l f = Inr (0, [], g) \<and> fbbuf_at buf n g
     else if length line < l
     then \<exists>g. bgets_nodie fbbuf_read_ops l f = Inr (int (length line) + 1, line, g) \<and>
       fbbuf_at buf (min (n + length line + 1) (length buf)) g
     else \<exists>g. bgets_nodie fbbuf_read_ops l f = Inr (- 1, take l line, g) \<and> fbbuf_at buf (n + l) g"
proof -
  have r: "fbbuf.ready f" and n: "n \<le> length buf" using fbbuf_at_ready [OF assms(1)] by auto
  have c: "fbbuf.content f = drop n buf" using fbbuf.at_content [of buf n f] assms(1) by (simp add: fbbuf_at_eq)
  have len: "n + length (delimited 10 (drop n buf)) = min (n + length line + 1) (length buf)"
    using n by (auto simp: delimited_def assms(3))
  have at: "fbbuf.reads f [] g \<Longrightarrow> fbbuf_at buf n g"
    "fbbuf.reads f (delimited 10 (drop n buf)) g \<Longrightarrow> fbbuf_at buf (min (n + length line + 1) (length buf)) g"
    "l \<le> length line \<Longrightarrow> fbbuf.reads f (take l line) g \<Longrightarrow> fbbuf_at buf (n + l) g" for g
    using fbbuf_at_reads [OF assms(1)] len by fastforce+
  obtain g k where g: "bdirect_read_prepare fbbuf_read_ops f = Inr (k, g)" "fbbuf.reads f [] g"
    "k = 0 \<longleftrightarrow> fbbuf.content g = []" "k = 0 \<or> k = bavailr g"
    using fbbuf.prepared [OF r] by metis
  have cg: "fbbuf.content g = drop n buf" using fbbuf.reads_content [OF g(2)] c by simp
  show ?thesis
    using fbbuf.bgets_nodie_loop_ok [OF fbbuf.reads_ready [OF g(2)] assms(2) g(3,4), of "[]"] g(1-3) n assms(2)
      at fbbuf.reads_trans [OF g(2)]
    by (auto simp: bgets_nodie_def cg assms(3) [symmetric] Let_def split: if_splits)
qed

text \<open>The documentation of \<open>bgets_nodie\<close> excludes the terminator from the length it returns; the code includes it.\<close>

lemma bgets_nodie_counts_terminator:
  "\<exists>g. bgets_nodie fbbuf_read_ops 9 (fbbuf_init_read [84, 119, 111, 10]) = Inr (4, [84, 119, 111], g)"
  using bgets_nodie_ok [of "[84, 119, 111, 10]" 0 "fbbuf_init_read [84, 119, 111, 10]" 9 "[84, 119, 111]"]
    fbbuf_at_init [of "[84, 119, 111, 10]"] by auto




end
