(* ===== verification/Ff_Binary.thy ===== *)
theory Ff_Binary
  imports Fb_Mem
begin

text \<open>
  \<open>ucw/ff-binary.h\<close> and \<open>ucw/ff-binary.c\<close>: binary numbers on streams. The functions are generated by
  the macros \<open>GET_FUNC\<close>, \<open>PUT_FUNC\<close> and \<open>GEN\<close> from a width and a byte order; here they are one
  definition each, taking the accessor of \<open>ucw/unaligned.h\<close> (\<open>get_u##bits##_##endian\<close> or
  \<open>put_u##bits##_##endian\<close>) and the number of bytes as arguments, with the instances below.
\<close>

section \<open>Operations\<close>

definition bget_slow :: "nat \<Rightarrow> (byte list \<Rightarrow> 'a::len word res) \<Rightarrow> 'b fb_ops \<Rightarrow> 'b fastbuf \<Rightarrow>
    ('a word \<times> 'b fastbuf) res" where
  "bget_slow n get ops f = res_bind (bread ops n f) (\<lambda>(buf, f).
     if length buf \<noteq> n then Inr (- 1, f) else res_bind (get buf) (\<lambda>w. Inr (w, f)))"

definition bget :: "nat \<Rightarrow> (byte list \<Rightarrow> 'a::len word res) \<Rightarrow> 'b fb_ops \<Rightarrow> 'b fastbuf \<Rightarrow>
    ('a word \<times> 'b fastbuf) res" where
  "bget n get ops f =
    (if bavailr f \<ge> n then res_bind (get (drop (bptr f) (mem f))) (\<lambda>w. Inr (w, f\<lparr>bptr := bptr f + n\<rparr>))
     else bget_slow n get ops f)"

definition bput_slow :: "('a::len word \<Rightarrow> byte list) \<Rightarrow> 'b fb_ops \<Rightarrow> 'a word \<Rightarrow> 'b fastbuf \<Rightarrow> 'b fastbuf res" where
  "bput_slow put ops x f = bwrite_slow ops (put x) f"

definition bput :: "nat \<Rightarrow> ('a::len word \<Rightarrow> byte list) \<Rightarrow> 'b fb_ops \<Rightarrow> 'a word \<Rightarrow> 'b fastbuf \<Rightarrow> 'b fastbuf res" where
  "bput n put ops x f = (if bavailw f \<ge> n then copy_in (put x) f else bput_slow put ops x f)"

definition bgetw_be :: "'b fb_ops \<Rightarrow> 'b fastbuf \<Rightarrow> (uint \<times> 'b fastbuf) res" where
  "bgetw_be = bget 2 get_u16_be"
definition bgetw_le :: "'b fb_ops \<Rightarrow> 'b fastbuf \<Rightarrow> (uint \<times> 'b fastbuf) res" where
  "bgetw_le = bget 2 get_u16_le"
definition bgetl_be :: "'b fb_ops \<Rightarrow> 'b fastbuf \<Rightarrow> (uint \<times> 'b fastbuf) res" where
  "bgetl_be = bget 4 get_u32_be"
definition bgetl_le :: "'b fb_ops \<Rightarrow> 'b fastbuf \<Rightarrow> (uint \<times> 'b fastbuf) res" where
  "bgetl_le = bget 4 get_u32_le"
definition bget5_be :: "'b fb_ops \<Rightarrow> 'b fastbuf \<Rightarrow> (u64 \<times> 'b fastbuf) res" where
  "bget5_be = bget 5 get_u40_be"
definition bget5_le :: "'b fb_ops \<Rightarrow> 'b fastbuf \<Rightarrow> (u64 \<times> 'b fastbuf) res" where
  "bget5_le = bget 5 get_u40_le"
definition bgetq_be :: "'b fb_ops \<Rightarrow> 'b fastbuf \<Rightarrow> (u64 \<times> 'b fastbuf) res" where
  "bgetq_be = bget 8 get_u64_be"
definition bgetq_le :: "'b fb_ops \<Rightarrow> 'b fastbuf \<Rightarrow> (u64 \<times> 'b fastbuf) res" where
  "bgetq_le = bget 8 get_u64_le"

definition bputw_be :: "'b fb_ops \<Rightarrow> uint \<Rightarrow> 'b fastbuf \<Rightarrow> 'b fastbuf res" where
  "bputw_be = bput 2 put_u16_be"
definition bputw_le :: "'b fb_ops \<Rightarrow> uint \<Rightarrow> 'b fastbuf \<Rightarrow> 'b fastbuf res" where
  "bputw_le = bput 2 put_u16_le"
definition bputl_be :: "'b fb_ops \<Rightarrow> uint \<Rightarrow> 'b fastbuf \<Rightarrow> 'b fastbuf res" where
  "bputl_be = bput 4 put_u32_be"
definition bputl_le :: "'b fb_ops \<Rightarrow> uint \<Rightarrow> 'b fastbuf \<Rightarrow> 'b fastbuf res" where
  "bputl_le = bput 4 put_u32_le"
definition bput5_be :: "'b fb_ops \<Rightarrow> u64 \<Rightarrow> 'b fastbuf \<Rightarrow> 'b fastbuf res" where
  "bput5_be = bput 5 put_u40_be"
definition bput5_le :: "'b fb_ops \<Rightarrow> u64 \<Rightarrow> 'b fastbuf \<Rightarrow> 'b fastbuf res" where
  "bput5_le = bput 5 put_u40_le"
definition bputq_be :: "'b fb_ops \<Rightarrow> u64 \<Rightarrow> 'b fastbuf \<Rightarrow> 'b fastbuf res" where
  "bputq_be = bput 8 put_u64_be"
definition bputq_le :: "'b fb_ops \<Rightarrow> u64 \<Rightarrow> 'b fastbuf \<Rightarrow> 'b fastbuf res" where
  "bputq_le = bput 8 put_u64_le"

section \<open>Lemmas\<close>

text \<open>An accessor of \<open>n\<close> bytes looks at no more than \<open>n\<close> bytes.\<close>

definition getter :: "nat \<Rightarrow> (byte list \<Rightarrow> 'a res) \<Rightarrow> bool" where
  "getter n get \<longleftrightarrow> (\<forall>p. n \<le> length p \<longrightarrow> get p = get (take n p) \<and> (\<exists>w. get p = Inr w))"

lemma bytes2: "2 \<le> length p \<Longrightarrow> \<exists>a b r. p = a # b # r"
  by (cases p; cases "tl p") auto

lemma bytes4: "4 \<le> length p \<Longrightarrow> \<exists>a b c d r. p = a # b # c # d # r"
proof -
  assume "4 \<le> length p"
  then have "2 \<le> length p" "2 \<le> length (drop 2 p)" by simp_all
  then obtain a b r c d s where "p = a # b # r" "drop 2 p = c # d # s" using bytes2 by metis
  then show ?thesis by simp
qed

lemma getter_unaligned:
  "getter 2 get_u16_be" "getter 2 get_u16_le" "getter 4 get_u32_be" "getter 4 get_u32_le"
  by (auto simp: getter_def get_u16_be_def get_u16_le_def get_u32_be_def get_u32_le_def
      dest!: bytes2 bytes4)

lemma getter_wide:
  "getter 5 get_u40_be" "getter 5 get_u40_le" "getter 8 get_u64_be" "getter 8 get_u64_le"
proof -
  have five: "\<exists>a b c d e r. p = a # b # c # d # e # r" if l: "5 \<le> length p" for p :: "byte list"
  proof -
    obtain a b c d r where "p = a # b # c # d # r" using bytes4 [of p] l by auto
    then show ?thesis using l by (cases r) auto
  qed
  have eight: "\<exists>a b c d q. p = a # b # c # d # q \<and> 4 \<le> length q" if "8 \<le> length p" for p :: "byte list"
    using bytes4 [of p] that by auto
  show "getter 5 get_u40_be" "getter 5 get_u40_le"
    by (auto simp: getter_def get_u40_be_def get_u40_le_def get_u32_be_def get_u32_le_def dest!: five)
  show "getter 8 get_u64_be" "getter 8 get_u64_le"
    by (auto simp: getter_def get_u64_be_def get_u64_le_def get_u32_be_def get_u32_le_def
        dest!: eight bytes4)
qed

lemmas getters = getter_unaligned getter_wide

context fb_reader
begin

lemma bget_ok:
  assumes "ready f" "getter n get" "\<not> die_on_eof f"
  shows "\<exists>g. reads f (take n (content f)) g \<and> bget n get ops f =
    (if n \<le> length (content f) then res_bind (get (take n (content f))) (\<lambda>w. Inr (w, g)) else Inr (- 1, g))"
proof (cases "n \<le> bavailr f")
  case True
  have l: "n \<le> length (content f)" by (rule take_window [OF assms(1) True])
  have b: "n \<le> bstop f - bptr f" using True avail [OF assms(1)] by simp
  have m: "copy_out n f = Inr (take n (content f), f\<lparr>bptr := bptr f + n\<rparr>)"
    "reads f (take n (content f)) (f\<lparr>bptr := bptr f + n\<rparr>)"
    using copy_out_window [OF assms(1) b] by auto
  have "n \<le> length (drop (bptr f) (mem f))" "take n (drop (bptr f) (mem f)) = take n (content f)"
    using m(1) by (auto simp: copy_out_def split: if_splits)
  then have "get (drop (bptr f) (mem f)) = get (take n (content f))"
    using assms(2) unfolding getter_def by metis
  then show ?thesis using True l m(2) by (auto simp: bget_def)
next
  case False
  obtain g where g: "reads f (take n (content f)) g" "bread ops n f =
      (if length (content f) < n \<and> die_on_eof f then Inl (fb_fault f ''eof'') else Inr (take n (content f), g))"
    by (rule bread_ok [OF assms(1)])
  then show ?thesis using False assms(3) by (auto simp: bget_def bget_slow_def)
qed

end

context fb_writer_total
begin

lemma bput_total:
  assumes "inv f" "length (put x) = n"
  shows "\<exists>g. bput n put ops x f = Inr g \<and> writes f (put x) g"
proof (cases "n \<le> bavailw f")
  case True
  then show ?thesis
    using bwrite_total [OF assms(1), of "put x"] assms(2) by (auto simp: bput_def bwrite_def)
next
  case False
  then show ?thesis
    using bwrite_loop_total [OF assms(1), of "put x"] by (auto simp: bput_def bput_slow_def bwrite_slow_def)
qed

end

section \<open>Properties\<close>

text \<open>C32: a 64-bit number written to a memory stream between other data is read back from it, in
  either byte order and whatever the block size, so that its bytes may be spread over blocks; when the
  stream ends inside the number the reader returns all ones.\<close>

theorem binary_stream_roundtrip:
  assumes "0 < n" "n < 2 ^ 32"
  shows "\<exists>f g w r. bputq_be fbmem_write_ops x (fbmem_create n) = Inr f \<and>
    bputq_le fbmem_write_ops y f = Inr g \<and> fbmem_clone_read g = Inr (w, r) \<and>
    (\<exists>r1 r2 r3. bgetq_be fbmem_read_ops r = Inr (x, r1) \<and> bgetq_le fbmem_read_ops r1 = Inr (y, r2) \<and>
      bgetl_be fbmem_read_ops r2 = Inr (- 1, r3))"
proof -
  obtain f where f: "bputq_be fbmem_write_ops x (fbmem_create n) = Inr f"
    "fbmemw.writes (fbmem_create n) (put_u64_be x) f"
    using fbmemw.bput_total [of "fbmem_create n" put_u64_be x 8] fbmem_create_winv [OF assms]
    by (auto simp: bputq_be_def)
  obtain g where g: "bputq_le fbmem_write_ops y f = Inr g" "fbmemw.writes f (put_u64_le y) g"
    using fbmemw.bput_total [of f put_u64_le y 8] fbmemw.writes_inv [OF f(2)] by (auto simp: bputq_le_def)
  have wr: "fbmem_written g = put_u64_be x @ put_u64_le y"
    using f(2) g(2) fbmem_create_winv [OF assms] by (simp add: fbmemw.writes_def)
  obtain w r where r: "fbmem_clone_read g = Inr (w, r)" "fbmem_at (put_u64_be x @ put_u64_le y) 0 r"
    "bptr r \<le> bstop r"
    by (rule fbmem_clone_read_ok [OF fbmemw.writes_inv [OF g(2)]]) (use wr in auto)
  have a: "fbmem.ready r" "fbmem.content r = put_u64_be x @ put_u64_le y" "\<not> die_on_eof r"
    using r(2,3) fbmem.at_content [of _ 0 r] by (auto simp: fbmem_at_eq fbmem.ready_def fbmem.at_def)
  obtain r1 where r1: "fbmem.reads r (put_u64_be x) r1" "bgetq_be fbmem_read_ops r = Inr (x, r1)"
    using fbmem.bget_ok [OF a(1) getter_wide(3) a(3)] get_u64_put(2) [of x "[]"] a(2) by (auto simp: bgetq_be_def)
  have c1: "fbmem.content r1 = put_u64_le y" using fbmem.reads_content [OF r1(1)] a(2) by simp
  obtain r2 where r2: "fbmem.reads r1 (put_u64_le y) r2" "bgetq_le fbmem_read_ops r1 = Inr (y, r2)"
    using fbmem.bget_ok [OF fbmem.reads_ready [OF r1(1)] getter_wide(4)] fbmem.reads_die [OF r1(1)] a(3)
      get_u64_put(1) [of y "[]"] c1 by (auto simp: bgetq_le_def)
  have "\<exists>r3. bgetl_be fbmem_read_ops r2 = Inr (- 1, r3)"
    using fbmem.bget_ok [OF fbmem.reads_ready [OF r2(1)] getter_unaligned(3)] fbmem.reads_die [OF r1(1)]
      fbmem.reads_die [OF r2(1)] a(3) fbmem.reads_content [OF r2(1)] c1 by (auto simp: bgetl_be_def)
  then show ?thesis using f(1) g(1) r(1) r1(2) r2(2) by blast
qed

theorem binary_stream_roundtrip_witness:
  "\<exists>f g w r r1. bputq_be fbmem_write_ops 258 (fbmem_create 3) = Inr f \<and>
    bputq_le fbmem_write_ops 7 f = Inr g \<and> fbmem_clone_read g = Inr (w, r) \<and>
    bgetq_be fbmem_read_ops r = Inr (258, r1)"
  using binary_stream_roundtrip [of 3 258 7] by auto

end
