(* ===== verification/Ff_Unicode.thy ===== *)
theory Ff_Unicode
  imports Ff_Binary Unicode Fb_Buffer
begin

text \<open>
  \<open>ucw/ff-unicode.h\<close> and \<open>ucw/ff-unicode.c\<close>: UTF-8 and UTF-16 characters on streams. Every operation
  has a fast path on the buffer and a slow path character by character. A character is returned as an
  \<open>int\<close>, \<open>- 1\<close> at the end of file; the conversion of a \<open>uint\<close> to \<open>int\<close> is \<open>sint\<close>.
\<close>

section \<open>UTF-8\<close>

text \<open>The label \<open>wrong\<close>, and one continuation byte: \<open>None\<close> stands for the jump to \<open>wrong\<close>.\<close>

definition wrong :: "int \<Rightarrow> 'b fastbuf \<Rightarrow> 'b fastbuf res" where
  "wrong c f = (if c \<ge> 0 then bungetc f else Inr f)"

definition get_cont :: "'b fb_ops \<Rightarrow> uint \<Rightarrow> 'b fastbuf \<Rightarrow> (uint option \<times> 'b fastbuf) res" where
  "get_cont ops code f = res_bind (bgetc ops f) (\<lambda>(c, f).
     if c < 0x80 \<or> c \<ge> 0xc0 then res_bind (wrong c f) (\<lambda>f. Inr (None, f))
     else Inr (Some (push_bit 6 code OR (word_of_int c AND 0x3f)), f))"

primrec get_conts :: "'b fb_ops \<Rightarrow> nat \<Rightarrow> uint \<Rightarrow> 'b fastbuf \<Rightarrow> (uint option \<times> 'b fastbuf) res" where
  "get_conts ops 0 code f = Inr (Some code, f)"
| "get_conts ops (Suc nr) code f = res_bind (get_cont ops code f) (\<lambda>(r, f).
     case r of None \<Rightarrow> Inr (None, f) | Some code \<Rightarrow> get_conts ops nr code f)"

text \<open>The skipping of continuation bytes after a header that is too large; it ends at another byte or
  at the end of file.\<close>

partial_function (option) skip_conts :: "'b fb_ops \<Rightarrow> 'b fastbuf \<Rightarrow> (int \<times> 'b fastbuf) res option" where
  "skip_conts ops f = (case bgetc ops f of
     Inl e \<Rightarrow> Some (Inl e)
   | Inr cf \<Rightarrow> if fst cf \<ge> 0x80 \<and> fst cf < 0xc0 then skip_conts ops (snd cf) else Some (Inr cf))"

definition bget_checked :: "'b fb_ops \<Rightarrow> uint \<Rightarrow> nat \<Rightarrow> uint \<Rightarrow> uint \<Rightarrow> 'b fastbuf \<Rightarrow> (int \<times> 'b fastbuf) res" where
  "bget_checked ops repl nr code limit f = res_bind (get_conts ops nr code f) (\<lambda>(r, f). case r of
     None \<Rightarrow> Inr (sint repl, f)
   | Some code \<Rightarrow> if code < limit then Inr (sint repl, f) else Inr (sint code, f))"

definition bget_utf8_slow :: "'b fb_ops \<Rightarrow> uint \<Rightarrow> 'b fastbuf \<Rightarrow> (int \<times> 'b fastbuf) res" where
  "bget_utf8_slow ops repl f = res_bind (bgetc ops f) (\<lambda>(c, f).
     if c < 0x80 then Inr (c, f)
     else if c < 0xc0 then Inr (sint repl, f)
     else if c \<ge> 0xf0 then (case skip_conts ops f of
         None \<Rightarrow> Inl Diverges
       | Some r \<Rightarrow> res_bind r (\<lambda>(c, f). res_bind (wrong c f) (\<lambda>f. Inr (sint repl, f))))
     else if c \<ge> 0xe0 then bget_checked ops repl 2 (word_of_int c AND 0x0f) 0x800 f
     else bget_checked ops repl 1 (word_of_int c AND 0x1f) 0x80 f)"

definition bget_utf8_32_slow :: "'b fb_ops \<Rightarrow> uint \<Rightarrow> 'b fastbuf \<Rightarrow> (int \<times> 'b fastbuf) res" where
  "bget_utf8_32_slow ops repl f = res_bind (bgetc ops f) (\<lambda>(c, f).
     if c < 0x80 then Inr (c, f)
     else if c < 0xc0 then Inr (sint repl, f)
     else if c < 0xe0 then bget_checked ops repl 1 (word_of_int c AND 0x1f) 0x80 f
     else if c < 0xf0 then bget_checked ops repl 2 (word_of_int c AND 0x0f) 0x800 f
     else if c < 0xf8 then bget_checked ops repl 3 (word_of_int c AND 0x07) 0x10000 f
     else if c < 0xfc then bget_checked ops repl 4 (word_of_int c AND 0x03) 0x200000 f
     else if c < 0xfe then bget_checked ops repl 5 (word_of_int c AND 0x01) 0x4000000 f
     else Inr (sint repl, f))"

definition bput_utf8_slow :: "'b fb_ops \<Rightarrow> uint \<Rightarrow> 'b fastbuf \<Rightarrow> 'b fastbuf res" where
  "bput_utf8_slow ops u f = ensure (u < 65536)
    (if u < 0x80 then bputc ops (ucast u) f
     else res_bind
       (if u < 0x800 then bputc ops (ucast (0xc0 OR drop_bit 6 u)) f
        else res_bind (bputc ops (ucast (0xe0 OR drop_bit 12 u)) f)
          (bputc ops (ucast (0x80 OR (drop_bit 6 u AND 0x3f)))))
       (bputc ops (ucast (0x80 OR (u AND 0x3f)))))"

definition bput_utf8_32_slow :: "'b fb_ops \<Rightarrow> uint \<Rightarrow> 'b fastbuf \<Rightarrow> 'b fastbuf res" where
  "bput_utf8_32_slow ops u f = ensure (u < 0x80000000)
    (if u < 0x80 then bputc ops (ucast u) f
     else res_bind
       (if u < 0x800 then bputc ops (ucast (0xc0 OR drop_bit 6 u)) f
        else res_bind
          (if u < 0x10000 then bputc ops (ucast (0xe0 OR drop_bit 12 u)) f
           else res_bind
             (if u < 0x200000 then bputc ops (ucast (0xf0 OR drop_bit 18 u)) f
              else res_bind
                (if u < 0x4000000 then bputc ops (ucast (0xf8 OR drop_bit 24 u)) f
                 else res_bind (bputc ops (ucast (0xfc OR drop_bit 30 u)) f)
                   (bputc ops (ucast (0x80 OR (drop_bit 24 u AND 0x3f)))))
                (bputc ops (ucast (0x80 OR (drop_bit 18 u AND 0x3f)))))
             (bputc ops (ucast (0x80 OR (drop_bit 12 u AND 0x3f)))))
          (bputc ops (ucast (0x80 OR (drop_bit 6 u AND 0x3f)))))
       (bputc ops (ucast (0x80 OR (u AND 0x3f)))))"

text \<open>The fast paths: a decoder on the memory at \<open>bptr\<close>, the new \<open>bptr\<close> behind what it consumed; an
  encoder storing at \<open>bptr\<close>.\<close>

definition get_fast :: "(byte list \<Rightarrow> (uint \<times> byte list) res) \<Rightarrow> 'b fastbuf \<Rightarrow> (int \<times> 'b fastbuf) res" where
  "get_fast dec f = res_bind (dec (drop (bptr f) (mem f))) (\<lambda>(u, r).
     Inr (sint u, f\<lparr>bptr := length (mem f) - length r\<rparr>))"

definition bget_utf8_repl :: "'b fb_ops \<Rightarrow> uint \<Rightarrow> 'b fastbuf \<Rightarrow> (int \<times> 'b fastbuf) res" where
  "bget_utf8_repl ops repl f =
    (if bavailr f \<ge> 3 then get_fast (utf8_get_repl repl) f else bget_utf8_slow ops repl f)"

definition bget_utf8_32_repl :: "'b fb_ops \<Rightarrow> uint \<Rightarrow> 'b fastbuf \<Rightarrow> (int \<times> 'b fastbuf) res" where
  "bget_utf8_32_repl ops repl f =
    (if bavailr f \<ge> 6 then get_fast (utf8_32_get_repl repl) f else bget_utf8_32_slow ops repl f)"

definition bget_utf8 :: "'b fb_ops \<Rightarrow> 'b fastbuf \<Rightarrow> (int \<times> 'b fastbuf) res" where
  "bget_utf8 ops f = bget_utf8_repl ops UNI_REPLACEMENT f"

definition bget_utf8_32 :: "'b fb_ops \<Rightarrow> 'b fastbuf \<Rightarrow> (int \<times> 'b fastbuf) res" where
  "bget_utf8_32 ops f = bget_utf8_32_repl ops UNI_REPLACEMENT f"

definition bput_utf8 :: "'b fb_ops \<Rightarrow> uint \<Rightarrow> 'b fastbuf \<Rightarrow> 'b fastbuf res" where
  "bput_utf8 ops u f =
    (if bavailw f \<ge> 3 then res_bind (utf8_put u) (\<lambda>bs. copy_in bs f) else bput_utf8_slow ops u f)"

definition bput_utf8_32 :: "'b fb_ops \<Rightarrow> uint \<Rightarrow> 'b fastbuf \<Rightarrow> 'b fastbuf res" where
  "bput_utf8_32 ops u f =
    (if bavailw f \<ge> 6 then res_bind (utf8_32_put u) (\<lambda>bs. copy_in bs f) else bput_utf8_32_slow ops u f)"

section \<open>UTF-16\<close>

text \<open>The readers of both byte orders, with \<open>getw\<close> the 16-bit reader of the order.\<close>

definition bget_utf16_slow :: "('b fb_ops \<Rightarrow> 'b fastbuf \<Rightarrow> (uint \<times> 'b fastbuf) res) \<Rightarrow> 'b fb_ops \<Rightarrow> uint \<Rightarrow>
    'b fastbuf \<Rightarrow> (int \<times> 'b fastbuf) res" where
  "bget_utf16_slow getw ops repl f = res_bind (bpeekc ops f) (\<lambda>(c, f).
     if c < 0 then Inr (- 1, f)
     else res_bind (getw ops f) (\<lambda>(u, f).
       if sint u < 0 then Inr (sint repl, f)
       else let x = u - 0xd800 in
         if x \<ge> 0x800 then Inr (sint u, f)
         else if x \<ge> 0x400 then Inr (sint repl, f)
         else res_bind (bpeekc ops f) (\<lambda>(c, f).
           if c < 0 then Inr (sint repl, f)
           else res_bind (getw ops f) (\<lambda>(w, f).
             let y = w - 0xdc00 in
             if y \<ge> 0x400 then Inr (sint repl, f)
             else Inr (sint (0x10000 + push_bit 10 x + y), f)))))"

definition bget_utf16_be_slow :: "'b fb_ops \<Rightarrow> uint \<Rightarrow> 'b fastbuf \<Rightarrow> (int \<times> 'b fastbuf) res" where
  "bget_utf16_be_slow = bget_utf16_slow bgetw_be"

definition bget_utf16_le_slow :: "'b fb_ops \<Rightarrow> uint \<Rightarrow> 'b fastbuf \<Rightarrow> (int \<times> 'b fastbuf) res" where
  "bget_utf16_le_slow = bget_utf16_slow bgetw_le"

text \<open>A run of \<open>bputc\<close>.\<close>

primrec bputcs :: "'b fb_ops \<Rightarrow> byte list \<Rightarrow> 'b fastbuf \<Rightarrow> 'b fastbuf res" where
  "bputcs ops [] f = Inr f"
| "bputcs ops (c # cs) f = res_bind (bputc ops c f) (bputcs ops cs)"

definition bput_utf16_be_slow :: "'b fb_ops \<Rightarrow> uint \<Rightarrow> 'b fastbuf \<Rightarrow> 'b fastbuf res" where
  "bput_utf16_be_slow ops u f =
    (if u < 0xd800 \<or> (u < 0x10000 \<and> u \<ge> 0xe000)
     then bputcs ops [ucast (drop_bit 8 u), ucast (u AND 0xff)] f
     else let u = u - 0x10000 in
       if u < 0x100000
       then bputcs ops [ucast (0xd8 OR drop_bit 18 u), ucast (drop_bit 10 u AND 0xff),
         ucast (0xdc OR (drop_bit 8 u AND 0x3)), ucast (u AND 0xff)] f
       else Inl Assert_failed)"

definition bput_utf16_le_slow :: "'b fb_ops \<Rightarrow> uint \<Rightarrow> 'b fastbuf \<Rightarrow> 'b fastbuf res" where
  "bput_utf16_le_slow ops u f =
    (if u < 0xd800 \<or> (u < 0x10000 \<and> u \<ge> 0xe000)
     then bputcs ops [ucast (u AND 0xff), ucast (drop_bit 8 u)] f
     else let u = u - 0x10000 in
       if u < 0x100000
       then bputcs ops [ucast (drop_bit 10 u AND 0xff), ucast (0xd8 OR drop_bit 18 u),
         ucast (u AND 0xff), ucast (0xdc OR (drop_bit 8 u AND 0x3))] f
       else Inl Assert_failed)"

definition bget_utf16_be_repl :: "'b fb_ops \<Rightarrow> uint \<Rightarrow> 'b fastbuf \<Rightarrow> (int \<times> 'b fastbuf) res" where
  "bget_utf16_be_repl ops repl f =
    (if bavailr f \<ge> 4 then get_fast (utf16_be_get_repl repl) f else bget_utf16_be_slow ops repl f)"

definition bget_utf16_le_repl :: "'b fb_ops \<Rightarrow> uint \<Rightarrow> 'b fastbuf \<Rightarrow> (int \<times> 'b fastbuf) res" where
  "bget_utf16_le_repl ops repl f =
    (if bavailr f \<ge> 4 then get_fast (utf16_le_get_repl repl) f else bget_utf16_le_slow ops repl f)"

definition bget_utf16_be :: "'b fb_ops \<Rightarrow> 'b fastbuf \<Rightarrow> (int \<times> 'b fastbuf) res" where
  "bget_utf16_be ops f = bget_utf16_be_repl ops UNI_REPLACEMENT f"

definition bget_utf16_le :: "'b fb_ops \<Rightarrow> 'b fastbuf \<Rightarrow> (int \<times> 'b fastbuf) res" where
  "bget_utf16_le ops f = bget_utf16_le_repl ops UNI_REPLACEMENT f"

definition bput_utf16_be :: "'b fb_ops \<Rightarrow> uint \<Rightarrow> 'b fastbuf \<Rightarrow> 'b fastbuf res" where
  "bput_utf16_be ops u f =
    (if bavailw f \<ge> 4 then res_bind (utf16_be_put u) (\<lambda>bs. copy_in bs f) else bput_utf16_be_slow ops u f)"

definition bput_utf16_le :: "'b fb_ops \<Rightarrow> uint \<Rightarrow> 'b fastbuf \<Rightarrow> 'b fastbuf res" where
  "bput_utf16_le ops u f =
    (if bavailw f \<ge> 4 then res_bind (utf16_le_put u) (\<lambda>bs. copy_in bs f) else bput_utf16_le_slow ops u f)"

section \<open>Writing\<close>

lemma bputcs_fun:
  "bputcs ops [] = Inr" "bputcs ops (c # cs) = (\<lambda>f. res_bind (bputc ops c f) (bputcs ops cs))"
  by (intro ext, simp)+

lemma bput_utf8_32_slow_eq:
  assumes "utf8_32_put u = Inr bs"
  shows "bput_utf8_32_slow ops u f = bputcs ops bs f"
proof -
  have u: "u < 0x80000000"
    using assms by (auto simp: utf8_32_put_def split: if_splits intro: order_less_trans)
  show ?thesis
    using assms
    by (auto simp: bput_utf8_32_slow_def u utf8_32_put_def put_tail_def res_bind_assoc bputcs_fun res_bind_Inr_right
        split: if_splits)
qed

lemma bput_utf8_slow_eq:
  assumes "utf8_put u = Inr bs"
  shows "bput_utf8_slow ops u f = bputcs ops bs f"
proof -
  have u: "u < 65536"
    using assms by (auto simp: utf8_put_def split: if_splits intro: order_less_trans)
  show ?thesis
    using assms
    by (auto simp: bput_utf8_slow_def u utf8_put_def res_bind_assoc bputcs_fun res_bind_Inr_right split: if_splits)
qed

lemma u16_bytes:
  "ucast (0xd800 OR drop_bit 10 v) = (ucast (drop_bit 10 v AND 0xff) :: byte)"
  "ucast (0xdc00 OR (v AND 0x3ff)) = (ucast (v AND 0xff) :: byte)"
  "ucast (drop_bit 8 (0xdc00 OR (v AND 0x3ff))) = (ucast (0xdc OR (drop_bit 8 v AND 0x3)) :: byte)"
  "ucast (drop_bit 8 (0xd800 OR drop_bit 10 v)) = (ucast (0xd8 OR drop_bit 18 v) :: byte)"
  "ucast (v AND 0xff) = (ucast v :: byte)" for v :: uint
  by (simp_all add: byte_eq_bits bit_simps)

lemma bput_utf16_slow_eq:
  "utf16_be_put u = Inr bs \<Longrightarrow> bput_utf16_be_slow ops u f = bputcs ops bs f"
  "utf16_le_put u = Inr bs \<Longrightarrow> bput_utf16_le_slow ops u f = bputcs ops bs f"
  by (auto simp: bput_utf16_be_slow_def bput_utf16_le_slow_def utf16_be_put_def utf16_le_put_def
      put_u16_be_def put_u16_le_def Let_def u16_bytes split: if_splits)

context fb_writer_total
begin

lemma bputcs_total: "inv f \<Longrightarrow> \<exists>g. bputcs ops bs f = Inr g \<and> writes f bs g"
proof (induction bs arbitrary: f)
  case Nil
  then show ?case by (simp add: writes_refl)
next
  case (Cons b bs)
  obtain g where g: "bputc ops b f = Inr g" "writes f [b] g" by (rule bputc_total [OF Cons.prems])
  obtain h where "bputcs ops bs g = Inr h" "writes g bs h" using Cons.IH [OF writes_inv [OF g(2)]] by blast
  then show ?case using g writes_trans [OF g(2)] by fastforce
qed

text \<open>All writers have this shape.\<close>

lemma put_char_total:
  assumes "inv f" "enc u = Inr bs" "length bs \<le> n"
    and "\<And>f. slow f = bputcs ops bs f"
  shows "\<exists>g. (if bavailw f \<ge> n then res_bind (enc u) (\<lambda>bs. copy_in bs f) else slow f) = Inr g \<and> writes f bs g"
proof (cases "n \<le> bavailw f")
  case True
  then have "bptr f + length bs \<le> bufend f"
    using assms(3) avail [OF assms(1)] inv_wf [OF assms(1)] by linarith
  then show ?thesis
    using True assms(2) copy_in_ok [OF assms(1)] copy_in_writes [OF assms(1)] by fastforce
next
  case False
  then show ?thesis using bputcs_total [OF assms(1)] assms(4) by simp
qed

end

section \<open>Reading\<close>

lemma cont_range: "(c AND 0xc0 \<noteq> 0x80) \<longleftrightarrow> uint c < 0x80 \<or> uint c \<ge> 0xc0" for c :: byte
proof -
  define q where "q = unat c div 64"
  have b: "bit c n \<longleftrightarrow> odd (unat c div 2 ^ n)" for n
  proof -
    have "bit c n \<longleftrightarrow> bit (unat c) n" unfolding bit_unsigned_iff by simp
    then show ?thesis by (simp only: bit_iff_odd)
  qed
  have q: "unat c div 128 = q div 2" "64 * q \<le> unat c" "unat c < 64 * q + 64" "q < 4"
    using unat_less_256 [of c] div_mult2_eq [of "unat c" 64 2] by (simp_all add: q_def)
  have "(c AND 0xc0 = 0x80) \<longleftrightarrow> odd (q div 2) \<and> even q"
    using b [of 7] b [of 6] q(1) by (simp add: and_c0 q_def)
  also have "\<dots> \<longleftrightarrow> q = 2"
  proof -
    have "q = 0 \<or> q = 1 \<or> q = 2 \<or> q = 3" using q(4) by linarith
    then show ?thesis by (elim disjE) simp_all
  qed
  also have "\<dots> \<longleftrightarrow> 128 \<le> unat c \<and> unat c < 192"
    using q(2,3) by linarith
  finally show ?thesis unfolding uint_nat by linarith
qed

context fb_reader
begin

lemma get_cont_ok:
  assumes "inv f" "\<not> die_on_eof f"
  shows "\<exists>g bs good u. reads f bs g \<and> get_cont ops code f = Inr (if good then Some u else None, g) \<and>
    UTF8_GET_NEXT code (content f @ [0]) = Inr (good, u, content g @ [0])"
proof (cases "content f")
  case Nil
  obtain g where "reads f [] g" "bgetc ops f = (if die_on_eof f then Inl (fb_fault f ''eof'') else Inr (- 1, g))"
    by (rule bgetc_eof [OF assms(1) Nil])
  then show ?thesis using assms(2) Nil reads_content
    by (intro exI [of _ g] exI [of _ "[]"] exI [of _ False]) (auto simp: get_cont_def wrong_def)
next
  case (Cons c cs)
  obtain f' g where g: "bgetc ops f = Inr (uint c, f')" "reads f [c] f'" "bungetc f' = Inr g" "reads f [] g"
    by (rule bgetc_some [OF assms(1) Cons])
  have c: "(c AND 0xc0 \<noteq> 0x80) \<longleftrightarrow> uint c < 0x80 \<or> uint c \<ge> 0xc0"
    by (rule cont_range)
  show ?thesis
  proof (cases "c AND 0xc0 = 0x80")
    case True
    then have "get_cont ops code f = Inr (Some (push_bit 6 code OR ucast (c AND 0x3f)), f')"
      using g(1) c by (auto simp: get_cont_def unsigned_and_eq)
    then show ?thesis using True g(2) Cons reads_content [OF g(2)]
      by (intro exI [of _ f'] exI [of _ "[c]"] exI [of _ True]) auto
  next
    case False
    then have "get_cont ops code f = Inr (None, g)"
      using g(1,3) c by (auto simp: get_cont_def wrong_def)
    then show ?thesis using False g(4) Cons reads_content [OF g(4)]
      by (intro exI [of _ g] exI [of _ "[]"] exI [of _ False]) auto
  qed
qed

lemma get_conts_ok:
  "inv f \<Longrightarrow> \<not> die_on_eof f \<Longrightarrow> bptr f \<le> bstop f \<Longrightarrow>
   \<exists>g bs good u. reads f bs g \<and> get_conts ops n code f = Inr (if good then Some u else None, g) \<and>
    get_nexts n code (content f @ [0]) = Inr (good, u, content g @ [0])"
proof (induction n arbitrary: code f)
  case 0
  then show ?case using reads_refl by (intro exI [of _ f] exI [of _ "[]"] exI [of _ True]) auto
next
  case (Suc n)
  obtain g bs good u where g: "reads f bs g" "get_cont ops code f = Inr (if good then Some u else None, g)"
    "UTF8_GET_NEXT code (content f @ [0]) = Inr (good, u, content g @ [0])"
    using get_cont_ok [OF Suc.prems(1,2)] by blast
  show ?case
  proof (cases good)
    case True
    then obtain h cs good' u' where "reads g cs h" "get_conts ops n u g = Inr (if good' then Some u' else None, h)"
      "get_nexts n u (content g @ [0]) = Inr (good', u', content h @ [0])"
      using Suc.IH [OF reads_inv [OF g(1)] _ reads_state [OF g(1)], of u] reads_die [OF g(1)] Suc.prems(2) by auto
    then show ?thesis using g True reads_trans [OF g(1)]
      by (intro exI [of _ h] exI [of _ "bs @ cs"] exI [of _ good']) auto
  next
    case False
    then show ?thesis using g by (intro exI [of _ g] exI [of _ bs] exI [of _ False]) auto
  qed
qed

lemma bget_checked_ok:
  assumes "inv f" "\<not> die_on_eof f" "bptr f \<le> bstop f"
  shows "\<exists>g bs u. reads f bs g \<and> bget_checked ops repl n code limit f = Inr (sint u, g) \<and>
    get_checked repl n code limit (content f @ [0]) = Inr (u, content g @ [0])"
proof -
  obtain g bs good u where "reads f bs g" "get_conts ops n code f = Inr (if good then Some u else None, g)"
    "get_nexts n code (content f @ [0]) = Inr (good, u, content g @ [0])"
    using get_conts_ok [OF assms] by blast
  then show ?thesis
    by (intro exI [of _ g] exI [of _ bs]) (auto simp: bget_checked_def get_checked_def)
qed

lemma uint_byte_less: "uint c < numeral k \<longleftrightarrow> unat c < numeral k" for c :: byte
  unfolding uint_nat by (metis of_nat_less_iff of_nat_numeral)

lemma uint_byte_le: "numeral k \<le> uint c \<longleftrightarrow> numeral k \<le> unat c" for c :: byte
  unfolding uint_nat by (metis of_nat_le_iff of_nat_numeral)

lemma word_of_uint_byte: "word_of_int (uint c) = (ucast c :: uint)" for c :: byte
  by simp

lemma bget_utf8_32_slow_ok:
  assumes "inv f" "\<not> die_on_eof f" "content f \<noteq> []"
  shows "\<exists>g bs u. reads f bs g \<and> bget_utf8_32_slow ops repl f = Inr (sint u, g) \<and>
    utf8_32_get_repl repl (content f @ [0]) = Inr (u, content g @ [0])"
proof -
  obtain c cs where c: "content f = c # cs" using assms(3) by (cases "content f") auto
  obtain f' where f': "bgetc ops f = Inr (uint c, f')" "reads f [c] f'"
    by (rule bgetc_some [OF assms(1) c])
  have cs: "content f' = cs" using reads_content [OF f'(2)] c by simp
  have chk: "\<exists>g bs u. reads f bs g \<and> bget_checked ops repl n code limit f' = Inr (sint u, g) \<and>
      get_checked repl n code limit (cs @ [0]) = Inr (u, content g @ [0])" for n code limit
    using bget_checked_ok [OF reads_inv [OF f'(2)] _ reads_state [OF f'(2)], of repl n code limit]
      reads_die [OF f'(2)] assms(2) cs reads_trans [OF f'(2)] by fastforce
  have one: "\<exists>g bs u. reads f bs g \<and> Inr (v, f') = Inr (sint u, g) \<and> Inr (w, cs @ [0]) = Inr (u, content g @ [0])"
    if "v = sint w" for v w using f'(2) cs that by blast
  consider "unat c < 0x80" | "0x80 \<le> unat c" "unat c < 0xc0" | "0xc0 \<le> unat c" "unat c < 0xe0"
    | "0xe0 \<le> unat c" "unat c < 0xf0" | "0xf0 \<le> unat c" "unat c < 0xf8"
    | "0xf8 \<le> unat c" "unat c < 0xfc" | "0xfc \<le> unat c" "unat c < 0xfe" | "0xfe \<le> unat c"
    by linarith
  then show ?thesis
  proof cases
    case 1
    then show ?thesis
      using one [OF sint_ucast_byte [symmetric]] f'(1) c utf8_32_get_dispatch(1) [of c repl "cs @ [0]"]
      by (auto simp: bget_utf8_32_slow_def uint_byte_less sint_ucast_byte)
  next
    case 2
    then show ?thesis
      using one [of "sint repl" repl] f'(1) c utf8_32_get_dispatch(2) [of c repl "cs @ [0]"]
      by (auto simp: bget_utf8_32_slow_def uint_byte_less)
  next
    case 3
    then show ?thesis
      using chk [of 1 "ucast c AND 0x1f" "0x80"] f'(1) c utf8_32_get_dispatch(3) [of c repl "cs @ [0]"]
      by (simp add: bget_utf8_32_slow_def uint_byte_less and_low_mask(2))
  next
    case 4
    then show ?thesis
      using chk [of 2 "ucast c AND 0x0f" "0x800"] f'(1) c utf8_32_get_dispatch(4) [of c repl "cs @ [0]"]
      by (simp add: bget_utf8_32_slow_def uint_byte_less and_low_mask(3))
  next
    case 5
    then show ?thesis
      using chk [of 3 "ucast c AND 0x07" "0x10000"] f'(1) c utf8_32_get_dispatch(5) [of c repl "cs @ [0]"]
      by (simp add: bget_utf8_32_slow_def uint_byte_less and_low_mask(4))
  next
    case 6
    then show ?thesis
      using chk [of 4 "ucast c AND 0x03" "0x200000"] f'(1) c utf8_32_get_dispatch(6) [of c repl "cs @ [0]"]
      by (simp add: bget_utf8_32_slow_def uint_byte_less and_low_mask(5))
  next
    case 7
    then show ?thesis
      using chk [of 5 "ucast c AND 0x01" "0x4000000"] f'(1) c utf8_32_get_dispatch(7) [of c repl "cs @ [0]"]
      by (simp add: bget_utf8_32_slow_def uint_byte_less and_low_mask(6))
  next
    case 8
    then show ?thesis
      using one [of "sint repl" repl] f'(1) c utf8_32_get_dispatch(8) [of c repl "cs @ [0]"]
      by (auto simp: bget_utf8_32_slow_def uint_byte_less)
  qed
qed

lemma bget_utf8_slow_32:
  assumes "inv f" "content f = c # cs" "unat c < 0xf0"
  shows "bget_utf8_slow ops repl f = bget_utf8_32_slow ops repl f"
proof -
  obtain f' where f': "bgetc ops f = Inr (uint c, f')" by (rule bgetc_some [OF assms(1,2)])
  then show ?thesis
    using assms(3) by (simp add: bget_utf8_slow_def bget_utf8_32_slow_def uint_byte_less uint_byte_le)
qed

end

section \<open>The fast paths\<close>

text \<open>A decoder that does not fail on \<open>k\<close> bytes and does not depend on what follows the bytes it has
  consumed.\<close>

definition local_dec :: "nat \<Rightarrow> (byte list \<Rightarrow> (uint \<times> byte list) res) \<Rightarrow> bool" where
  "local_dec k dec \<longleftrightarrow>
     (\<forall>xs. k \<le> length xs \<longrightarrow> (\<exists>u r. dec xs = Inr (u, r))) \<and>
     (\<forall>xs ys u r. dec xs = Inr (u, r) \<longrightarrow> dec (xs @ ys) = Inr (u, r @ ys) \<and> (\<exists>bs. xs = bs @ r))"

lemma get_nexts_append:
  "get_nexts n code xs = Inr (good, u, r) \<Longrightarrow> get_nexts n code (xs @ ys) = Inr (good, u, r @ ys) \<and> (\<exists>bs. xs = bs @ r)"
proof (induction n arbitrary: code xs)
  case (Suc n)
  then obtain b q where xs: "xs = b # q" by (cases xs) auto
  show ?case
  proof (cases "b AND 0xc0 = 0x80")
    case True
    then have "get_nexts n (push_bit 6 code OR ucast (b AND 0x3f)) q = Inr (good, u, r)"
      using Suc.prems xs by simp
    from Suc.IH [OF this] show ?thesis using True xs by (auto intro: exI [of _ "b # _"])
  next
    case False
    then show ?thesis using Suc.prems xs by auto
  qed
qed simp

lemma get_nexts_total: "n \<le> length xs \<Longrightarrow> \<exists>good u r. get_nexts n code xs = Inr (good, u, r)"
proof (induction n arbitrary: code xs)
  case (Suc n)
  then obtain b q where "xs = b # q" by (cases xs) auto
  then show ?case using Suc by auto
qed auto

lemma get_checked_append:
  "get_checked repl n code limit xs = Inr (u, r) \<Longrightarrow>
     get_checked repl n code limit (xs @ ys) = Inr (u, r @ ys) \<and> (\<exists>bs. xs = bs @ r)"
proof -
  assume c: "get_checked repl n code limit xs = Inr (u, r)"
  obtain good v where g: "get_nexts n code xs = Inr (good, v, r)"
    using c by (auto simp: get_checked_def split: sum.splits if_splits)
  show ?thesis using c get_nexts_append [OF g, of ys] g by (auto simp: get_checked_def split: if_splits)
qed

lemma get_checked_total: "n \<le> length xs \<Longrightarrow> \<exists>u r. get_checked repl n code limit xs = Inr (u, r)"
  using get_nexts_total [of n xs code] by (auto simp: get_checked_def)

lemma get_checked_append_cons:
  "get_checked repl n code limit q = Inr (u, r) \<Longrightarrow>
     get_checked repl n code limit (q @ ys) = Inr (u, r @ ys) \<and> (\<exists>bs. h # q = bs @ r)"
  using get_checked_append [of repl n code limit q u r ys] by (metis append_Cons)

lemma utf8_32_local: "local_dec 6 (utf8_32_get_repl repl)"
proof -
  have "\<exists>u r. utf8_32_get_repl repl xs = Inr (u, r)" if l: "6 \<le> length xs" for xs
  proof -
    obtain h q where xs: "xs = h # q" "5 \<le> length q" using l by (cases xs) auto
    have "\<exists>u r. get_checked repl n code limit q = Inr (u, r)" if "n \<le> 5" for n code limit
      using get_checked_total [of n q] xs(2) that by auto
    then show ?thesis unfolding xs(1) utf8_32_get_repl_def Let_def by simp
  qed
  moreover have "utf8_32_get_repl repl (xs @ ys) = Inr (u, r @ ys) \<and> (\<exists>bs. xs = bs @ r)"
    if d: "utf8_32_get_repl repl xs = Inr (u, r)" for xs ys u r
  proof -
    obtain h q where xs: "xs = h # q" using d by (cases xs) (auto simp: utf8_32_get_repl_def)
    show ?thesis
      using d unfolding xs utf8_32_get_repl_def Let_def
      by (simp split: if_splits add: get_checked_append_cons)
  qed
  ultimately show ?thesis unfolding local_dec_def by blast
qed

lemma utf8_local: "local_dec 3 (utf8_get_repl repl)"
proof -
  have "\<exists>u r. utf8_get_repl repl xs = Inr (u, r)" if l: "3 \<le> length xs" for xs
  proof -
    obtain h q where xs: "xs = h # q" "2 \<le> length q" using l by (cases xs) auto
    have "\<exists>u r. get_checked repl n code limit q = Inr (u, r)" if "n \<le> 2" for n code limit
      using get_checked_total [of n q] xs(2) that by auto
    then show ?thesis unfolding xs(1) utf8_get_repl_def Let_def by simp
  qed
  moreover have "utf8_get_repl repl (xs @ ys) = Inr (u, r @ ys) \<and> (\<exists>bs. xs = bs @ r)"
    if d: "utf8_get_repl repl xs = Inr (u, r)" for xs ys u r
  proof -
    obtain h q where xs: "xs = h # q" using d by (cases xs) (auto simp: utf8_get_repl_def)
    show ?thesis
      using d unfolding xs utf8_get_repl_def Let_def
      by (simp split: if_splits add: get_checked_append_cons)
  qed
  ultimately show ?thesis unfolding local_dec_def by blast
qed

lemma get_u16_append:
  "get_u16_be xs = Inr u \<Longrightarrow> get_u16_be (xs @ ys) = Inr u \<and> 2 \<le> length xs"
  "get_u16_le xs = Inr u \<Longrightarrow> get_u16_le (xs @ ys) = Inr u \<and> 2 \<le> length xs"
  by (auto simp: get_u16_be_def get_u16_le_def split: list.splits)

lemma suffix_drop: "\<exists>bs. xs = bs @ drop k xs"
  by (metis append_take_drop_id)

lemma utf16_be_local: "local_dec 4 (utf16_be_get_repl repl)"
proof -
  have "\<exists>u r. utf16_be_get_repl repl xs = Inr (u, r)" if l: "4 \<le> length xs" for xs
    using bytes4 [OF l] by (auto simp: utf16_be_get_repl_def get_u16_be_def Let_def)
  moreover have "utf16_be_get_repl repl (xs @ ys) = Inr (u, r @ ys) \<and> (\<exists>bs. xs = bs @ r)"
    if "utf16_be_get_repl repl xs = Inr (u, r)" for xs ys u r
    using that get_u16_append(1) [of xs _ ys] get_u16_append(1) [of "drop 2 xs" _ ys] suffix_drop
    by (auto simp: utf16_be_get_repl_def Let_def split: sum.splits if_splits)
  ultimately show ?thesis unfolding local_dec_def by blast
qed

lemma utf16_le_local: "local_dec 4 (utf16_le_get_repl repl)"
proof -
  have "\<exists>u r. utf16_le_get_repl repl xs = Inr (u, r)" if l: "4 \<le> length xs" for xs
    using bytes4 [OF l] by (auto simp: utf16_le_get_repl_def get_u16_le_def Let_def)
  moreover have "utf16_le_get_repl repl (xs @ ys) = Inr (u, r @ ys) \<and> (\<exists>bs. xs = bs @ r)"
    if "utf16_le_get_repl repl xs = Inr (u, r)" for xs ys u r
    using that get_u16_append(2) [of xs _ ys] get_u16_append(2) [of "drop 2 xs" _ ys] suffix_drop
    by (auto simp: utf16_le_get_repl_def Let_def split: sum.splits if_splits)
  ultimately show ?thesis unfolding local_dec_def by blast
qed

context fb_reader
begin

lemma get_fast_ok:
  assumes "ready f" "local_dec k dec" "k \<le> bavailr f"
  shows "\<exists>g bs u. reads f bs g \<and> get_fast dec f = Inr (sint u, g) \<and>
    (\<forall>ys. dec (content f @ ys) = Inr (u, content g @ ys))"
proof -
  have w: "take (bstop f - bptr f) (content f) = window f" by (rule window_content [OF assms(1)])
  have k: "k \<le> length (window f)" using assms(3) avail [OF assms(1)] length_window [OF ready_inv [OF assms(1)]] by simp
  obtain u r where d: "dec (window f) = Inr (u, r)" using assms(2) k unfolding local_dec_def by blast
  obtain bs where u: "window f = bs @ r" "\<And>ys. dec (window f @ ys) = Inr (u, r @ ys)"
    using assms(2) d unfolding local_dec_def by metis
  define x where "x = drop (bstop f - bptr f) (drop (bptr f) (mem f))"
  define y where "y = drop (bstop f - bptr f) (content f)"
  have m: "drop (bptr f) (mem f) = window f @ x" by (simp only: x_def window_def append_take_drop_id)
  have c: "content f = window f @ y" unfolding y_def w [symmetric] by simp
  have l: "length bs \<le> bstop f - bptr f" using u(1) length_window [OF ready_inv [OF assms(1)]] by simp
  have "length (drop (bptr f) (mem f)) = length bs + length (r @ x)" using m u(1) by simp
  then have b: "length (mem f) - length (r @ x) = bptr f + length bs"
    using inv_wf [OF ready_inv [OF assms(1)]] by (simp del: length_append) linarith
  let ?g = "f\<lparr>bptr := bptr f + length bs\<rparr>"
  have t: "take (length bs) (content f) = bs" using c u(1) by simp
  have g: "reads f bs ?g" using copy_out_window [OF assms(1) l] t by simp
  have "content ?g = r @ y" using reads_content [OF g] c u(1) by simp
  moreover have "get_fast dec f = Inr (sint u, ?g)"
    using u(2) [of x] b unfolding get_fast_def m by simp
  moreover have "dec (content f @ ys) = Inr (u, (r @ y) @ ys)" for ys using u(2) [of "y @ ys"] c by simp
  ultimately show ?thesis using g by auto
qed

lemma bget_utf8_32_repl_ok:
  assumes "ready f" "\<not> die_on_eof f" "content f \<noteq> []"
  shows "\<exists>g bs u. reads f bs g \<and> bget_utf8_32_repl ops repl f = Inr (sint u, g) \<and>
    utf8_32_get_repl repl (content f @ [0]) = Inr (u, content g @ [0])"
proof (cases "6 \<le> bavailr f")
  case True
  then show ?thesis
    using get_fast_ok [OF assms(1) utf8_32_local True] by (fastforce simp: bget_utf8_32_repl_def)
next
  case False
  then show ?thesis
    using bget_utf8_32_slow_ok [OF ready_inv [OF assms(1)] assms(2,3)] by (simp add: bget_utf8_32_repl_def)
qed

section \<open>UTF-16 on streams\<close>

lemma get_word_ok:
  assumes "ready f" "\<not> die_on_eof f" "getter 2 get" "get bs = Inr w" "length bs = 2" "content f = bs @ r"
  obtains f' g where "bpeekc ops f = Inr (uint (hd bs), f')" "bget 2 get ops f' = Inr (w, g)" "reads f bs g"
proof -
  obtain b c where bs: "bs = [b, c]" using assms(5) by (cases bs; cases "tl bs") auto
  obtain f' where f': "bpeekc ops f = Inr (uint b, f')" "reads f [] f'"
    by (rule bpeekc_some [OF ready_inv [OF assms(1)], of b "c # r"]) (use assms(6) bs in auto)
  have c: "content f' = bs @ r" using reads_content [OF f'(2)] assms(6) by simp
  obtain g where "reads f' bs g" "bget 2 get ops f' = Inr (w, g)"
    using bget_ok [OF reads_ready [OF f'(2)] assms(3)] reads_die [OF f'(2)] assms(2,4,5) c by auto
  then show thesis using that [of f' g] f'(1) bs reads_trans [OF f'(2)] by simp
qed

lemma sint_u16: "w < 0x10000 \<Longrightarrow> \<not> sint w < 0" for w :: uint
proof -
  assume "w < 0x10000"
  then have "w < 2 ^ 31" by (rule order_less_trans) simp
  then show ?thesis using sint_small [of w] by simp
qed

lemma bget_utf16_slow_ok:
  assumes "ready f" "\<not> die_on_eof f" "utf16_char u" "getter 2 get"
    and put: "\<And>x. x < 0x10000 \<Longrightarrow> get (put x) = Inr x" "\<And>x. length (put x) = 2"
    and bs: "bs = (if u < 0xd800 \<or> (u < 0x10000 \<and> u \<ge> 0xe000) then put u
       else put (0xd800 OR drop_bit 10 (u - 0x10000)) @ put (0xdc00 OR (u - 0x10000 AND 0x3ff)))"
    and "content f = bs @ r"
  shows "\<exists>g. bget_utf16_slow (bget 2 get) ops repl f = Inr (sint u, g) \<and> reads f bs g"
  using assms(3)
proof (cases rule: utf16_cases)
  case 1
  have b: "bs = put u" unfolding bs using 1(3) by simp
  obtain f' g where g: "bpeekc ops f = Inr (uint (hd bs), f')" "bget 2 get ops f' = Inr (u, g)" "reads f bs g"
    by (rule get_word_ok [OF assms(1,2,4), of bs u r]) (use assms(8) put 1(1) b in auto)
  then show ?thesis
    using 1(2) sint_u16 [OF 1(1)] by (simp add: bget_utf16_slow_def Let_def not_less)
next
  case (2 x y)
  note s = surrogates [OF 2(5,6)]
  have n: "\<not> 0x800 \<le> x" "\<not> 0x400 \<le> x" "\<not> 0x400 \<le> y" using 2(5,6) s(3) by (simp_all add: not_le)
  have b: "bs = put (0xd800 + x) @ put (0xdc00 + y)" unfolding bs by (simp only: 2(1,3,4) if_False)
  obtain f' g where g: "bpeekc ops f = Inr (uint (hd (put (0xd800 + x))), f')"
    "bget 2 get ops f' = Inr (0xd800 + x, g)" "reads f (put (0xd800 + x)) g"
    by (rule get_word_ok [OF assms(1,2,4), of "put (0xd800 + x)" "0xd800 + x" "put (0xdc00 + y) @ r"])
      (use assms(8) put s(1) b in auto)
  have c: "content g = put (0xdc00 + y) @ r" using reads_content [OF g(3)] assms(8) b by simp
  obtain g' h where h: "bpeekc ops g = Inr (uint (hd (put (0xdc00 + y))), g')"
    "bget 2 get ops g' = Inr (0xdc00 + y, h)" "reads g (put (0xdc00 + y)) h"
    by (rule get_word_ok [OF reads_ready [OF g(3)] _ assms(4), of "put (0xdc00 + y)" "0xdc00 + y" r])
      (use c put s(2) reads_die [OF g(3)] assms(2) in auto)
  show ?thesis
    using g(1,2) h(1,2) n sint_u16 [OF s(1)] 2(7) reads_trans [OF g(3) h(3)] b
    by (simp add: bget_utf16_slow_def Let_def)
qed

section \<open>Valid encodings are read back\<close>

text \<open>On the encoding of a character every reader returns the character and consumes its bytes.\<close>

lemma fast_char:
  assumes "ready f" "local_dec k dec" "k \<le> bavailr f" "\<And>r. dec (bs @ r) = Inr (u, r)" "content f = bs @ r"
  shows "\<exists>g. get_fast dec f = Inr (sint u, g) \<and> reads f bs g"
proof -
  obtain g cs v where g: "reads f cs g" "get_fast dec f = Inr (sint v, g)"
    "\<And>ys. dec (content f @ ys) = Inr (v, content g @ ys)"
    using get_fast_ok [OF assms(1-3)] by blast
  have "v = u" "content g = r" using g(3) [of "[]"] assms(4) [of r] assms(5) by auto
  then show ?thesis using g(1,2) reads_content [OF g(1)] assms(5) by auto
qed

lemma bget_utf8_32_char:
  assumes "ready f" "\<not> die_on_eof f" "utf8_32_put u = Inr bs" "content f = bs @ r"
  shows "\<exists>g. bget_utf8_32_repl ops repl f = Inr (sint u, g) \<and> reads f bs g"
proof -
  have "content f \<noteq> []" using assms(4) utf8_32_put_hd_nz [OF assms(3)] by simp
  then obtain g cs v where g: "reads f cs g" "bget_utf8_32_repl ops repl f = Inr (sint v, g)"
    "utf8_32_get_repl repl (content f @ [0]) = Inr (v, content g @ [0])"
    using bget_utf8_32_repl_ok [OF assms(1,2)] by blast
  have "v = u" "content g = r" using g(3) utf8_32_put_get [OF assms(3), of repl "r @ [0]"] assms(4) by auto
  then show ?thesis using g(1,2) reads_content [OF g(1)] assms(4) by auto
qed

lemma bget_utf8_char:
  assumes "ready f" "\<not> die_on_eof f" "utf8_put u = Inr bs" "content f = bs @ r"
  shows "\<exists>g. bget_utf8_repl ops repl f = Inr (sint u, g) \<and> reads f bs g"
proof (cases "3 \<le> bavailr f")
  case True
  then show ?thesis
    using fast_char [OF assms(1) utf8_local True _ assms(4)] utf8_put_get [OF assms(3)]
    by (simp add: bget_utf8_repl_def)
next
  case False
  have u: "u < 0x10000" using assms(3)
    by (auto simp: utf8_put_def not_less split: if_splits intro: order_less_trans)
  then have bs: "utf8_32_put u = Inr bs" using assms(3) by (simp add: utf8_put_32)
  obtain h q where h: "bs = h # q" using utf8_32_put_hd_nz [OF bs] by (cases bs) auto
  have "unat h < 0xf0" using utf8_32_put_hd [OF bs u] h by (simp add: word_less_nat_alt)
  then have "bget_utf8_slow ops repl f = bget_utf8_32_slow ops repl f"
    using bget_utf8_slow_32 [OF ready_inv [OF assms(1)], of h "q @ r"] assms(4) h by simp
  moreover have "bget_utf8_32_slow ops repl f = bget_utf8_32_repl ops repl f"
    using False by (simp add: bget_utf8_32_repl_def)
  ultimately show ?thesis
    using False bget_utf8_32_char [OF assms(1,2) bs assms(4)] by (simp add: bget_utf8_repl_def)
qed

lemma bget_utf16_be_char:
  assumes "ready f" "\<not> die_on_eof f" "utf16_char u" "utf16_be_put u = Inr bs" "content f = bs @ r"
  shows "\<exists>g. bget_utf16_be_repl ops repl f = Inr (sint u, g) \<and> reads f bs g"
proof (cases "4 \<le> bavailr f")
  case True
  have "utf16_be_get_repl repl (bs @ r) = Inr (u, r)" for r
    using utf16_be_put_get [OF assms(3), of repl r] assms(4) by auto
  then show ?thesis
    using fast_char [OF assms(1) utf16_be_local True _ assms(5)] True by (simp add: bget_utf16_be_repl_def)
next
  case False
  have bs: "bs = (if u < 0xd800 \<or> (u < 0x10000 \<and> u \<ge> 0xe000) then put_u16_be u
       else put_u16_be (0xd800 OR drop_bit 10 (u - 0x10000)) @ put_u16_be (0xdc00 OR (u - 0x10000 AND 0x3ff)))"
    using assms(4) by (auto simp: utf16_be_put_def Let_def split: if_splits)
  have "\<And>x. x < 0x10000 \<Longrightarrow> get_u16_be (put_u16_be x) = Inr x" using get_u16_put(2) [of _ "[]"] by simp
  then show ?thesis
    using bget_utf16_slow_ok [OF assms(1-3) getter_unaligned(1) _ _ bs assms(5), of repl] False
    by (simp add: bget_utf16_be_repl_def bget_utf16_be_slow_def bgetw_be_def [abs_def])
qed

lemma bget_utf16_le_char:
  assumes "ready f" "\<not> die_on_eof f" "utf16_char u" "utf16_le_put u = Inr bs" "content f = bs @ r"
  shows "\<exists>g. bget_utf16_le_repl ops repl f = Inr (sint u, g) \<and> reads f bs g"
proof (cases "4 \<le> bavailr f")
  case True
  have "utf16_le_get_repl repl (bs @ r) = Inr (u, r)" for r
    using utf16_le_put_get [OF assms(3), of repl r] assms(4) by auto
  then show ?thesis
    using fast_char [OF assms(1) utf16_le_local True _ assms(5)] True by (simp add: bget_utf16_le_repl_def)
next
  case False
  have bs: "bs = (if u < 0xd800 \<or> (u < 0x10000 \<and> u \<ge> 0xe000) then put_u16_le u
       else put_u16_le (0xd800 OR drop_bit 10 (u - 0x10000)) @ put_u16_le (0xdc00 OR (u - 0x10000 AND 0x3ff)))"
    using assms(4) by (auto simp: utf16_le_put_def Let_def split: if_splits)
  have "\<And>x. x < 0x10000 \<Longrightarrow> get_u16_le (put_u16_le x) = Inr x" using get_u16_put(1) [of _ "[]"] by simp
  then show ?thesis
    using bget_utf16_slow_ok [OF assms(1-3) getter_unaligned(2) _ _ bs assms(5), of repl] False
    by (simp add: bget_utf16_le_repl_def bget_utf16_le_slow_def bgetw_le_def [abs_def])
qed

end

section \<open>Streams of characters\<close>

primrec put_chars :: "('a \<Rightarrow> 'b fastbuf \<Rightarrow> 'b fastbuf res) \<Rightarrow> 'a list \<Rightarrow> 'b fastbuf \<Rightarrow> 'b fastbuf res" where
  "put_chars put [] f = Inr f"
| "put_chars put (u # us) f = res_bind (put u f) (put_chars put us)"

primrec get_chars :: "('b fastbuf \<Rightarrow> (int \<times> 'b fastbuf) res) \<Rightarrow> nat \<Rightarrow> 'b fastbuf \<Rightarrow> (int list \<times> 'b fastbuf) res" where
  "get_chars get 0 f = Inr ([], f)"
| "get_chars get (Suc n) f = res_bind (get f) (\<lambda>(c, f). res_bind (get_chars get n f) (\<lambda>(cs, f). Inr (c # cs, f)))"

text \<open>The contract of a character encoding on memory streams, by which sequences of characters are
  read back.\<close>

locale stream_codec =
  fixes put :: "uint \<Rightarrow> fb_mem fastbuf \<Rightarrow> fb_mem fastbuf res"
    and get :: "fb_mem fastbuf \<Rightarrow> (int \<times> fb_mem fastbuf) res"
    and ok :: "uint \<Rightarrow> bool"
    and enc :: "uint \<Rightarrow> byte list res"
  assumes put_ok: "ok u \<Longrightarrow> fbmem_winv f \<Longrightarrow> \<exists>g bs. enc u = Inr bs \<and> put u f = Inr g \<and> fbmemw.writes f bs g"
    and get_ok: "ok u \<Longrightarrow> enc u = Inr bs \<Longrightarrow> fbmem.ready f \<Longrightarrow> \<not> die_on_eof f \<Longrightarrow>
      fbmem.content f = bs @ r \<Longrightarrow> \<exists>g. get f = Inr (sint u, g) \<and> fbmem.reads f bs g"
begin

lemma put_chars_ok:
  "\<forall>u\<in>set us. ok u \<Longrightarrow> fbmem_winv f \<Longrightarrow>
     \<exists>g bs. enc_all enc us = Inr bs \<and> put_chars put us f = Inr g \<and> fbmemw.writes f bs g"
proof (induction us arbitrary: f)
  case Nil
  then show ?case by (simp add: fbmemw.writes_refl)
next
  case (Cons u us)
  obtain g bs where g: "enc u = Inr bs" "put u f = Inr g" "fbmemw.writes f bs g"
    using put_ok [of u f] Cons.prems by auto
  obtain h cs where "enc_all enc us = Inr cs" "put_chars put us g = Inr h" "fbmemw.writes g cs h"
    using Cons.IH [of g] Cons.prems fbmemw.writes_inv [OF g(3)] by auto
  then show ?case using g fbmemw.writes_trans [OF g(3)] by auto
qed

lemma get_chars_ok:
  "\<forall>u\<in>set us. ok u \<Longrightarrow> enc_all enc us = Inr bs \<Longrightarrow> fbmem.ready f \<Longrightarrow> \<not> die_on_eof f \<Longrightarrow>
     fbmem.content f = bs @ r \<Longrightarrow>
     \<exists>g. get_chars get (length us) f = Inr (map sint us, g) \<and> fbmem.reads f bs g"
proof (induction us arbitrary: f bs)
  case Nil
  then show ?case by (simp add: fbmem.ready_refl)
next
  case (Cons u us)
  obtain b cs where b: "enc u = Inr b" "enc_all enc us = Inr cs" "bs = b @ cs"
    using Cons.prems(2) by (auto split: sum.splits)
  obtain g where g: "get f = Inr (sint u, g)" "fbmem.reads f b g"
    using get_ok [of u b f "cs @ r"] Cons.prems b by auto
  have c: "fbmem.content g = cs @ r" using fbmem.reads_content [OF g(2)] Cons.prems(5) b by simp
  obtain h where "get_chars get (length us) g = Inr (map sint us, h)" "fbmem.reads g cs h"
    using Cons.IH [of cs g] Cons.prems b(2) c fbmem.reads_ready [OF g(2)] fbmem.reads_die [OF g(2)] by auto
  then show ?case using g b fbmem.reads_trans [OF g(2)] by auto
qed

lemma roundtrip:
  assumes "\<forall>u\<in>set us. ok u" "0 < n" "n < 2 ^ 32"
  shows "\<exists>f w r g h. put_chars put us (fbmem_create n) = Inr f \<and> fbmem_clone_read f = Inr (w, r) \<and>
    get_chars get (length us) r = Inr (map sint us, g) \<and> beof fbmem_read_ops g = Inr (True, h)"
proof -
  obtain f bs where f: "enc_all enc us = Inr bs" "put_chars put us (fbmem_create n) = Inr f"
    "fbmemw.writes (fbmem_create n) bs f"
    using put_chars_ok [OF assms(1), of "fbmem_create n"] fbmem_create_winv [OF assms(2,3)] by auto
  have w: "fbmem_written f = bs" using f(3) fbmem_create_winv [OF assms(2,3)] by (simp add: fbmemw.writes_def)
  obtain w r where r: "fbmem_clone_read f = Inr (w, r)" "fbmem_at bs 0 r" "bptr r \<le> bstop r"
    by (rule fbmem_clone_read_ok [OF fbmemw.writes_inv [OF f(3)]]) (use w in auto)
  have a: "fbmem.ready r" "fbmem.content r = bs @ []" "\<not> die_on_eof r"
    using r(2,3) fbmem.at_content [of _ 0 r] by (auto simp: fbmem_at_eq fbmem.ready_def fbmem.at_def)
  obtain g where g: "get_chars get (length us) r = Inr (map sint us, g)" "fbmem.reads r bs g"
    using get_chars_ok [OF assms(1) f(1) a(1,3,2)] by blast
  have e: "fbmem.content g = []" using fbmem.reads_content [OF g(2)] a(2) by simp
  obtain h where "beof fbmem_read_ops g = Inr (fbmem.content g = [], h)"
    by (rule fbmem.beof_ok [OF fbmem.reads_inv [OF g(2)]])
  then show ?thesis using f(2) r(1) g(1) e by auto
qed

end

interpretation s_utf8_32: stream_codec "bput_utf8_32 fbmem_write_ops" "bget_utf8_32_repl fbmem_read_ops repl"
  "\<lambda>u. u < 0x80000000" utf8_32_put for repl
proof
  fix u f assume u: "u < (0x80000000 :: uint)" "fbmem_winv f"
  obtain bs where bs: "utf8_32_put u = Inr bs" using utf8_32_put_total [OF u(1)] by blast
  have "length bs \<le> 6" using bs by (auto simp: utf8_32_put_def split: if_splits)
  with fbmemw.put_char_total [OF u(2), of utf8_32_put u bs 6 "bput_utf8_32_slow fbmem_write_ops u"] bs
  show "\<exists>g bs. utf8_32_put u = Inr bs \<and> bput_utf8_32 fbmem_write_ops u f = Inr g \<and> fbmemw.writes f bs g"
    by (auto simp: bput_utf8_32_def bput_utf8_32_slow_eq)
qed (rule fbmem.bget_utf8_32_char)

interpretation s_utf8: stream_codec "bput_utf8 fbmem_write_ops" "bget_utf8_repl fbmem_read_ops repl"
  "\<lambda>u. u < 0x10000" utf8_put for repl
proof
  fix u f assume u: "u < (0x10000 :: uint)" "fbmem_winv f"
  obtain bs where bs: "utf8_put u = Inr bs" using utf8.enc_ok [OF u(1)] by blast
  have "length bs \<le> 3" using bs by (auto simp: utf8_put_def split: if_splits)
  with fbmemw.put_char_total [OF u(2), of utf8_put u bs 3 "bput_utf8_slow fbmem_write_ops u"] bs
  show "\<exists>g bs. utf8_put u = Inr bs \<and> bput_utf8 fbmem_write_ops u f = Inr g \<and> fbmemw.writes f bs g"
    by (auto simp: bput_utf8_def bput_utf8_slow_eq)
qed (rule fbmem.bget_utf8_char)

interpretation s_utf16_be: stream_codec "bput_utf16_be fbmem_write_ops" "bget_utf16_be_repl fbmem_read_ops repl"
  utf16_char utf16_be_put for repl
proof
  fix u f assume u: "utf16_char u" "fbmem_winv f"
  obtain bs where bs: "utf16_be_put u = Inr bs" using utf16_be.enc_ok [OF u(1)] by blast
  have "length bs \<le> 4" using bs by (auto simp: utf16_be_put_def Let_def split: if_splits)
  with fbmemw.put_char_total [OF u(2), of utf16_be_put u bs 4 "bput_utf16_be_slow fbmem_write_ops u"] bs
  show "\<exists>g bs. utf16_be_put u = Inr bs \<and> bput_utf16_be fbmem_write_ops u f = Inr g \<and> fbmemw.writes f bs g"
    by (auto simp: bput_utf16_be_def bput_utf16_slow_eq)
qed (rule fbmem.bget_utf16_be_char)

interpretation s_utf16_le: stream_codec "bput_utf16_le fbmem_write_ops" "bget_utf16_le_repl fbmem_read_ops repl"
  utf16_char utf16_le_put for repl
proof
  fix u f assume u: "utf16_char u" "fbmem_winv f"
  obtain bs where bs: "utf16_le_put u = Inr bs" using utf16_le.enc_ok [OF u(1)] by blast
  have "length bs \<le> 4" using bs by (auto simp: utf16_le_put_def Let_def split: if_splits)
  with fbmemw.put_char_total [OF u(2), of utf16_le_put u bs 4 "bput_utf16_le_slow fbmem_write_ops u"] bs
  show "\<exists>g bs. utf16_le_put u = Inr bs \<and> bput_utf16_le fbmem_write_ops u f = Inr g \<and> fbmemw.writes f bs g"
    by (auto simp: bput_utf16_le_def bput_utf16_slow_eq)
qed (rule fbmem.bget_utf16_le_char)

section \<open>Properties\<close>

text \<open>C33: a text written to a memory stream in any of the four encodings is read back character by
  character, and then the stream is at its end. The block size is arbitrary, so characters may be split
  between blocks and every mixture of fast and slow paths occurs.\<close>

theorem unicode_stream_roundtrip:
  assumes "0 < n" "n < 2 ^ 32"
  shows "((\<forall>u\<in>set us. u < 0x80000000) \<longrightarrow>
      (\<exists>f w r g h. put_chars (bput_utf8_32 fbmem_write_ops) us (fbmem_create n) = Inr f \<and>
        fbmem_clone_read f = Inr (w, r) \<and>
        get_chars (bget_utf8_32 fbmem_read_ops) (length us) r = Inr (map sint us, g) \<and>
        beof fbmem_read_ops g = Inr (True, h))) \<and>
    ((\<forall>u\<in>set us. u < 0x10000) \<longrightarrow>
      (\<exists>f w r g h. put_chars (bput_utf8 fbmem_write_ops) us (fbmem_create n) = Inr f \<and>
        fbmem_clone_read f = Inr (w, r) \<and>
        get_chars (bget_utf8 fbmem_read_ops) (length us) r = Inr (map sint us, g) \<and>
        beof fbmem_read_ops g = Inr (True, h))) \<and>
    ((\<forall>u\<in>set us. utf16_char u) \<longrightarrow>
      (\<exists>f w r g h. put_chars (bput_utf16_be fbmem_write_ops) us (fbmem_create n) = Inr f \<and>
        fbmem_clone_read f = Inr (w, r) \<and>
        get_chars (bget_utf16_be fbmem_read_ops) (length us) r = Inr (map sint us, g) \<and>
        beof fbmem_read_ops g = Inr (True, h)) \<and>
      (\<exists>f w r g h. put_chars (bput_utf16_le fbmem_write_ops) us (fbmem_create n) = Inr f \<and>
        fbmem_clone_read f = Inr (w, r) \<and>
        get_chars (bget_utf16_le fbmem_read_ops) (length us) r = Inr (map sint us, g) \<and>
        beof fbmem_read_ops g = Inr (True, h)))"
  using s_utf8_32.roundtrip [OF _ assms, of us UNI_REPLACEMENT] s_utf8.roundtrip [OF _ assms, of us UNI_REPLACEMENT]
    s_utf16_be.roundtrip [OF _ assms, of us UNI_REPLACEMENT] s_utf16_le.roundtrip [OF _ assms, of us UNI_REPLACEMENT]
  unfolding bget_utf8_32_def [abs_def] bget_utf8_def [abs_def] bget_utf16_be_def [abs_def] bget_utf16_le_def [abs_def]
  by blast

theorem unicode_stream_roundtrip_witness:
  "\<exists>f w r g. put_chars (bput_utf8_32 fbmem_write_ops) [0x61, 0x20ac] (fbmem_create 2) = Inr f \<and>
     fbmem_clone_read f = Inr (w, r) \<and>
     get_chars (bget_utf8_32 fbmem_read_ops) (length [0x61, 0x20ac :: uint]) r =
       Inr (map sint [0x61, 0x20ac :: uint], g)"
proof -
  have "0 < (2 :: nat)" "(2 :: nat) < 2 ^ 32" "\<forall>u\<in>set [0x61, 0x20ac :: uint]. u < 0x80000000" by simp_all
  then show ?thesis using unicode_stream_roundtrip [of 2 "[0x61, 0x20ac]"] by blast
qed

text \<open>The two paths of the reader of 16-bit UTF-8 treat a header byte above \<open>0xef\<close> differently: the
  slow path also skips the continuation bytes that follow, the fast path leaves them to be reported one
  by one. In UTF-16, a high surrogate that is not followed by a low one consumes two bytes on the fast
  path and four on the slow path, so the character after it is lost.\<close>

lemmas ff_eval = fbbuf_init_read_def fbbuf_read_ops_def fbbuf_refill_def bavailr_def uint_diff_def btell_def
  bgetc_def bgetc_slow_def bpeekc_def brefill_def get_byte_def deref_def bungetc_def wrong_def get_fast_def Let_def

lemma bget_utf8_paths_differ:
  "\<exists>g h. bget_utf8_repl fbbuf_read_ops 0 (fbbuf_init_read [0xf0, 0x80]) = Inr (0, g) \<and> btell g = 2 \<and>
     bget_utf8_repl fbbuf_read_ops 0 (fbbuf_init_read [0xf0, 0x80, 0x61]) = Inr (0, h) \<and> btell h = 1"
  by (simp add: ff_eval bget_utf8_repl_def bget_utf8_slow_def skip_conts.simps utf8_get_repl_def)

lemma bget_utf16_paths_differ:
  "\<exists>g h. bget_utf16_be_slow fbbuf_read_ops 0 (fbbuf_init_read [0xd8, 0, 0, 0x41]) = Inr (0, g) \<and> btell g = 4 \<and>
     bget_utf16_be_repl fbbuf_read_ops 0 (fbbuf_init_read [0xd8, 0, 0, 0x41]) = Inr (0, h) \<and> btell h = 2"
  by (simp add: ff_eval bget_utf16_be_repl_def bget_utf16_be_slow_def bget_utf16_slow_def bgetw_be_def bget_def
      utf16_be_get_repl_def get_u16_be_def)

end
