(* ===== verification/Digest.thy ===== *)
theory Digest
  imports Unaligned
begin

text \<open>
  What the message digests and checksums of the library (\<open>ucw/sha1.c\<close>, \<open>ucw/md5.c\<close>, \<open>ucw/crc.c\<close>,
  \<open>ucw/adler32.c\<close>) have in common: the contract
  of an incremental digest, and, for the digests, the iteration of a compression function over blocks of 64 bytes with
  the padding of RFC 1321 and RFC 3174, to which both are compared.
\<close>

section \<open>The contract of an incremental digest\<close>

text \<open>A fresh context has absorbed nothing; updates extend the message by at most \<open>2\<^sup>3\<^sup>2 - 1\<close> bytes (the
  range of the \<open>uint\<close> length), and \<open>final\<close> returns the digest of the message absorbed, provided that its
  length is one the code can count.\<close>

locale incremental_digest =
  fixes fresh :: "'c \<Rightarrow> bool"
    and update :: "'c \<Rightarrow> byte list \<Rightarrow> 'c"
    and final :: "'c \<Rightarrow> 'd"
    and absorbed :: "'c \<Rightarrow> byte list \<Rightarrow> bool"
    and digest :: "byte list \<Rightarrow> 'd"
    and within :: "nat \<Rightarrow> bool"
  assumes fresh_absorbed: "fresh c \<Longrightarrow> absorbed c []"
    and update_absorbed: "absorbed c m \<Longrightarrow> length d < 2 ^ 32 \<Longrightarrow> absorbed (update c d) (m @ d)"
    and final_digest: "absorbed c m \<Longrightarrow> within (length m) \<Longrightarrow> final c = digest m"
begin

lemma updates_absorbed:
  "absorbed c m \<Longrightarrow> \<forall>d\<in>set ds. length d < 2 ^ 32 \<Longrightarrow> absorbed (foldl update c ds) (m @ concat ds)"
proof (induction ds arbitrary: c m)
  case Nil
  then show ?case by simp
next
  case (Cons d ds)
  then have "absorbed (foldl update (update c d) ds) ((m @ d) @ concat ds)"
    by (intro Cons.IH update_absorbed) auto
  then show ?case by simp
qed

text \<open>How a message is cut into updates does not matter.\<close>

lemma chunks_digest:
  assumes "fresh c" "\<forall>d\<in>set ds. length d < 2 ^ 32" "within (length (concat ds))"
  shows "final (foldl update c ds) = digest (concat ds)"
  using updates_absorbed [OF fresh_absorbed [OF assms(1)] assms(2)] assms(3) by (intro final_digest) auto

end

section \<open>Iterated compression\<close>

text \<open>Folding a compression function over the complete 64-byte blocks of a message.\<close>

function md_fold :: "('h \<Rightarrow> byte list \<Rightarrow> 'h) \<Rightarrow> 'h \<Rightarrow> byte list \<Rightarrow> 'h" where
  "md_fold c h m = (if length m < 64 then h else md_fold c (c h (take 64 m)) (drop 64 m))"
  by pat_completeness auto
termination
  by (relation "measure (\<lambda>(c, h, m). length m)") auto

declare md_fold.simps [simp del]

lemma md_fold_short [simp]: "length m < 64 \<Longrightarrow> md_fold c h m = h"
  by (simp add: md_fold.simps)

lemma md_fold_block: "length b = 64 \<Longrightarrow> md_fold c h (b @ m) = md_fold c (c h b) m"
  by (subst md_fold.simps) simp

lemma md_fold_append: "length a = 64 * n \<Longrightarrow> md_fold c h (a @ b) = md_fold c (md_fold c h a) b"
proof (induction n arbitrary: a h)
  case 0
  then show ?case by simp
next
  case (Suc n)
  then have "a = take 64 a @ drop 64 a" "length (take 64 a) = 64" by auto
  moreover have "length (drop 64 a) = 64 * n" using Suc.prems by simp
  ultimately show ?case using Suc.IH md_fold_block by (metis append.assoc)
qed

text \<open>The padding: a byte \<open>0x80\<close>, zeroes up to 56 modulo 64, and eight bytes of length.\<close>

definition md_pad :: "byte list \<Rightarrow> byte list \<Rightarrow> byte list" where
  "md_pad len m = m @ [0x80] @ replicate ((119 - length m mod 64) mod 64) 0 @ len"

text \<open>The state of a context: \<open>n\<close> blocks of the message have been compressed to \<open>h\<close>, \<open>rest\<close> waits.\<close>

definition md_absorbed :: "('h \<Rightarrow> byte list \<Rightarrow> 'h) \<Rightarrow> 'h \<Rightarrow> nat \<Rightarrow> byte list \<Rightarrow> 'h \<Rightarrow> byte list \<Rightarrow> bool" where
  "md_absorbed c iv n rest h m \<longleftrightarrow> (\<exists>p. m = p @ rest \<and> length p = 64 * n \<and> h = md_fold c iv p)"

lemma md_absorbed_init: "md_absorbed c iv 0 [] iv []"
  by (simp add: md_absorbed_def)

lemma md_absorbed_extend: "md_absorbed c iv n rest h m \<Longrightarrow> md_absorbed c iv n (rest @ d) h (m @ d)"
  by (auto simp: md_absorbed_def)

lemma md_absorbed_length: "md_absorbed c iv n rest h m \<Longrightarrow> length m = 64 * n + length rest"
  by (auto simp: md_absorbed_def)

lemma md_absorbed_block:
  assumes "md_absorbed c iv n (b @ rest) h m" "length b = 64"
  shows "md_absorbed c iv (Suc n) rest (c h b) m"
proof -
  obtain p where p: "m = p @ b @ rest" "length p = 64 * n" "h = md_fold c iv p"
    using assms(1) by (auto simp: md_absorbed_def)
  have "md_fold c iv (p @ b) = c h b"
    using md_fold_append [OF p(2), of c iv b] md_fold_block [OF assms(2), of c h "[]"] p(3) by simp
  then show ?thesis unfolding md_absorbed_def using p assms(2) by (intro exI [of _ "p @ b"]) simp
qed

lemma md_absorbed_fold: "md_absorbed c iv n rest h m \<Longrightarrow> md_fold c iv (m @ x) = md_fold c h (rest @ x)"
  by (auto simp: md_absorbed_def md_fold_append)

text \<open>The tail of the computation: the waiting bytes are padded to one block or to two.\<close>

lemma md_final_one:
  assumes "md_absorbed c iv n rest h m" "length rest < 56" "length len = 8"
  shows "md_fold c iv (md_pad len m) = c h (rest @ [0x80] @ replicate (55 - length rest) 0 @ len)"
proof -
  have l: "length m mod 64 = length rest" using md_absorbed_length [OF assms(1)] assms(2) by simp
  then have "(119 - length m mod 64) mod 64 = 55 - length rest"
    using assms(2) by (simp add: mod_if)
  then have "md_fold c iv (md_pad len m) = md_fold c h ((rest @ [0x80] @ replicate (55 - length rest) 0 @ len) @ [])"
    using md_absorbed_fold [OF assms(1)] by (simp add: md_pad_def)
  also have "\<dots> = md_fold c (c h (rest @ [0x80] @ replicate (55 - length rest) 0 @ len)) []"
    by (rule md_fold_block) (use assms(2,3) in simp)
  finally show ?thesis by simp
qed

lemma md_final_two:
  assumes "md_absorbed c iv n rest h m" "56 \<le> length rest" "length rest < 64" "length len = 8"
  shows "md_fold c iv (md_pad len m) =
    c (c h (rest @ [0x80] @ replicate (63 - length rest) 0)) (replicate 56 0 @ len)"
proof -
  have l: "length m mod 64 = length rest" using md_absorbed_length [OF assms(1)] assms(3) by simp
  then have "(119 - length m mod 64) mod 64 = (63 - length rest) + 56"
    using assms(2,3) by (simp add: mod_if)
  then have "md_fold c iv (md_pad len m) =
      md_fold c h ((rest @ [0x80] @ replicate (63 - length rest) 0) @ (replicate 56 0 @ len) @ [])"
    using md_absorbed_fold [OF assms(1)] by (simp add: md_pad_def replicate_add)
  also have "\<dots> = md_fold c (c h (rest @ [0x80] @ replicate (63 - length rest) 0)) ((replicate 56 0 @ len) @ [])"
    by (rule md_fold_block) (use assms(3) in simp)
  also have "\<dots> = c (c h (rest @ [0x80] @ replicate (63 - length rest) 0)) (replicate 56 0 @ len)"
    using md_fold_block [of "replicate 56 0 @ len" c _ "[]"] assms(4) by simp
  finally show ?thesis .
qed

end
