(* ===== verification/Sha1.thy ===== *)
theory Sha1
  imports Digest
begin

text \<open>
  \<open>ucw/sha1.c\<close> and \<open>ucw/sha1-hmac.c\<close>: SHA-1 and HMAC-SHA-1. A context is a record; the five chaining
  variables \<open>h0\<close> to \<open>h4\<close> are one tuple. The null pointer that \<open>sha1_update\<close> takes as input is
  \<open>None\<close>. The unrolled 80 rounds of \<open>transform\<close> are sixteen groups of five.
\<close>

section \<open>Operations\<close>

definition ROL :: "u32 \<Rightarrow> nat \<Rightarrow> u32" where
  "ROL x bits = push_bit bits x OR drop_bit (32 - bits) x"

type_synonym sha1_vars = "u32 \<times> u32 \<times> u32 \<times> u32 \<times> u32"

record sha1_context =
  sha1_h :: sha1_vars
  nblocks :: u32
  sha1_buf :: "byte list"
  sha1_count :: nat

definition sha1_iv :: sha1_vars where
  "sha1_iv = (0x67452301, 0xefcdab89, 0x98badcfe, 0x10325476, 0xc3d2e1f0)"

text \<open>The contents of \<open>buf\<close> are not initialized by the code; the 64 bytes are an argument.\<close>

definition sha1_init :: "byte list \<Rightarrow> sha1_context" where
  "sha1_init garbage = \<lparr>sha1_h = sha1_iv, nblocks = 0, sha1_buf = garbage, sha1_count = 0\<rparr>"

definition sha1_K1 :: u32 where "sha1_K1 = 0x5A827999"
definition sha1_K2 :: u32 where "sha1_K2 = 0x6ED9EBA1"
definition sha1_K3 :: u32 where "sha1_K3 = 0x8F1BBCDC"
definition sha1_K4 :: u32 where "sha1_K4 = 0xCA62C1D6"

definition sha1_F1 :: "u32 \<Rightarrow> u32 \<Rightarrow> u32 \<Rightarrow> u32" where "sha1_F1 x y z = z XOR (x AND (y XOR z))"
definition sha1_F2 :: "u32 \<Rightarrow> u32 \<Rightarrow> u32 \<Rightarrow> u32" where "sha1_F2 x y z = x XOR y XOR z"
definition sha1_F3 :: "u32 \<Rightarrow> u32 \<Rightarrow> u32 \<Rightarrow> u32" where "sha1_F3 x y z = (x AND y) OR (z AND (x OR y))"
definition sha1_F4 :: "u32 \<Rightarrow> u32 \<Rightarrow> u32 \<Rightarrow> u32" where "sha1_F4 x y z = x XOR y XOR z"

text \<open>The macro \<open>M\<close> returns the message word and stores it in the ring \<open>x\<close> of sixteen words. The first
  sixteen rounds use the ring as it is.\<close>

definition sha1_M :: "nat \<Rightarrow> u32 list \<Rightarrow> u32 \<times> u32 list" where
  "sha1_M i x = (let tm = x ! (i mod 16) XOR x ! ((i - 14) mod 16) XOR x ! ((i - 8) mod 16) XOR x ! ((i - 3) mod 16);
                v = ROL tm 1 in (v, x[i mod 16 := v]))"

definition sha1_msg :: "nat \<Rightarrow> u32 list \<Rightarrow> u32 \<times> u32 list" where
  "sha1_msg i x = (if i < 16 then (x ! i, x) else sha1_M i x)"

text \<open>The macro \<open>R\<close> changes its arguments \<open>b\<close> and \<open>e\<close>.\<close>

definition sha1_R :: "u32 \<Rightarrow> u32 \<Rightarrow> u32 \<Rightarrow> u32 \<Rightarrow> u32 \<Rightarrow> (u32 \<Rightarrow> u32 \<Rightarrow> u32 \<Rightarrow> u32) \<Rightarrow> u32 \<Rightarrow> u32 \<Rightarrow> u32 \<times> u32" where
  "sha1_R a b c d e f k m = (ROL b 30, e + (ROL a 5 + f b c d + k + m))"

text \<open>Five consecutive rounds from round \<open>i\<close> on, in which the five variables take each role once.\<close>

definition sha1_R5 :: "(u32 \<Rightarrow> u32 \<Rightarrow> u32 \<Rightarrow> u32) \<Rightarrow> u32 \<Rightarrow> nat \<Rightarrow> sha1_vars \<times> u32 list \<Rightarrow> sha1_vars \<times> u32 list" where
  "sha1_R5 f k i s = (case s of ((a, b, c, d, e), x) \<Rightarrow>
    let (m, x) = sha1_msg i x; (b, e) = sha1_R a b c d e f k m;
        (m, x) = sha1_msg (i + 1) x; (a, d) = sha1_R e a b c d f k m;
        (m, x) = sha1_msg (i + 2) x; (e, c) = sha1_R d e a b c f k m;
        (m, x) = sha1_msg (i + 3) x; (d, b) = sha1_R c d e a b f k m;
        (m, x) = sha1_msg (i + 4) x; (c, a) = sha1_R b c d e a f k m
    in ((a, b, c, d, e), x))"

definition sha1_rounds :: "sha1_vars \<times> u32 list \<Rightarrow> sha1_vars \<times> u32 list" where
  "sha1_rounds s =
    sha1_R5 sha1_F4 sha1_K4 75 (sha1_R5 sha1_F4 sha1_K4 70 (sha1_R5 sha1_F4 sha1_K4 65 (sha1_R5 sha1_F4 sha1_K4 60
   (sha1_R5 sha1_F3 sha1_K3 55 (sha1_R5 sha1_F3 sha1_K3 50 (sha1_R5 sha1_F3 sha1_K3 45 (sha1_R5 sha1_F3 sha1_K3 40
   (sha1_R5 sha1_F2 sha1_K2 35 (sha1_R5 sha1_F2 sha1_K2 30 (sha1_R5 sha1_F2 sha1_K2 25 (sha1_R5 sha1_F2 sha1_K2 20
   (sha1_R5 sha1_F1 sha1_K1 15 (sha1_R5 sha1_F1 sha1_K1 10 (sha1_R5 sha1_F1 sha1_K1 5 (sha1_R5 sha1_F1 sha1_K1 0 s)))))))))))))))"

text \<open>The big-endian word number \<open>i\<close> of a block; blocks always have 64 bytes.\<close>

definition block_word :: "byte list \<Rightarrow> nat \<Rightarrow> u32" where
  "block_word data i = (case get_u32_be (drop (4 * i) data) of Inr w \<Rightarrow> w | Inl _ \<Rightarrow> 0)"

definition add5 :: "sha1_vars \<Rightarrow> sha1_vars \<Rightarrow> sha1_vars" where
  "add5 h s = (case (h, s) of ((h0, h1, h2, h3, h4), (a, b, c, d, e)) \<Rightarrow>
     (h0 + a, h1 + b, h2 + c, h3 + d, h4 + e))"

definition transform :: "sha1_context \<Rightarrow> byte list \<Rightarrow> sha1_context" where
  "transform ctx data = ctx\<lparr>sha1_h :=
     add5 (sha1_h ctx) (fst (sha1_rounds (sha1_h ctx, map (block_word data) [0..<16])))\<rparr>"

text \<open>\<open>sha1_update\<close> with a null pointer flushes a full buffer.\<close>

definition sha1_flush :: "sha1_context \<Rightarrow> sha1_context" where
  "sha1_flush ctx = (if sha1_count ctx = 64
     then (transform ctx (sha1_buf ctx))\<lparr>sha1_count := 0, nblocks := nblocks ctx + 1\<rparr> else ctx)"

text \<open>The two copying loops, and the loop over whole blocks.\<close>

fun sha1_fill :: "sha1_context \<Rightarrow> byte list \<Rightarrow> sha1_context \<times> byte list" where
  "sha1_fill ctx [] = (ctx, [])"
| "sha1_fill ctx (b # bs) = (if sha1_count ctx < 64
     then sha1_fill (ctx\<lparr>sha1_buf := (sha1_buf ctx)[sha1_count ctx := b], sha1_count := sha1_count ctx + 1\<rparr>) bs else (ctx, b # bs))"

function sha1_blocks :: "sha1_context \<Rightarrow> byte list \<Rightarrow> sha1_context \<times> byte list" where
  "sha1_blocks ctx inbuf = (if length inbuf \<ge> 64
     then sha1_blocks ((transform ctx (take 64 inbuf))\<lparr>sha1_count := 0, nblocks := nblocks ctx + 1\<rparr>) (drop 64 inbuf)
     else (ctx, inbuf))"
  by pat_completeness auto
termination
  by (relation "measure (\<lambda>(ctx, inbuf). length inbuf)") auto

declare sha1_blocks.simps [simp del]

definition sha1_update :: "sha1_context \<Rightarrow> byte list option \<Rightarrow> sha1_context" where
  "sha1_update ctx inbuf = (let ctx = sha1_flush ctx in
     case inbuf of None \<Rightarrow> ctx
     | Some inbuf \<Rightarrow>
         let (ctx, inbuf, done) =
           (if sha1_count ctx \<noteq> 0 then let (ctx, inbuf) = sha1_fill ctx inbuf in (sha1_flush ctx, inbuf, inbuf = [])
            else (ctx, inbuf, False))
         in if done then ctx
            else let (ctx, inbuf) = sha1_blocks ctx inbuf in fst (sha1_fill ctx inbuf))"

text \<open>A loop storing zeroes up to offset \<open>n\<close> of the buffer.\<close>

definition sha1_zero_to :: "nat \<Rightarrow> sha1_context \<Rightarrow> sha1_context" where
  "sha1_zero_to n ctx = ctx\<lparr>sha1_buf := take (sha1_count ctx) (sha1_buf ctx) @ replicate (n - sha1_count ctx) 0 @ drop (max n (sha1_count ctx)) (sha1_buf ctx),
     sha1_count := max n (sha1_count ctx)\<rparr>"

definition sha1_put :: "byte \<Rightarrow> sha1_context \<Rightarrow> sha1_context" where
  "sha1_put b ctx = ctx\<lparr>sha1_buf := (sha1_buf ctx)[sha1_count ctx := b], sha1_count := sha1_count ctx + 1\<rparr>"

definition sha1_final :: "sha1_context \<Rightarrow> byte list \<times> sha1_context" where
  "sha1_final ctx =
    (let ctx = sha1_update ctx None;
         t = nblocks ctx;
         lsb = push_bit 6 t;
         msb = drop_bit 26 t;
         t = lsb;
         lsb = lsb + of_nat (sha1_count ctx);
         msb = (if lsb < t then msb + 1 else msb);
         t = lsb;
         lsb = push_bit 3 lsb;
         msb = push_bit 3 msb OR drop_bit 29 t;
         ctx = (if sha1_count ctx < 56 then sha1_zero_to 56 (sha1_put 0x80 ctx)
               else let ctx = sha1_update (sha1_zero_to 64 (sha1_put 0x80 ctx)) None
                    in ctx\<lparr>sha1_buf := replicate 56 0 @ drop 56 (sha1_buf ctx)\<rparr>);
         ctx = ctx\<lparr>sha1_buf := take 56 (sha1_buf ctx) @ put_u32_be msb @ put_u32_be lsb\<rparr>;
         ctx = transform ctx (sha1_buf ctx)
     in case sha1_h ctx of (h0, h1, h2, h3, h4) \<Rightarrow>
       let p = put_u32_be h0 @ put_u32_be h1 @ put_u32_be h2 @ put_u32_be h3 @ put_u32_be h4
       in (p, ctx\<lparr>sha1_buf := p @ drop 20 (sha1_buf ctx)\<rparr>))"

definition sha1_hash_buffer :: "byte list \<Rightarrow> byte list \<Rightarrow> byte list" where
  "sha1_hash_buffer garbage buffer = fst (sha1_final (sha1_update (sha1_init garbage) (Some buffer)))"

subsection \<open>HMAC\<close>

record sha1_hmac_context =
  ictx :: sha1_context
  octx :: sha1_context

definition hmac_keybuf :: "byte list \<Rightarrow> byte list \<Rightarrow> byte list" where
  "hmac_keybuf g key = (if length key \<le> 64 then key @ replicate (64 - length key) 0
     else sha1_hash_buffer g key @ replicate (64 - 20) 0)"

definition sha1_hmac_init :: "byte list \<Rightarrow> byte list \<Rightarrow> sha1_hmac_context" where
  "sha1_hmac_init g key = (let keybuf = hmac_keybuf g key in
     \<lparr>ictx = sha1_update (sha1_init g) (Some (map (\<lambda>b. b XOR 0x36) keybuf)),
      octx = sha1_update (sha1_init g) (Some (map (\<lambda>b. b XOR 0x5c) keybuf))\<rparr>)"

definition sha1_hmac_update :: "sha1_hmac_context \<Rightarrow> byte list \<Rightarrow> sha1_hmac_context" where
  "sha1_hmac_update ctx data = ctx\<lparr>ictx := sha1_update (ictx ctx) (Some data)\<rparr>"

definition sha1_hmac_final :: "sha1_hmac_context \<Rightarrow> byte list \<times> sha1_hmac_context" where
  "sha1_hmac_final ctx =
    (let (isha, i) = sha1_final (ictx ctx);
         (osha, oc) = sha1_final (sha1_update (octx ctx) (Some isha))
     in (osha, ctx\<lparr>ictx := i, octx := oc\<rparr>))"

definition sha1_hmac :: "byte list \<Rightarrow> byte list \<Rightarrow> byte list \<Rightarrow> byte list" where
  "sha1_hmac g key data = fst (sha1_hmac_final (sha1_hmac_update (sha1_hmac_init g key) data))"


section \<open>The reference\<close>

text \<open>FIPS 180-1: the message schedule, the round functions and constants, one round, the compression
  of a block, and the digest.\<close>

function fips_W :: "byte list \<Rightarrow> nat \<Rightarrow> u32" where
  "fips_W b t = (if t < 16 then block_word b t
     else ROL (fips_W b (t - 3) XOR fips_W b (t - 8) XOR fips_W b (t - 14) XOR fips_W b (t - 16)) 1)"
  by pat_completeness auto
termination
  by (relation "measure snd") auto

declare fips_W.simps [simp del]

definition fips_f :: "nat \<Rightarrow> u32 \<Rightarrow> u32 \<Rightarrow> u32 \<Rightarrow> u32" where
  "fips_f t x y z =
    (if t < 20 then (x AND y) OR (NOT x AND z)
     else if t < 40 then x XOR y XOR z
     else if t < 60 then (x AND y) OR (x AND z) OR (y AND z)
     else x XOR y XOR z)"

definition fips_K :: "nat \<Rightarrow> u32" where
  "fips_K t = (if t < 20 then 0x5A827999 else if t < 40 then 0x6ED9EBA1
     else if t < 60 then 0x8F1BBCDC else 0xCA62C1D6)"

definition fips_round :: "byte list \<Rightarrow> nat \<Rightarrow> sha1_vars \<Rightarrow> sha1_vars" where
  "fips_round m t s = (case s of (a, b, c, d, e) \<Rightarrow>
     (ROL a 5 + fips_f t b c d + e + fips_K t + fips_W m t, a, ROL b 30, c, d))"

definition sha1_compress :: "sha1_vars \<Rightarrow> byte list \<Rightarrow> sha1_vars" where
  "sha1_compress h m = add5 h (fold (fips_round m) [0..<80] h)"

definition sha1_bytes :: "sha1_vars \<Rightarrow> byte list" where
  "sha1_bytes h = (case h of (h0, h1, h2, h3, h4) \<Rightarrow>
     put_u32_be h0 @ put_u32_be h1 @ put_u32_be h2 @ put_u32_be h3 @ put_u32_be h4)"

definition sha1_digest :: "byte list \<Rightarrow> byte list" where
  "sha1_digest m = sha1_bytes (md_fold sha1_compress sha1_iv
     (md_pad (put_u64_be (of_nat (8 * length m))) m))"

section \<open>The compression function\<close>

lemma sha1_F_fips:
  "t < 20 \<Longrightarrow> fips_f t = sha1_F1" "20 \<le> t \<Longrightarrow> t < 40 \<Longrightarrow> fips_f t = sha1_F2"
  "40 \<le> t \<Longrightarrow> t < 60 \<Longrightarrow> fips_f t = sha1_F3" "60 \<le> t \<Longrightarrow> fips_f t = sha1_F4"
  by (auto simp: fips_f_def sha1_F1_def sha1_F2_def sha1_F3_def sha1_F4_def fun_eq_iff bit_simps
      intro!: bit_word_eqI)

text \<open>The sha1_ring before round \<open>i\<close>: the last sixteen words of the schedule.\<close>

definition sha1_ring :: "byte list \<Rightarrow> nat \<Rightarrow> u32 list \<Rightarrow> bool" where
  "sha1_ring b i x \<longleftrightarrow> length x = 16 \<and> (\<forall>t. max i 16 - 16 \<le> t \<and> t < max i 16 \<longrightarrow> x ! (t mod 16) = fips_W b t)"

lemma ring_init: "sha1_ring b 0 (map (block_word b) [0..<16])"
  by (auto simp: sha1_ring_def fips_W.simps)

lemma ring_msg:
  assumes "sha1_ring b i x"
  shows "\<exists>y. sha1_msg i x = (fips_W b i, y) \<and> sha1_ring b (Suc i) y"
proof (cases "i < 16")
  case True
  then show ?thesis using assms by (auto simp: sha1_ring_def sha1_msg_def)
next
  case False
  have w: "x ! (t mod 16) = fips_W b t" if "i - 16 \<le> t" "t < i" for t
    using assms False that by (auto simp: sha1_ring_def)
  have i: "i mod 16 = (i - 16) mod 16" using False by (metis le_mod_geq not_le)
  have wi: "fips_W b i =
      ROL (fips_W b (i - 16) XOR fips_W b (i - 14) XOR fips_W b (i - 8) XOR fips_W b (i - 3)) 1"
    using False by (subst fips_W.simps) (simp add: ac_simps)
  have "x ! (i mod 16) = fips_W b (i - 16)" "x ! ((i - 14) mod 16) = fips_W b (i - 14)"
    "x ! ((i - 8) mod 16) = fips_W b (i - 8)" "x ! ((i - 3) mod 16) = fips_W b (i - 3)"
    unfolding i using False by (auto intro!: w)
  then have v: "sha1_msg i x = (fips_W b i, x[i mod 16 := fips_W b i])"
    using False by (simp add: sha1_msg_def sha1_M_def wi Let_def)
  have "x[i mod 16 := fips_W b i] ! (t mod 16) = fips_W b t" if "i - 15 \<le> t" "t \<le> i" for t
  proof (cases "t = i")
    case True
    then show ?thesis using assms by (simp add: sha1_ring_def)
  next
    case False
    then have "t < i" "i - t < 16" "i - 16 \<le> t" using that by auto
    have "t mod 16 \<noteq> i mod 16"
    proof
      assume "t mod 16 = i mod 16"
      then have "16 dvd i - t" using \<open>t < i\<close> by (metis less_imp_le mod_eq_dvd_iff_nat)
      then show False using \<open>t < i\<close> \<open>i - t < 16\<close> by (auto dest: dvd_imp_le)
    qed
    then show ?thesis using w [OF \<open>i - 16 \<le> t\<close> \<open>t < i\<close>] by simp
  qed
  then show ?thesis using v assms False by (auto simp: sha1_ring_def)
qed

definition sha1_reached :: "byte list \<Rightarrow> sha1_vars \<Rightarrow> nat \<Rightarrow> sha1_vars \<times> u32 list \<Rightarrow> bool" where
  "sha1_reached b h i s \<longleftrightarrow> fst s = fold (fips_round b) [0..<i] h \<and> sha1_ring b i (snd s)"

lemma sha1_R_round: "sha1_R a b c d e f k w = (ROL b 30, ROL a 5 + f b c d + e + k + w)"
  by (simp add: sha1_R_def ac_simps)

lemma fips_round_eq:
  "fips_round m t (a, b, c, d, e) = (ROL a 5 + fips_f t b c d + e + fips_K t + fips_W m t, a, ROL b 30, c, d)"
  by (simp add: fips_round_def)

lemma fold_Suc: "fold g [0..<Suc i] h = g i (fold g [0..<i] h)"
  by simp

lemma reached_R5:
  assumes "sha1_reached b h i s" "\<And>t. i \<le> t \<Longrightarrow> t < i + 5 \<Longrightarrow> fips_f t = f \<and> fips_K t = k"
  shows "sha1_reached b h (i + 5) (sha1_R5 f k i s)"
proof -
  obtain a0 b0 c0 d0 e0 x where s: "s = ((a0, b0, c0, d0, e0), x)" by (metis prod_cases5 surj_pair)
  have r: "sha1_ring b i x" using assms(1) by (simp add: sha1_reached_def s)
  obtain x1 where x1: "sha1_msg i x = (fips_W b i, x1)" "sha1_ring b (Suc i) x1" using ring_msg [OF r] by blast
  obtain x2 where x2: "sha1_msg (Suc i) x1 = (fips_W b (Suc i), x2)" "sha1_ring b (Suc (Suc i)) x2"
    using ring_msg [OF x1(2)] by blast
  obtain x3 where x3: "sha1_msg (Suc (Suc i)) x2 = (fips_W b (Suc (Suc i)), x3)" "sha1_ring b (Suc (Suc (Suc i))) x3"
    using ring_msg [OF x2(2)] by blast
  obtain x4 where x4: "sha1_msg (Suc (Suc (Suc i))) x3 = (fips_W b (Suc (Suc (Suc i))), x4)"
      "sha1_ring b (Suc (Suc (Suc (Suc i)))) x4"
    using ring_msg [OF x3(2)] by blast
  obtain x5 where x5: "sha1_msg (Suc (Suc (Suc (Suc i)))) x4 = (fips_W b (Suc (Suc (Suc (Suc i)))), x5)"
      "sha1_ring b (Suc (Suc (Suc (Suc (Suc i))))) x5"
    using ring_msg [OF x4(2)] by blast
  have n: "i + 1 = Suc i" "i + 2 = Suc (Suc i)" "i + 3 = Suc (Suc (Suc i))" "i + 4 = Suc (Suc (Suc (Suc i)))"
    "i + 5 = Suc (Suc (Suc (Suc (Suc i))))" by simp_all
  have fk: "fips_f t = f" "fips_K t = k" if "t \<in> {i, Suc i, Suc (Suc i), Suc (Suc (Suc i)), Suc (Suc (Suc (Suc i)))}" for t
    using assms(2) [of t] that by auto
  have fo: "fold (fips_round b) [0..<i] h = (a0, b0, c0, d0, e0)" using assms(1) by (simp add: sha1_reached_def s)
  show ?thesis
    using x5(2)
    by (simp add: sha1_reached_def s fo sha1_R5_def n x1(1) x2(1) x3(1) x4(1) x5(1) sha1_R_round fold_Suc
        fips_round_eq fk del: upt_Suc)
qed


lemma fips_K_eq:
  "t < 20 \<Longrightarrow> fips_K t = sha1_K1" "20 \<le> t \<Longrightarrow> t < 40 \<Longrightarrow> fips_K t = sha1_K2"
  "40 \<le> t \<Longrightarrow> t < 60 \<Longrightarrow> fips_K t = sha1_K3" "60 \<le> t \<Longrightarrow> fips_K t = sha1_K4"
  by (auto simp: fips_K_def sha1_K1_def sha1_K2_def sha1_K3_def sha1_K4_def)

lemma reached_phases:
  "sha1_reached b h i s \<Longrightarrow> j = i + 5 \<Longrightarrow> j \<le> 20 \<Longrightarrow> sha1_reached b h j (sha1_R5 sha1_F1 sha1_K1 i s)"
  "sha1_reached b h i s \<Longrightarrow> j = i + 5 \<Longrightarrow> 20 \<le> i \<Longrightarrow> j \<le> 40 \<Longrightarrow> sha1_reached b h j (sha1_R5 sha1_F2 sha1_K2 i s)"
  "sha1_reached b h i s \<Longrightarrow> j = i + 5 \<Longrightarrow> 40 \<le> i \<Longrightarrow> j \<le> 60 \<Longrightarrow> sha1_reached b h j (sha1_R5 sha1_F3 sha1_K3 i s)"
  "sha1_reached b h i s \<Longrightarrow> j = i + 5 \<Longrightarrow> 60 \<le> i \<Longrightarrow> sha1_reached b h j (sha1_R5 sha1_F4 sha1_K4 i s)"
  by (auto intro!: reached_R5 simp: sha1_F_fips fips_K_eq)

lemma sha1_rounds_fips:
  "fst (sha1_rounds (h, map (block_word b) [0..<16])) = fold (fips_round b) [0..<80] h"
proof -
  have "sha1_reached b h 80 (sha1_rounds (h, map (block_word b) [0..<16]))"
    unfolding sha1_rounds_def
    by (intro reached_phases) (simp_all add: sha1_reached_def ring_init)
  then show ?thesis by (simp add: sha1_reached_def)
qed

lemma transform_compress: "transform ctx b = ctx\<lparr>sha1_h := sha1_compress (sha1_h ctx) b\<rparr>"
  by (simp add: transform_def sha1_compress_def sha1_rounds_fips)

section \<open>Absorbing a message\<close>

definition sha1_absorbed :: "sha1_context \<Rightarrow> byte list \<Rightarrow> bool" where
  "sha1_absorbed ctx m \<longleftrightarrow> length (sha1_buf ctx) = 64 \<and> sha1_count ctx \<le> 64 \<and>
    (\<exists>n. nblocks ctx = of_nat n \<and>
      md_absorbed sha1_compress sha1_iv n (take (sha1_count ctx) (sha1_buf ctx)) (sha1_h ctx) m)"

lemma sha1_absorbed_init: "length g = 64 \<Longrightarrow> sha1_absorbed (sha1_init g) []"
  by (auto simp: sha1_absorbed_def sha1_init_def md_absorbed_init intro!: exI [of _ 0])

lemma sha1_absorbed_block:
  assumes "sha1_absorbed ctx m" "sha1_count ctx = 0" "length b = 64"
  shows "sha1_absorbed ((transform ctx b)\<lparr>sha1_count := 0, nblocks := nblocks ctx + 1\<rparr>) (m @ b)"
proof -
  obtain n where n: "nblocks ctx = of_nat n" "md_absorbed sha1_compress sha1_iv n [] (sha1_h ctx) m"
    using assms by (auto simp: sha1_absorbed_def)
  have "md_absorbed sha1_compress sha1_iv (Suc n) [] (sha1_compress (sha1_h ctx) b) (m @ b)"
    using md_absorbed_block [of _ _ n b "[]"] md_absorbed_extend [OF n(2), of b] assms(3) by simp
  then show ?thesis using n(1) assms(1)
    by (auto simp: sha1_absorbed_def transform_compress ac_simps intro!: exI [of _ "Suc n"])
qed

lemma sha1_flush_absorbed:
  assumes "sha1_absorbed ctx m"
  shows "sha1_absorbed (sha1_flush ctx) m \<and> sha1_count (sha1_flush ctx) < 64"
proof (cases "sha1_count ctx = 64")
  case True
  obtain n where n: "nblocks ctx = of_nat n" "length (sha1_buf ctx) = 64"
    "md_absorbed sha1_compress sha1_iv n (sha1_buf ctx) (sha1_h ctx) m"
    using assms True by (auto simp: sha1_absorbed_def)
  have "md_absorbed sha1_compress sha1_iv (Suc n) [] (sha1_compress (sha1_h ctx) (sha1_buf ctx)) m"
    using md_absorbed_block [of _ _ n "sha1_buf ctx" "[]"] n(2,3) by simp
  then show ?thesis using n True
    by (auto simp: sha1_flush_def sha1_absorbed_def transform_compress ac_simps intro!: exI [of _ "Suc n"])
next
  case False
  then show ?thesis using assms by (auto simp: sha1_flush_def sha1_absorbed_def)
qed

lemma sha1_put_absorbed:
  assumes "sha1_absorbed ctx m" "sha1_count ctx < 64"
  shows "sha1_absorbed (sha1_put b ctx) (m @ [b])"
proof -
  have "take (Suc k) (xs[k := b]) = take k xs @ [b]" if "k < length xs" for k and xs :: "byte list"
    using that by (simp add: take_Suc_conv_app_nth)
  then show ?thesis using assms
    by (auto simp: sha1_absorbed_def sha1_put_def intro: md_absorbed_extend)
qed

lemma sha1_fill_absorbed:
  "sha1_absorbed ctx m \<Longrightarrow> sha1_fill ctx inbuf = (ctx', rest) \<Longrightarrow>
   \<exists>d. inbuf = d @ rest \<and> sha1_absorbed ctx' (m @ d) \<and> (rest = [] \<or> sha1_count ctx' = 64) \<and>
     sha1_count ctx' = sha1_count ctx + length d"
proof (induction ctx inbuf arbitrary: m rule: sha1_fill.induct)
  case (1 ctx)
  then show ?case by auto
next
  case (2 ctx b bs)
  show ?case
  proof (cases "sha1_count ctx < 64")
    case True
    have "sha1_absorbed (ctx\<lparr>sha1_buf := (sha1_buf ctx)[sha1_count ctx := b], sha1_count := sha1_count ctx + 1\<rparr>) (m @ [b])"
      using sha1_put_absorbed [OF 2(2) True] by (simp add: sha1_put_def)
    from 2(1) [OF True this] 2(3) True obtain d where
      "bs = d @ rest" "sha1_absorbed ctx' ((m @ [b]) @ d)" "rest = [] \<or> sha1_count ctx' = 64"
      "sha1_count ctx' = sha1_count ctx + 1 + length d" by auto
    then show ?thesis by (intro exI [of _ "b # d"]) auto
  next
    case False
    then show ?thesis using 2(2,3) by (auto simp: sha1_absorbed_def)
  qed
qed

lemma sha1_blocks_absorbed:
  "sha1_absorbed ctx m \<Longrightarrow> sha1_count ctx = 0 \<Longrightarrow> sha1_blocks ctx inbuf = (ctx', rest) \<Longrightarrow>
   \<exists>d. inbuf = d @ rest \<and> sha1_absorbed ctx' (m @ d) \<and> sha1_count ctx' = 0 \<and> length rest < 64"
proof (induction ctx inbuf arbitrary: m rule: sha1_blocks.induct)
  case (1 ctx inbuf)
  show ?case
  proof (cases "64 \<le> length inbuf")
    case True
    let ?c = "(transform ctx (take 64 inbuf))\<lparr>sha1_count := 0, nblocks := nblocks ctx + 1\<rparr>"
    have "sha1_absorbed ?c (m @ take 64 inbuf)"
      using sha1_absorbed_block [OF 1(2,3)] True by simp
    then obtain d where "drop 64 inbuf = d @ rest" "sha1_absorbed ctx' ((m @ take 64 inbuf) @ d)"
      "sha1_count ctx' = 0" "length rest < 64"
      using 1(1) [OF True, of "m @ take 64 inbuf"] 1(4) True by (simp add: sha1_blocks.simps [of ctx]) blast
    then show ?thesis
      by (intro exI [of _ "take 64 inbuf @ d"]) (metis append.assoc append_take_drop_id)
  next
    case False
    then show ?thesis using 1(2-4) by (auto simp: sha1_blocks.simps [of ctx])
  qed
qed

lemma sha1_update_absorbed:
  assumes "sha1_absorbed ctx m"
  shows "sha1_absorbed (sha1_update ctx (Some d)) (m @ d)"
proof -
  define c1 where "c1 = sha1_flush ctx"
  have c1: "sha1_absorbed c1 m" "sha1_count c1 < 64"
    using sha1_flush_absorbed [OF assms] by (simp_all add: c1_def)
  have tail: "sha1_absorbed (let (ctx, inbuf) = sha1_blocks c inbuf in fst (sha1_fill ctx inbuf)) (m' @ inbuf)"
    if c: "sha1_absorbed c m'" "sha1_count c = 0" for c m' inbuf
  proof -
    obtain c2 r where b: "sha1_blocks c inbuf = (c2, r)" by fastforce
    obtain d1 where d1: "inbuf = d1 @ r" "sha1_absorbed c2 (m' @ d1)" "sha1_count c2 = 0" "length r < 64"
      using sha1_blocks_absorbed [OF c b] by blast
    obtain c3 s where f: "sha1_fill c2 r = (c3, s)" by fastforce
    obtain d2 where d2: "r = d2 @ s" "sha1_absorbed c3 ((m' @ d1) @ d2)" "s = [] \<or> sha1_count c3 = 64"
      "sha1_count c3 = length d2"
      using sha1_fill_absorbed [OF d1(2) f] d1(3) by auto
    have "s = []" using d2(1,3,4) d1(4) by auto
    then show ?thesis using b f d1(1) d2(1,2) by simp
  qed
  show ?thesis
  proof (cases "sha1_count c1 = 0")
    case True
    then show ?thesis using tail [OF c1(1) True, of d] by (simp add: sha1_update_def flip: c1_def)
  next
    case False
    obtain c2 r where f: "sha1_fill c1 d = (c2, r)" by fastforce
    obtain d1 where d1: "d = d1 @ r" "sha1_absorbed c2 (m @ d1)" "r = [] \<or> sha1_count c2 = 64"
      using sha1_fill_absorbed [OF c1(1) f] by blast
    have fl: "sha1_absorbed (sha1_flush c2) (m @ d1)" using sha1_flush_absorbed [OF d1(2)] by simp
    show ?thesis
    proof (cases "r = []")
      case True
      then show ?thesis using False f d1(1) fl by (simp add: sha1_update_def flip: c1_def)
    next
      case r: False
      then have "sha1_count (sha1_flush c2) = 0" using d1(3) by (simp add: sha1_flush_def)
      from tail [OF fl this, of r] show ?thesis using False f d1(1) r by (simp add: sha1_update_def flip: c1_def)
    qed
  qed
qed
section \<open>The length field\<close>

lemma byte_count_arith:
  fixes n c :: nat
  assumes "c < 64"
  shows "(64 * n + c) mod 2 ^ 32 = 64 * (n mod 2 ^ 26) + c"
    and "(64 * n + c) div 2 ^ 29 = 8 * (n div 2 ^ 26) + (64 * n + c) mod 2 ^ 32 div 2 ^ 29"
proof -
  define q r where "q = n div 2 ^ 26" "r = n mod 2 ^ 26"
  have n: "n = 67108864 * q + r" "r < 67108864" by (simp_all add: q_r_def)
  have l: "64 * n + c = (64 * r + c) + q * 2 ^ 32" using n by simp
  have "64 * r + c < 2 ^ 32" using n(2) assms by simp
  then have m: "(64 * n + c) mod 2 ^ 32 = 64 * r + c" unfolding l by (metis mod_less mod_mult_self1)
  then show "(64 * n + c) mod 2 ^ 32 = 64 * (n mod 2 ^ 26) + c" by (simp add: q_r_def)
  have "64 * n + c = (64 * r + c) + (8 * q) * 2 ^ 29" using n by simp
  then have "(64 * n + c) div 2 ^ 29 = 8 * q + (64 * r + c) div 2 ^ 29"
    by (metis div_mult_self1 power_not_zero zero_neq_numeral)
  then show "(64 * n + c) div 2 ^ 29 = 8 * (n div 2 ^ 26) + (64 * n + c) mod 2 ^ 32 div 2 ^ 29"
    unfolding m by (simp add: q_r_def)
qed

lemma be64_words:
  fixes msb lsb :: u32
  assumes "unat msb = l div 2 ^ 29" "lsb = of_nat (8 * l)" "l < 2 ^ 61"
  shows "put_u32_be msb @ put_u32_be lsb = put_u64_be (of_nat (8 * l))"
proof -
  have "unat (of_nat (8 * l) :: u64) = 8 * l"
    using assms(3) by (simp only: unat_of_nat) (simp add: take_bit_nat_eq_self)
  then have "unat (drop_bit 32 (of_nat (8 * l) :: u64)) = 8 * l div 2 ^ 32"
    unfolding unat_drop_bit_eq by (simp add: drop_bit_eq_div)
  moreover have "8 * l div 2 ^ 32 = l div 2 ^ 29" using div_mult_mult1 [of 8 l "2 ^ 29"] by simp
  moreover have "l div 2 ^ 29 < 2 ^ 32" using assms(3) by (simp add: less_mult_imp_div_less)
  ultimately have "msb = ucast (drop_bit 32 (of_nat (8 * l) :: u64))"
    unfolding word_unat_eq_iff assms(1) by (simp add: unsigned_ucast_eq take_bit_nat_eq_self)
  moreover have "lsb = ucast (of_nat (8 * l) :: u64)"
    unfolding word_unat_eq_iff assms(2) by (simp only: unsigned_of_nat unsigned_ucast_eq) simp
  ultimately show ?thesis by (simp add: put_u64_be_def)
qed

lemma sha1_length_bytes:
  fixes n c :: nat
  defines "t \<equiv> of_nat n :: u32"
  defines "lsb \<equiv> push_bit 6 t + of_nat c"
  assumes "n < 2 ^ 32" "c < 64"
  shows "\<not> lsb < push_bit 6 t"
    "put_u32_be (push_bit 3 (drop_bit 26 t) OR drop_bit 29 lsb) @ put_u32_be (push_bit 3 lsb) =
     put_u64_be (of_nat (8 * (64 * n + c)))"
proof -
  define l where "l = 64 * n + c"
  note ar = byte_count_arith [OF assms(4), of n, folded l_def]
  have len32: "LENGTH(32) = 32" by simp
  have t: "unat t = n" using assms(3) by (simp add: t_def unat_of_nat take_bit_nat_eq_self)
  have lsb: "lsb = of_nat l" by (simp add: lsb_def t_def l_def push_bit_eq_mult)
  have ulsb: "unat lsb = l mod 2 ^ 32" by (simp add: lsb unat_of_nat take_bit_eq_mod)
  have "push_bit 6 t = of_nat (64 * n)" by (simp add: t_def push_bit_eq_mult)
  then have "unat (push_bit 6 t) = (64 * n) mod 2 ^ 32" by (simp only: unat_of_nat take_bit_eq_mod len32)
  also have "\<dots> = 64 * (n mod 2 ^ 26)" using byte_count_arith(1) [of 0 n] by simp
  finally show "\<not> lsb < push_bit 6 t" unfolding word_less_nat_alt ulsb ar(1) by simp
  have n6: "n div 2 ^ 26 < 64" using assms(3) by (simp add: less_mult_imp_div_less)
  have "unat (drop_bit 26 t) = n div 2 ^ 26" unfolding unat_drop_bit_eq t by (simp add: drop_bit_eq_div)
  then have "drop_bit 26 t = of_nat (n div 2 ^ 26)" by (metis of_nat_unat ucast_id)
  then have "push_bit 3 (drop_bit 26 t) = of_nat (8 * (n div 2 ^ 26))" by (simp add: push_bit_eq_mult)
  then have hi: "unat (push_bit 3 (drop_bit 26 t)) = 8 * (n div 2 ^ 26)"
    using n6 by (simp only: unat_of_nat) (simp add: take_bit_nat_eq_self)
  have lo: "unat (drop_bit 29 lsb) = l mod 2 ^ 32 div 2 ^ 29" "l mod 2 ^ 32 div 2 ^ 29 < 8"
    unfolding unat_drop_bit_eq ulsb by (simp add: drop_bit_eq_div, rule less_mult_imp_div_less, simp)
  have "push_bit 3 (drop_bit 26 t) OR drop_bit 29 lsb = push_bit 3 (drop_bit 26 t) + drop_bit 29 lsb"
    by (rule or_eq_add [where j = 3]) (use lo in \<open>simp_all add: take_bit_push_bit word_less_nat_alt\<close>)
  moreover have "unat (push_bit 3 (drop_bit 26 t) + drop_bit 29 lsb) = 8 * (n div 2 ^ 26) + l mod 2 ^ 32 div 2 ^ 29"
    using n6 hi lo by (subst unat_add_lem [THEN iffD1]) simp_all
  ultimately have "unat (push_bit 3 (drop_bit 26 t) OR drop_bit 29 lsb) = l div 2 ^ 29" using ar(2) by simp
  then show "put_u32_be (push_bit 3 (drop_bit 26 t) OR drop_bit 29 lsb) @ put_u32_be (push_bit 3 lsb) =
      put_u64_be (of_nat (8 * (64 * n + c)))"
    by (intro be64_words [of _ l, folded l_def, unfolded l_def])
      (use assms(3,4) in \<open>simp_all add: lsb push_bit_eq_mult l_def\<close>)
qed
section \<open>The end of the computation\<close>

lemma sha1_update_None [simp]: "sha1_update ctx None = sha1_flush ctx"
  by (simp add: sha1_update_def Let_def)

lemma sha1_zero_absorbed:
  assumes "sha1_absorbed ctx m" "n \<le> 64" "sha1_count ctx \<le> n"
  shows "sha1_absorbed (sha1_zero_to n ctx) (m @ replicate (n - sha1_count ctx) 0)"
  using assms by (auto simp: sha1_absorbed_def sha1_zero_to_def max_absorb1 intro: md_absorbed_extend)

text \<open>The padding step of \<open>sha1_final\<close>, and the result in terms of it.\<close>

definition sha1_padded :: "sha1_context \<Rightarrow> sha1_context" where
  "sha1_padded c = (if sha1_count c < 56 then sha1_zero_to 56 (sha1_put 0x80 c)
     else let c = sha1_flush (sha1_zero_to 64 (sha1_put 0x80 c)) in c\<lparr>sha1_buf := replicate 56 0 @ drop 56 (sha1_buf c)\<rparr>)"

lemma sha1_final_eq:
  assumes "sha1_flush ctx = c" "nblocks c = of_nat n" "n < 2 ^ 32" "sha1_count c < 64"
  shows "fst (sha1_final ctx) = sha1_bytes (sha1_compress (sha1_h (sha1_padded c))
    (take 56 (sha1_buf (sha1_padded c)) @ put_u64_be (of_nat (8 * (64 * n + sha1_count c)))))"
proof -
  note len = sha1_length_bytes [OF assms(3,4)]
  show ?thesis
    unfolding len(2) [symmetric] using len(1)
    by (cases "sha1_count c < 56")
      (simp_all add: sha1_final_def assms(1,2) sha1_padded_def Let_def transform_compress sha1_bytes_def split_beta)
qed

lemma sha1_final_digest:
  assumes "sha1_absorbed ctx m" "length m < 2 ^ 38"
  shows "fst (sha1_final ctx) = sha1_digest m"
proof -
  define c where "c = sha1_flush ctx"
  have "sha1_absorbed c m" and c64: "sha1_count c < 64"
    using sha1_flush_absorbed [OF assms(1)] by (simp_all add: c_def)
  then obtain n where b: "length (sha1_buf c) = 64" and n: "nblocks c = of_nat n"
    and a: "md_absorbed sha1_compress sha1_iv n (take (sha1_count c) (sha1_buf c)) (sha1_h c) m"
    by (auto simp: sha1_absorbed_def)
  let ?rest = "take (sha1_count c) (sha1_buf c)"
  have l: "length m = 64 * n + sha1_count c" using md_absorbed_length [OF a] b c64 by simp
  then have n32: "n < 2 ^ 32" using assms(2) by simp
  note fin = sha1_final_eq [OF c_def [symmetric] n n32 c64, folded l]
  let ?len = "put_u64_be (of_nat (8 * length m))"
  have len8: "length ?len = 8" by (simp add: put_u64_be_def put_u32_be_def)
  show ?thesis
  proof (cases "sha1_count c < 56")
    case True
    then have k: "56 - sha1_count c = Suc (55 - sha1_count c)" by simp
    have "md_fold sha1_compress sha1_iv (md_pad ?len m) =
        sha1_compress (sha1_h c) (?rest @ [0x80] @ replicate (55 - sha1_count c) 0 @ ?len)"
      using md_final_one [OF a _ len8] True b by simp
    moreover have "take 56 (sha1_buf (sha1_zero_to 56 (sha1_put 0x80 c))) =
        ?rest @ [0x80] @ replicate (55 - sha1_count c) 0"
      using True b by (simp add: sha1_zero_to_def sha1_put_def take_Suc_conv_app_nth max_absorb1 k)
    moreover have "sha1_padded c = sha1_zero_to 56 (sha1_put 0x80 c)" using True by (simp add: sha1_padded_def)
    moreover have "sha1_h (sha1_zero_to 56 (sha1_put 0x80 c)) = sha1_h c" by (simp add: sha1_zero_to_def sha1_put_def)
    ultimately show ?thesis by (simp add: fin sha1_digest_def)
  next
    case False
    have "md_fold sha1_compress sha1_iv (md_pad ?len m) =
        sha1_compress (sha1_compress (sha1_h c) (?rest @ [0x80] @ replicate (63 - sha1_count c) 0)) (replicate 56 0 @ ?len)"
      using md_final_two [OF a _ _ len8] False b c64 by simp
    moreover have "sha1_buf (sha1_zero_to 64 (sha1_put 0x80 c)) = ?rest @ [0x80] @ replicate (63 - sha1_count c) 0"
      using c64 b by (simp add: sha1_zero_to_def sha1_put_def take_Suc_conv_app_nth max_absorb1)
    moreover have "sha1_count (sha1_zero_to 64 (sha1_put 0x80 c)) = 64" "sha1_h (sha1_zero_to 64 (sha1_put 0x80 c)) = sha1_h c"
      using c64 by (simp_all add: sha1_zero_to_def sha1_put_def)
    ultimately show ?thesis using False
      by (simp add: fin sha1_digest_def sha1_padded_def Let_def sha1_flush_def transform_compress)
  qed
qed

interpretation sha1: incremental_digest
  "\<lambda>c. \<exists>g. length g = 64 \<and> c = sha1_init g" "\<lambda>c d. sha1_update c (Some d)" "\<lambda>c. fst (sha1_final c)"
  sha1_absorbed sha1_digest "\<lambda>n. n < 2 ^ 38"
  by unfold_locales (auto simp: sha1_absorbed_init sha1_update_absorbed sha1_final_digest)

lemma sha1_hash_buffer_digest:
  "length g = 64 \<Longrightarrow> length m < 2 ^ 32 \<Longrightarrow> sha1_hash_buffer g m = sha1_digest m"
  using sha1.chunks_digest [of "sha1_init g" "[m]"] by (auto simp: sha1_hash_buffer_def)

lemma length_sha1_digest [simp]: "length (sha1_digest m) = 20"
  by (simp add: sha1_digest_def sha1_bytes_def put_u32_be_def split: prod.split)

section \<open>HMAC\<close>

text \<open>RFC 2104, for a key of any length.\<close>

definition hmac_key :: "byte list \<Rightarrow> byte list" where
  "hmac_key key = (let k = (if length key \<le> 64 then key else sha1_digest key) in k @ replicate (64 - length k) 0)"

definition hmac_spec :: "byte list \<Rightarrow> byte list \<Rightarrow> byte list" where
  "hmac_spec key m = sha1_digest (map ((XOR) 0x5c) (hmac_key key) @ sha1_digest (map ((XOR) 0x36) (hmac_key key) @ m))"

lemma length_hmac_key [simp]: "length (hmac_key key) = 64"
  by (simp add: hmac_key_def Let_def)

lemma hmac_keybuf_key: "length g = 64 \<Longrightarrow> length key < 2 ^ 32 \<Longrightarrow> hmac_keybuf g key = hmac_key key"
  by (simp add: hmac_keybuf_def hmac_key_def sha1_hash_buffer_digest)

lemma hmac_updates_absorbed:
  assumes "length g = 64" "length key < 2 ^ 32" "\<forall>d\<in>set ds. length d < 2 ^ 32"
  shows "sha1_absorbed (ictx (foldl sha1_hmac_update (sha1_hmac_init g key) ds)) (map ((XOR) 0x36) (hmac_key key) @ concat ds)"
    and "sha1_absorbed (octx (foldl sha1_hmac_update (sha1_hmac_init g key) ds)) (map ((XOR) 0x5c) (hmac_key key))"
proof -
  have i: "ictx (foldl sha1_hmac_update h ds) = foldl (\<lambda>c d. sha1_update c (Some d)) (ictx h) ds"
    and o: "octx (foldl sha1_hmac_update h ds) = octx h" for h
    by (induction ds arbitrary: h) (simp_all add: sha1_hmac_update_def)
  have x: "map (\<lambda>b. b XOR c) k = map ((XOR) c) k" for c :: byte and k by (simp add: xor.commute)
  have a: "sha1_absorbed (sha1_update (sha1_init g) (Some d)) d" for d
    using sha1_update_absorbed [OF sha1_absorbed_init [OF assms(1)], of d] by simp
  show "sha1_absorbed (ictx (foldl sha1_hmac_update (sha1_hmac_init g key) ds)) (map ((XOR) 0x36) (hmac_key key) @ concat ds)"
    unfolding i by (rule sha1.updates_absorbed [OF _ assms(3)])
      (simp add: sha1_hmac_init_def hmac_keybuf_key [OF assms(1,2)] x a Let_def)
  show "sha1_absorbed (octx (foldl sha1_hmac_update (sha1_hmac_init g key) ds)) (map ((XOR) 0x5c) (hmac_key key))"
    unfolding o by (simp add: sha1_hmac_init_def hmac_keybuf_key [OF assms(1,2)] x a Let_def)
qed

section \<open>Properties\<close>

text \<open>C9: SHA-1 computed by any sequence of updates, each of less than \<open>2\<^sup>3\<^sup>2\<close> bytes, is the SHA-1 of
  FIPS 180-1 of the concatenation of the data, whatever the uninitialized buffer contained, for messages
  shorter than \<open>2\<^sup>3\<^sup>8\<close> bytes (the 32-bit counter of blocks wraps around beyond).\<close>

theorem sha1_incremental:
  assumes "length g = 64" "\<forall>d\<in>set ds. length d < 2 ^ 32" "length (concat ds) < 2 ^ 38"
  shows "fst (sha1_final (foldl (\<lambda>c d. sha1_update c (Some d)) (sha1_init g) ds)) = sha1_digest (concat ds)"
  using sha1.chunks_digest [OF _ assms(2), of "sha1_init g"] assms(1,3) by blast

theorem sha1_incremental_witness:
  "fst (sha1_final (sha1_update (sha1_update (sha1_init (replicate 64 7)) (Some [97])) (Some [98, 99]))) =
   sha1_digest [97, 98, 99]"
  using sha1_incremental [of "replicate 64 7" "[[97], [98, 99]]"] by simp

text \<open>C34: HMAC-SHA-1 computed incrementally is the one of RFC 2104, for keys of any length, both keys that
  fit in a block and longer ones, which are hashed first.\<close>

theorem sha1_hmac_correct:
  assumes "length g = 64" "length key < 2 ^ 32" "\<forall>d\<in>set ds. length d < 2 ^ 32" "length (concat ds) < 2 ^ 37"
  shows "fst (sha1_hmac_final (foldl sha1_hmac_update (sha1_hmac_init g key) ds)) = hmac_spec key (concat ds)"
proof -
  note a = hmac_updates_absorbed [OF assms(1-3)]
  let ?c = "foldl sha1_hmac_update (sha1_hmac_init g key) ds"
  have i: "fst (sha1_final (ictx ?c)) = sha1_digest (map ((XOR) 0x36) (hmac_key key) @ concat ds)"
    by (rule sha1_final_digest [OF a(1)]) (use assms(4) in simp)
  have "fst (sha1_final (sha1_update (octx ?c) (Some (fst (sha1_final (ictx ?c)))))) = hmac_spec key (concat ds)"
    unfolding i hmac_spec_def by (rule sha1_final_digest [OF sha1_update_absorbed [OF a(2)]]) simp
  then show ?thesis by (simp add: sha1_hmac_final_def split_beta)
qed

theorem sha1_hmac_correct_witness:
  "fst (sha1_hmac_final (sha1_hmac_update (sha1_hmac_init (replicate 64 0) [1, 2, 3]) [72, 105])) = hmac_spec [1, 2, 3] [72, 105]"
  using sha1_hmac_correct [of "replicate 64 0" "[1, 2, 3]" "[[72, 105]]"] by simp
end
