(* ===== verification/Md5.thy ===== *)
theory Md5
  imports Digest
begin

text \<open>
  \<open>ucw/md5.c\<close>: MD5. The four words of \<open>buf\<close> are a tuple, \<open>in\<close> is a list of 64 bytes. The words of a
  block are read from its bytes in little-endian order, which is what both branches of the \<open>#ifdef\<close> on
  the endianity of the CPU do (\<open>byteReverse\<close> is empty on little-endian machines). The 64 unrolled
  steps of \<open>md5_transform\<close> are sixteen groups of four.
\<close>

section \<open>Operations\<close>

type_synonym md5_vars = "u32 \<times> u32 \<times> u32 \<times> u32"

record md5_context =
  md5_buf :: md5_vars
  bits0 :: u32
  bits1 :: u32
  md5_in :: "byte list"

definition md5_iv :: md5_vars where
  "md5_iv = (0x67452301, 0xefcdab89, 0x98badcfe, 0x10325476)"

text \<open>The contents of \<open>in\<close> are not initialized by the code; the 64 bytes are an argument.\<close>

definition md5_init :: "byte list \<Rightarrow> md5_context" where
  "md5_init garbage = \<lparr>md5_buf = md5_iv, bits0 = 0, bits1 = 0, md5_in = garbage\<rparr>"

definition md5_F1 :: "u32 \<Rightarrow> u32 \<Rightarrow> u32 \<Rightarrow> u32" where "md5_F1 x y z = z XOR (x AND (y XOR z))"
definition md5_F2 :: "u32 \<Rightarrow> u32 \<Rightarrow> u32 \<Rightarrow> u32" where "md5_F2 x y z = md5_F1 z x y"
definition md5_F3 :: "u32 \<Rightarrow> u32 \<Rightarrow> u32 \<Rightarrow> u32" where "md5_F3 x y z = x XOR y XOR z"
definition md5_F4 :: "u32 \<Rightarrow> u32 \<Rightarrow> u32 \<Rightarrow> u32" where "md5_F4 x y z = y XOR (x OR NOT z)"

text \<open>The macro \<open>MD5STEP\<close>: the new value of \<open>w\<close>.\<close>

definition MD5STEP :: "(u32 \<Rightarrow> u32 \<Rightarrow> u32 \<Rightarrow> u32) \<Rightarrow> u32 \<Rightarrow> u32 \<Rightarrow> u32 \<Rightarrow> u32 \<Rightarrow> u32 \<Rightarrow> nat \<Rightarrow> u32" where
  "MD5STEP f w x y z data s = (let w = w + (f x y z + data); w = push_bit s w OR drop_bit (32 - s) w in w + x)"

text \<open>Four consecutive steps, in which the four variables take each role once; every step has the index
  of its word of the block, its constant and its shift.\<close>

definition md5_four :: "(u32 \<Rightarrow> u32 \<Rightarrow> u32 \<Rightarrow> u32) \<Rightarrow> (nat \<Rightarrow> u32) \<Rightarrow> nat \<times> u32 \<times> nat \<Rightarrow> nat \<times> u32 \<times> nat \<Rightarrow>
    nat \<times> u32 \<times> nat \<Rightarrow> nat \<times> u32 \<times> nat \<Rightarrow> md5_vars \<Rightarrow> md5_vars" where
  "md5_four f p q0 q1 q2 q3 v = (case (q0, q1, q2, q3, v) of
     ((i0, k0, s0), (i1, k1, s1), (i2, k2, s2), (i3, k3, s3), (a, b, c, d)) \<Rightarrow>
     let a = MD5STEP f a b c d (p i0 + k0) s0;
         d = MD5STEP f d a b c (p i1 + k1) s1;
         c = MD5STEP f c d a b (p i2 + k2) s2;
         b = MD5STEP f b c d a (p i3 + k3) s3
     in (a, b, c, d))"

definition md5_rounds :: "(nat \<Rightarrow> u32) \<Rightarrow> md5_vars \<Rightarrow> md5_vars" where
  "md5_rounds p v =
   (let v = md5_four md5_F1 p (0, 0xd76aa478, 7) (1, 0xe8c7b756, 12) (2, 0x242070db, 17) (3, 0xc1bdceee, 22) v;
        v = md5_four md5_F1 p (4, 0xf57c0faf, 7) (5, 0x4787c62a, 12) (6, 0xa8304613, 17) (7, 0xfd469501, 22) v;
        v = md5_four md5_F1 p (8, 0x698098d8, 7) (9, 0x8b44f7af, 12) (10, 0xffff5bb1, 17) (11, 0x895cd7be, 22) v;
        v = md5_four md5_F1 p (12, 0x6b901122, 7) (13, 0xfd987193, 12) (14, 0xa679438e, 17) (15, 0x49b40821, 22) v;
        v = md5_four md5_F2 p (1, 0xf61e2562, 5) (6, 0xc040b340, 9) (11, 0x265e5a51, 14) (0, 0xe9b6c7aa, 20) v;
        v = md5_four md5_F2 p (5, 0xd62f105d, 5) (10, 0x02441453, 9) (15, 0xd8a1e681, 14) (4, 0xe7d3fbc8, 20) v;
        v = md5_four md5_F2 p (9, 0x21e1cde6, 5) (14, 0xc33707d6, 9) (3, 0xf4d50d87, 14) (8, 0x455a14ed, 20) v;
        v = md5_four md5_F2 p (13, 0xa9e3e905, 5) (2, 0xfcefa3f8, 9) (7, 0x676f02d9, 14) (12, 0x8d2a4c8a, 20) v;
        v = md5_four md5_F3 p (5, 0xfffa3942, 4) (8, 0x8771f681, 11) (11, 0x6d9d6122, 16) (14, 0xfde5380c, 23) v;
        v = md5_four md5_F3 p (1, 0xa4beea44, 4) (4, 0x4bdecfa9, 11) (7, 0xf6bb4b60, 16) (10, 0xbebfbc70, 23) v;
        v = md5_four md5_F3 p (13, 0x289b7ec6, 4) (0, 0xeaa127fa, 11) (3, 0xd4ef3085, 16) (6, 0x04881d05, 23) v;
        v = md5_four md5_F3 p (9, 0xd9d4d039, 4) (12, 0xe6db99e5, 11) (15, 0x1fa27cf8, 16) (2, 0xc4ac5665, 23) v;
        v = md5_four md5_F4 p (0, 0xf4292244, 6) (7, 0x432aff97, 10) (14, 0xab9423a7, 15) (5, 0xfc93a039, 21) v;
        v = md5_four md5_F4 p (12, 0x655b59c3, 6) (3, 0x8f0ccc92, 10) (10, 0xffeff47d, 15) (1, 0x85845dd1, 21) v;
        v = md5_four md5_F4 p (8, 0x6fa87e4f, 6) (15, 0xfe2ce6e0, 10) (6, 0xa3014314, 15) (13, 0x4e0811a1, 21) v;
        v = md5_four md5_F4 p (4, 0xf7537e82, 6) (11, 0xbd3af235, 10) (2, 0x2ad7d2bb, 15) (9, 0xeb86d391, 21) v
    in v)"

definition md5_add :: "md5_vars \<Rightarrow> md5_vars \<Rightarrow> md5_vars" where
  "md5_add h v = (case (h, v) of ((b0, b1, b2, b3), (a, b, c, d)) \<Rightarrow> (b0 + a, b1 + b, b2 + c, b3 + d))"

text \<open>The little-endian word number \<open>i\<close> of a block; blocks always have 64 bytes.\<close>

definition md5_word :: "byte list \<Rightarrow> nat \<Rightarrow> u32" where
  "md5_word data i = (case get_u32_le (drop (4 * i) data) of Inr w \<Rightarrow> w | Inl _ \<Rightarrow> 0)"

definition md5_transform :: "md5_vars \<Rightarrow> byte list \<Rightarrow> md5_vars" where
  "md5_transform h data = md5_add h (md5_rounds (md5_word data) h)"

text \<open>\<open>memcpy\<close> to offset \<open>i\<close> of a buffer.\<close>

definition overwrite :: "nat \<Rightarrow> byte list \<Rightarrow> byte list \<Rightarrow> byte list" where
  "overwrite i ys xs = take i xs @ ys @ drop (i + length ys) xs"

function md5_blocks :: "md5_context \<Rightarrow> byte list \<Rightarrow> md5_context \<times> byte list" where
  "md5_blocks ctx b = (if length b \<ge> 64
     then let i = take 64 b in md5_blocks (ctx\<lparr>md5_in := i, md5_buf := md5_transform (md5_buf ctx) i\<rparr>) (drop 64 b)
     else (ctx, b))"
  by pat_completeness auto
termination
  by (relation "measure (\<lambda>(ctx, b). length b)") auto

declare md5_blocks.simps [simp del]

definition md5_update :: "md5_context \<Rightarrow> byte list \<Rightarrow> md5_context" where
  "md5_update ctx b =
    (let len = of_nat (length b) :: u32;
         t = bits0 ctx;
         ctx = ctx\<lparr>bits0 := t + push_bit 3 len\<rparr>;
         ctx = (if bits0 ctx < t then ctx\<lparr>bits1 := bits1 ctx + 1\<rparr> else ctx);
         ctx = ctx\<lparr>bits1 := bits1 ctx + drop_bit 29 len\<rparr>;
         t = unat (drop_bit 3 t AND 0x3f)
     in if t \<noteq> 0 \<and> length b < 64 - t then ctx\<lparr>md5_in := overwrite t b (md5_in ctx)\<rparr>
        else let (ctx, b) = (if t \<noteq> 0
               then let i = overwrite t (take (64 - t) b) (md5_in ctx)
                    in (ctx\<lparr>md5_in := i, md5_buf := md5_transform (md5_buf ctx) i\<rparr>, drop (64 - t) b)
               else (ctx, b));
             (ctx, b) = md5_blocks ctx b
        in ctx\<lparr>md5_in := overwrite 0 b (md5_in ctx)\<rparr>)"

definition md5_bytes :: "md5_vars \<Rightarrow> byte list" where
  "md5_bytes h = (case h of (a, b, c, d) \<Rightarrow> put_u32_le a @ put_u32_le b @ put_u32_le c @ put_u32_le d)"

definition md5_final :: "md5_context \<Rightarrow> byte list \<times> md5_context" where
  "md5_final ctx =
    (let count = unat (drop_bit 3 (bits0 ctx) AND 0x3f);
         ctx = ctx\<lparr>md5_in := overwrite count [0x80] (md5_in ctx)\<rparr>;
         p = count + 1;
         count = 64 - 1 - count;
         ctx = (if count < 8
           then let i = overwrite p (replicate count 0) (md5_in ctx)
                in ctx\<lparr>md5_buf := md5_transform (md5_buf ctx) i, md5_in := overwrite 0 (replicate 56 0) i\<rparr>
           else ctx\<lparr>md5_in := overwrite p (replicate (count - 8) 0) (md5_in ctx)\<rparr>);
         i = overwrite 56 (put_u32_le (bits0 ctx) @ put_u32_le (bits1 ctx)) (md5_in ctx);
         ctx = ctx\<lparr>md5_in := i, md5_buf := md5_transform (md5_buf ctx) i\<rparr>
     in (md5_bytes (md5_buf ctx), ctx))"

definition md5_hash_buffer :: "byte list \<Rightarrow> byte list \<Rightarrow> byte list" where
  "md5_hash_buffer garbage buffer = fst (md5_final (md5_update (md5_init garbage) buffer))"

section \<open>The reference\<close>

text \<open>RFC 1321: the auxiliary functions, the table of constants, the order of the words and the shifts,
  each by the number of the step.\<close>

definition rfc_f :: "nat \<Rightarrow> u32 \<Rightarrow> u32 \<Rightarrow> u32 \<Rightarrow> u32" where
  "rfc_f i x y z =
    (if i < 16 then (x AND y) OR (NOT x AND z)
     else if i < 32 then (x AND z) OR (y AND NOT z)
     else if i < 48 then x XOR y XOR z
     else y XOR (x OR NOT z))"

definition rfc_T :: "u32 list" where
  "rfc_T = [0xd76aa478, 0xe8c7b756, 0x242070db, 0xc1bdceee, 0xf57c0faf, 0x4787c62a, 0xa8304613, 0xfd469501,
    0x698098d8, 0x8b44f7af, 0xffff5bb1, 0x895cd7be, 0x6b901122, 0xfd987193, 0xa679438e, 0x49b40821,
    0xf61e2562, 0xc040b340, 0x265e5a51, 0xe9b6c7aa, 0xd62f105d, 0x02441453, 0xd8a1e681, 0xe7d3fbc8,
    0x21e1cde6, 0xc33707d6, 0xf4d50d87, 0x455a14ed, 0xa9e3e905, 0xfcefa3f8, 0x676f02d9, 0x8d2a4c8a,
    0xfffa3942, 0x8771f681, 0x6d9d6122, 0xfde5380c, 0xa4beea44, 0x4bdecfa9, 0xf6bb4b60, 0xbebfbc70,
    0x289b7ec6, 0xeaa127fa, 0xd4ef3085, 0x04881d05, 0xd9d4d039, 0xe6db99e5, 0x1fa27cf8, 0xc4ac5665,
    0xf4292244, 0x432aff97, 0xab9423a7, 0xfc93a039, 0x655b59c3, 0x8f0ccc92, 0xffeff47d, 0x85845dd1,
    0x6fa87e4f, 0xfe2ce6e0, 0xa3014314, 0x4e0811a1, 0xf7537e82, 0xbd3af235, 0x2ad7d2bb, 0xeb86d391]"

definition rfc_k :: "nat \<Rightarrow> nat" where
  "rfc_k i = (if i < 16 then i else if i < 32 then (5 * i + 1) mod 16 else if i < 48 then (3 * i + 5) mod 16
     else (7 * i) mod 16)"

definition rfc_s :: "nat \<Rightarrow> nat" where
  "rfc_s i = (if i < 16 then [7, 12, 17, 22] else if i < 32 then [5, 9, 14, 20] else if i < 48 then [4, 11, 16, 23]
     else [6, 10, 15, 21]) ! (i mod 4)"

definition rfc_step :: "byte list \<Rightarrow> nat \<Rightarrow> md5_vars \<Rightarrow> md5_vars" where
  "rfc_step m i v = (case v of (a, b, c, d) \<Rightarrow>
     let w = a + rfc_f i b c d + md5_word m (rfc_k i) + rfc_T ! i
     in (d, b + (push_bit (rfc_s i) w OR drop_bit (32 - rfc_s i) w), b, c))"

definition md5_compress :: "md5_vars \<Rightarrow> byte list \<Rightarrow> md5_vars" where
  "md5_compress h m = md5_add h (fold (rfc_step m) [0..<64] h)"

definition md5_digest :: "byte list \<Rightarrow> byte list" where
  "md5_digest m = md5_bytes (md_fold md5_compress md5_iv (md_pad (put_u64_le (of_nat (8 * length m))) m))"

section \<open>The compression function\<close>

lemma md5_F_rfc:
  "i < 16 \<Longrightarrow> rfc_f i = md5_F1" "16 \<le> i \<Longrightarrow> i < 32 \<Longrightarrow> rfc_f i = md5_F2"
  "32 \<le> i \<Longrightarrow> i < 48 \<Longrightarrow> rfc_f i = md5_F3" "48 \<le> i \<Longrightarrow> rfc_f i = md5_F4"
  by (auto simp: rfc_f_def md5_F1_def md5_F2_def md5_F3_def md5_F4_def fun_eq_iff bit_simps
      intro!: bit_word_eqI)

lemma MD5STEP_rfc:
  "rfc_step m i (a, b, c, d) = (d, MD5STEP (rfc_f i) a b c d (md5_word m (rfc_k i) + rfc_T ! i) (rfc_s i), b, c)"
  by (simp add: rfc_step_def MD5STEP_def Let_def ac_simps)

definition md5_reached :: "byte list \<Rightarrow> md5_vars \<Rightarrow> nat \<Rightarrow> md5_vars \<Rightarrow> bool" where
  "md5_reached m h i v \<longleftrightarrow> v = fold (rfc_step m) [0..<i] h"

lemma md5_reached_four:
  assumes "md5_reached m h (j - 4) v" "4 \<le> j"
    and f: "rfc_f (j - 4) = f" "rfc_f (j - 3) = f" "rfc_f (j - 2) = f" "rfc_f (j - 1) = f"
    and q: "q0 = (rfc_k (j - 4), rfc_T ! (j - 4), rfc_s (j - 4))" "q1 = (rfc_k (j - 3), rfc_T ! (j - 3), rfc_s (j - 3))"
      "q2 = (rfc_k (j - 2), rfc_T ! (j - 2), rfc_s (j - 2))" "q3 = (rfc_k (j - 1), rfc_T ! (j - 1), rfc_s (j - 1))"
  shows "md5_reached m h j (md5_four f (md5_word m) q0 q1 q2 q3 v)"
proof -
  obtain a b c d where v: "v = (a, b, c, d)" by (metis prod_cases4)
  have fo: "fold (rfc_step m) [0..<j - 4] h = (a, b, c, d)" using assms(1) by (simp add: md5_reached_def v)
  define i where "i = j - 4"
  have i: "j = Suc (Suc (Suc (Suc i)))" using assms(2) by (simp add: i_def)
  have "[0..<j] = [0..<j - 4] @ [j - 4, j - 3, j - 2, j - 1]" by (simp add: i)
  then have "fold (rfc_step m) [0..<j] h =
      rfc_step m (j - 1) (rfc_step m (j - 2) (rfc_step m (j - 3) (rfc_step m (j - 4) (a, b, c, d))))"
    by (simp add: fo del: upt_Suc)
  then show ?thesis
    unfolding MD5STEP_rfc f by (simp add: md5_reached_def v md5_four_def Let_def q)
qed

lemma md5_rounds_rfc: "md5_rounds (md5_word m) h = fold (rfc_step m) [0..<64] h"
proof -
  have "md5_reached m h 64 (md5_rounds (md5_word m) h)"
    unfolding md5_rounds_def Let_def
    by (intro md5_reached_four)
      (simp_all add: md5_reached_def md5_F_rfc rfc_k_def rfc_s_def, simp_all add: rfc_T_def)
  then show ?thesis by (simp add: md5_reached_def)
qed

lemma md5_transform_compress: "md5_transform h b = md5_compress h b"
  by (simp add: md5_transform_def md5_compress_def md5_rounds_rfc)
section \<open>The counter of bits\<close>

lemma md5_offset: "unat (drop_bit 3 (of_nat (8 * l) :: u32) AND 0x3f) = l mod 64"
proof -
  have "unat (drop_bit 3 (of_nat (8 * l) :: u32) AND 0x3f) = (8 * l mod 2 ^ 32) div 8 mod 64"
    unfolding and_low_mask unat_take_bit unat_drop_bit_eq unat_of_nat by (simp add: drop_bit_eq_div take_bit_eq_mod)
  also have "8 * l mod 2 ^ 32 = 8 * (l mod 2 ^ 29)" using mult_mod_right [of 8 l "2 ^ 29"] by simp
  also have "8 * (l mod 2 ^ 29) div 8 mod 64 = l mod 2 ^ 29 mod 64" by simp
  also have "\<dots> = l mod 64" by (rule mod_mod_cancel) simp
  finally show ?thesis .
qed

lemma word_add_less: "x + y < x \<longleftrightarrow> 2 ^ 32 \<le> unat x + unat y" for x y :: u32
proof -
  have wrap: "(a + b) mod n < a \<longleftrightarrow> n \<le> a + b" if "a < n" "b < n" for a b n :: nat
    using that by (cases "a + b < n") (auto simp: le_mod_geq)
  have "unat (x + y) = (unat x + unat y) mod 2 ^ 32" by (simp add: unat_word_ariths)
  moreover have "unat x < 2 ^ 32" "unat y < 2 ^ 32" using unsigned_less [of x] unsigned_less [of y] by simp_all
  ultimately show ?thesis unfolding word_less_nat_alt using wrap by simp
qed

lemma md5_count:
  fixes l k :: nat
  defines "x \<equiv> of_nat (8 * l) :: u32"
  assumes "k < 2 ^ 32"
  shows "x + push_bit 3 (of_nat k) = of_nat (8 * (l + k))"
    and "(if x + push_bit 3 (of_nat k) < x then of_nat (8 * l div 2 ^ 32) + 1 else of_nat (8 * l div 2 ^ 32)) +
      drop_bit 29 (of_nat k) = (of_nat (8 * (l + k) div 2 ^ 32) :: u32)"
proof -
  have p: "push_bit 3 (of_nat k) = (of_nat (8 * k) :: u32)" by (simp add: push_bit_eq_mult)
  show "x + push_bit 3 (of_nat k) = of_nat (8 * (l + k))" by (simp add: x_def push_bit_eq_mult)
  have "unat (drop_bit 29 (of_nat k :: u32)) = k div 2 ^ 29"
    using assms(2) unfolding unat_drop_bit_eq by (simp add: unat_of_nat take_bit_nat_eq_self drop_bit_eq_div)
  then have d: "drop_bit 29 (of_nat k) = (of_nat (k div 2 ^ 29) :: u32)" by (metis of_nat_unat ucast_id)
  have u: "unat (of_nat n :: u32) = n mod 2 ^ 32" for n by (simp add: unat_of_nat)
  have c: "x + push_bit 3 (of_nat k) < x \<longleftrightarrow> 2 ^ 32 \<le> 8 * l mod 2 ^ 32 + 8 * k mod 2 ^ 32"
    unfolding word_add_less p x_def u ..
  have "8 * k div 2 ^ 32 = k div 2 ^ 29" using div_mult_mult1 [of 8 k "2 ^ 29"] by simp
  then have "8 * (l + k) div 2 ^ 32 =
      8 * l div 2 ^ 32 + k div 2 ^ 29 + (8 * l mod 2 ^ 32 + 8 * k mod 2 ^ 32) div 2 ^ 32"
    unfolding distrib_left div_add1_eq [of "8 * l"] by (simp only:)
  moreover have "(8 * l mod 2 ^ 32 + 8 * k mod 2 ^ 32) div 2 ^ 32 =
      (if 2 ^ 32 \<le> 8 * l mod 2 ^ 32 + 8 * k mod 2 ^ 32 then 1 else 0 :: nat)"
  proof -
    have "8 * l mod 2 ^ 32 < 2 ^ 32" "8 * k mod 2 ^ 32 < 2 ^ 32" by simp_all
    then show ?thesis by (auto simp: div_if)
  qed
  ultimately show "(if x + push_bit 3 (of_nat k) < x then of_nat (8 * l div 2 ^ 32) + 1 else of_nat (8 * l div 2 ^ 32)) +
      drop_bit 29 (of_nat k) = (of_nat (8 * (l + k) div 2 ^ 32) :: u32)"
    unfolding c d by simp
qed
section \<open>Absorbing a message\<close>

definition md5_state :: "md5_context \<Rightarrow> nat \<Rightarrow> byte list \<Rightarrow> byte list \<Rightarrow> bool" where
  "md5_state ctx n rest m \<longleftrightarrow> length (md5_in ctx) = 64 \<and> take (length rest) (md5_in ctx) = rest \<and>
    md_absorbed md5_compress md5_iv n rest (md5_buf ctx) m"

definition md5_absorbed :: "md5_context \<Rightarrow> byte list \<Rightarrow> bool" where
  "md5_absorbed ctx m \<longleftrightarrow> bits0 ctx = of_nat (8 * length m) \<and> bits1 ctx = of_nat (8 * length m div 2 ^ 32) \<and>
    (\<exists>n rest. length rest < 64 \<and> md5_state ctx n rest m)"

lemma md5_absorbed_init: "length g = 64 \<Longrightarrow> md5_absorbed (md5_init g) []"
  by (auto simp: md5_absorbed_def md5_state_def md5_init_def md_absorbed_init intro!: exI [of _ 0] exI [of _ "[]"])

lemma md5_state_offset: "md5_state ctx n rest m \<Longrightarrow> length rest < 64 \<Longrightarrow> length m mod 64 = length rest"
  by (auto simp: md5_state_def dest: md_absorbed_length)

lemma length_overwrite [simp]: "i + length ys \<le> length xs \<Longrightarrow> length (overwrite i ys xs) = length xs"
  by (simp add: overwrite_def)

lemma md5_state_extend:
  assumes "md5_state ctx n rest m" "length rest + length d \<le> 64"
  shows "md5_state (ctx\<lparr>md5_in := overwrite (length rest) d (md5_in ctx)\<rparr>) n (rest @ d) (m @ d)"
  using assms by (auto simp: md5_state_def md_absorbed_extend overwrite_def)

lemma md5_state_block:
  assumes "md5_state ctx n rest m" "length rest = 64"
  shows "md5_state (ctx\<lparr>md5_buf := md5_transform (md5_buf ctx) rest\<rparr>) (Suc n) [] m"
  using assms md_absorbed_block [of _ _ n rest "[]"] by (auto simp: md5_state_def md5_transform_compress)

lemma md5_state_bits: "md5_state (ctx\<lparr>bits0 := x, bits1 := y\<rparr>) n rest m \<longleftrightarrow> md5_state ctx n rest m"
  by (simp add: md5_state_def)

lemma md5_blocks_state:
  "md5_state ctx n [] m \<Longrightarrow> md5_blocks ctx b = (ctx', rest) \<Longrightarrow>
   bits0 ctx' = bits0 ctx \<and> bits1 ctx' = bits1 ctx \<and> length rest < 64 \<and>
   (\<exists>k d. b = d @ rest \<and> md5_state ctx' k [] (m @ d))"
proof (induction ctx b arbitrary: n m rule: md5_blocks.induct)
  case (1 ctx b)
  show ?case
  proof (cases "64 \<le> length b")
    case True
    let ?i = "take 64 b"
    let ?c = "ctx\<lparr>md5_in := ?i, md5_buf := md5_transform (md5_buf ctx) ?i\<rparr>"
    have "overwrite 0 ?i (md5_in ctx) = ?i"
      using 1(2) True by (simp add: overwrite_def md5_state_def)
    then have "md5_state (ctx\<lparr>md5_in := ?i\<rparr>) n ?i (m @ ?i)"
      using md5_state_extend [OF 1(2), of ?i] True by simp
    from md5_state_block [OF this] have c: "md5_state ?c (Suc n) [] (m @ ?i)" using True by simp
    have "md5_blocks ?c (drop 64 b) = (ctx', rest)"
      using 1(3) True by (simp add: md5_blocks.simps [of ctx] Let_def)
    from 1(1) [OF True refl c this] obtain k d where *: "bits0 ctx' = bits0 ctx" "bits1 ctx' = bits1 ctx"
      "length rest < 64" "drop 64 b = d @ rest" "md5_state ctx' k [] ((m @ ?i) @ d)" by auto
    have "b = (?i @ d) @ rest" using *(4) by (metis append.assoc append_take_drop_id)
    then show ?thesis using * by (metis append.assoc)
  next
    case False
    then show ?thesis using 1(2,3) by (auto simp: md5_blocks.simps [of ctx] intro!: exI [of _ n])
  qed
qed

text \<open>The part of \<open>md5_update\<close> behind the counting: absorbing whole blocks and the rest.\<close>

lemma md5_tail_state:
  assumes "md5_state ctx n [] m" "md5_blocks ctx b = (ctx', rest)"
  shows "bits0 ctx' = bits0 ctx \<and> bits1 ctx' = bits1 ctx \<and>
    (\<exists>k r. length r < 64 \<and> md5_state (ctx'\<lparr>md5_in := overwrite 0 rest (md5_in ctx')\<rparr>) k r (m @ b))"
proof -
  obtain k d where kd: "bits0 ctx' = bits0 ctx" "bits1 ctx' = bits1 ctx" "length rest < 64"
    "b = d @ rest" "md5_state ctx' k [] (m @ d)"
    using md5_blocks_state [OF assms] by auto
  have "md5_state (ctx'\<lparr>md5_in := overwrite 0 rest (md5_in ctx')\<rparr>) k rest ((m @ d) @ rest)"
    using md5_state_extend [OF kd(5), of rest] kd(3) by simp
  then show ?thesis using kd by auto
qed

text \<open>\<open>md5_update\<close> with the counters computed.\<close>

lemma md5_update_eq:
  fixes m b :: "byte list"
  assumes bits: "bits0 ctx = of_nat (8 * length m)" "bits1 ctx = of_nat (8 * length m div 2 ^ 32)"
    and "length b < 2 ^ 32" and t: "length m mod 64 = t"
    and c: "c = ctx\<lparr>bits0 := of_nat (8 * (length m + length b)), bits1 := of_nat (8 * (length m + length b) div 2 ^ 32)\<rparr>"
  shows "md5_update ctx b =
     (if t \<noteq> 0 \<and> length b < 64 - t then c\<lparr>md5_in := overwrite t b (md5_in c)\<rparr>
      else let (c, b) = (if t \<noteq> 0
             then let i = overwrite t (take (64 - t) b) (md5_in c)
                  in (c\<lparr>md5_in := i, md5_buf := md5_transform (md5_buf c) i\<rparr>, drop (64 - t) b)
             else (c, b));
           (c, b) = md5_blocks c b
      in c\<lparr>md5_in := overwrite 0 b (md5_in c)\<rparr>)"
proof -
  have off: "unat (drop_bit 3 (bits0 ctx) AND 0x3f) = t"
    unfolding bits md5_offset by (rule t)
  have cnt: "(let d = ctx\<lparr>bits0 := bits0 ctx + push_bit 3 (of_nat (length b))\<rparr>;
      d = (if bits0 d < bits0 ctx then d\<lparr>bits1 := bits1 d + 1\<rparr> else d)
      in d\<lparr>bits1 := bits1 d + drop_bit 29 (of_nat (length b))\<rparr>) = c"
    using md5_count [OF assms(3), of "length m", folded bits] unfolding c
    by (cases "bits0 ctx + push_bit 3 (of_nat (length b)) < bits0 ctx") (simp_all add: Let_def)
  show ?thesis unfolding md5_update_def using cnt off by (simp only: Let_def)
qed

lemma md5_update_absorbed:
  assumes "md5_absorbed ctx m" "length b < 2 ^ 32"
  shows "md5_absorbed (md5_update ctx b) (m @ b)"
proof -
  obtain n rest where nr: "length rest < 64" "md5_state ctx n rest m"
    and bits: "bits0 ctx = of_nat (8 * length m)" "bits1 ctx = of_nat (8 * length m div 2 ^ 32)"
    using assms(1) by (auto simp: md5_absorbed_def)
  let ?t = "length rest"
  define c where "c = ctx\<lparr>bits0 := of_nat (8 * (length m + length b)), bits1 := of_nat (8 * (length m + length b) div 2 ^ 32)\<rparr>"
  have c: "md5_state c n rest m" using nr(2) by (simp add: c_def md5_state_bits)
  have cb: "bits0 c = of_nat (8 * length (m @ b))" "bits1 c = of_nat (8 * length (m @ b) div 2 ^ 32)"
    by (simp_all add: c_def)
  note up = md5_update_eq [OF bits assms(2) md5_state_offset [OF nr(2,1)] c_def]
  show ?thesis
  proof (cases "?t \<noteq> 0 \<and> length b < 64 - ?t")
    case True
    then have "md5_state (c\<lparr>md5_in := overwrite ?t b (md5_in c)\<rparr>) n (rest @ b) (m @ b)"
      by (intro md5_state_extend [OF c]) linarith
    then show ?thesis unfolding up using True cb by (auto simp: md5_absorbed_def intro!: exI [of _ n] exI [of _ "rest @ b"])
  next
    case False
    show ?thesis
    proof (cases "?t = 0")
      case True
      obtain c' r where r: "md5_blocks c b = (c', r)" by fastforce
      show ?thesis unfolding up using md5_tail_state [OF _ r, of n m] c True cb r by (auto simp: md5_absorbed_def)
    next
      case t: False
      then have l: "64 - ?t \<le> length b" using False by simp
      define i where "i = overwrite ?t (take (64 - ?t) b) (md5_in c)"
      have st: "md5_state (c\<lparr>md5_in := i\<rparr>) n (rest @ take (64 - ?t) b) (m @ take (64 - ?t) b)"
        unfolding i_def using md5_state_extend [OF c, of "take (64 - ?t) b"] nr(1) by simp
      have ri: "rest @ take (64 - ?t) b = i" "length i = 64"
        using st l nr(1) by (auto simp: md5_state_def)
      let ?c = "c\<lparr>md5_in := i, md5_buf := md5_transform (md5_buf c) i\<rparr>"
      have sb: "md5_state ?c (Suc n) [] (m @ take (64 - ?t) b)"
        using md5_state_block [OF st] ri by simp
      obtain c' r where r: "md5_blocks ?c (drop (64 - ?t) b) = (c', r)" by fastforce
      show ?thesis unfolding up using md5_tail_state [OF sb r] cb r False t
        by (auto simp: md5_absorbed_def Let_def i_def [symmetric])
    qed
  qed
qed

section \<open>The end of the computation\<close>

lemma le64_words: "put_u32_le (of_nat (8 * l)) @ put_u32_le (of_nat (8 * l div 2 ^ 32)) = put_u64_le (of_nat (8 * l))"
proof -
  have "ucast (of_nat n :: u64) = (of_nat n :: u32)" for n
    unfolding word_unat_eq_iff by (simp only: unsigned_of_nat unsigned_ucast_eq) simp
  moreover have "ucast (drop_bit 32 (of_nat n :: u64)) = (of_nat (n div 2 ^ 32) :: u32)" for n
    unfolding drop_bit_eq_div [of 32 n, symmetric] by (rule bit_word_eqI) (simp add: bit_simps)
  ultimately show ?thesis unfolding put_u64_le_def by (simp only:)
qed

lemma md5_final_digest:
  assumes "md5_absorbed ctx m"
  shows "fst (md5_final ctx) = md5_digest m"
proof -
  obtain n rest where nr: "length rest < 64" "md5_state ctx n rest m"
    and bits: "bits0 ctx = of_nat (8 * length m)" "bits1 ctx = of_nat (8 * length m div 2 ^ 32)"
    using assms(1) by (auto simp: md5_absorbed_def)
  let ?t = "length rest"
  define len where "len = put_u64_le (of_nat (8 * length m))"
  have len8: "length len = 8" by (simp add: len_def put_u64_le_def put_u32_le_def)
  have dg: "md5_digest m = md5_bytes (md_fold md5_compress md5_iv (md_pad len m))"
    by (simp add: md5_digest_def len_def)
  have lw: "put_u32_le (bits0 ctx) @ put_u32_le (bits1 ctx) = len" unfolding bits len_def by (rule le64_words)
  have off: "unat (drop_bit 3 (bits0 ctx) AND 0x3f) = ?t"
    unfolding bits md5_offset by (rule md5_state_offset [OF nr(2,1)])
  have a: "md_absorbed md5_compress md5_iv n rest (md5_buf ctx) m" and i: "length (md5_in ctx) = 64" "take ?t (md5_in ctx) = rest"
    using nr(2) by (auto simp: md5_state_def)
  let ?i = "overwrite ?t [0x80] (md5_in ctx)"
  have pad: "take (?t + 1 + k) (overwrite (?t + 1) (replicate k 0) ?i) = rest @ [0x80] @ replicate k 0" if "?t + 1 + k \<le> 64" for k
    using that i by (simp add: overwrite_def)
  show ?thesis
  proof (cases "63 - ?t < 8")
    case True
    have "overwrite (?t + 1) (replicate (63 - ?t) 0) ?i = rest @ [0x80] @ replicate (63 - ?t) 0"
      using pad [of "63 - ?t"] nr(1) i(1) by (simp add: overwrite_def)
    moreover have "overwrite 56 len (overwrite 0 (replicate 56 0) x) = replicate 56 0 @ len" if "length x = 64" for x
      using that len8 by (simp add: overwrite_def)
    ultimately show ?thesis
      using True md_final_two [OF a _ nr(1) len8] off nr(1)
      by (simp add: md5_final_def Let_def md5_transform_compress dg lw)
  next
    case False
    have "overwrite 56 len (overwrite (?t + 1) (replicate (55 - ?t) 0) ?i) = rest @ [0x80] @ replicate (55 - ?t) 0 @ len"
      using pad [of "55 - ?t"] False i(1) len8 by (simp add: overwrite_def)
    then show ?thesis
      using False md_final_one [OF a _ len8] off
      by (simp add: md5_final_def Let_def md5_transform_compress dg lw)
  qed
qed

interpretation md5: incremental_digest
  "\<lambda>c. \<exists>g. length g = 64 \<and> c = md5_init g" md5_update "\<lambda>c. fst (md5_final c)" md5_absorbed md5_digest "\<lambda>_. True"
  by unfold_locales (auto simp: md5_absorbed_init md5_update_absorbed md5_final_digest)

lemma md5_hash_buffer_digest:
  "length g = 64 \<Longrightarrow> length m < 2 ^ 32 \<Longrightarrow> md5_hash_buffer g m = md5_digest m"
  using md5.chunks_digest [of "md5_init g" "[m]"] by (auto simp: md5_hash_buffer_def)

section \<open>Properties\<close>

text \<open>C11: MD5 computed by any sequence of updates, each of less than \<open>2\<^sup>3\<^sup>2\<close> bytes, is the MD5 of RFC 1321
  of the concatenation of the data, whatever the uninitialized buffer contained; the two words counting
  bits carry over correctly, so that there is no bound on the length of the message.\<close>

theorem md5_incremental:
  assumes "length g = 64" "\<forall>d\<in>set ds. length d < 2 ^ 32"
  shows "fst (md5_final (foldl md5_update (md5_init g) ds)) = md5_digest (concat ds)"
  using md5.chunks_digest [OF _ assms(2), of "md5_init g"] assms(1) by blast

theorem md5_incremental_witness:
  "fst (md5_final (md5_update (md5_update (md5_init (replicate 64 7)) [97]) [98, 99])) = md5_digest [97, 98, 99]"
  using md5_incremental [of "replicate 64 7" "[[97], [98, 99]]"] by simp
end
