(* ===== verification/Crc.thy ===== *)
theory Crc
  imports Crc_Tables Digest
begin

text \<open>
  \<open>ucw/crc.c\<close>: CRC-32 with the Castagnoli polynomial, byte by byte and with slicing by 4 and by 8. The
  address of the data, on which the alignment loops depend, and the endianity of the CPU, on which the
  loads of whole words depend, are arguments.
\<close>

section \<open>Operations\<close>

datatype crc_mode = CRC_MODE_DEFAULT | CRC_MODE_SMALL | CRC_MODE_BIG | CRC_MODE_MAX

datatype crc_func = crc32_by1 | crc32_by4 | crc32_by8

record crc32_context =
  state :: u32
  update_func :: crc_func

text \<open>The body of the loops over single bytes, and these loops.\<close>

definition crc_byte :: "u32 \<Rightarrow> byte \<Rightarrow> u32" where
  "crc_byte crc b = crc_tableil8_o32 ! unat ((crc XOR ucast b) AND 0xff) XOR drop_bit 8 crc"

definition crc32_update_by1 :: "crc32_context \<Rightarrow> byte list \<Rightarrow> crc32_context" where
  "crc32_update_by1 ctx buf = ctx\<lparr>state := foldl crc_byte (state ctx) buf\<rparr>"

text \<open>Alignment of the start address to a multiple of \<open>n\<close>, and a load through a \<open>u32\<close> pointer.\<close>

definition align_bytes :: "nat \<Rightarrow> nat \<Rightarrow> nat" where
  "align_bytes n addr = (if addr mod n \<noteq> 0 then n - addr mod n else 0)"

definition load32 :: "bool \<Rightarrow> byte list \<Rightarrow> u32" where
  "load32 big_endian p = (case (if big_endian then get_u32_be p else get_u32_le p) of Inr w \<Rightarrow> w | Inl _ \<Rightarrow> 0)"

definition crc_slice4 :: "u32 \<Rightarrow> u32" where
  "crc_slice4 crc =
    (let term1 = crc_tableil8_o56 ! unat (crc AND 0xff) XOR crc_tableil8_o48 ! unat (drop_bit 8 crc AND 0xff);
         term2 = drop_bit 16 crc
     in term1 XOR crc_tableil8_o40 ! unat (term2 AND 0xff) XOR crc_tableil8_o32 ! unat (drop_bit 8 term2 AND 0xff))"

definition crc_slice8 :: "u32 \<Rightarrow> u32" where
  "crc_slice8 crc =
    (let term1 = crc_tableil8_o88 ! unat (crc AND 0xff) XOR crc_tableil8_o80 ! unat (drop_bit 8 crc AND 0xff);
         term2 = drop_bit 16 crc
     in term1 XOR crc_tableil8_o72 ! unat (term2 AND 0xff) XOR crc_tableil8_o64 ! unat (drop_bit 8 term2 AND 0xff))"

text \<open>The loops over whole words and pairs of words.\<close>

primrec crc_words :: "bool \<Rightarrow> nat \<Rightarrow> u32 \<Rightarrow> byte list \<Rightarrow> u32 \<times> byte list" where
  "crc_words be 0 crc buf = (crc, buf)"
| "crc_words be (Suc n) crc buf = crc_words be n (crc_slice4 (crc XOR load32 be buf)) (drop 4 buf)"

primrec crc_quads :: "bool \<Rightarrow> nat \<Rightarrow> u32 \<Rightarrow> byte list \<Rightarrow> u32 \<times> byte list" where
  "crc_quads be 0 crc buf = (crc, buf)"
| "crc_quads be (Suc n) crc buf =
    crc_quads be n (crc_slice8 (crc XOR load32 be buf) XOR crc_slice4 (load32 be (drop 4 buf))) (drop 8 buf)"

definition crc32_update_by4 :: "bool \<Rightarrow> nat \<Rightarrow> crc32_context \<Rightarrow> byte list \<Rightarrow> crc32_context" where
  "crc32_update_by4 be addr ctx buf =
    (let crc = state ctx in
     if length buf < 4 then ctx\<lparr>state := foldl crc_byte crc buf\<rparr>
     else let init_bytes = align_bytes 4 addr;
              crc = foldl crc_byte crc (take init_bytes buf);
              buf = drop init_bytes buf;
              (crc, buf) = crc_words be (length buf div 4) crc buf
          in ctx\<lparr>state := foldl crc_byte crc buf\<rparr>)"

definition crc32_update_by8 :: "bool \<Rightarrow> nat \<Rightarrow> crc32_context \<Rightarrow> byte list \<Rightarrow> crc32_context" where
  "crc32_update_by8 be addr ctx buf =
    (let crc = state ctx in
     if length buf < 8 then ctx\<lparr>state := foldl crc_byte crc buf\<rparr>
     else let init_bytes = align_bytes 8 addr;
              crc = foldl crc_byte crc (take init_bytes buf);
              buf = drop init_bytes buf;
              (crc, buf) = crc_quads be (length buf div 8) crc buf
          in ctx\<lparr>state := foldl crc_byte crc buf\<rparr>)"

definition crc32_init :: "crc_mode \<Rightarrow> crc32_context res" where
  "crc32_init mode = (case mode of
     CRC_MODE_DEFAULT \<Rightarrow> Inr \<lparr>state = 0xffffffff, update_func = crc32_by4\<rparr>
   | CRC_MODE_SMALL \<Rightarrow> Inr \<lparr>state = 0xffffffff, update_func = crc32_by1\<rparr>
   | CRC_MODE_BIG \<Rightarrow> Inr \<lparr>state = 0xffffffff, update_func = crc32_by8\<rparr>
   | CRC_MODE_MAX \<Rightarrow> Inl Assert_failed)"

definition crc32_update :: "bool \<Rightarrow> nat \<Rightarrow> crc32_context \<Rightarrow> byte list \<Rightarrow> crc32_context" where
  "crc32_update be addr ctx buf = (case update_func ctx of
     crc32_by1 \<Rightarrow> crc32_update_by1 ctx buf
   | crc32_by4 \<Rightarrow> crc32_update_by4 be addr ctx buf
   | crc32_by8 \<Rightarrow> crc32_update_by8 be addr ctx buf)"

definition crc32_final :: "crc32_context \<Rightarrow> u32" where
  "crc32_final ctx = state ctx XOR 0xffffffff"

definition crc32_hash_buffer :: "bool \<Rightarrow> nat \<Rightarrow> byte list \<Rightarrow> u32 res" where
  "crc32_hash_buffer be addr buf =
    res_bind (crc32_init CRC_MODE_DEFAULT) (\<lambda>ctx. Inr (crc32_final (crc32_update be addr ctx buf)))"

section \<open>Slices and bytes\<close>

text \<open>The reference: one byte is divided by the polynomial bit by bit.\<close>

definition crc_ref_byte :: "u32 \<Rightarrow> byte \<Rightarrow> u32" where
  "crc_ref_byte crc b = crc_shift 8 (crc XOR ucast b)"

definition crc32c :: "byte list \<Rightarrow> u32" where
  "crc32c m = foldl crc_ref_byte 0xffffffff m XOR 0xffffffff"

lemma and_ff: "x AND 0xff = take_bit 8 x" for x :: u32
  by (simp add: take_bit_eq_mask mask_eq_exp_minus_1)

lemma unat_low_byte: "unat (take_bit 8 x) < 2 ^ 8" for x :: u32
  using take_bit_nat_less_exp [of 8 "unat x"] by (simp add: unat_take_bit)

lemma remainders_nth: "remainders n ! unat (x AND 0xff) = crc_shift n (take_bit 8 x)" for x :: u32
  using unat_low_byte [of x] by (simp add: remainders_def and_ff)

lemma crc_byte_ref: "crc_byte = crc_ref_byte"
proof (intro ext)
  fix crc :: u32 and b :: byte
  define x where "x = crc XOR ucast b"
  have "crc_shift 8 (push_bit 8 (drop_bit 8 x)) = drop_bit 8 (push_bit 8 (drop_bit 8 x))"
    by (rule crc_shift_drop) (simp add: take_bit_push_bit)
  also have "\<dots> = drop_bit 8 crc"
    by (rule bit_word_eqI) (auto simp: x_def bit_simps dest: bit_imp_le_length)
  finally have hi: "crc_shift 8 (push_bit 8 (drop_bit 8 x)) = drop_bit 8 crc" .
  have "x = (take_bit 8 x) XOR push_bit 8 (drop_bit 8 x)" by (rule bit_word_eqI) (auto simp: bit_simps)
  then have "crc_shift 8 x = crc_shift 8 (take_bit 8 x) XOR drop_bit 8 crc" using hi crc_shift_xor by metis
  then show "crc_byte crc b = crc_ref_byte crc b"
    by (simp add: crc_byte_def crc_ref_byte_def crc_tableil8_o32 remainders_nth flip: x_def)
qed

text \<open>The bytes of a word contribute to the remainder independently.\<close>

lemma crc_shift_bytes:
  "crc_shift (n + 24) x = crc_shift (n + 24) (take_bit 8 x) XOR crc_shift (n + 16) (take_bit 8 (drop_bit 8 x)) XOR
     crc_shift (n + 8) (take_bit 8 (drop_bit 16 x)) XOR crc_shift n (take_bit 8 (drop_bit 24 x))"
proof -
  have p: "crc_shift (m + k) (push_bit k (take_bit 8 y)) = crc_shift m (take_bit 8 y)" if "8 \<le> k" "k \<le> 24" for m k and y :: u32
  proof -
    have "unat (take_bit 8 y) < 2 ^ (32 - k)"
    proof (rule order_less_le_trans [OF unat_low_byte])
      show "(2 :: nat) ^ 8 \<le> 2 ^ (32 - k)" by (rule power_increasing) (use that in simp_all)
    qed
    then have "take_bit 8 y < 2 ^ (32 - k)" using that by (intro less_exp_unat) simp_all
    then show ?thesis using that by (simp add: crc_shift_add crc_shift_push)
  qed
  have "x = (take_bit 8 x) XOR push_bit 8 (take_bit 8 (drop_bit 8 x)) XOR push_bit 16 (take_bit 8 (drop_bit 16 x)) XOR
      push_bit 24 (take_bit 8 (drop_bit 24 x))"
    by (rule bit_word_eqI) (auto simp: bit_simps)
  then have "crc_shift (n + 24) x = crc_shift (n + 24) (take_bit 8 x) XOR crc_shift (n + 24) (push_bit 8 (take_bit 8 (drop_bit 8 x))) XOR
      crc_shift (n + 24) (push_bit 16 (take_bit 8 (drop_bit 16 x))) XOR crc_shift (n + 24) (push_bit 24 (take_bit 8 (drop_bit 24 x)))"
    by (metis crc_shift_xor)
  also have "\<dots> = crc_shift (n + 24) (take_bit 8 x) XOR crc_shift (n + 16) (take_bit 8 (drop_bit 8 x)) XOR
     crc_shift (n + 8) (take_bit 8 (drop_bit 16 x)) XOR crc_shift n (take_bit 8 (drop_bit 24 x))"
    using p [of 8 "n + 16"] p [of 16 "n + 8"] p [of 24 n] by (simp add: add.assoc)
  finally show ?thesis .
qed

lemma crc_slice4: "crc_slice4 x = crc_shift 32 x"
  using crc_shift_bytes [of 8 x]
  by (simp add: crc_slice4_def Let_def crc_tableil8_o32 crc_tableil8_o40 crc_tableil8_o48 crc_tableil8_o56
      remainders_nth drop_bit_drop_bit ac_simps)

lemma crc_slice8: "crc_slice8 x = crc_shift 64 x"
  using crc_shift_bytes [of 40 x]
  by (simp add: crc_slice8_def Let_def crc_tableil8_o64 crc_tableil8_o72 crc_tableil8_o80 crc_tableil8_o88
      remainders_nth drop_bit_drop_bit ac_simps)

text \<open>Four bytes at once, in little-endian order.\<close>

lemma ucast_byte_less: "(ucast b :: u32) < 2 ^ 8" for b :: byte
  using unat_less_256 [of b] by (intro less_exp_unat) (simp_all add: unat_ucast_byte_uint)

lemma crc_shift_byte:
  assumes "8 \<le> k" "k \<le> 24"
  shows "crc_shift (m + k) (push_bit k (ucast b)) = crc_shift m (ucast (b :: byte))"
proof -
  have "unat (ucast b :: u32) < 2 ^ (32 - k)"
  proof (rule order_less_le_trans)
    show "unat (ucast b :: u32) < 2 ^ 8" using unat_less_256 [of b] by (simp add: unat_ucast_byte_uint)
    show "(2 :: nat) ^ 8 \<le> 2 ^ (32 - k)" by (rule power_increasing) (use assms in simp_all)
  qed
  then have "(ucast b :: u32) < 2 ^ (32 - k)" using assms by (intro less_exp_unat) simp_all
  then show ?thesis using assms by (simp add: crc_shift_add crc_shift_push)
qed

lemma crc_word_bytes:
  "foldl crc_byte crc [b0, b1, b2, b3] = crc_shift 32 (crc XOR load32 False (b0 # b1 # b2 # b3 # r))"
proof -
  define c where "c b = (ucast (b :: byte) :: u32)" for b
  have w: "load32 False (b0 # b1 # b2 # b3 # r) = c b0 XOR push_bit 8 (c b1) XOR push_bit 16 (c b2) XOR push_bit 24 (c b3)"
  proof (rule bit_word_eqI)
    fix n
    have "bit b0 n \<Longrightarrow> n < 8" "bit b1 (n - 8) \<Longrightarrow> n < 16" "bit b2 (n - 16) \<Longrightarrow> n < 24"
      by (auto dest!: bit_imp_le_length)
    moreover assume "n < LENGTH(32)"
    ultimately show "bit (load32 False (b0 # b1 # b2 # b3 # r)) n \<longleftrightarrow>
        bit (c b0 XOR push_bit 8 (c b1) XOR push_bit 16 (c b2) XOR push_bit 24 (c b3)) n"
      unfolding load32_def get_u32_le_def c_def by (auto simp: bit_simps)
  qed
  have s: "crc_shift 32 (push_bit 8 (c b)) = crc_shift 24 (c b)" "crc_shift 32 (push_bit 16 (c b)) = crc_shift 16 (c b)"
    "crc_shift 32 (push_bit 24 (c b)) = crc_shift 8 (c b)" for b
    using crc_shift_byte [of 8 24 b] crc_shift_byte [of 16 16 b] crc_shift_byte [of 24 8 b] by (simp_all add: c_def)
  have a: "crc_shift 8 (crc_shift n x) = crc_shift (8 + n) x" for n x by (simp add: crc_shift_add)
  show ?thesis
    unfolding w by (simp add: crc_byte_ref crc_ref_byte_def crc_shift_xor s a ac_simps flip: c_def)
qed
section \<open>The loops\<close>

lemma split4: "4 \<le> length buf \<Longrightarrow> \<exists>b0 b1 b2 b3. buf = b0 # b1 # b2 # b3 # drop 4 buf"
  by (auto simp: numeral_eq_Suc Suc_le_length_iff)

lemma crc_words_step:
  assumes "4 \<le> length buf"
  shows "crc_slice4 (crc XOR load32 False buf) = foldl crc_byte crc (take 4 buf)"
proof -
  obtain b0 b1 b2 b3 where b: "buf = b0 # b1 # b2 # b3 # drop 4 buf" using split4 [OF assms] by blast
  have "take 4 buf = [b0, b1, b2, b3]" by (subst b) simp
  moreover have "load32 False buf = load32 False (b0 # b1 # b2 # b3 # drop 4 buf)" using b by simp
  ultimately show ?thesis using crc_word_bytes [of crc b0 b1 b2 b3 "drop 4 buf"] by (simp add: crc_slice4)
qed

lemma crc_words_bytes:
  "4 * n \<le> length buf \<Longrightarrow> crc_words False n crc buf = (foldl crc_byte crc (take (4 * n) buf), drop (4 * n) buf)"
proof (induction n arbitrary: crc buf)
  case 0
  show ?case by simp
next
  case (Suc n)
  have "take (4 * Suc n) buf = take 4 buf @ take (4 * n) (drop 4 buf)" by (simp add: take_add)
  then show ?case using Suc crc_words_step [of buf crc] by (simp add: add.commute)
qed

lemma crc_quads_step:
  assumes "8 \<le> length buf"
  shows "crc_slice8 (crc XOR load32 False buf) XOR crc_slice4 (load32 False (drop 4 buf)) = foldl crc_byte crc (take 8 buf)"
proof -
  let ?c = "crc_shift 32 (crc XOR load32 False buf)"
  have "take 8 buf = take 4 buf @ take 4 (drop 4 buf)" using take_add [of 4 4 buf] by simp
  moreover have "foldl crc_byte crc (take 4 buf) = ?c"
    using crc_words_step [of buf crc] assms by (simp add: crc_slice4)
  moreover have "foldl crc_byte ?c (take 4 (drop 4 buf)) = crc_shift 32 (?c XOR load32 False (drop 4 buf))"
    using crc_words_step [of "drop 4 buf" ?c] assms by (simp add: crc_slice4)
  moreover have "crc_shift 64 x = crc_shift 32 (crc_shift 32 x)" for x
    using crc_shift_add [of 32 32 x] by simp
  ultimately show ?thesis by (simp add: crc_slice4 crc_slice8 crc_shift_xor)
qed

lemma crc_quads_bytes:
  "8 * n \<le> length buf \<Longrightarrow> crc_quads False n crc buf = (foldl crc_byte crc (take (8 * n) buf), drop (8 * n) buf)"
proof (induction n arbitrary: crc buf)
  case 0
  show ?case by simp
next
  case (Suc n)
  have "take (8 * Suc n) buf = take 8 buf @ take (8 * n) (drop 8 buf)" by (simp add: take_add)
  then show ?case using Suc crc_quads_step [of buf crc] by (simp add: add.commute)
qed

text \<open>All three functions compute the same.\<close>

lemma foldl_split: "foldl f (foldl f a (take n xs)) (drop n xs) = foldl f a xs"
  by (metis append_take_drop_id foldl_append)

lemma crc32_update_bytes:
  "crc32_update False addr ctx buf = ctx\<lparr>state := foldl crc_ref_byte (state ctx) buf\<rparr>"
proof -
  have "4 * (n div 4) \<le> n" "8 * (n div 8) \<le> n" for n :: nat by simp_all
  then have "crc32_update_by4 False addr ctx buf = ctx\<lparr>state := foldl crc_byte (state ctx) buf\<rparr>"
    "crc32_update_by8 False addr ctx buf = ctx\<lparr>state := foldl crc_byte (state ctx) buf\<rparr>"
    by (simp_all add: crc32_update_by4_def crc32_update_by8_def Let_def crc_words_bytes crc_quads_bytes foldl_split
        del: length_drop)
  then show ?thesis
    by (simp add: crc32_update_def crc32_update_by1_def crc_byte_ref split: crc_func.split)
qed

definition crc_absorbed :: "crc32_context \<Rightarrow> byte list \<Rightarrow> bool" where
  "crc_absorbed ctx m \<longleftrightarrow> state ctx = foldl crc_ref_byte 0xffffffff m"

lemma crc32_init_state: "crc32_init mode = Inr c \<Longrightarrow> state c = 0xffffffff"
  by (cases mode) (auto simp: crc32_init_def)

interpretation crc: incremental_digest
  "\<lambda>c. \<exists>mode. crc32_init mode = Inr c" "crc32_update False addr" crc32_final crc_absorbed crc32c "\<lambda>_. True" for addr
  by unfold_locales
    (auto simp: crc_absorbed_def crc32_init_state crc32_update_bytes crc32_final_def crc32c_def)

section \<open>Properties\<close>

text \<open>C10: on a little-endian CPU all the modes compute the CRC-32C of the data, divided by the polynomial
  bit by bit, whatever the alignment of the data and however it is cut into updates at arbitrary addresses.
  So the slicing algorithms and their tables are equivalent to the definition.\<close>

theorem crc32_modes_agree:
  assumes "crc32_init mode = Inr ctx"
  shows "crc32_final (foldl (\<lambda>c (addr, d). crc32_update False addr c d) ctx ds) = crc32c (concat (map snd ds))"
proof -
  have "crc_absorbed (foldl (\<lambda>c (addr, d). crc32_update False addr c d) c ds) (m @ concat (map snd ds))"
    if "crc_absorbed c m" for c m
    using that
  proof (induction ds arbitrary: c m)
    case (Cons d ds)
    then show ?case using Cons.IH [of "crc32_update False (fst d) c (snd d)" "m @ snd d"]
      by (simp add: crc_absorbed_def crc32_update_bytes split_beta)
  qed simp
  from this [OF crc.fresh_absorbed [of ctx]] assms show ?thesis
    using crc.final_digest by fastforce
qed

theorem crc32_modes_agree_witness:
  "\<exists>ctx. crc32_init CRC_MODE_BIG = Inr ctx \<and>
    crc32_final (crc32_update False 9 (crc32_update False 3 ctx [49, 50, 51]) [52, 53, 54, 55, 56, 57, 58, 59, 60, 61]) =
      crc32c [49, 50, 51, 52, 53, 54, 55, 56, 57, 58, 59, 60, 61]"
  using crc32_modes_agree [of CRC_MODE_BIG _ "[(3, [49, 50, 51]), (9, [52, 53, 54, 55, 56, 57, 58, 59, 60, 61])]"]
  by (simp add: crc32_init_def)

text \<open>On a big-endian CPU the loads of whole words put the bytes in the wrong order: the default mode
  and the small mode disagree already on four aligned bytes.\<close>

lemma crc32_big_endian_differs:
  "crc32_update_by4 True 0 \<lparr>state = 0, update_func = f\<rparr> [1, 0, 0, 0] \<noteq>
   crc32_update_by1 \<lparr>state = 0, update_func = f\<rparr> [1, 0, 0, 0]"
proof -
  have l: "load32 True [1, 0, 0, 0] = push_bit 24 (ucast (1 :: byte))" "load32 False [1, 0, 0, 0] = 1"
    by (simp_all add: load32_def get_u32_be_def get_u32_le_def)
  have "state (crc32_update_by4 True 0 \<lparr>state = 0, update_func = f\<rparr> [1, 0, 0, 0]) = crc_shift 32 (push_bit 24 (ucast (1 :: byte)))"
    by (simp add: crc32_update_by4_def align_bytes_def crc_slice4 l)
  also have "\<dots> = crc_shift 8 1" using crc_shift_byte [of 24 8 1] by simp
  finally have "state (crc32_update_by4 True 0 \<lparr>state = 0, update_func = f\<rparr> [1, 0, 0, 0]) = 0xf26b8303" using basis_32 by simp
  moreover have "state (crc32_update_by1 \<lparr>state = 0, update_func = f\<rparr> [1, 0, 0, 0]) = crc_shift 32 1"
    using crc_word_bytes [of 0 1 0 0 0 "[]"] l by (simp add: crc32_update_by1_def)
  then have "state (crc32_update_by1 \<lparr>state = 0, update_func = f\<rparr> [1, 0, 0, 0]) \<noteq> 0xf26b8303" using basis_56 by simp
  ultimately show ?thesis by metis
qed
end
