(* ===== verification/Adler32.thy ===== *)
theory Adler32
  imports Digest
begin

text \<open>
  \<open>ucw/adler32.c\<close>: the Adler-32 checksum. The two sums are accumulated in 32 bits and reduced only
  after every \<open>NMAX\<close> bytes; the properties show that they never overflow.
\<close>

section \<open>Operations\<close>

definition ADLER_BASE :: u32 where "ADLER_BASE = 65521"

definition NMAX :: nat where "NMAX = 5552"

definition DO1 :: "u32 \<times> u32 \<Rightarrow> byte \<Rightarrow> u32 \<times> u32" where
  "DO1 s b = (case s of (s1, s2) \<Rightarrow> let s1 = s1 + ucast b; s2 = s2 + s1 in (s1, s2))"

definition DO2 :: "byte list \<Rightarrow> nat \<Rightarrow> u32 \<times> u32 \<Rightarrow> u32 \<times> u32" where
  "DO2 buf i s = DO1 (DO1 s (buf ! i)) (buf ! (i + 1))"

definition DO4 :: "byte list \<Rightarrow> nat \<Rightarrow> u32 \<times> u32 \<Rightarrow> u32 \<times> u32" where
  "DO4 buf i s = DO2 buf (i + 2) (DO2 buf i s)"

definition DO8 :: "byte list \<Rightarrow> nat \<Rightarrow> u32 \<times> u32 \<Rightarrow> u32 \<times> u32" where
  "DO8 buf i s = DO4 buf (i + 4) (DO4 buf i s)"

definition DO16 :: "byte list \<Rightarrow> u32 \<times> u32 \<Rightarrow> u32 \<times> u32" where
  "DO16 buf s = DO8 buf 8 (DO8 buf 0 s)"

text \<open>The inner loops over \<open>k\<close> bytes: sixteen at a time, then one by one.\<close>

fun adler_run :: "nat \<Rightarrow> byte list \<Rightarrow> u32 \<times> u32 \<Rightarrow> u32 \<times> u32" where
  "adler_run k buf s = (if k \<ge> 16 then adler_run (k - 16) (drop 16 buf) (DO16 buf s) else foldl DO1 s (take k buf))"

function adler_loop :: "byte list \<Rightarrow> u32 \<times> u32 \<Rightarrow> u32 \<times> u32" where
  "adler_loop buf s = (if buf = [] then s
     else let k = (if length buf < NMAX then length buf else NMAX);
              (s1, s2) = adler_run k buf s
          in adler_loop (drop k buf) (s1 mod ADLER_BASE, s2 mod ADLER_BASE))"
  by pat_completeness auto
termination
  by (relation "measure (\<lambda>(buf, s). length buf)") (auto simp: NMAX_def)

declare adler_run.simps [simp del] adler_loop.simps [simp del]

definition adler32_update :: "u32 \<Rightarrow> byte list option \<Rightarrow> u32" where
  "adler32_update adler buf =
    (let s1 = adler AND 0xffff; s2 = drop_bit 16 adler AND 0xffff in
     case buf of None \<Rightarrow> 1
     | Some buf \<Rightarrow> let (s1, s2) = adler_loop buf (s1, s2) in push_bit 16 s2 OR s1)"

definition adler32 :: "byte list \<Rightarrow> u32" where
  "adler32 buf = adler32_update 1 (Some buf)"

section \<open>The reference\<close>

text \<open>RFC 1950: two sums modulo 65521, reduced after every byte.\<close>

definition adler_ref :: "nat \<times> nat \<Rightarrow> byte \<Rightarrow> nat \<times> nat" where
  "adler_ref s b = ((fst s + unat b) mod 65521, (snd s + fst s + unat b) mod 65521)"

definition adler_digest :: "byte list \<Rightarrow> u32" where
  "adler_digest m = (case foldl adler_ref (1, 0) m of (a, b) \<Rightarrow> of_nat (b * 65536 + a))"

section \<open>No overflow between reductions\<close>

lemma DO16_bytes:
  assumes "16 \<le> length buf"
  shows "DO16 buf s = foldl DO1 s (take 16 buf)"
proof -
  have "take 16 buf = map (nth buf) [0..<16]" using assms by (intro nth_equalityI) simp_all
  then show ?thesis by (simp add: DO16_def DO8_def DO4_def DO2_def upt_rec eval_nat_numeral)
qed

lemma adler_run_bytes: "k \<le> length buf \<Longrightarrow> adler_run k buf s = foldl DO1 s (take k buf)"
proof (induction k buf s rule: adler_run.induct)
  case (1 k buf s)
  show ?case
  proof (cases "16 \<le> k")
    case True
    then have "take k buf = take 16 buf @ take (k - 16) (drop 16 buf)"
      using take_add [of 16 "k - 16" buf] by simp
    then show ?thesis using 1 True by (simp add: adler_run.simps [of k] DO16_bytes)
  next
    case False
    then show ?thesis by (simp add: adler_run.simps [of k])
  qed
qed

text \<open>The sums without reductions, as natural numbers.\<close>

definition sum_step :: "nat \<times> nat \<Rightarrow> byte \<Rightarrow> nat \<times> nat" where
  "sum_step s b = (fst s + unat b, snd s + fst s + unat b)"

lemma sums_bound:
  assumes "a < 65521" "b < 65521"
  shows "fst (foldl sum_step (a, b) xs) \<le> 65520 + 255 * length xs \<and>
    2 * snd (foldl sum_step (a, b) xs) \<le> 131040 * (length xs + 1) + 255 * length xs * (length xs + 1)"
proof (induction xs rule: rev_induct)
  case Nil
  then show ?case using assms by simp
next
  case (snoc x xs)
  have "unat x \<le> 255" using unat_less_256 [of x] by simp
  then show ?case using snoc by (simp add: sum_step_def algebra_simps)
qed

lemma sums_mod:
  "foldl adler_ref (a mod 65521, b mod 65521) xs =
   (case foldl sum_step (a, b) xs of (c, d) \<Rightarrow> (c mod 65521, d mod 65521))"
proof (induction xs rule: rev_induct)
  case Nil
  then show ?case by simp
next
  case (snoc x xs)
  have "(d mod n + c mod n + y) mod n = (d + c + y) mod n" for c d y n :: nat
    by (metis mod_add_eq mod_add_left_eq)
  with snoc show ?case by (simp add: adler_ref_def sum_step_def split_beta mod_simps)
qed

lemma DO1_sums:
  assumes "a < 65521" "b < 65521" "length xs \<le> NMAX"
  shows "foldl DO1 (of_nat a, of_nat b) xs = map_prod of_nat of_nat (foldl sum_step (a, b) xs)"
    and "fst (foldl sum_step (a, b) xs) < 2 ^ 32" "snd (foldl sum_step (a, b) xs) < 2 ^ 32"
proof -
  show "foldl DO1 (of_nat a, of_nat b) xs = map_prod of_nat of_nat (foldl sum_step (a, b) xs)"
    by (induction xs rule: rev_induct) (simp_all add: DO1_def sum_step_def split_beta map_prod_def ac_simps)
  note l = sums_bound [OF assms(1,2), of xs]
  have "255 * length xs * (length xs + 1) \<le> 255 * 5552 * 5553"
    using assms(3) by (intro mult_le_mono) (simp_all add: NMAX_def)
  then show "fst (foldl sum_step (a, b) xs) < 2 ^ 32" "snd (foldl sum_step (a, b) xs) < 2 ^ 32"
    using l assms(3) by (simp_all add: NMAX_def)
qed

section \<open>The whole computation\<close>

lemma adler_ref_less: "a < 65521 \<Longrightarrow> b < 65521 \<Longrightarrow> foldl adler_ref (a, b) xs = (c, d) \<Longrightarrow> c < 65521 \<and> d < 65521"
proof (induction xs arbitrary: a b)
  case (Cons x xs)
  show ?case by (rule Cons.IH [of "(a + unat x) mod 65521" "(b + a + unat x) mod 65521"])
    (use Cons.prems in \<open>simp_all add: adler_ref_def\<close>)
qed simp

lemma word_mod_base: "c < 2 ^ 32 \<Longrightarrow> of_nat c mod ADLER_BASE = of_nat (c mod 65521)"
  unfolding word_unat_eq_iff ADLER_BASE_def by (simp add: unat_mod_distrib unat_of_nat)

lemma adler_loop_ref:
  "a < 65521 \<Longrightarrow> b < 65521 \<Longrightarrow> foldl adler_ref (a, b) buf = (c, d) \<Longrightarrow>
   adler_loop buf (of_nat a, of_nat b) = (of_nat c, of_nat d)"
proof (induction "length buf" arbitrary: buf a b rule: less_induct)
  case less
  show ?case
  proof (cases "buf = []")
    case True
    then show ?thesis using less.prems by (simp add: adler_loop.simps)
  next
    case False
    define k where "k = (if length buf < NMAX then length buf else NMAX)"
    have k: "k \<le> length buf" "k \<le> NMAX" "0 < k" using False by (auto simp: k_def NMAX_def)
    obtain e f where ef: "foldl sum_step (a, b) (take k buf) = (e, f)" by fastforce
    have sums: "adler_run k buf (of_nat a, of_nat b) = (of_nat e, of_nat f)" "e < 2 ^ 32" "f < 2 ^ 32"
      using DO1_sums [OF less.prems(1,2), of "take k buf"] k ef by (simp_all add: adler_run_bytes)
    have mods: "foldl adler_ref (a, b) (take k buf) = (e mod 65521, f mod 65521)"
      using sums_mod [of a b "take k buf"] less.prems ef by simp
    have "foldl adler_ref (e mod 65521, f mod 65521) (drop k buf) = (c, d)"
      using less.prems(3) mods foldl_append [of adler_ref "(a, b)" "take k buf" "drop k buf"] by simp
    with less.hyps [of "drop k buf"] k
    have "adler_loop (drop k buf) (of_nat (e mod 65521), of_nat (f mod 65521)) = (of_nat c, of_nat d)" by simp
    then show ?thesis
      using False sums by (subst adler_loop.simps) (simp add: k_def [symmetric] word_mod_base)
  qed
qed

text \<open>A checksum in its packed form.\<close>

definition adler_pack :: "nat \<times> nat \<Rightarrow> u32" where
  "adler_pack s = of_nat (snd s * 65536 + fst s)"

lemma adler_unpack:
  assumes "a < 65536" "b < 65536"
  shows "adler_pack (a, b) AND 0xffff = of_nat a" "drop_bit 16 (adler_pack (a, b)) AND 0xffff = of_nat b"
    "push_bit 16 (of_nat b) OR of_nat a = adler_pack (a, b)"
proof -
  have u: "unat (adler_pack (a, b)) = b * 65536 + a"
    using assms by (simp only: adler_pack_def unat_of_nat) simp
  have m: "x AND 0xffff = take_bit 16 x" for x :: u32 by (simp add: take_bit_eq_mask mask_eq_exp_minus_1)
  show "adler_pack (a, b) AND 0xffff = of_nat a"
    unfolding m word_unat_eq_iff unat_take_bit u using assms by (simp add: take_bit_eq_mod unat_of_nat)
  have d: "(b * 65536 + a) div 65536 = b" using assms by simp
  show "drop_bit 16 (adler_pack (a, b)) AND 0xffff = of_nat b"
    unfolding m word_unat_eq_iff unat_take_bit unat_drop_bit_eq u using assms d
    by (simp add: take_bit_eq_mod drop_bit_eq_div unat_of_nat)
  have "(of_nat a :: u32) < 2 ^ 16" using assms by (intro less_exp_unat) (simp_all add: unat_of_nat)
  then have "push_bit 16 (of_nat b) OR of_nat a = push_bit 16 (of_nat b) + (of_nat a :: u32)"
    by (intro or_eq_add [where j = 16]) (simp_all add: take_bit_push_bit)
  then show "push_bit 16 (of_nat b) OR of_nat a = adler_pack (a, b)"
    by (simp add: adler_pack_def push_bit_eq_mult)
qed

lemma adler32_update_ref:
  assumes "a < 65521" "b < 65521"
  shows "adler32_update (adler_pack (a, b)) (Some m) = adler_pack (foldl adler_ref (a, b) m)"
proof -
  obtain c d where cd: "foldl adler_ref (a, b) m = (c, d)" by fastforce
  have "c < 65521" "d < 65521" using adler_ref_less [OF assms cd] by simp_all
  then show ?thesis
    using adler_unpack [of a b] adler_unpack [of c d] adler_loop_ref [OF assms cd] assms cd
    by (simp add: adler32_update_def)
qed

definition adler_absorbed :: "u32 \<Rightarrow> byte list \<Rightarrow> bool" where
  "adler_absorbed c m \<longleftrightarrow> c = adler_pack (foldl adler_ref (1, 0) m)"

interpretation adler: incremental_digest
  "\<lambda>c. c = adler32_update 0 None" "\<lambda>c d. adler32_update c (Some d)" id adler_absorbed adler_digest "\<lambda>_. True"
proof
  show "adler_absorbed c []" if "c = adler32_update 0 None" for c
    using that by (simp add: adler_absorbed_def adler_pack_def adler32_update_def)
  show "adler_absorbed (adler32_update c (Some d)) (m @ d)" if "adler_absorbed c m" for c d m
  proof -
    obtain a b where ab: "foldl adler_ref (1, 0) m = (a, b)" by fastforce
    then have "a < 65521" "b < 65521" using adler_ref_less [of 1 0 m a b] by simp_all
    then show ?thesis using that ab by (simp add: adler_absorbed_def adler32_update_ref)
  qed
  show "id c = adler_digest m" if "adler_absorbed c m" for c m
    using that by (simp add: adler_absorbed_def adler_pack_def adler_digest_def split_beta)
qed

section \<open>Properties\<close>

text \<open>C35: Adler-32 computed by any sequence of updates from the initial value that a null buffer gives
  is the checksum of RFC 1950 of the concatenated data. In particular the 32-bit sums of up to 5552 bytes
  do not overflow before they are reduced.\<close>

theorem adler32_incremental:
  assumes "\<forall>d\<in>set ds. length d < 2 ^ 32"
  shows "foldl (\<lambda>c d. adler32_update c (Some d)) (adler32_update x None) ds = adler_digest (concat ds)"
proof -
  have "adler32_update x None = adler32_update 0 None" by (simp add: adler32_update_def)
  then show ?thesis using adler.chunks_digest [OF refl assms] by simp
qed

theorem adler32_incremental_witness:
  "adler32_update (adler32_update (adler32_update 0 None) (Some [97])) (Some [98, 99]) = 0x024d0127"
  using adler32_incremental [of "[[97], [98, 99]]" 0] by (simp add: adler_digest_def adler_ref_def)
end
