(* ===== verification/Base64.thy ===== *)
theory Base64
  imports Ucw_Interfaces
begin

text \<open>
  \<open>ucw/base64.c\<close>: the Base64 encoding. Encoder and decoder work on
  a destination buffer of a given size (the decoder stores partial bytes ahead of the bytes it counts), and
  a store outside the buffer is a fault. The index of the encoder is an \<open>uint\<close> and wraps around; those of the decoder
  do not exceed the length of its input, which is an \<open>uint\<close>. All values fit in a byte, so the \<open>uint\<close> variable \<open>ch\<close> of the
  decoder is a byte.
\<close>

section \<open>Operations\<close>

definition base64_table :: "byte list" where
  "base64_table = [65, 66, 67, 68, 69, 70, 71, 72, 73, 74, 75, 76, 77, 78, 79, 80, 81, 82, 83, 84, 85, 86, 87, 88, 89, 90,
     97, 98, 99, 100, 101, 102, 103, 104, 105, 106, 107, 108, 109, 110, 111, 112, 113, 114, 115, 116, 117, 118, 119, 120, 121, 122,
     48, 49, 50, 51, 52, 53, 54, 55, 56, 57, 43, 47, 0]"

definition base64_pad :: byte where "base64_pad = 61"

definition enc64 :: "byte \<Rightarrow> byte" where
  "enc64 v = base64_table ! unat v"

text \<open>The stores \<open>dest[i++] = v\<close>; the index is a \<open>uint\<close>.\<close>

definition put64 :: "nat \<Rightarrow> byte \<Rightarrow> byte list \<Rightarrow> byte list res" where
  "put64 j v dest = (if j < length dest then Inr (dest[j := v]) else Inl Out_of_bounds)"

fun emit64 :: "byte list \<Rightarrow> nat \<times> byte list \<Rightarrow> (nat \<times> byte list) res" where
  "emit64 [] s = Inr s"
| "emit64 (v # vs) (i, dest) = res_bind (put64 i v dest) (\<lambda>dest. emit64 vs (U32 (i + 1), dest))"

fun encode_loop :: "byte list \<Rightarrow> nat \<times> byte list \<Rightarrow> (nat \<times> byte list) res" where
  "encode_loop [] s = Inr s"
| "encode_loop [a] s = emit64 [enc64 (drop_bit 2 a), enc64 (push_bit 4 (a AND 0x03)), base64_pad, base64_pad] s"
| "encode_loop [a, b] s = emit64 [enc64 (drop_bit 2 a), enc64 (push_bit 4 (a AND 0x03) + drop_bit 4 b),
     enc64 (push_bit 2 (b AND 0x0f)), base64_pad] s"
| "encode_loop (a # b # c # src) s = res_bind (emit64 [enc64 (drop_bit 2 a), enc64 (push_bit 4 (a AND 0x03) + drop_bit 4 b),
     enc64 (push_bit 2 (b AND 0x0f) + drop_bit 6 c), enc64 (c AND 0x3f)] s) (encode_loop src)"

definition base64_encode :: "byte list \<Rightarrow> byte list \<Rightarrow> (nat \<times> byte list) res" where
  "base64_encode dest src = encode_loop src (0, dest)"

text \<open>\<open>strchr\<close> finds the terminating zero, too, so the character 0 has the entry 64.\<close>

fun strchr :: "byte list \<Rightarrow> byte \<Rightarrow> nat option" where
  "strchr [] ch = None"
| "strchr (x # xs) ch = (if x = ch then Some 0 else map_option Suc (strchr xs ch))"

definition reverse_table :: "byte \<Rightarrow> byte" where
  "reverse_table ch = (case strchr base64_table ch of Some i \<Rightarrow> of_nat i | None \<Rightarrow> 0xff)"

definition or64 :: "nat \<Rightarrow> byte \<Rightarrow> byte list \<Rightarrow> byte list res" where
  "or64 j v dest = (if j < length dest then Inr (dest[j := dest ! j OR v]) else Inl Out_of_bounds)"

text \<open>The \<open>switch\<close> for the valid character number \<open>i\<close>.\<close>

definition sextet :: "nat \<Rightarrow> byte \<Rightarrow> nat \<times> byte list \<Rightarrow> (nat \<times> byte list) res" where
  "sextet i ch s = (case s of (j, dest) \<Rightarrow>
    (if i mod 4 = 0 then res_bind (put64 j (push_bit 2 ch) dest) (\<lambda>dest. Inr (j, dest))
     else if i mod 4 = 1 then res_bind (or64 j (drop_bit 4 ch) dest) (\<lambda>dest.
       res_bind (put64 (j + 1) (push_bit 4 (ch AND 0x0f)) dest) (\<lambda>dest. Inr (j + 1, dest)))
     else if i mod 4 = 2 then res_bind (or64 j (drop_bit 2 ch) dest) (\<lambda>dest.
       res_bind (put64 (j + 1) (push_bit 6 (ch AND 0x03)) dest) (\<lambda>dest. Inr (j + 1, dest)))
     else res_bind (or64 j ch dest) (\<lambda>dest. Inr (j + 1, dest))))"

fun decode_loop :: "byte list \<Rightarrow> nat \<Rightarrow> nat \<times> byte list \<Rightarrow> (nat \<times> byte list) res" where
  "decode_loop [] i s = Inr s"
| "decode_loop (ch # src) i s =
    (if ch = base64_pad then Inr s
     else let ch = reverse_table (if ch = 32 then 43 else ch) in
       if ch = 0xff then decode_loop src i s
       else res_bind (sextet i ch s) (decode_loop src (i + 1)))"

definition base64_decode :: "byte list \<Rightarrow> byte list \<Rightarrow> (nat \<times> byte list) res" where
  "base64_decode dest src = decode_loop src 0 (0, dest)"

definition BASE64_ENC_LENGTH :: "nat \<Rightarrow> nat" where
  "BASE64_ENC_LENGTH x = U32 (U32 (x + 2) div 3 * 4)"

declare decode_loop.simps [simp del]

text \<open>The text of an encoding, as a list.\<close>

fun base64_text :: "byte list \<Rightarrow> byte list" where
  "base64_text [] = []"
| "base64_text [a] = [enc64 (drop_bit 2 a), enc64 (push_bit 4 (a AND 0x03)), base64_pad, base64_pad]"
| "base64_text [a, b] = [enc64 (drop_bit 2 a), enc64 (push_bit 4 (a AND 0x03) + drop_bit 4 b),
     enc64 (push_bit 2 (b AND 0x0f)), base64_pad]"
| "base64_text (a # b # c # src) = enc64 (drop_bit 2 a) # enc64 (push_bit 4 (a AND 0x03) + drop_bit 4 b) #
     enc64 (push_bit 2 (b AND 0x0f) + drop_bit 6 c) # enc64 (c AND 0x3f) # base64_text src"

section \<open>Characters\<close>

lemma strchr_nth: "distinct xs \<Longrightarrow> i < length xs \<Longrightarrow> strchr xs (xs ! i) = Some i"
  by (induction xs arbitrary: i) (auto simp: nth_Cons in_set_conv_nth split: nat.split)

lemma base64_table_facts: "distinct base64_table" "length base64_table = 65" "base64_pad \<notin> set base64_table"
  "32 \<notin> set base64_table"
  by (simp_all add: base64_table_def base64_pad_def)

text \<open>What the decoder makes of a valid character.\<close>

lemma reverse_enc64:
  assumes "unat v < 64"
  shows "enc64 v \<noteq> base64_pad" "enc64 v \<noteq> 32" "reverse_table (enc64 v) = v" "v \<noteq> 0xff"
proof -
  have "enc64 v \<in> set base64_table" using assms base64_table_facts(2) by (simp add: enc64_def)
  then show "enc64 v \<noteq> base64_pad" "enc64 v \<noteq> 32" using base64_table_facts(3,4) by auto
  show "reverse_table (enc64 v) = v"
    using assms strchr_nth [OF base64_table_facts(1), of "unat v"] base64_table_facts(2)
    by (simp add: reverse_table_def enc64_def)
  show "v \<noteq> 0xff" using assms by auto
qed

lemma bit_byte_small: "bit (b :: byte) n \<Longrightarrow> n < 8"
  using bit_imp_le_length [of b n] by simp

lemma sextet_or:
  "push_bit 4 (a AND 3) + drop_bit 4 b = push_bit 4 (a AND 3) OR drop_bit 4 b"
  "push_bit 2 (b AND 0xf) + drop_bit 6 c = push_bit 2 (b AND 0xf) OR drop_bit 6 c" for a b c :: byte
  unfolding and_low_mask by (rule disjunctive_add_eq_or, rule bit_word_eqI, auto simp: bit_simps dest: bit_byte_small)+

lemma byte_less_64: "\<not> bit x 6 \<Longrightarrow> \<not> bit x 7 \<Longrightarrow> unat x < 64" for x :: byte
proof -
  assume "\<not> bit x 6" "\<not> bit x 7"
  then have "take_bit 6 x = x" unfolding byte_eq_bits by (simp add: bit_take_bit_iff)
  then have "unat x = unat x mod 64" using unat_take_bit [of 6 x] by simp
  then show ?thesis by (metis mod_less_divisor zero_less_numeral)
qed

lemma no_high_bits: "\<not> bit x (8 + n)" for x :: byte
  by (auto dest: bit_byte_small)

lemma sextet_less:
  "unat (drop_bit 2 a) < 64" "unat (push_bit 4 (a AND 3) + drop_bit 4 b) < 64"
  "unat (push_bit 2 (b AND 0xf) + drop_bit 6 c) < 64" "unat (c AND 0x3f) < 64"
  "unat (push_bit 4 (a AND 3)) < 64" "unat (push_bit 2 (b AND 0xf)) < 64" for a b c :: byte
  unfolding and_low_mask sextet_or [unfolded and_low_mask]
  using no_high_bits [of _ 0] no_high_bits [of _ 1] no_high_bits [of _ 2] no_high_bits [of _ 3] no_high_bits [of _ 4] no_high_bits [of _ 5]
  by (auto intro!: byte_less_64 simp: bit_simps)

lemma sextet_join:
  "push_bit 2 (drop_bit 2 a) OR drop_bit 4 (push_bit 4 (a AND 3) + drop_bit 4 b) = a"
  "push_bit 4 ((push_bit 4 (a AND 3) + drop_bit 4 b) AND 0xf) OR drop_bit 2 (push_bit 2 (b AND 0xf) + drop_bit 6 c) = b"
  "push_bit 6 ((push_bit 2 (b AND 0xf) + drop_bit 6 c) AND 3) OR (c AND 0x3f) = c"
  "push_bit 2 (drop_bit 2 a) OR drop_bit 4 (push_bit 4 (a AND 3)) = a"
  "push_bit 4 ((push_bit 4 (a AND 3) + drop_bit 4 b) AND 0xf) OR drop_bit 2 (push_bit 2 (b AND 0xf)) = b" for a b c :: byte
  unfolding and_low_mask sextet_or [unfolded and_low_mask]
  by (simp_all add: byte_eq_bits bit_simps)

section \<open>Decoding an encoded string\<close>

lemma decode_char:
  assumes "unat v < 64"
  shows "decode_loop (enc64 v # src) i s = res_bind (sextet i v s) (decode_loop src (i + 1))"
  using reverse_enc64 [OF assms] by (simp add: decode_loop.simps Let_def)

text \<open>The buffer after \<open>j\<close> bytes are complete: the bytes, and the rest of its memory.\<close>

lemma sextet_step:
  assumes "length p = j"
  shows "i mod 4 = 0 \<Longrightarrow> sextet i v (j, p @ x # r) = Inr (j, p @ push_bit 2 v # r)"
    "i mod 4 = 1 \<Longrightarrow> sextet i v (j, p @ x # y # r) = Inr (j + 1, p @ (x OR drop_bit 4 v) # push_bit 4 (v AND 0xf) # r)"
    "i mod 4 = 2 \<Longrightarrow> sextet i v (j, p @ x # y # r) = Inr (j + 1, p @ (x OR drop_bit 2 v) # push_bit 6 (v AND 3) # r)"
    "i mod 4 = 3 \<Longrightarrow> sextet i v (j, p @ x # r) = Inr (j + 1, p @ (x OR v) # r)"
  using assms by (simp_all add: sextet_def put64_def or64_def nth_append list_update_append)

text \<open>The first two characters, and the third and the fourth one.\<close>

lemma decode_two:
  assumes "length p = j" "unat s0 < 64" "unat s1 < 64" "push_bit 2 s0 OR drop_bit 4 s1 = a" "1 < length q"
  shows "decode_loop (enc64 s0 # enc64 s1 # src) (4 * k) (j, p @ q) =
    decode_loop src (4 * k + 2) (j + 1, (p @ [a]) @ push_bit 4 (s1 AND 0xf) # drop 2 q)"
proof -
  obtain x y r where q: "q = x # y # r" using assms(5) by (cases q) (auto simp: Suc_le_length_iff less_eq_Suc_le)
  have m: "4 * k mod 4 = 0" "(4 * k + 1) mod 4 = 1" using mod_mult_self4 [of 4 k 1] by simp_all
  show ?thesis
    using assms(4)
    by (simp add: q decode_char assms(2,3) sextet_step [OF assms(1)] m del: One_nat_def)
qed

lemma decode_third:
  assumes "length p = j" "unat s2 < 64" "x OR drop_bit 2 s2 = b" "0 < length r"
  shows "decode_loop (enc64 s2 # src) (4 * k + 2) (j, p @ x # r) =
    decode_loop src (4 * k + 3) (j + 1, (p @ [b]) @ push_bit 6 (s2 AND 3) # drop 1 r)"
proof -
  obtain y r' where r: "r = y # r'" using assms(4) by (cases r) auto
  have m: "(4 * k + 2) mod 4 = 2" using mod_mult_self4 [of 4 k 2] by simp
  have k: "4 * k + 2 + 1 = 4 * k + 3" by simp
  show ?thesis
    unfolding r decode_char [OF assms(2)] sextet_step(3) [OF assms(1) m] res_bind_simps assms(3) k by simp
qed

lemma decode_fourth:
  assumes "length p = j" "unat s3 < 64" "x OR s3 = c"
  shows "decode_loop (enc64 s3 # src) (4 * k + 3) (j, p @ x # r) = decode_loop src (4 * (k + 1)) (j + 1, (p @ [c]) @ r)"
proof -
  have m: "(4 * k + 3) mod 4 = 3" using mod_mult_self4 [of 4 k 3] by simp
  show ?thesis using assms(3) by (simp add: decode_char assms(2) sextet_step [OF assms(1)] m)
qed

lemma decode_pad [simp]: "decode_loop (base64_pad # src) i s = Inr s" "decode_loop [] i s = Inr s"
  by (simp_all add: decode_loop.simps)

text \<open>The characters the encoder emits, by the values they stand for.\<close>

lemma encode_one:
  "\<exists>s0 s1. base64_text [a] = [enc64 s0, enc64 s1, base64_pad, base64_pad] \<and> unat s0 < 64 \<and> unat s1 < 64 \<and>
    push_bit 2 s0 OR drop_bit 4 s1 = a"
  by (intro exI conjI, rule base64_text.simps, rule sextet_less, rule sextet_less, rule sextet_join)

lemma encode_two:
  "\<exists>s0 s1 s2. base64_text [a, b] = [enc64 s0, enc64 s1, enc64 s2, base64_pad] \<and>
    unat s0 < 64 \<and> unat s1 < 64 \<and> unat s2 < 64 \<and>
    push_bit 2 s0 OR drop_bit 4 s1 = a \<and> push_bit 4 (s1 AND 0xf) OR drop_bit 2 s2 = b"
  by (intro exI conjI, rule base64_text.simps, rule sextet_less, rule sextet_less, rule sextet_less, rule sextet_join,
      rule sextet_join)

lemma encode_three:
  "\<exists>s0 s1 s2 s3. base64_text (a # b # c # src) = enc64 s0 # enc64 s1 # enc64 s2 # enc64 s3 # base64_text src \<and>
    unat s0 < 64 \<and> unat s1 < 64 \<and> unat s2 < 64 \<and> unat s3 < 64 \<and>
    push_bit 2 s0 OR drop_bit 4 s1 = a \<and> push_bit 4 (s1 AND 0xf) OR drop_bit 2 s2 = b \<and> push_bit 6 (s2 AND 3) OR s3 = c"
  by (intro exI conjI, rule base64_text.simps, rule sextet_less, rule sextet_less, rule sextet_less, rule sextet_less,
      rule sextet_join, rule sextet_join, rule sextet_join)

lemma decode_encode:
  "length p = j \<Longrightarrow> length src \<le> length q \<Longrightarrow> length src mod 3 = 0 \<or> length src < length q \<Longrightarrow>
   \<exists>r. decode_loop (base64_text src) (4 * k) (j, p @ q) = Inr (j + length src, p @ src @ r) \<and>
     length (src @ r) = length q"
proof (induction src arbitrary: p j q k rule: base64_text.induct)
  case 1
  then show ?case by simp
next
  case (2 a)
  obtain s0 s1 where e: "base64_text [a] = [enc64 s0, enc64 s1, base64_pad, base64_pad]"
    and s: "unat s0 < 64" "unat s1 < 64" "push_bit 2 s0 OR drop_bit 4 s1 = a" using encode_one by blast
  show ?case using 2 by (auto simp: e decode_two [OF 2(1) s] simp del: base64_text.simps)
next
  case (3 a b)
  obtain s0 s1 s2 where e: "base64_text [a, b] = [enc64 s0, enc64 s1, enc64 s2, base64_pad]"
    and s: "unat s0 < 64" "unat s1 < 64" "push_bit 2 s0 OR drop_bit 4 s1 = a"
      "unat s2 < 64" "push_bit 4 (s1 AND 0xf) OR drop_bit 2 s2 = b" using encode_two by blast
  have l: "1 < length q" "0 < length (drop 2 q)" using 3(3) by auto
  have "decode_loop (base64_text [a, b]) (4 * k) (j, p @ q) =
      Inr (j + 1 + 1, ((p @ [a]) @ [b]) @ push_bit 6 (s2 AND 3) # drop 1 (drop 2 q))"
    unfolding e decode_two [OF 3(1) s(1-3) l(1)]
    by (subst decode_third [OF _ s(4,5) l(2)], simp add: 3(1), rule decode_pad)
  then show ?case using 3 by (auto simp del: base64_text.simps)
next
  case (4 a b c src)
  obtain s0 s1 s2 s3 where e: "base64_text (a # b # c # src) = enc64 s0 # enc64 s1 # enc64 s2 # enc64 s3 # base64_text src"
    and s: "unat s0 < 64" "unat s1 < 64" "push_bit 2 s0 OR drop_bit 4 s1 = a"
      "unat s2 < 64" "push_bit 4 (s1 AND 0xf) OR drop_bit 2 s2 = b" "unat s3 < 64" "push_bit 6 (s2 AND 3) OR s3 = c"
    using encode_three by blast
  have l: "1 < length q" "0 < length (drop 2 q)" using 4(3) by auto
  have "decode_loop (base64_text (a # b # c # src)) (4 * k) (j, p @ q) =
      decode_loop (base64_text src) (4 * (k + 1)) (j + 1 + 1 + 1, (((p @ [a]) @ [b]) @ [c]) @ drop 1 (drop 2 q))"
    unfolding e decode_two [OF 4(2) s(1-3) l(1)]
    by (subst decode_third [OF _ s(4,5) l(2)], simp add: 4(2), subst decode_fourth [OF _ s(6,7)], simp_all add: 4(2))
  moreover have "\<exists>r. decode_loop (base64_text src) (4 * (k + 1)) (j + 1 + 1 + 1, (((p @ [a]) @ [b]) @ [c]) @ drop 1 (drop 2 q)) =
      Inr (j + 1 + 1 + 1 + length src, (((p @ [a]) @ [b]) @ [c]) @ src @ r) \<and> length (src @ r) = length (drop 1 (drop 2 q))"
  proof (rule 4(1))
    show "length src mod 3 = 0 \<or> length src < length (drop 1 (drop 2 q))"
      using 4(4) l(1) mod_add_self2 [of "length src" 3] by (auto simp: add.commute)
    show "length (((p @ [a]) @ [b]) @ [c]) = j + 1 + 1 + 1" using 4(2) by simp
    show "length src \<le> length (drop 1 (drop 2 q))" using 4(3) by simp
  qed
  ultimately show ?case using 4(3) by (auto simp del: base64_text.simps)
qed
section \<open>Other inputs\<close>

text \<open>Characters outside the alphabet do not influence the result.\<close>

definition ignored :: "byte \<Rightarrow> bool" where
  "ignored ch \<longleftrightarrow> ch \<noteq> base64_pad \<and> ch \<noteq> 32 \<and> reverse_table ch = 0xff"

lemma decode_ignored: "decode_loop src i s = decode_loop (filter (\<lambda>ch. \<not> ignored ch) src) i s"
proof (induction src i s rule: decode_loop.induct)
  case (2 ch src i s)
  then show ?case
    by (cases "sextet i (reverse_table (if ch = 32 then 43 else ch)) s")
      (auto simp: ignored_def decode_loop.simps(2) Let_def base64_pad_def)
qed simp

lemma base64_text_append: "length a mod 3 = 0 \<Longrightarrow> base64_text (a @ b) = base64_text a @ base64_text b"
proof (induction a rule: base64_text.induct)
  case (4 x y z a)
  then have "length a mod 3 = 0" using mod_add_self2 [of "length a" 3] by (simp add: add.commute)
  then show ?case using 4 by simp
qed simp_all

lemma length_base64_text: "length (base64_text src) = (length src + 2) div 3 * 4"
proof (induction src rule: base64_text.induct)
  case (4 a b c src)
  have "(length (a # b # c # src) + 2) div 3 = (length src + 2) div 3 + 1"
    using div_add_self2 [of 3 "length src + 2"] by simp
  then show ?case using 4 by simp
qed simp_all

text \<open>What the encoder stores, as long as its index does not wrap around.\<close>

lemma emit64_stores:
  "i + length vs \<le> length dest \<Longrightarrow> i + length vs < 2 ^ 32 \<Longrightarrow>
   emit64 vs (i, dest) = Inr (i + length vs, take i dest @ vs @ drop (i + length vs) dest)"
proof (induction vs arbitrary: i dest)
  case (Cons v vs)
  have l: "i < length dest" "U32 (i + 1) = i + 1" using Cons.prems by simp_all
  have "take (i + 1) (dest[i := v]) = take i dest @ [v]" using l(1) by (simp add: take_Suc_conv_app_nth)
  then show ?case using Cons.IH [of "i + 1" "dest[i := v]"] Cons.prems l by (simp add: put64_def)
qed simp

lemma encode_loop_stores:
  "i + length (base64_text src) \<le> length dest \<Longrightarrow> i + length (base64_text src) < 2 ^ 32 \<Longrightarrow>
   encode_loop src (i, dest) =
     Inr (i + length (base64_text src), take i dest @ base64_text src @ drop (i + length (base64_text src)) dest)"
proof (induction src arbitrary: i dest rule: base64_text.induct)
  case (4 a b c src)
  define v where "v = [enc64 (drop_bit 2 a), enc64 (push_bit 4 (a AND 0x03) + drop_bit 4 b),
     enc64 (push_bit 2 (b AND 0x0f) + drop_bit 6 c), enc64 (c AND 0x3f)]"
  let ?d = "take i dest @ v @ drop (i + 4) dest"
  have t: "base64_text (a # b # c # src) = v @ base64_text src" "encode_loop (a # b # c # src) s = res_bind (emit64 v s) (encode_loop src)"
    "length v = 4" for s by (simp_all add: v_def)
  have l: "i + 4 + length (base64_text src) \<le> length dest" "i + 4 + length (base64_text src) < 2 ^ 32"
    using 4(2,3) by (simp_all only: t length_append add.assoc)
  have e: "emit64 v (i, dest) = Inr (i + 4, ?d)" using emit64_stores [of i v dest] l t(3) by simp
  have d: "length ?d = length dest" "take (i + 4) ?d = take i dest @ v" "drop (i + 4 + n) ?d = drop (i + 4 + n) dest" for n
    using l t(3) by (simp_all add: add.commute [of n])
  have "encode_loop src (i + 4, ?d) = Inr (i + 4 + length (base64_text src),
      take (i + 4) ?d @ base64_text src @ drop (i + 4 + length (base64_text src)) ?d)"
    by (rule 4(1)) (use l d(1) in simp_all)
  then show ?case unfolding d t e by (simp add: t(3) add.assoc)
next
  case (2 a)
  then show ?case using emit64_stores [of i "base64_text [a]" dest] by simp
next
  case (3 a b)
  then show ?case using emit64_stores [of i "base64_text [a, b]" dest] by simp
qed simp

lemma enc_length:
  assumes "n \<le> 3 * (2 ^ 30 - 1)"
  shows "BASE64_ENC_LENGTH n = (n + 2) div 3 * 4 \<and> (n + 2) div 3 * 4 < 2 ^ 32"
  using assms by (simp add: BASE64_ENC_LENGTH_def)

lemma base64_encode_stores:
  assumes "length src \<le> 3 * (2 ^ 30 - 1)" "BASE64_ENC_LENGTH (length src) \<le> length dest"
  shows "base64_encode dest src = Inr (length (base64_text src), base64_text src @ drop (length (base64_text src)) dest) \<and>
    length (base64_text src) = BASE64_ENC_LENGTH (length src)"
  using encode_loop_stores [of 0 src dest] enc_length [OF assms(1)] assms(2) by (simp add: base64_encode_def length_base64_text)

lemma base64_encode_chunks:
  assumes "length a mod 3 = 0" "length (a @ src) \<le> 3 * (2 ^ 30 - 1)" "BASE64_ENC_LENGTH (length (a @ src)) \<le> length dest"
  shows "base64_encode dest (a @ src) = res_bind (base64_encode dest a) (\<lambda>(i, d). res_bind (base64_encode (drop i d) src)
    (\<lambda>(k, d'). Inr (i + k, take i d @ d')))"
proof -
  have e: "base64_text (a @ src) = base64_text a @ base64_text src" by (rule base64_text_append [OF assms(1)])
  have b: "length a \<le> 3 * (2 ^ 30 - 1)" "length src \<le> 3 * (2 ^ 30 - 1)" using assms(2) by simp_all
  note w = base64_encode_stores [OF assms(2,3)]
  have l: "length (base64_text a) + length (base64_text src) \<le> length dest" using w assms(3) by (simp add: e)
  have "BASE64_ENC_LENGTH (length a) \<le> length dest" "BASE64_ENC_LENGTH (length src) \<le> length (drop (length (base64_text a)) dest)"
    using l enc_length [OF b(1)] enc_length [OF b(2)] by (simp_all add: length_base64_text)
  note p = base64_encode_stores [OF b(1) this(1)] base64_encode_stores [OF b(2) this(2)]
  show ?thesis using w p by (simp add: e add.commute)
qed

section \<open>Properties\<close>

text \<open>C36: For data whose encoding has less than \<open>2\<^sup>3\<^sup>2\<close> characters and a buffer with room for the announced
  length \<open>BASE64_ENC_LENGTH\<close>: the encoder returns that length and stores exactly as many characters; decoding them, with
  ignored characters inserted anywhere, gives back the data, in a buffer with room for one byte more than the data
  (none more when the length is divisible by three); and encoding a prefix of a length divisible by three and then the
  rest behind it gives the same result as encoding both at once.\<close>

theorem base64_roundtrip:
  assumes "length src \<le> 3 * (2 ^ 30 - 1)" "BASE64_ENC_LENGTH (length src) \<le> length out"
  shows "\<exists>txt. base64_encode out src = Inr (length txt, txt @ drop (length txt) out) \<and> length txt = BASE64_ENC_LENGTH (length src) \<and>
    (\<forall>enc (dest :: byte list). filter (\<lambda>ch. \<not> ignored ch) enc = txt \<and> length enc < 2 ^ 32 \<and>
        (length src < length dest \<or> length src mod 3 = 0 \<and> length src = length dest) \<longrightarrow>
      (\<exists>r. base64_decode dest enc = Inr (length src, src @ r) \<and> length (src @ r) = length dest)) \<and>
    (\<forall>a dest. length a mod 3 = 0 \<and> length (a @ src) \<le> 3 * (2 ^ 30 - 1) \<and> BASE64_ENC_LENGTH (length (a @ src)) \<le> length dest \<longrightarrow>
      base64_encode dest (a @ src) = res_bind (base64_encode dest a) (\<lambda>(i, d). res_bind (base64_encode (drop i d) src)
        (\<lambda>(k, d'). Inr (i + k, take i d @ d'))))"
proof (rule exI [of _ "base64_text src"], intro conjI allI impI)
  show "base64_encode out src = Inr (length (base64_text src), base64_text src @ drop (length (base64_text src)) out)"
    "length (base64_text src) = BASE64_ENC_LENGTH (length src)" using base64_encode_stores [OF assms] by blast+
  fix enc and dest :: "byte list"
  assume "filter (\<lambda>ch. \<not> ignored ch) enc = base64_text src \<and> length enc < 2 ^ 32 \<and>
    (length src < length dest \<or> length src mod 3 = 0 \<and> length src = length dest)"
  then show "\<exists>r. base64_decode dest enc = Inr (length src, src @ r) \<and> length (src @ r) = length dest"
    unfolding base64_decode_def decode_ignored [of enc] using decode_encode [of "[]" 0 src dest 0] by auto
qed (elim conjE, rule base64_encode_chunks)

theorem base64_roundtrip_witness:
  "\<exists>txt. base64_encode [0, 0, 0, 0, 9] [77] = Inr (4, txt @ [9]) \<and> length txt = 4"
  using base64_roundtrip [of "[77]" "[0, 0, 0, 0, 9]"] by (auto simp: BASE64_ENC_LENGTH_def)

text \<open>A buffer of exactly the size of the data is overrun by one byte when the encoding is padded, and a
  zero byte, which is not in the alphabet, is taken for a character with the value 64.\<close>

lemma base64_decode_overruns: "base64_decode [0] [84, 81, 61, 61] = Inl Out_of_bounds"
  by (simp add: base64_decode_def decode_loop.simps base64_pad_def reverse_table_def base64_table_def sextet_def
      put64_def or64_def)

lemma base64_decode_zero: "base64_decode [0, 0] [0, 0] = Inr (1, [4, 0])"
  by (simp add: base64_decode_def decode_loop.simps base64_pad_def reverse_table_def base64_table_def sextet_def
      put64_def or64_def)
end
