(* ===== verification/Heap.thy ===== *)
theory Heap
  imports Ucw_Interfaces "HOL-Library.Multiset"
begin

text \<open>
  \<open>ucw/heap.h\<close>: binary heaps in an array indexed from one. The array is a list whose entry 0 is unused,
  \<open>num\<close> the number of elements, \<open>lt\<close> the comparison \<open>less\<close> the user of the macros supplies; \<open>swap\<close> is the
  default \<open>HEAP_SWAP\<close>. Indices are of the type \<open>uint\<close>, and \<open>2 * _j\<close> wraps around; the properties are about heaps of less than
  \<open>2\<^sup>3\<^sup>1\<close> elements, where it does not. The operations return the array and, where the macro changes it, \<open>num\<close>; those with the loop
  downwards, which need not end otherwise, return \<open>None\<close> if it does not.
\<close>

section \<open>Operations\<close>

definition HEAP_SWAP :: "'a list \<Rightarrow> nat \<Rightarrow> nat \<Rightarrow> 'a list" where
  "HEAP_SWAP heap a b = heap[a := heap ! b, b := heap ! a]"

text \<open>The loop downwards.\<close>

partial_function (option) HEAP_BUBBLE_DOWN_J :: "('a \<Rightarrow> 'a \<Rightarrow> bool) \<Rightarrow> nat \<Rightarrow> nat \<Rightarrow> 'a list \<Rightarrow> 'a list option" where
  "HEAP_BUBBLE_DOWN_J lt num j heap =
    (let l = U32 (2 * j) in
     if l > num then Some heap
     else if lt (heap ! j) (heap ! l) \<and> (l = num \<or> lt (heap ! j) (heap ! U32 (l + 1))) then Some heap
     else let l = (if l \<noteq> num \<and> lt (heap ! U32 (l + 1)) (heap ! l) then U32 (l + 1) else l)
          in HEAP_BUBBLE_DOWN_J lt num l (HEAP_SWAP heap j l))"

fun HEAP_BUBBLE_UP_J :: "('a \<Rightarrow> 'a \<Rightarrow> bool) \<Rightarrow> nat \<Rightarrow> 'a list \<Rightarrow> 'a list" where
  "HEAP_BUBBLE_UP_J lt j heap =
    (if j > 1
     then let u = j div 2 in
       if lt (heap ! u) (heap ! j) then heap else HEAP_BUBBLE_UP_J lt u (HEAP_SWAP heap u j)
     else heap)"

declare HEAP_BUBBLE_UP_J.simps [simp del]

primrec heap_init_loop :: "('a \<Rightarrow> 'a \<Rightarrow> bool) \<Rightarrow> nat \<Rightarrow> nat \<Rightarrow> 'a list \<Rightarrow> 'a list option" where
  "heap_init_loop lt num 0 heap = Some heap"
| "heap_init_loop lt num (Suc i) heap = Option.bind (HEAP_BUBBLE_DOWN_J lt num (Suc i) heap) (heap_init_loop lt num i)"

definition HEAP_INIT :: "('a \<Rightarrow> 'a \<Rightarrow> bool) \<Rightarrow> nat \<Rightarrow> 'a list \<Rightarrow> 'a list option" where
  "HEAP_INIT lt num heap = heap_init_loop lt num num heap"

definition HEAP_DELETE_MIN :: "('a \<Rightarrow> 'a \<Rightarrow> bool) \<Rightarrow> nat \<times> 'a list \<Rightarrow> (nat \<times> 'a list) option" where
  "HEAP_DELETE_MIN lt q = (case q of (num, heap) \<Rightarrow>
     let heap = HEAP_SWAP heap 1 num; num = U32 (num + (2 ^ 32 - 1)) in map_option (Pair num) (HEAP_BUBBLE_DOWN_J lt num 1 heap))"

definition HEAP_INSERT :: "('a \<Rightarrow> 'a \<Rightarrow> bool) \<Rightarrow> 'a \<Rightarrow> nat \<times> 'a list \<Rightarrow> nat \<times> 'a list" where
  "HEAP_INSERT lt elt q = (case q of (num, heap) \<Rightarrow>
     let num = U32 (num + 1); heap = heap[num := elt] in (num, HEAP_BUBBLE_UP_J lt num heap))"

definition HEAP_INCREASE :: "('a \<Rightarrow> 'a \<Rightarrow> bool) \<Rightarrow> nat \<Rightarrow> nat \<Rightarrow> 'a \<Rightarrow> 'a list \<Rightarrow> 'a list option" where
  "HEAP_INCREASE lt num pos elt heap = HEAP_BUBBLE_DOWN_J lt num pos (heap[pos := elt])"

definition HEAP_DECREASE :: "('a \<Rightarrow> 'a \<Rightarrow> bool) \<Rightarrow> nat \<Rightarrow> nat \<Rightarrow> 'a \<Rightarrow> 'a list \<Rightarrow> 'a list" where
  "HEAP_DECREASE lt num pos elt heap = HEAP_BUBBLE_UP_J lt pos (heap[pos := elt])"

definition HEAP_REPLACE :: "('a \<Rightarrow> 'a \<Rightarrow> bool) \<Rightarrow> nat \<Rightarrow> nat \<Rightarrow> 'a \<Rightarrow> 'a list \<Rightarrow> 'a list option" where
  "HEAP_REPLACE lt num pos elt heap =
    (if lt (heap ! pos) elt then HEAP_INCREASE lt num pos elt heap else Some (HEAP_DECREASE lt num pos elt heap))"

definition HEAP_REPLACE_MIN :: "('a \<Rightarrow> 'a \<Rightarrow> bool) \<Rightarrow> nat \<Rightarrow> 'a \<Rightarrow> 'a list \<Rightarrow> 'a list option" where
  "HEAP_REPLACE_MIN lt num elt heap = HEAP_INCREASE lt num 1 elt heap"

definition HEAP_DELETE :: "('a \<Rightarrow> 'a \<Rightarrow> bool) \<Rightarrow> nat \<Rightarrow> nat \<times> 'a list \<Rightarrow> (nat \<times> 'a list) option" where
  "HEAP_DELETE lt pos q = (case q of (num, heap) \<Rightarrow>
     let heap = HEAP_SWAP heap pos num; num = U32 (num + (2 ^ 32 - 1)) in
     if lt (heap ! pos) (heap ! U32 (num + 1)) then Some (num, HEAP_BUBBLE_UP_J lt pos heap)
     else map_option (Pair num) (HEAP_BUBBLE_DOWN_J lt num pos heap))"

section \<open>Reference versions\<close>

text \<open>The operations over unbounded indices, where the loop downwards always ends; below they are shown to agree with the macros on
  heaps of less than \<open>2\<^sup>3\<^sup>1\<close> elements.\<close>

function sift_down :: "('a \<Rightarrow> 'a \<Rightarrow> bool) \<Rightarrow> nat \<Rightarrow> nat \<Rightarrow> 'a list \<Rightarrow> 'a list" where
  "sift_down lt num j heap =
    (let l = 2 * j in
     if l > num \<or> j = 0 then heap
     else if lt (heap ! j) (heap ! l) \<and> (l = num \<or> lt (heap ! j) (heap ! (l + 1))) then heap
     else let l = (if l \<noteq> num \<and> lt (heap ! (l + 1)) (heap ! l) then l + 1 else l)
          in sift_down lt num l (HEAP_SWAP heap j l))"
  by pat_completeness auto
termination
  by (relation "measure (\<lambda>(lt, num, j, heap). num - j)") auto

declare sift_down.simps [simp del]

primrec init_loop_ref :: "('a \<Rightarrow> 'a \<Rightarrow> bool) \<Rightarrow> nat \<Rightarrow> nat \<Rightarrow> 'a list \<Rightarrow> 'a list" where
  "init_loop_ref lt num 0 heap = heap"
| "init_loop_ref lt num (Suc i) heap = init_loop_ref lt num i (sift_down lt num (Suc i) heap)"

definition init_ref :: "('a \<Rightarrow> 'a \<Rightarrow> bool) \<Rightarrow> nat \<Rightarrow> 'a list \<Rightarrow> 'a list" where
  "init_ref lt num heap = init_loop_ref lt num num heap"

definition delete_min_ref :: "('a \<Rightarrow> 'a \<Rightarrow> bool) \<Rightarrow> nat \<times> 'a list \<Rightarrow> nat \<times> 'a list" where
  "delete_min_ref lt q = (case q of (num, heap) \<Rightarrow>
     let heap = HEAP_SWAP heap 1 num; num = num - 1 in (num, sift_down lt num 1 heap))"

definition insert_ref :: "('a \<Rightarrow> 'a \<Rightarrow> bool) \<Rightarrow> 'a \<Rightarrow> nat \<times> 'a list \<Rightarrow> nat \<times> 'a list" where
  "insert_ref lt elt q = (case q of (num, heap) \<Rightarrow>
     let num = num + 1; heap = heap[num := elt] in (num, HEAP_BUBBLE_UP_J lt num heap))"

definition increase_ref :: "('a \<Rightarrow> 'a \<Rightarrow> bool) \<Rightarrow> nat \<Rightarrow> nat \<Rightarrow> 'a \<Rightarrow> 'a list \<Rightarrow> 'a list" where
  "increase_ref lt num pos elt heap = sift_down lt num pos (heap[pos := elt])"

definition replace_ref :: "('a \<Rightarrow> 'a \<Rightarrow> bool) \<Rightarrow> nat \<Rightarrow> nat \<Rightarrow> 'a \<Rightarrow> 'a list \<Rightarrow> 'a list" where
  "replace_ref lt num pos elt heap =
    (if lt (heap ! pos) elt then increase_ref lt num pos elt heap else HEAP_DECREASE lt num pos elt heap)"

definition replace_min_ref :: "('a \<Rightarrow> 'a \<Rightarrow> bool) \<Rightarrow> nat \<Rightarrow> 'a \<Rightarrow> 'a list \<Rightarrow> 'a list" where
  "replace_min_ref lt num elt heap = increase_ref lt num 1 elt heap"

definition delete_ref :: "('a \<Rightarrow> 'a \<Rightarrow> bool) \<Rightarrow> nat \<Rightarrow> nat \<times> 'a list \<Rightarrow> nat \<times> 'a list" where
  "delete_ref lt pos q = (case q of (num, heap) \<Rightarrow>
     let heap = HEAP_SWAP heap pos num; num = num - 1 in
     (num, if lt (heap ! pos) (heap ! (num + 1)) then HEAP_BUBBLE_UP_J lt pos heap
           else sift_down lt num pos heap))"

section \<open>The elements\<close>

text \<open>The elements of a heap as a multiset, and the exchanges that keep it.\<close>

definition elems :: "nat \<Rightarrow> 'a list \<Rightarrow> 'a multiset" where
  "elems num heap = mset (take num (tl heap))"

definition within :: "nat \<Rightarrow> nat \<Rightarrow> bool" where
  "within num i \<longleftrightarrow> 1 \<le> i \<and> i \<le> num"

lemma length_HEAP_SWAP [simp]: "length (HEAP_SWAP heap a b) = length heap"
  by (simp add: HEAP_SWAP_def)

lemma HEAP_SWAP_nth:
  "a < length heap \<Longrightarrow> b < length heap \<Longrightarrow>
   HEAP_SWAP heap a b ! i = (if i = b then heap ! a else if i = a then heap ! b else heap ! i)"
  by (simp add: HEAP_SWAP_def nth_list_update)

lemma elems_swap:
  assumes "within num a" "within num b" "num < length heap"
  shows "elems num (HEAP_SWAP heap a b) = elems num heap"
proof -
  obtain x xs where h: "heap = x # xs" using assms(3) by (cases heap) auto
  obtain a' b' where ab: "a = Suc a'" "b = Suc b'" using assms(1,2) by (metis Suc_le_D within_def One_nat_def)
  have l: "a' < num" "b' < num" "num \<le> length xs" using assms h ab by (auto simp: within_def)
  have "take num (xs[a' := xs ! b', b' := xs ! a']) = (take num xs)[a' := take num xs ! b', b' := take num xs ! a']"
    using l by (simp add: take_update_swap)
  then have "mset (take num (xs[a' := xs ! b', b' := xs ! a'])) = mset (take num xs)"
    using l mset_swap [of b' "take num xs" a'] by simp
  then show ?thesis by (simp add: elems_def HEAP_SWAP_def h ab)
qed

lemma elems_Suc: "Suc n < length h \<Longrightarrow> elems (Suc n) h = add_mset (h ! Suc n) (elems n h)"
  by (cases h) (simp_all add: elems_def take_Suc_conv_app_nth)

lemma elems_cong: "length h = length g \<Longrightarrow> n < length h \<Longrightarrow> (\<And>i. within n i \<Longrightarrow> h ! i = g ! i) \<Longrightarrow> elems n h = elems n g"
proof -
  assume *: "length h = length g" "n < length h" "\<And>i. within n i \<Longrightarrow> h ! i = g ! i"
  have "take n (tl h) = take n (tl g)"
    using *(1,2) *(3) [of "Suc _"] by (intro nth_equalityI) (auto simp: nth_tl within_def)
  then show ?thesis by (simp add: elems_def)
qed

lemma elems_update:
  assumes "within num pos" "num < length h"
  shows "elems num (h[pos := x]) = add_mset x (elems num h - {#h ! pos#})"
proof -
  obtain k where k: "pos = Suc k" "k < num" using assms(1) by (cases pos) (auto simp: within_def)
  obtain y ys where h: "h = y # ys" using assms(2) by (cases h) auto
  show ?thesis using assms(2) k by (simp add: h elems_def take_update_swap mset_update)
qed

lemma nth_in_elems: "within num i \<Longrightarrow> num < length h \<Longrightarrow> h ! i \<in># elems num h"
proof -
  assume *: "within num i" "num < length h"
  then obtain k where k: "i = Suc k" "k < num" by (cases i) (auto simp: within_def)
  then have "h ! i = take num (tl h) ! k" "k < length (take num (tl h))" using * by (simp_all add: nth_tl)
  then show ?thesis by (metis elems_def nth_mem set_mset_mset)
qed

lemma elems_swap_last:
  assumes "within (Suc n) pos" "Suc n < length h"
  shows "elems n (HEAP_SWAP h pos (Suc n)) = elems (Suc n) h - {#h ! pos#}"
proof -
  have "HEAP_SWAP h pos (Suc n) ! Suc n = h ! pos" using assms by (subst HEAP_SWAP_nth) (auto simp: within_def)
  then have "elems (Suc n) h = add_mset (h ! pos) (elems n (HEAP_SWAP h pos (Suc n)))"
    using elems_Suc [of n "HEAP_SWAP h pos (Suc n)"] elems_swap [OF assms(1) _ assms(2), of "Suc n"] assms(2)
    by (simp add: within_def)
  then show ?thesis by simp
qed

lemma in_elems:
  assumes "num < length h" "x \<in># elems num h"
  obtains i where "within num i" "x = h ! i"
proof -
  from assms(2) obtain k where "k < length (take num (tl h))" "x = take num (tl h) ! k"
    by (auto simp: elems_def in_set_conv_nth)
  then show ?thesis using that [of "Suc k"] assms(1) by (simp add: nth_tl within_def)
qed

text \<open>When the loop downwards stops, the child it goes to, and induction along it.\<close>

definition down_stop :: "('a \<Rightarrow> 'a \<Rightarrow> bool) \<Rightarrow> nat \<Rightarrow> nat \<Rightarrow> 'a list \<Rightarrow> bool" where
  "down_stop lt num j heap \<longleftrightarrow> 2 * j > num \<or> j = 0 \<or>
     lt (heap ! j) (heap ! (2 * j)) \<and> (2 * j = num \<or> lt (heap ! j) (heap ! (2 * j + 1)))"

definition down_child :: "('a \<Rightarrow> 'a \<Rightarrow> bool) \<Rightarrow> nat \<Rightarrow> nat \<Rightarrow> 'a list \<Rightarrow> nat" where
  "down_child lt num j heap = (if 2 * j \<noteq> num \<and> lt (heap ! (2 * j + 1)) (heap ! (2 * j)) then 2 * j + 1 else 2 * j)"

lemma DOWN_stop: "down_stop lt num j heap \<Longrightarrow> sift_down lt num j heap = heap"
  unfolding down_stop_def sift_down.simps [of lt num j] Let_def by (simp del: sift_down.simps) blast

lemma DOWN_step:
  "\<not> down_stop lt num j heap \<Longrightarrow> sift_down lt num j heap =
     sift_down lt num (down_child lt num j heap) (HEAP_SWAP heap j (down_child lt num j heap))"
  unfolding down_stop_def by (subst sift_down.simps) (auto simp: Let_def down_child_def)

lemma down_child_within:
  "\<not> down_stop lt num j heap \<Longrightarrow> within num j \<and> within num (down_child lt num j heap) \<and>
     down_child lt num j heap div 2 = j \<and> j < down_child lt num j heap"
  by (auto simp: down_stop_def down_child_def within_def)

lemma DOWN_induct [consumes 1, case_names stop step]:
  assumes "num < length heap"
    and stop: "\<And>j heap. num < length heap \<Longrightarrow> down_stop lt num j heap \<Longrightarrow> P j heap"
    and step: "\<And>j heap. num < length heap \<Longrightarrow> \<not> down_stop lt num j heap \<Longrightarrow>
      P (down_child lt num j heap) (HEAP_SWAP heap j (down_child lt num j heap)) \<Longrightarrow> P j heap"
  shows "P j heap"
  using assms(1)
proof (induction "num - j" arbitrary: j heap rule: less_induct)
  case less
  show ?case
  proof (cases "down_stop lt num j heap")
    case True
    then show ?thesis by (rule stop [OF less.prems])
  next
    case False
    note c = down_child_within [OF False]
    show ?thesis
      by (rule step [OF less.prems False], rule less.hyps) (use c less.prems in \<open>auto simp: within_def\<close>)
  qed
qed

lemma DOWN_props:
  assumes "num < length heap"
  shows "length (sift_down lt num j heap) = length heap \<and>
    elems num (sift_down lt num j heap) = elems num heap \<and>
    (\<forall>i > num. sift_down lt num j heap ! i = heap ! i)"
  using assms
proof (induction j heap rule: DOWN_induct [where lt = lt])
  case (stop j heap)
  then show ?case by (simp add: DOWN_stop)
next
  case (step j heap)
  note c = down_child_within [OF step(2)]
  then have "HEAP_SWAP heap j (down_child lt num j heap) ! i = heap ! i" if "num < i" for i
    using that step(1) by (subst HEAP_SWAP_nth) (auto simp: within_def)
  then show ?case unfolding DOWN_step [OF step(2)] using step elems_swap [of num j] c by auto
qed

lemma UP_step:
  "1 < j \<Longrightarrow> \<not> lt (heap ! (j div 2)) (heap ! j) \<Longrightarrow>
   HEAP_BUBBLE_UP_J lt j heap = HEAP_BUBBLE_UP_J lt (j div 2) (HEAP_SWAP heap (j div 2) j)"
  by (subst HEAP_BUBBLE_UP_J.simps) (simp add: Let_def)

lemma UP_stop: "\<not> 1 < j \<or> lt (heap ! (j div 2)) (heap ! j) \<Longrightarrow> HEAP_BUBBLE_UP_J lt j heap = heap"
  by (subst HEAP_BUBBLE_UP_J.simps) (auto simp: Let_def)

lemma UP_induct [consumes 2, case_names stop step]:
  assumes "num < length heap" "j \<le> num"
    and stop: "\<And>j heap. num < length heap \<Longrightarrow> j \<le> num \<Longrightarrow> \<not> 1 < j \<or> lt (heap ! (j div 2)) (heap ! j) \<Longrightarrow> P j heap"
    and step: "\<And>j heap. num < length heap \<Longrightarrow> j \<le> num \<Longrightarrow> 1 < j \<Longrightarrow> \<not> lt (heap ! (j div 2)) (heap ! j) \<Longrightarrow>
      P (j div 2) (HEAP_SWAP heap (j div 2) j) \<Longrightarrow> P j heap"
  shows "P j heap"
  using assms(1,2)
proof (induction j arbitrary: heap rule: less_induct)
  case (less j)
  then show ?case using stop [of heap j] step [of heap j] less.IH [of "j div 2" "HEAP_SWAP heap (j div 2) j"] by fastforce
qed

lemma UP_props:
  assumes "num < length heap" "j \<le> num"
  shows "length (HEAP_BUBBLE_UP_J lt j heap) = length heap \<and>
    elems num (HEAP_BUBBLE_UP_J lt j heap) = elems num heap \<and>
    (\<forall>i > num. HEAP_BUBBLE_UP_J lt j heap ! i = heap ! i)"
  using assms
proof (induction j heap rule: UP_induct [where lt = lt])
  case (stop j heap)
  then show ?case by (simp add: UP_stop)
next
  case (step j heap)
  then have w: "within num j" "within num (j div 2)" by (auto simp: within_def)
  have "HEAP_SWAP heap (j div 2) j ! i = heap ! i" if "num < i" for i
    using that step(1,2) by (subst HEAP_SWAP_nth) auto
  then show ?case unfolding UP_step [of j lt heap, OF step(3,4)] using step(1,5) elems_swap [OF w(2,1)] by auto
qed

section \<open>Priority queues\<close>

text \<open>The contract of a priority queue over the multiset of its elements, and what follows for its clients:
  removing minima until the queue is empty sorts its elements.\<close>

primrec drain :: "('q \<Rightarrow> 'a) \<Rightarrow> ('q \<Rightarrow> 'q) \<Rightarrow> nat \<Rightarrow> 'q \<Rightarrow> 'a list" where
  "drain find_min delete_min 0 q = []"
| "drain find_min delete_min (Suc n) q = find_min q # drain find_min delete_min n (delete_min q)"

locale priority_queue =
  fixes inv :: "'q \<Rightarrow> bool"
    and bag :: "'q \<Rightarrow> 'a multiset"
    and room :: "'q \<Rightarrow> bool"
    and find_min :: "'q \<Rightarrow> 'a"
    and delete_min :: "'q \<Rightarrow> 'q"
    and ins :: "'a \<Rightarrow> 'q \<Rightarrow> 'q"
    and le :: "'a \<Rightarrow> 'a \<Rightarrow> bool"
  assumes find_min: "inv q \<Longrightarrow> bag q \<noteq> {#} \<Longrightarrow> find_min q \<in># bag q \<and> (\<forall>y\<in>#bag q. le (find_min q) y)"
    and delete_min: "inv q \<Longrightarrow> bag q \<noteq> {#} \<Longrightarrow> inv (delete_min q) \<and> bag (delete_min q) = bag q - {#find_min q#}"
    and ins: "inv q \<Longrightarrow> room q \<Longrightarrow> inv (ins x q) \<and> bag (ins x q) = add_mset x (bag q)"
begin

lemma drain_sorts:
  "inv q \<Longrightarrow> size (bag q) = n \<Longrightarrow>
   mset (drain find_min delete_min n q) = bag q \<and> sorted_wrt le (drain find_min delete_min n q)"
proof (induction n arbitrary: q)
  case 0
  then show ?case by simp
next
  case (Suc n)
  then have ne: "bag q \<noteq> {#}" by auto
  note m = find_min [OF Suc.prems(1) ne] and d = delete_min [OF Suc.prems(1) ne]
  have IH: "mset (drain find_min delete_min n (delete_min q)) = bag q - {#find_min q#}"
      "sorted_wrt le (drain find_min delete_min n (delete_min q))"
    using Suc.IH [of "delete_min q"] d m Suc.prems(2) by (simp_all add: size_Diff_singleton)
  have "le (find_min q) y" if "y \<in> set (drain find_min delete_min n (delete_min q))" for y
    using that m IH(1) by (metis in_diffD set_mset_mset)
  then show ?case using IH m by simp
qed

end

section \<open>The heap order\<close>

text \<open>The validity of a heap, as \<open>heap.h\<close> states it: no element is lower than its parent.\<close>

definition heap_ok :: "('a \<Rightarrow> 'a \<Rightarrow> bool) \<Rightarrow> nat \<Rightarrow> 'a list \<Rightarrow> bool" where
  "heap_ok lt num h \<longleftrightarrow> num < length h \<and> (\<forall>i. 2 \<le> i \<and> i \<le> num \<longrightarrow> \<not> lt (h ! i) (h ! (i div 2)))"

context strict_weak_order
begin

text \<open>The heap order below position \<open>m\<close>, except between \<open>j\<close> and its children (or its parent).\<close>

definition heap_from :: "nat \<Rightarrow> nat \<Rightarrow> 'a list \<Rightarrow> bool" where
  "heap_from m num h \<longleftrightarrow> (\<forall>i. 2 \<le> i \<and> i \<le> num \<and> m \<le> i div 2 \<longrightarrow> leq (h ! (i div 2)) (h ! i))"

definition heap_below :: "nat \<Rightarrow> nat \<Rightarrow> nat \<Rightarrow> 'a list \<Rightarrow> bool" where
  "heap_below m j num h \<longleftrightarrow>
    (\<forall>i. 2 \<le> i \<and> i \<le> num \<and> m \<le> i div 2 \<and> i div 2 \<noteq> j \<longrightarrow> leq (h ! (i div 2)) (h ! i)) \<and>
    (\<forall>i. 2 \<le> i \<and> i \<le> num \<and> i div 2 = j \<and> 2 \<le> j \<and> m \<le> j div 2 \<longrightarrow> leq (h ! (j div 2)) (h ! i))"

definition heap_above :: "nat \<Rightarrow> nat \<Rightarrow> 'a list \<Rightarrow> bool" where
  "heap_above j num h \<longleftrightarrow>
    (\<forall>i. 2 \<le> i \<and> i \<le> num \<and> i \<noteq> j \<longrightarrow> leq (h ! (i div 2)) (h ! i)) \<and>
    (\<forall>i. 2 \<le> i \<and> i \<le> num \<and> i div 2 = j \<and> 2 \<le> j \<longrightarrow> leq (h ! (j div 2)) (h ! i))"

abbreviation is_heap :: "nat \<Rightarrow> 'a list \<Rightarrow> bool" where
  "is_heap num h \<equiv> heap_from 1 num h"

lemma down_stop_heap:
  assumes "heap_below m j num h" "down_stop lt num j h" "1 \<le> j"
  shows "heap_from m num h"
proof -
  have "leq (h ! j) (h ! i)" if "i div 2 = j" "2 \<le> i" "i \<le> num" for i
  proof -
    have "i = 2 * j \<or> i = 2 * j + 1" using that(1) by linarith
    then show ?thesis using assms(2,3) that lt_leq by (auto simp: down_stop_def)
  qed
  then show ?thesis using assms(1) unfolding heap_from_def heap_below_def by blast
qed

lemma down_child_least:
  assumes "\<not> down_stop lt num j h" "i div 2 = j" "2 \<le> i" "i \<le> num"
  shows "leq (h ! down_child lt num j h) (h ! i)" "leq (h ! down_child lt num j h) (h ! j)"
proof -
  have i: "i = 2 * j \<or> i = 2 * j + 1" using assms(2) by linarith
  then show "leq (h ! down_child lt num j h) (h ! i)"
    using assms lt_leq leq_refl not_lt by (auto simp: down_child_def)
  show "leq (h ! down_child lt num j h) (h ! j)"
    using assms(1) not_lt by (auto simp: down_stop_def down_child_def intro: leq_trans [OF lt_leq] leq_trans)
qed

lemma down_step_heap:
  assumes "heap_below m j num h" "\<not> down_stop lt num j h" "m \<le> j" "num < length h"
  shows "heap_below m (down_child lt num j h) num (HEAP_SWAP h j (down_child lt num j h))"
proof -
  let ?l = "down_child lt num j h"
  let ?h = "HEAP_SWAP h j ?l"
  note c = down_child_within [OF assms(2)] and least = down_child_least [OF assms(2)]
  have s: "?h ! i = (if i = ?l then h ! j else if i = j then h ! ?l else h ! i)" for i
    using c assms(4) by (intro HEAP_SWAP_nth) (auto simp: within_def)
  have 1: "leq (?h ! (i div 2)) (?h ! i)" if i: "2 \<le> i" "i \<le> num" "m \<le> i div 2" "i div 2 \<noteq> ?l" for i
  proof (cases "i div 2 = j")
    case True
    then show ?thesis using least [OF True i(1,2)] c i(1) by (auto simp: s)
  next
    case False
    show ?thesis
    proof (cases "i = j")
      case True
      then have "leq (h ! (j div 2)) (h ! ?l)" using assms(1) c i by (auto simp: heap_below_def within_def)
      then show ?thesis using True i c by (auto simp: s)
    next
      case ne: False
      then have "i \<noteq> ?l" using False c by auto
      then show ?thesis using ne False i assms(1) by (auto simp: s heap_below_def)
    qed
  qed
  have 2: "leq (?h ! (?l div 2)) (?h ! i)" if i: "2 \<le> i" "i \<le> num" "i div 2 = ?l" for i
  proof -
    have "leq (h ! ?l) (h ! i)" using assms(1,3) i c unfolding heap_below_def by (metis le_trans less_imp_le nat_neq_iff)
    moreover have "i \<noteq> ?l" "i \<noteq> j" using i c by auto
    ultimately show ?thesis using c by (simp add: s)
  qed
  show ?thesis unfolding heap_below_def using 1 2 by blast
qed

lemma DOWN_heap:
  assumes "num < length h" "heap_below m j num h" "m \<le> j" "1 \<le> j"
  shows "heap_from m num (sift_down lt num j h)"
  using assms
proof (induction j h rule: DOWN_induct [where lt = lt])
  case (stop j h)
  then show ?case using down_stop_heap by (simp add: DOWN_stop)
next
  case (step j h)
  then show ?case using down_step_heap [of m j num h] down_child_within [OF step(2)]
    by (auto simp: DOWN_step [OF step(2)])
qed

lemma UP_heap:
  assumes "num < length h" "j \<le> num" "heap_above j num h"
  shows "is_heap num (HEAP_BUBBLE_UP_J lt j h)"
  using assms
proof (induction j h rule: UP_induct [where lt = lt])
  case (stop j h)
  then have "leq (h ! (i div 2)) (h ! i)" if "2 \<le> i" "i \<le> num" for i
    using that lt_leq by (cases "i = j") (auto simp: heap_above_def)
  then show ?case using stop by (simp add: UP_stop heap_from_def)
next
  case (step j h)
  let ?u = "j div 2" and ?h = "HEAP_SWAP h (j div 2) j"
  have u: "?u < j" "1 \<le> ?u" "leq (h ! j) (h ! ?u)" using step(3,4) by (auto simp: not_lt)
  have s: "?h ! i = (if i = j then h ! ?u else if i = ?u then h ! j else h ! i)" for i
    using step(1,2) by (intro HEAP_SWAP_nth) auto
  have above: "leq (h ! (i div 2)) (h ! i)" if "2 \<le> i" "i \<le> num" "i \<noteq> j" for i
    using step(6) that by (simp add: heap_above_def)
  have 1: "leq (?h ! (i div 2)) (?h ! i)" if i: "2 \<le> i" "i \<le> num" "i \<noteq> ?u" for i
  proof (cases "i = j")
    case True
    then show ?thesis using u leq_refl by (simp add: s)
  next
    case ij: False
    show ?thesis
    proof (cases "i div 2 = ?u")
      case True
      then have "leq (h ! j) (h ! i)" using above [OF i(1,2) ij] leq_trans [OF u(3)] by simp
      then show ?thesis using True ij i(3) u(1) by (simp add: s)
    next
      case False
      have "leq (h ! ?u) (h ! i)" if "i div 2 = j" using step(3,6) i that by (auto simp: heap_above_def)
      then show ?thesis using above [OF i(1,2) ij] False ij i(3) by (simp add: s)
    qed
  qed
  have 2: "leq (?h ! (?u div 2)) (?h ! i)" if i: "2 \<le> i" "i \<le> num" "i div 2 = ?u" "2 \<le> ?u" for i
  proof -
    have p: "leq (h ! (?u div 2)) (h ! ?u)" using above [of ?u] i(4) u(1) step(2) by simp
    have "leq (h ! (?u div 2)) (h ! i)" if "i \<noteq> j" using above [OF i(1,2) that] leq_trans [OF p] i(3) by simp
    moreover have "?u div 2 \<noteq> ?u" "?u div 2 \<noteq> j" "i \<noteq> ?u" using i u(1) by linarith+
    ultimately show ?thesis using p by (simp add: s)
  qed
  show ?case unfolding UP_step [of j lt h, OF step(3,4)] by (rule step(5)) (use 1 2 in \<open>auto simp: heap_above_def\<close>)
qed

lemma heap_ok_iff: "heap_ok lt num h \<longleftrightarrow> num < length h \<and> is_heap num h"
  by (auto simp: heap_ok_def heap_from_def leq_def)

lemma heap_okD: "heap_ok lt num h \<Longrightarrow> 2 \<le> i \<Longrightarrow> i \<le> num \<Longrightarrow> leq (h ! (i div 2)) (h ! i)"
  by (auto simp: heap_ok_def leq_def)

lemma heap_root_least: "heap_ok lt num h \<Longrightarrow> within num i \<Longrightarrow> leq (h ! 1) (h ! i)"
proof (induction i rule: less_induct)
  case (less i)
  show ?case
  proof (cases "i = 1")
    case True
    then show ?thesis by (simp add: leq_refl)
  next
    case False
    then have "leq (h ! (i div 2)) (h ! i)" "leq (h ! 1) (h ! (i div 2))"
      using less heap_okD [OF less.prems(1), of i] by (auto simp: within_def)
    then show ?thesis by (rule leq_trans [rotated])
  qed
qed

lemma DOWN_ok:
  assumes "num < length h" "heap_below 1 j num h" "1 \<le> j"
  shows "heap_ok lt num (sift_down lt num j h) \<and> elems num (sift_down lt num j h) = elems num h"
  using DOWN_heap [OF assms(1,2)] DOWN_props [OF assms(1), of lt j] assms by (simp add: heap_ok_iff)

lemma UP_ok:
  assumes "num < length h" "heap_above j num h" "j \<le> num"
  shows "heap_ok lt num (HEAP_BUBBLE_UP_J lt j h) \<and> elems num (HEAP_BUBBLE_UP_J lt j h) = elems num h"
  using UP_heap [OF assms(1,3,2)] UP_props [OF assms(1,3), of lt] assms by (simp add: heap_ok_iff)

text \<open>A heap in which one element was raised or lowered.\<close>

definition changed :: "nat \<Rightarrow> nat \<Rightarrow> 'a \<Rightarrow> 'a list \<Rightarrow> 'a list \<Rightarrow> bool" where
  "changed num pos elt h g \<longleftrightarrow> (\<forall>i. within num i \<longrightarrow> g ! i = (if i = pos then elt else h ! i))"

lemma changed_update: "num < length h \<Longrightarrow> changed num pos elt h (h[pos := elt])"
  by (auto simp: changed_def within_def nth_list_update)

lemma changed_nth: "changed num pos elt h g \<Longrightarrow> 1 \<le> i \<Longrightarrow> i \<le> num \<Longrightarrow> g ! i = (if i = pos then elt else h ! i)"
  by (simp add: changed_def within_def)

lemma grandparent:
  assumes "heap_ok lt num h" "2 \<le> i" "i \<le> num" "i div 2 = pos" "2 \<le> pos"
  shows "leq (h ! (pos div 2)) (h ! i)"
  using heap_okD [OF assms(1-3)] heap_okD [OF assms(1,5)] assms(3,4) leq_trans by (metis div_le_dividend le_trans)

lemma raised_heap:
  assumes "heap_ok lt num h" "leq (h ! pos) elt" "changed num pos elt h g"
  shows "heap_below 1 pos num g"
proof -
  have 1: "leq (g ! (i div 2)) (g ! i)" if i: "2 \<le> i" "i \<le> num" "i div 2 \<noteq> pos" for i
  proof -
    have "leq (h ! (i div 2)) (if i = pos then elt else h ! i)"
      using heap_okD [OF assms(1) i(1,2)] leq_trans [OF _ assms(2)] by auto
    then show ?thesis using changed_nth [OF assms(3), of i] changed_nth [OF assms(3), of "i div 2"] i by simp
  qed
  have 2: "leq (g ! (pos div 2)) (g ! i)" if i: "2 \<le> i" "i \<le> num" "i div 2 = pos" "2 \<le> pos" for i
    using grandparent [OF assms(1) i] changed_nth [OF assms(3), of i] changed_nth [OF assms(3), of "pos div 2"] i by auto
  show ?thesis unfolding heap_below_def using 1 2 by blast
qed

lemma lowered_heap:
  assumes "heap_ok lt num h" "leq elt (h ! pos)" "changed num pos elt h g"
  shows "heap_above pos num g"
proof -
  have 1: "leq (g ! (i div 2)) (g ! i)" if i: "2 \<le> i" "i \<le> num" "i \<noteq> pos" for i
  proof -
    have "leq (if i div 2 = pos then elt else h ! (i div 2)) (h ! i)"
      using heap_okD [OF assms(1) i(1,2)] leq_trans [OF assms(2)] by auto
    then show ?thesis using changed_nth [OF assms(3), of i] changed_nth [OF assms(3), of "i div 2"] i by simp
  qed
  have 2: "leq (g ! (pos div 2)) (g ! i)" if i: "2 \<le> i" "i \<le> num" "i div 2 = pos" "2 \<le> pos" for i
    using grandparent [OF assms(1) i] changed_nth [OF assms(3), of i] changed_nth [OF assms(3), of "pos div 2"] i by auto
  show ?thesis unfolding heap_above_def using 1 2 by blast
qed

lemma INCREASE_ok:
  assumes "heap_ok lt num h" "within num pos" "leq (h ! pos) elt"
  shows "heap_ok lt num (increase_ref lt num pos elt h) \<and>
    elems num (increase_ref lt num pos elt h) = add_mset elt (elems num h - {#h ! pos#})"
proof -
  have l: "num < length h" using assms(1) by (simp add: heap_ok_def)
  show ?thesis using DOWN_ok [OF _ raised_heap [OF assms(1,3) changed_update [OF l]]] elems_update [OF assms(2) l] l assms(2)
    by (simp add: increase_ref_def within_def)
qed

lemma DECREASE_ok:
  assumes "heap_ok lt num h" "within num pos" "leq elt (h ! pos)"
  shows "heap_ok lt num (HEAP_DECREASE lt num pos elt h) \<and>
    elems num (HEAP_DECREASE lt num pos elt h) = add_mset elt (elems num h - {#h ! pos#})"
proof -
  have l: "num < length h" using assms(1) by (simp add: heap_ok_def)
  show ?thesis using UP_ok [OF _ lowered_heap [OF assms(1,3) changed_update [OF l]]] elems_update [OF assms(2) l] l assms(2)
    by (simp add: HEAP_DECREASE_def within_def)
qed

lemma REPLACE_ok:
  assumes "heap_ok lt num h" "within num pos"
  shows "heap_ok lt num (replace_ref lt num pos elt h) \<and>
    elems num (replace_ref lt num pos elt h) = add_mset elt (elems num h - {#h ! pos#})"
  using INCREASE_ok [OF assms lt_leq] DECREASE_ok [OF assms] by (simp add: replace_ref_def leq_def)

lemma REPLACE_MIN_ok:
  assumes "heap_ok lt num h" "1 \<le> num"
  shows "heap_ok lt num (replace_min_ref lt num elt h) \<and>
    elems num (replace_min_ref lt num elt h) = add_mset elt (elems num h - {#h ! 1#})"
proof -
  have l: "num < length h" using assms(1) by (simp add: heap_ok_def)
  note c = changed_nth [OF changed_update [OF l, of 1 elt]]
  have "leq (h[1 := elt] ! (i div 2)) (h[1 := elt] ! i)" if i: "2 \<le> i" "i \<le> num" "i div 2 \<noteq> 1" for i
    using heap_okD [OF assms(1) i(1,2)] c [of i] c [of "i div 2"] i by simp
  then have "heap_below 1 1 num (h[1 := elt])" by (auto simp: heap_below_def)
  then show ?thesis using DOWN_ok [of num "h[1 := elt]" 1] elems_update [of num 1 h elt] l assms(2)
    by (simp add: replace_min_ref_def increase_ref_def within_def)
qed

lemma INSERT_ok:
  assumes "heap_ok lt num h" "num + 1 < length h"
  shows "case insert_ref lt elt (num, h) of (n, g) \<Rightarrow> n = num + 1 \<and> heap_ok lt n g \<and> elems n g = add_mset elt (elems num h)"
proof -
  let ?g = "h[num + 1 := elt]"
  have "leq (?g ! (i div 2)) (?g ! i)" if "2 \<le> i" "i \<le> num" for i
    using heap_okD [OF assms(1) that] that by (simp add: nth_list_update)
  then have "heap_above (num + 1) (num + 1) ?g" by (auto simp: heap_above_def le_Suc_eq)
  moreover have "elems num ?g = elems num h"
    using assms(2) by (intro elems_cong) (auto simp: within_def)
  ultimately show ?thesis
    using UP_ok [of "num + 1" ?g "num + 1"] elems_Suc [of num ?g] assms(2) by (simp add: insert_ref_def)
qed

lemma DELETE_ok:
  assumes "heap_ok lt num h" "within num pos"
  shows "case delete_ref lt pos (num, h) of (n, g) \<Rightarrow> n = num - 1 \<and> heap_ok lt n g \<and> length g = length h \<and>
    elems n g = elems num h - {#h ! pos#} \<and> g ! num = h ! pos"
proof -
  let ?g = "HEAP_SWAP h pos num"
  obtain n where n: "num = Suc n" using assms(2) by (cases num) (auto simp: within_def)
  have l: "num < length h" using assms(1) by (simp add: heap_ok_def)
  have s: "?g ! i = (if i = num then h ! pos else if i = pos then h ! num else h ! i)" for i
    using l assms(2) by (intro HEAP_SWAP_nth) (auto simp: within_def)
  have e: "elems n ?g = elems num h - {#h ! pos#}"
    using elems_swap_last [of n pos h] assms(2) l n by simp
  have c: "changed n pos (h ! num) h ?g" using s by (auto simp: changed_def within_def n)
  have h: "heap_ok lt n h" using assms(1) n by (simp add: heap_ok_def)
  have lg: "n < length ?g" using l n by simp
  show ?thesis
  proof (cases "lt (?g ! pos) (?g ! num)")
    case True
    then have "lt (h ! num) (h ! pos)" by (simp add: s split: if_splits)
    moreover from this have "pos \<noteq> num" using asym by blast
    ultimately have t: "leq (h ! num) (h ! pos)" "pos \<le> n" using assms(2) by (auto simp: n within_def lt_leq)
    show ?thesis using UP_ok [OF lg lowered_heap [OF h t(1) c] t(2)] UP_props [OF lg t(2), of lt] True n e s
      by (simp add: delete_ref_def Let_def)
  next
    case False
    then have "leq (h ! pos) (h ! num)" by (auto simp: s not_lt leq_refl split: if_splits)
    then show ?thesis using DOWN_ok [OF lg raised_heap [OF h _ c]] DOWN_props [OF lg, of lt pos] False n e s assms(2)
      by (simp add: delete_ref_def Let_def within_def)
  qed
qed

lemma DELETE_MIN_ok:
  assumes "heap_ok lt num h" "1 \<le> num"
  shows "case delete_min_ref lt (num, h) of (n, g) \<Rightarrow> n = num - 1 \<and> heap_ok lt n g \<and> length g = length h \<and>
    elems n g = elems num h - {#h ! 1#} \<and> g ! num = h ! 1"
proof -
  let ?g = "HEAP_SWAP h 1 num"
  obtain n where n: "num = Suc n" using assms(2) by (cases num) auto
  have l: "num < length h" using assms(1) by (simp add: heap_ok_def)
  have s: "?g ! i = (if i = num then h ! 1 else if i = 1 then h ! num else h ! i)" for i
    using l n by (intro HEAP_SWAP_nth) auto
  have e: "elems n ?g = elems num h - {#h ! 1#}"
    using elems_swap_last [of n 1 h] l n by (simp add: within_def)
  have "leq (?g ! (i div 2)) (?g ! i)" if "2 \<le> i" "i \<le> n" "i div 2 \<noteq> 1" for i
    using heap_okD [OF assms(1), of i] that s [of i] s [of "i div 2"] by (auto simp: n)
  then have b: "heap_below 1 1 n ?g" by (auto simp: heap_below_def)
  have lg: "n < length ?g" using l n by simp
  show ?thesis using DOWN_ok [OF lg b] DOWN_props [OF lg, of lt 1] n e s by (simp add: delete_min_ref_def Let_def)
qed

lemma INIT_ok:
  assumes "num < length h"
  shows "heap_ok lt num (init_ref lt num h) \<and> elems num (init_ref lt num h) = elems num h"
proof -
  have "heap_from 1 num (init_loop_ref lt num i g) \<and> elems num (init_loop_ref lt num i g) = elems num g \<and>
      length (init_loop_ref lt num i g) = length g"
    if "num < length g" "heap_from (Suc i) num g" for i g
    using that
  proof (induction i arbitrary: g)
    case (Suc i)
    have "heap_below (Suc i) (Suc i) num g" using Suc.prems(2) by (auto simp: heap_below_def heap_from_def)
    then show ?case using Suc.IH [of "sift_down lt num (Suc i) g"] DOWN_heap [of num g "Suc i" "Suc i"]
      DOWN_props [OF Suc.prems(1), of lt "Suc i"] Suc.prems(1) by simp
  qed simp
  moreover have "heap_from (Suc num) num h" by (auto simp: heap_from_def)
  ultimately show ?thesis using assms by (simp add: init_ref_def heap_ok_iff)
qed

end

section \<open>The macros on heaps of less than \<open>2\<^sup>3\<^sup>1\<close> elements\<close>

lemma BUBBLE_DOWN_ref:
  assumes "num < 2 ^ 31" "1 \<le> j" "j < 2 ^ 31"
  shows "HEAP_BUBBLE_DOWN_J lt num j heap = Some (sift_down lt num j heap)"
  using assms(2,3)
proof (induction "num - j" arbitrary: j heap rule: less_induct)
  case less
  have u: "U32 (2 * j) = 2 * j" "2 * j \<le> num \<Longrightarrow> U32 (2 * j + 1) = 2 * j + 1" using less.prems assms(1) by (simp_all add: U32_def)
  show ?case
  proof (cases "down_stop lt num j heap")
    case True
    then have "HEAP_BUBBLE_DOWN_J lt num j heap = Some heap"
      using u less.prems by (subst HEAP_BUBBLE_DOWN_J.simps) (auto simp: down_stop_def Let_def)
    then show ?thesis using DOWN_stop [OF True] by simp
  next
    case False
    let ?l = "down_child lt num j heap"
    note c = down_child_within [OF False]
    have l: "num - ?l < num - j" "1 \<le> ?l" "?l < 2 ^ 31" using c assms(1) by (auto simp: within_def)
    have n: "2 * j \<le> num" "\<not> (lt (heap ! j) (heap ! (2 * j)) \<and> (2 * j = num \<or> lt (heap ! j) (heap ! (2 * j + 1))))"
      using False by (auto simp: down_stop_def)
    have "HEAP_BUBBLE_DOWN_J lt num j heap = HEAP_BUBBLE_DOWN_J lt num ?l (HEAP_SWAP heap j ?l)"
      unfolding HEAP_BUBBLE_DOWN_J.simps [of lt num j heap] down_child_def Let_def u(1) u(2) [OF n(1)] using n by (simp only: if_False not_less if_not_P)
    also have "\<dots> = Some (sift_down lt num ?l (HEAP_SWAP heap j ?l))" by (rule less.hyps [OF l])
    finally show ?thesis using DOWN_step [OF False] by simp
  qed
qed

lemma INIT_ref: "num < 2 ^ 31 \<Longrightarrow> HEAP_INIT lt num heap = Some (init_ref lt num heap)"
proof -
  assume n: "num < 2 ^ 31"
  have "heap_init_loop lt num i h = Some (init_loop_ref lt num i h)" if "i \<le> num" for i h
    using that by (induction i arbitrary: h) (use n BUBBLE_DOWN_ref [of num _ lt] in auto)
  then show ?thesis by (simp add: HEAP_INIT_def init_ref_def)
qed

lemma num_less: "1 \<le> num \<Longrightarrow> num < 2 ^ 31 \<Longrightarrow> U32 (num + 4294967295) = num - 1"
  by (cases num) (auto simp: U32_def)

lemma DELETE_MIN_ref: "1 \<le> num \<Longrightarrow> num < 2 ^ 31 \<Longrightarrow> HEAP_DELETE_MIN lt (num, heap) = Some (delete_min_ref lt (num, heap))"
  using BUBBLE_DOWN_ref [of "num - 1" 1 lt "HEAP_SWAP heap 1 num"] num_less [of num] by (simp add: HEAP_DELETE_MIN_def delete_min_ref_def Let_def)

lemma INSERT_ref: "num + 1 < 2 ^ 32 \<Longrightarrow> HEAP_INSERT lt elt (num, heap) = insert_ref lt elt (num, heap)"
  by (simp add: HEAP_INSERT_def insert_ref_def Let_def)

lemma position_refs:
  assumes "within num pos" "num < 2 ^ 31"
  shows "HEAP_INCREASE lt num pos elt heap = Some (increase_ref lt num pos elt heap)"
    "HEAP_REPLACE lt num pos elt heap = Some (replace_ref lt num pos elt heap)"
    "HEAP_REPLACE_MIN lt num elt heap = Some (replace_min_ref lt num elt heap)"
    "HEAP_DELETE lt pos (num, heap) = Some (delete_ref lt pos (num, heap))"
proof -
  have p: "1 \<le> pos" "pos < 2 ^ 31" "1 \<le> num" using assms by (auto simp: within_def)
  show i: "HEAP_INCREASE lt num pos elt heap = Some (increase_ref lt num pos elt heap)"
    using BUBBLE_DOWN_ref [OF assms(2) p(1,2)] by (simp add: HEAP_INCREASE_def increase_ref_def)
  show "HEAP_REPLACE lt num pos elt heap = Some (replace_ref lt num pos elt heap)" using i by (simp add: HEAP_REPLACE_def replace_ref_def)
  show "HEAP_REPLACE_MIN lt num elt heap = Some (replace_min_ref lt num elt heap)"
    using BUBBLE_DOWN_ref [OF assms(2), of 1] by (simp add: HEAP_REPLACE_MIN_def replace_min_ref_def HEAP_INCREASE_def increase_ref_def)
  show "HEAP_DELETE lt pos (num, heap) = Some (delete_ref lt pos (num, heap))"
    using BUBBLE_DOWN_ref [of "num - 1" pos lt "HEAP_SWAP heap pos num"] num_less [OF p(3) assms(2)] p assms(2)
    by (simp add: HEAP_DELETE_def delete_ref_def Let_def)
qed

section \<open>Heaps implement priority queues\<close>

definition hp_ok :: "('a \<Rightarrow> 'a \<Rightarrow> bool) \<Rightarrow> nat \<times> 'a list \<Rightarrow> bool" where
  "hp_ok lt q \<longleftrightarrow> heap_ok lt (fst q) (snd q) \<and> fst q < 2 ^ 31"

definition hp_bag :: "nat \<times> 'a list \<Rightarrow> 'a multiset" where
  "hp_bag q = elems (fst q) (snd q)"

definition hp_room :: "nat \<times> 'a list \<Rightarrow> bool" where
  "hp_room q \<longleftrightarrow> fst q + 1 < length (snd q) \<and> fst q + 1 < 2 ^ 31"

definition hp_min :: "nat \<times> 'a list \<Rightarrow> 'a" where
  "hp_min q = snd q ! 1"

definition hp_delete_min :: "('a \<Rightarrow> 'a \<Rightarrow> bool) \<Rightarrow> nat \<times> 'a list \<Rightarrow> nat \<times> 'a list" where
  "hp_delete_min lt q = the (HEAP_DELETE_MIN lt q)"

lemmas hp_defs = hp_ok_def hp_bag_def hp_room_def hp_min_def

lemma hp_size: "hp_ok lt q \<Longrightarrow> size (hp_bag q) = fst q"
  by (auto simp: hp_defs heap_ok_def elems_def min_def)

lemma hp_nonempty: "hp_ok lt q \<Longrightarrow> hp_bag q \<noteq> {#} \<longleftrightarrow> 1 \<le> fst q"
  using hp_size [of lt q] by (metis One_nat_def Suc_le_eq nonempty_has_size)

sublocale strict_weak_order \<subseteq> hp: priority_queue "hp_ok lt" hp_bag hp_room hp_min "hp_delete_min lt" "HEAP_INSERT lt" "\<lambda>x y. \<not> lt y x"
proof
  fix q :: "nat \<times> 'a list" and x
  obtain num h where q: "q = (num, h)" by (cases q)
  show "hp_min q \<in># hp_bag q \<and> (\<forall>y\<in>#hp_bag q. \<not> lt y (hp_min q))" if "hp_ok lt q" "hp_bag q \<noteq> {#}"
  proof -
    have h: "heap_ok lt num h" "1 \<le> num" "num < length h"
      using that hp_nonempty [OF that(1)] by (simp_all add: q hp_ok_def heap_ok_def)
    have "\<not> lt y (h ! 1)" if "y \<in># elems num h" for y
      using in_elems [OF h(3) that] heap_root_least [OF h(1)] by (metis not_lt)
    then show ?thesis using nth_in_elems [of num 1 h] h by (simp add: q hp_defs within_def)
  qed
  show "hp_ok lt (hp_delete_min lt q) \<and> hp_bag (hp_delete_min lt q) = hp_bag q - {#hp_min q#}"
    if "hp_ok lt q" "hp_bag q \<noteq> {#}"
    using DELETE_MIN_ok [of num h] DELETE_MIN_ref [of num lt h] that hp_nonempty [OF that(1)] by (auto simp: q hp_delete_min_def hp_defs split: prod.splits)
  show "hp_ok lt (HEAP_INSERT lt x q) \<and> hp_bag (HEAP_INSERT lt x q) = add_mset x (hp_bag q)" if "hp_ok lt q" "hp_room q"
    using INSERT_ok [of num h x] INSERT_ref [of num lt x h] that by (auto simp: q hp_defs split: prod.splits)
qed

section \<open>Properties\<close>

context strict_weak_order
begin

lemma heap_min:
  assumes "heap_ok lt num h" "1 \<le> num" "num < 2 ^ 31"
  shows "h ! 1 \<in># elems num h \<and> (\<forall>y\<in>#elems num h. \<not> lt y (h ! 1))"
  using hp.find_min [of "(num, h)"] hp_nonempty [of lt "(num, h)"] assms by (simp add: hp_defs)

lemma heap_first:
  assumes "heap_ok lt num h" "1 \<le> num"
  shows "h ! 1 \<in># elems num h \<and> (\<forall>y\<in>#elems num h. \<not> lt y (h ! 1))"
proof -
  have l: "num < length h" using assms(1) by (simp add: heap_ok_def)
  have "\<not> lt y (h ! 1)" if "y \<in># elems num h" for y
    using in_elems [OF l that] heap_root_least [OF assms(1)] by (metis not_lt)
  then show ?thesis using nth_in_elems [of num 1 h] assms(2) l by (simp add: within_def)
qed

lemma heap_drain:
  assumes "heap_ok lt num h" "num < 2 ^ 31"
  shows "mset (drain hp_min (hp_delete_min lt) num (num, h)) = elems num h \<and>
    sorted_wrt (\<lambda>x y. \<not> lt y x) (drain hp_min (hp_delete_min lt) num (num, h))"
  using hp.drain_sorts [of "(num, h)" num] hp_size [of lt "(num, h)"] assms by (simp add: hp_defs)

lemma macro_INSERT:
  assumes "heap_ok lt num h" "num + 1 < length h" "num + 1 < 2 ^ 32"
  shows "case HEAP_INSERT lt elt (num, h) of (n, g) \<Rightarrow> n = num + 1 \<and> heap_ok lt n g \<and> elems n g = add_mset elt (elems num h)"
  using INSERT_ok [OF assms(1,2), of elt] unfolding INSERT_ref [OF assms(3)] .

lemma macro_DELETE_MIN:
  assumes "heap_ok lt num h" "1 \<le> num" "num < 2 ^ 31"
  shows "\<exists>g. HEAP_DELETE_MIN lt (num, h) = Some (num - 1, g) \<and> heap_ok lt (num - 1) g \<and> length g = length h \<and>
    elems (num - 1) g = elems num h - {#h ! 1#} \<and> g ! num = h ! 1"
  using DELETE_MIN_ok [OF assms(1,2)] DELETE_MIN_ref [OF assms(2,3), of lt h] by (auto split: prod.splits)

end

text \<open>C15: A binary heap of less than \<open>2\<^sup>3\<^sup>1\<close> elements over any strict weak order implements a priority queue: the initialisation of any array ends
  and gives a valid heap of the same elements; insertion adds exactly the element and keeps the heap valid; in a
  valid non-empty heap the first entry is an element no element is lower than, and its deletion ends, removes exactly
  that element, keeps the heap valid and puts the element behind the heap; and deleting the minima one after
  another yields the elements sorted.\<close>

theorem heap_implements_priority_queue:
  assumes "strict_weak_order lt" "num < 2 ^ 31"
  shows "(num < length h \<longrightarrow> (\<exists>g. HEAP_INIT lt num h = Some g \<and> heap_ok lt num g \<and> elems num g = elems num h)) \<and>
    (heap_ok lt num h \<and> num + 1 < length h \<longrightarrow>
      (case HEAP_INSERT lt elt (num, h) of (n, g) \<Rightarrow> n = num + 1 \<and> heap_ok lt n g \<and> elems n g = add_mset elt (elems num h))) \<and>
    (heap_ok lt num h \<and> 1 \<le> num \<longrightarrow> h ! 1 \<in># elems num h \<and> (\<forall>y\<in>#elems num h. \<not> lt y (h ! 1)) \<and>
      (\<exists>g. HEAP_DELETE_MIN lt (num, h) = Some (num - 1, g) \<and> heap_ok lt (num - 1) g \<and> length g = length h \<and>
        elems (num - 1) g = elems num h - {#h ! 1#} \<and> g ! num = h ! 1)) \<and>
    (heap_ok lt num h \<longrightarrow> mset (drain hp_min (hp_delete_min lt) num (num, h)) = elems num h \<and>
      sorted_wrt (\<lambda>x y. \<not> lt y x) (drain hp_min (hp_delete_min lt) num (num, h)))"
  using strict_weak_order.INIT_ok [OF assms(1), of num h] INIT_ref [OF assms(2), of lt h] strict_weak_order.macro_INSERT [OF assms(1), of num h elt]
    strict_weak_order.macro_DELETE_MIN [OF assms(1), of num h] strict_weak_order.heap_min [OF assms(1), of num h]
    strict_weak_order.heap_drain [OF assms(1), of num h] assms(2)
  by (simp del: One_nat_def)

lemma heap_implements_priority_queue_witness:
  "heap_ok (<) 4 [0, 1, 3, 2, 7, 0 :: nat] \<and>
   (case HEAP_INSERT (<) 0 (4, [0, 1, 3, 2, 7, 0 :: nat]) of (n, g) \<Rightarrow> heap_ok (<) n g \<and> elems n g = {#0, 1, 3, 2, 7#}) \<and>
   sorted (drain hp_min (hp_delete_min (<)) 4 (4, [0, 1, 3, 2, 7, 0 :: nat]))"
proof -
  let ?h = "[0, 1, 3, 2, 7, 0 :: nat]"
  have "2 \<le> i \<and> i \<le> 4 \<Longrightarrow> i = 2 \<or> i = 3 \<or> i = (4 :: nat)" for i by linarith
  then have h: "heap_ok (<) 4 ?h" by (fastforce simp: heap_ok_def)
  have e: "elems 4 ?h = {#1, 3, 2, 7#}" by (simp add: elems_def)
  show ?thesis using heap_implements_priority_queue [OF linord.strict_weak_order_axioms, of 4 ?h 0] h e
    by (auto simp: sorted_wrt_iff_nth_less not_less split: prod.splits)
qed

text \<open>C17: The operations on a given position of a valid heap of less than \<open>2\<^sup>3\<^sup>1\<close> elements (the element is raised, lowered, replaced or deleted)
  end, leave a valid heap and change exactly that element; \<open>HEAP_REPLACE\<close>, \<open>HEAP_REPLACE_MIN\<close> and \<open>HEAP_DELETE\<close> do so
  for any new element, \<open>HEAP_INCREASE\<close> for one not lower and \<open>HEAP_DECREASE\<close> for one not greater; the deleted
  element stands behind the heap, also when it is the last one.\<close>

theorem heap_positions:
  assumes "strict_weak_order lt" "heap_ok lt num h" "within num pos" "num < 2 ^ 31"
  shows "(\<exists>g. HEAP_REPLACE lt num pos elt h = Some g \<and>
      heap_ok lt num g \<and> elems num g = add_mset elt (elems num h - {#h ! pos#})) \<and>
    (\<not> lt elt (h ! pos) \<longrightarrow> (\<exists>g. HEAP_INCREASE lt num pos elt h = Some g \<and>
      heap_ok lt num g \<and> elems num g = add_mset elt (elems num h - {#h ! pos#}))) \<and>
    (\<not> lt (h ! pos) elt \<longrightarrow> (let g = HEAP_DECREASE lt num pos elt h in
      heap_ok lt num g \<and> elems num g = add_mset elt (elems num h - {#h ! pos#}))) \<and>
    (\<exists>g. HEAP_REPLACE_MIN lt num elt h = Some g \<and>
      heap_ok lt num g \<and> elems num g = add_mset elt (elems num h - {#h ! 1#})) \<and>
    (\<exists>g. HEAP_DELETE lt pos (num, h) = Some (num - 1, g) \<and> heap_ok lt (num - 1) g \<and> length g = length h \<and>
      elems (num - 1) g = elems num h - {#h ! pos#} \<and> g ! num = h ! pos)"
proof -
  have n: "1 \<le> num" using assms(3) by (simp add: within_def)
  show ?thesis
    using strict_weak_order.REPLACE_ok [OF assms(1-3), of elt] strict_weak_order.INCREASE_ok [OF assms(1-3), of elt]
      strict_weak_order.DECREASE_ok [OF assms(1-3), of elt] strict_weak_order.REPLACE_MIN_ok [OF assms(1,2) n, of elt] strict_weak_order.DELETE_ok [OF assms(1-3)]
    by (auto simp: position_refs [OF assms(3,4)] Let_def strict_weak_order.leq_def [OF assms(1)] split: prod.splits)
qed

lemma heap_positions_witness:
  "\<exists>g. HEAP_DELETE (<) 2 (4, [0, 1, 3, 2, 7 :: nat]) = Some (3, g) \<and> heap_ok (<) 3 g \<and> elems 3 g = {#1, 2, 7#}"
proof -
  let ?h = "[0, 1, 3, 2, 7 :: nat]"
  have "2 \<le> i \<and> i \<le> 4 \<Longrightarrow> i = 2 \<or> i = 3 \<or> i = (4 :: nat)" for i by linarith
  then have h: "heap_ok (<) 4 ?h" by (fastforce simp: heap_ok_def)
  have e: "elems 4 ?h = {#1, 3, 2, 7#}" by (simp add: elems_def)
  show ?thesis using heap_positions [OF linord.strict_weak_order_axioms h, of 2 0] e by (auto simp: within_def)
qed

end
