(* ===== verification/Primes.thy ===== *)
theory Primes
  imports Ucw_Prelude
begin

text \<open>
  \<open>ucw/prime.c\<close>, \<open>ucw/primetable.c\<close> and \<open>ucw/binsearch.h\<close>: tests for primality by trial division, a table of
  primes and the binary search it is looked up with. Values of the type \<open>uint\<close> are natural numbers below
  \<open>2\<^sup>3\<^sup>2\<close>; where the code adds, the wrap-around is written out with \<open>U32\<close>. A loop whose end is not
  obvious is a partial function, in which \<open>None\<close> stands for not returning.
\<close>

section \<open>Operations\<close>

partial_function (option) isprime_loop :: "nat \<Rightarrow> nat \<Rightarrow> bool option" where
  "isprime_loop x test =
    (if x mod test = 0 then Some False
     else if x div test \<le> test then Some True
     else let test = U32 (test + 2) in
       if x mod test = 0 then Some False
       else if x div test \<le> test then Some True
       else isprime_loop x (U32 (test + 4)))"

definition isprime_seq :: "nat \<Rightarrow> bool option" where
  "isprime_seq x = (if x = 5 then Some True else isprime_loop x 5)"

definition isprime :: "nat \<Rightarrow> bool option" where
  "isprime x = (if x < 5 then Some (x = 2 \<or> x = 3)
     else if x mod 6 = 1 \<or> x mod 6 = 5 then isprime_seq x else Some False)"

partial_function (option) nextprime_loop :: "nat \<Rightarrow> nat option" where
  "nextprime_loop x =
    (let x = U32 (x + 2) in
     Option.bind (isprime_seq x) (\<lambda>b.
     if b then Some x
     else let x = U32 (x + 4) in
       Option.bind (isprime_seq x) (\<lambda>b. if b then Some x else nextprime_loop x)))"

definition nextprime :: "nat \<Rightarrow> nat option" where
  "nextprime x = nextprime_loop (U32 (x + (5 - x mod 6)))"

definition prime_table :: "nat list" where
  "prime_table = [
    3, 7, 13, 19, 29, 37, 53, 67, 89, 109, 137, 173, 211, 263, 331, 409, 499, 601, 727, 877, 1061, 1279,
    1543, 1861, 2239, 2689, 3229, 3877, 4657, 5623, 6761, 8123, 9767, 11731, 14083, 16903, 20287, 24359,
    29243, 35099, 42131, 50581, 60703, 72859, 87433, 104933, 125927, 151121, 181361, 217643, 261223, 313471,
    376171, 451411, 541699, 650059, 780119, 936151, 1123391, 1348111, 1617739, 1941293, 2329559, 2795477,
    3354581, 4025507, 4830619, 5796797, 6956203, 8347483, 10017011, 12020431, 14424539, 17309471, 20771371,
    24925661, 29910821, 35892991, 43071601, 51685939, 62023139, 74427803, 89313379, 107176057, 128611313,
    154333591, 185200339, 222240413, 266688509, 320026249, 384031507, 460837813, 553005391, 663606499,
    796327811, 955593439, 1146712139, 1376054569, 1651265507, 1981518631, 2377822387, 2853386881, 3424064269,
    4108877153, 4294967291]"

definition NPRIMES :: nat where
  "NPRIMES = length prime_table"

partial_function (option) bin_search_loop :: "(nat \<Rightarrow> bool) \<Rightarrow> nat \<Rightarrow> nat \<Rightarrow> nat option" where
  "bin_search_loop ary_lt_x l r =
    (if l < r then let m = U32 (l + r) div 2 in
       if ary_lt_x m then bin_search_loop ary_lt_x (U32 (m + 1)) r else bin_search_loop ary_lt_x l m
     else Some l)"

definition BIN_SEARCH_FIRST_GE_CMP :: "'a list \<Rightarrow> nat \<Rightarrow> 'b \<Rightarrow> ('a list \<Rightarrow> nat \<Rightarrow> 'b \<Rightarrow> bool) \<Rightarrow> nat option" where
  "BIN_SEARCH_FIRST_GE_CMP ary N x ary_lt_x = bin_search_loop (\<lambda>m. ary_lt_x ary m x) 0 N"

definition ARY_LT_NUM :: "nat list \<Rightarrow> nat \<Rightarrow> nat \<Rightarrow> bool" where
  "ARY_LT_NUM ary i x \<longleftrightarrow> ary ! i < x"

definition BIN_SEARCH_FIRST_GE :: "nat list \<Rightarrow> nat \<Rightarrow> nat \<Rightarrow> nat option" where
  "BIN_SEARCH_FIRST_GE ary N x = BIN_SEARCH_FIRST_GE_CMP ary N x ARY_LT_NUM"

definition BIN_SEARCH_EQ :: "nat list \<Rightarrow> nat \<Rightarrow> nat \<Rightarrow> int option" where
  "BIN_SEARCH_EQ ary N x = Option.bind (BIN_SEARCH_FIRST_GE ary N x) (\<lambda>i.
     Some (if i \<ge> N \<or> ary ! i \<noteq> x then -1 else int i))"

definition next_table_prime :: "nat \<Rightarrow> nat option" where
  "next_table_prime x =
    (if x \<ge> prime_table ! (NPRIMES - 1) then Some 0
     else Option.bind (BIN_SEARCH_FIRST_GE prime_table NPRIMES (U32 (x + 1))) (\<lambda>i. Some (prime_table ! i)))"

definition prev_table_prime :: "nat \<Rightarrow> nat option" where
  "prev_table_prime x =
    Option.bind (BIN_SEARCH_FIRST_GE prime_table NPRIMES x) (\<lambda>i. Some (if i \<noteq> 0 then prime_table ! (i - 1) else 0))"

section \<open>Trial division\<close>

definition is_prime :: "nat \<Rightarrow> bool" where
  "is_prime p \<longleftrightarrow> 1 < p \<and> (\<forall>d. d dvd p \<longrightarrow> d = 1 \<or> d = p)"

text \<open>No divisor below \<open>t\<close>.\<close>

definition sieved :: "nat \<Rightarrow> nat \<Rightarrow> bool" where
  "sieved t x \<longleftrightarrow> (\<forall>d. 1 < d \<and> d < t \<longrightarrow> \<not> d dvd x)"

lemma sieved_prime:
  assumes "sieved t x" "1 < t" "t < x" "\<not> t dvd x" "x div t \<le> t"
  shows "is_prime x"
proof -
  have False if d: "d dvd x" "d \<noteq> 1" "d \<noteq> x" for d
  proof -
    obtain e where e: "x = d * e" using d(1) by auto
    have e1: "e dvd x" "1 < e" "1 < d" using d e assms(3) by (auto simp: nat_neq_iff intro: Suc_lessI)
    have "\<not> d < t" "\<not> e < t" "d \<noteq> t" "e \<noteq> t" using assms(1,4) d(1) e1 by (auto simp: sieved_def)
    then have "Suc t * Suc t \<le> x" unfolding e by (intro mult_le_mono) auto
    then have "(t + 2) * t \<le> x" by simp
    then have "t + 2 \<le> x div t" using assms(2) by (simp add: less_eq_div_iff_mult_less_eq)
    then show False using assms(5) by simp
  qed
  then show ?thesis using assms(2,3) by (auto simp: is_prime_def)
qed

lemma not_dvd_mod:
  assumes "k dvd m" "\<not> k dvd x"
  shows "\<not> m dvd (x :: nat)"
  using assms dvd_trans by blast

lemma mod_6_obtain:
  assumes "x mod 6 = (r :: nat)"
  obtains q where "x = 6 * q + r"
  using assms by (metis mult_div_mod_eq)

lemma sieved_step2:
  assumes "sieved t x" "\<not> t dvd x" "t mod 6 = 5" "\<not> 2 dvd x"
  shows "sieved (t + 2) x"
proof -
  obtain q where "t = 6 * q + 5" using assms(3) by (rule mod_6_obtain)
  then have "t + 1 = 2 * (3 * q + 3)" by simp
  then have "2 dvd t + 1" by (rule dvdI)
  then have "\<not> t + 1 dvd x" using assms(4) not_dvd_mod by blast
  then have "\<not> d dvd x" if "1 < d" "d < t + 2" for d
    using assms(1,2) that by (cases "d < t"; cases "d = t"; cases "d = t + 1") (auto simp: sieved_def)
  then show ?thesis by (simp add: sieved_def)
qed

lemma sieved_step4:
  assumes "sieved t x" "\<not> t dvd x" "t mod 6 = 1" "\<not> 2 dvd x" "\<not> 3 dvd x"
  shows "sieved (t + 4) x"
proof -
  obtain q where "t = 6 * q + 1" using assms(3) by (rule mod_6_obtain)
  then have "t + 1 = 2 * (3 * q + 1)" "t + 2 = 3 * (2 * q + 1)" "t + 3 = 2 * (3 * q + 2)" by simp_all
  then have "2 dvd t + 1" "3 dvd t + 2" "2 dvd t + 3" by (metis dvd_triv_left)+
  then have "\<not> t + 1 dvd x" "\<not> t + 2 dvd x" "\<not> t + 3 dvd x" using assms(4,5) not_dvd_mod by blast+
  then have "\<not> d dvd x" if "1 < d" "d < t + 4" for d
    using assms(1,2) that by (cases "d < t"; cases "d = t"; cases "d = t + 1"; cases "d = t + 2"; cases "d = t + 3") (auto simp: sieved_def)
  then show ?thesis by (simp add: sieved_def)
qed

lemma continue_bound:
  fixes x t :: nat
  assumes "\<not> x div t \<le> t" "x < 4294967296" "0 < t"
  shows "t < 65536" "t + 4 < x \<or> t \<le> 3"
proof -
  have "t + 1 \<le> x div t" using assms(1) by (metis Suc_eq_plus1 Suc_leI not_le)
  then have m: "(t + 1) * t \<le> x" using assms(3) by (simp add: less_eq_div_iff_mult_less_eq)
  show "t < 65536"
  proof (rule ccontr)
    assume "\<not> t < 65536"
    then have "65536 * 65536 \<le> (t + 1) * t" by (intro mult_le_mono) auto
    then show False using m assms(2) by simp
  qed
  have "4 * t \<le> t * t" if "\<not> t \<le> 3" using that by (intro mult_le_mono) auto
  moreover have "t + t * t \<le> x" using m by simp
  ultimately show "t + 4 < x \<or> t \<le> 3" using assms(3) by linarith
qed

lemma isprime_loop_correct:
  assumes "sieved t x" "t mod 6 = 5" "t < x" "x < 4294967296" "\<not> 2 dvd x" "\<not> 3 dvd x"
  shows "isprime_loop x t = Some (is_prime x)"
  using assms(1-3)
proof (induction "65536 - t" arbitrary: t rule: less_induct)
  case less
  have t: "1 < t" using less.prems(2) by (cases t) auto
  have no: "\<not> is_prime x" if "d dvd x" "1 < d" "d < x" for d using that by (auto simp: is_prime_def)
  show ?case
  proof (cases "t dvd x \<or> x div t \<le> t")
    case True
    then show ?thesis using no [of t] t less.prems sieved_prime [OF less.prems(1) t less.prems(3)]
      by (subst isprime_loop.simps) (auto simp: mod_eq_0_iff_dvd)
  next
    case go: False
    note b = continue_bound [of x t] go
    let ?u = "t + 2"
    have u: "sieved ?u x" "?u mod 6 = 1" "?u < x" "?u < 65538"
      using sieved_step2 [OF less.prems(1) _ less.prems(2) assms(5)] b t assms(4) less.prems(2)
      by (auto simp: mod_Suc)
    show ?thesis
    proof (cases "?u dvd x \<or> x div ?u \<le> ?u")
      case True
      then show ?thesis using go u no [of ?u] t sieved_prime [OF u(1) _ u(3)]
        by (subst isprime_loop.simps) (auto simp: mod_eq_0_iff_dvd Let_def)
    next
      case False
      have "(?u + 4) mod 6 = 5" using less.prems(2) by simp
      moreover have "sieved (?u + 4) x" "?u + 4 < x"
        using sieved_step4 [OF u(1) _ u(2) assms(5,6)] continue_bound [of x ?u] False t assms(4) by auto
      ultimately have "isprime_loop x (?u + 4) = Some (is_prime x)"
        by (intro less.hyps) (use b assms(4) t in auto)
      then show ?thesis using go False u t by (subst isprime_loop.simps) (simp add: mod_eq_0_iff_dvd Let_def)
    qed
  qed
qed

lemma sieved_5:
  assumes "\<not> 2 dvd x" "\<not> 3 dvd x"
  shows "sieved 5 x"
proof -
  have "\<not> 4 dvd x" using not_dvd_mod [of 2 4 x] assms(1) by simp
  moreover have "d = 2 \<or> d = 3 \<or> d = 4" if "1 < d" "d < 5" for d :: nat using that by linarith
  ultimately show ?thesis using assms by (auto simp: sieved_def)
qed

lemma coprime_6: "\<not> 2 dvd x \<and> \<not> 3 dvd x \<longleftrightarrow> x mod 6 = 1 \<or> x mod 6 = (5 :: nat)"
proof -
  have d: "d dvd x \<longleftrightarrow> d dvd x mod 6" if "d dvd 6" for d :: nat using that by (simp add: dvd_mod_iff)
  have "x mod 6 < 6" by simp
  then have "x mod 6 = 0 \<or> x mod 6 = 1 \<or> x mod 6 = 2 \<or> x mod 6 = 3 \<or> x mod 6 = 4 \<or> x mod 6 = 5" by linarith
  then show ?thesis using d [of 2] d [of 3] by auto
qed

lemma is_primeI:
  assumes "1 < p" "\<And>d. 1 < d \<Longrightarrow> d < p \<Longrightarrow> \<not> d dvd p"
  shows "is_prime p"
proof -
  have "d = 1 \<or> d = p" if "d dvd p" for d
    using that assms(1) assms(2) [of d] dvd_imp_le [OF that] by (cases "d = 0"; cases "d = 1") (auto simp: le_less)
  then show ?thesis using assms(1) by (simp add: is_prime_def)
qed

lemma is_prime_5: "is_prime 5"
proof (rule is_primeI)
  fix d :: nat
  assume "1 < d" "d < 5"
  then have "d = 2 \<or> d = 3 \<or> d = 4" by linarith
  then show "\<not> d dvd 5" by auto
qed simp

lemma isprime_seq_correct:
  assumes "5 \<le> x" "x < 4294967296" "x mod 6 = 1 \<or> x mod 6 = 5"
  shows "isprime_seq x = Some (is_prime x)"
proof (cases "x = 5")
  case True
  then show ?thesis by (simp add: isprime_seq_def is_prime_5)
next
  case False
  have c: "\<not> 2 dvd x" "\<not> 3 dvd x" using coprime_6 [of x] assms(3) by auto
  show ?thesis using isprime_loop_correct [OF sieved_5 [OF c]] False assms(1,2) c by (simp add: isprime_seq_def)
qed

lemma is_prime_small:
  assumes "x < 5"
  shows "is_prime x \<longleftrightarrow> x = 2 \<or> x = 3"
proof -
  have x: "x = 0 \<or> x = 1 \<or> x = 2 \<or> x = 3 \<or> x = 4" using assms by linarith
  have "\<not> d dvd 3" if "1 < d" "d < 3" for d :: nat using that by (cases "d = 2") auto
  then have "is_prime 2" "is_prime 3" by (auto intro!: is_primeI)
  moreover have "\<not> is_prime 4" unfolding is_prime_def by (auto intro!: exI [of _ 2])
  moreover have "\<not> is_prime 0" "\<not> is_prime 1" by (simp_all add: is_prime_def)
  ultimately show ?thesis using x by auto
qed

lemma is_prime_mod_6: "is_prime x \<Longrightarrow> 5 \<le> x \<Longrightarrow> x mod 6 = 1 \<or> x mod 6 = 5"
  unfolding is_prime_def coprime_6 [symmetric] by fastforce

lemma isprime_correct_aux: "x < 4294967296 \<Longrightarrow> isprime x = Some (is_prime x)"
  using isprime_seq_correct [of x] is_prime_small [of x] is_prime_mod_6 [of x] by (auto simp: isprime_def)

section \<open>The next prime\<close>

text \<open>No prime between \<open>x\<close> and \<open>y\<close>.\<close>

definition primeless :: "nat \<Rightarrow> nat \<Rightarrow> bool" where
  "primeless x y \<longleftrightarrow> (\<forall>p. is_prime p \<longrightarrow> \<not> (x < p \<and> p \<le> y))"

lemma primeless_trans: "primeless x y \<Longrightarrow> primeless y z \<Longrightarrow> primeless x z"
  unfolding primeless_def by (meson leI less_imp_le order_less_le_trans)

lemma mod_6_gap: "x mod 6 = 5 \<Longrightarrow> p mod 6 = 1 \<or> p mod 6 = 5 \<Longrightarrow> x < p \<Longrightarrow> p < x + 6 \<Longrightarrow> p = x + (2 :: nat)"
proof -
  assume *: "x mod 6 = 5" "p mod 6 = 1 \<or> p mod 6 = 5" "x < p" "p < x + 6"
  obtain q where q: "x = 6 * q + 5" using *(1) by (rule mod_6_obtain)
  from *(2) show ?thesis
  proof
    assume "p mod 6 = 1"
    then obtain r where r: "p = 6 * r + 1" by (rule mod_6_obtain)
    have "r = q + 1" using q r *(3,4) by linarith
    then show ?thesis using q r by simp
  next
    assume "p mod 6 = 5"
    then obtain r where r: "p = 6 * r + 5" by (rule mod_6_obtain)
    have "q < r" "r < q + 1" using q r *(3,4) by linarith+
    then show ?thesis by simp
  qed
qed

lemma primeless_5:
  assumes "x mod 6 = 5" "5 \<le> x" "\<not> is_prime (x + 2)"
  shows "primeless x (x + 5)"
proof -
  have False if p: "is_prime p" "x < p" "p \<le> x + 5" for p
  proof -
    have "p = x + 2" using mod_6_gap [OF assms(1) is_prime_mod_6 [OF p(1)] p(2)] assms(2) p by simp
    then show False using p(1) assms(3) by simp
  qed
  then show ?thesis by (auto simp: primeless_def)
qed

lemma isprime_seq_1: "isprime_seq 1 = Some True" "isprime_seq 3 = Some True"
  by (simp_all add: isprime_seq_def isprime_loop.simps)

lemma mod_6_last: "x mod 6 = 5 \<Longrightarrow> x < 4294967296 \<Longrightarrow> x = 4294967291 \<or> x + 6 < (4294967296 :: nat)"
proof -
  assume "x mod 6 = 5" "x < 4294967296"
  then obtain q where q: "x = 6 * q + 5" by (metis mod_6_obtain)
  then have "q \<le> 715827881" using \<open>x < 4294967296\<close> by linarith
  then show ?thesis using q by (cases "q = 715827881") auto
qed

lemma nextprime_loop_correct:
  assumes "x mod 6 = 5" "x < 4294967296" "5 \<le> x"
  shows "\<exists>y. nextprime_loop x = Some y \<and> (x < y \<and> y < 4294967296 \<and> is_prime y \<or> y = 1 \<and> primeless x 4294967295)"
  using assms
proof (induction "4294967296 - x" arbitrary: x rule: less_induct)
  case less
  note last = mod_6_last [OF less.prems(1,2)]
  have m: "(x + 2) mod 6 = 1" "(x + 6) mod 6 = 5"
    using mod_add_left_eq [of x 6 2] less.prems(1) by simp_all
  have s2: "isprime_seq (x + 2) = Some (is_prime (x + 2))"
    by (rule isprime_seq_correct) (use last less.prems m in auto)
  show ?case
  proof (cases "is_prime (x + 2)")
    case True
    then show ?thesis using s2 last by (subst nextprime_loop.simps) (auto simp: Let_def)
  next
    case np2: False
    note p5 = primeless_5 [OF less.prems(1,3) np2]
    show ?thesis
    proof (cases "x = 4294967291")
      case True
      have "nextprime_loop x = Some 1"
        using s2 np2 True isprime_seq_1 by (subst nextprime_loop.simps) (simp add: Let_def U32_def)
      then show ?thesis using True p5 by (auto simp: primeless_def)
    next
      case False
      then have x6: "x + 6 < 4294967296" using last by simp
      have s6: "isprime_seq (x + 6) = Some (is_prime (x + 6))" by (rule isprime_seq_correct) (use x6 less.prems m in auto)
      have e: "U32 (x + 2 + 4) = x + 6" "U32 (x + 2) = x + 2" using x6 by simp_all
      have step: "nextprime_loop x = (if is_prime (x + 6) then Some (x + 6) else nextprime_loop (x + 6))"
        using np2 by (subst nextprime_loop.simps) (simp only: Let_def e s2 s6 bind.simps if_False)
      have "\<exists>y. nextprime_loop (x + 6) = Some y \<and>
          (x + 6 < y \<and> y < 4294967296 \<and> is_prime y \<or> y = 1 \<and> primeless (x + 6) 4294967295)"
        by (rule less.hyps) (use x6 m(2) in simp_all)
      then obtain y where "nextprime_loop (x + 6) = Some y"
          "x + 6 < y \<and> y < 4294967296 \<and> is_prime y \<or> y = 1 \<and> primeless (x + 6) 4294967295" by blast
      moreover have "primeless (x + 5) (x + 6)" if "\<not> is_prime (x + 6)"
        unfolding primeless_def
      proof (intro allI impI notI)
        fix p
        assume "is_prime p" "x + 5 < p \<and> p \<le> x + 6"
        moreover from this have "p = x + 6" by linarith
        ultimately show False using that by simp
      qed
      ultimately show ?thesis using step x6 primeless_trans [OF primeless_trans [OF p5]] by auto
    qed
  qed
qed

lemma not_is_prime: "1 < d \<Longrightarrow> d < n \<Longrightarrow> n mod d = 0 \<Longrightarrow> \<not> is_prime n"
  by (auto simp: is_prime_def mod_eq_0_iff_dvd)

lemma primeless_top:
  assumes "4294967291 < p" "p \<le> 4294967295"
  shows "\<not> is_prime p"
proof -
  have "p = 4294967292 \<or> p = 4294967293 \<or> p = 4294967294 \<or> p = 4294967295" using assms by linarith
  then show ?thesis
    using not_is_prime [of 2 4294967292] not_is_prime [of 9241 4294967293] not_is_prime [of 2 4294967294]
      not_is_prime [of 5 4294967295] by auto
qed

lemma nextprime_start:
  fixes x :: nat
  assumes "x \<le> 4294967291"
  shows "(x + (5 - x mod 6)) mod 6 = 5" "x + (5 - x mod 6) < 4294967296" "5 \<le> x + (5 - x mod 6)"
proof -
  define q r where "q = x div 6" and "r = x mod 6"
  then have x: "x = 6 * q + r" "r < 6" by simp_all
  have e: "x + (5 - x mod 6) = 6 * q + 5" using x by simp
  have "q \<le> 715827881" using assms x by linarith
  then show "(x + (5 - x mod 6)) mod 6 = 5" "x + (5 - x mod 6) < 4294967296" "5 \<le> x + (5 - x mod 6)"
    unfolding e by simp_all
qed

lemma nextprime_wrap: "4294967291 < x \<Longrightarrow> x < 4294967296 \<Longrightarrow> nextprime x = Some 3"
proof -
  assume "4294967291 < x" "x < 4294967296"
  then have "x = 4294967292 \<or> x = 4294967293 \<or> x = 4294967294 \<or> x = 4294967295" by linarith
  then have "U32 (x + (5 - x mod 6)) = 1" by (auto simp: U32_def)
  moreover have "nextprime_loop 1 = Some 3"
    using isprime_seq_1(2) unfolding numeral_3_eq_3 by (subst nextprime_loop.simps) (simp add: Let_def)
  ultimately show ?thesis unfolding nextprime_def by simp
qed

section \<open>Binary search\<close>

lemma bin_search_loop_correct:
  assumes "l \<le> r" "r \<le> 2147483648" "\<And>i j. i \<le> j \<Longrightarrow> j < r \<Longrightarrow> lt j \<Longrightarrow> lt i"
  shows "\<exists>k. bin_search_loop lt l r = Some k \<and> l \<le> k \<and> k \<le> r \<and> (\<forall>i. l \<le> i \<and> i < k \<longrightarrow> lt i) \<and> (\<forall>i. k \<le> i \<and> i < r \<longrightarrow> \<not> lt i)"
  using assms
proof (induction "r - l" arbitrary: l r rule: less_induct)
  case less
  show ?case
  proof (cases "l < r")
    case False
    then show ?thesis using less.prems by (subst bin_search_loop.simps) auto
  next
    case True
    let ?m = "(l + r) div 2"
    have m: "U32 (l + r) div 2 = ?m" "l \<le> ?m" "?m < r" "U32 (?m + 1) = ?m + 1" using True less.prems(2) by auto
    show ?thesis
    proof (cases "lt ?m")
      case lt: True
      obtain k where k: "bin_search_loop lt (?m + 1) r = Some k" "?m + 1 \<le> k" "k \<le> r"
          "\<And>i. ?m + 1 \<le> i \<Longrightarrow> i < k \<Longrightarrow> lt i" "\<And>i. k \<le> i \<Longrightarrow> i < r \<Longrightarrow> \<not> lt i"
        using less.hyps [of r "?m + 1"] m less.prems True by (auto simp: diff_less_mono2)
      have "lt i" if "i < k" for i using less.prems(3) [of i ?m] k(4) [of i] that lt m(3) by (cases "i \<le> ?m") auto
      then show ?thesis using k m lt True by (subst bin_search_loop.simps) (auto simp: Let_def)
    next
      case False
      obtain k where k: "bin_search_loop lt l ?m = Some k" "l \<le> k" "k \<le> ?m"
          "\<And>i. l \<le> i \<Longrightarrow> i < k \<Longrightarrow> lt i" "\<And>i. k \<le> i \<Longrightarrow> i < ?m \<Longrightarrow> \<not> lt i"
        using less.hyps [of ?m l] m less.prems True by (auto simp: diff_less_mono)
      have "\<not> lt i" if "k \<le> i" "i < r" for i using less.prems(3) [of ?m i] k(5) [of i] that False by (cases "i < ?m") auto
      then show ?thesis using k m False True by (subst bin_search_loop.simps) (auto simp: Let_def)
    qed
  qed
qed

lemma first_ge_correct:
  assumes "sorted ary" "length ary \<le> 2147483648"
  shows "\<exists>k. BIN_SEARCH_FIRST_GE ary (length ary) x = Some k \<and> k \<le> length ary \<and>
    (\<forall>i < k. ary ! i < x) \<and> (\<forall>i. k \<le> i \<and> i < length ary \<longrightarrow> x \<le> ary ! i)"
proof -
  have "ary ! i < x" if "i \<le> j" "j < length ary" "ary ! j < x" for i j
    using sorted_nth_mono [OF assms(1) that(1,2)] that(3) by simp
  from bin_search_loop_correct [of 0 "length ary" "\<lambda>m. ary ! m < x", OF _ assms(2) this] show ?thesis
    by (auto simp: BIN_SEARCH_FIRST_GE_def BIN_SEARCH_FIRST_GE_CMP_def ARY_LT_NUM_def not_less)
qed

lemma bin_search_eq_correct:
  assumes "sorted ary" "length ary \<le> 2147483648"
  shows "\<exists>i. BIN_SEARCH_EQ ary (length ary) x = Some i \<and>
    (if x \<in> set ary then 0 \<le> i \<and> nat i < length ary \<and> ary ! nat i = x \<and> (\<forall>j < nat i. ary ! j < x) else i = -1)"
proof -
  obtain k where k: "BIN_SEARCH_FIRST_GE ary (length ary) x = Some k" "k \<le> length ary"
      "\<forall>i < k. ary ! i < x" "\<forall>i. k \<le> i \<and> i < length ary \<longrightarrow> x \<le> ary ! i"
    using first_ge_correct [OF assms] by blast
  have "k < length ary \<and> ary ! k = x" if "x \<in> set ary"
  proof -
    obtain j where j: "j < length ary" "ary ! j = x" using \<open>x \<in> set ary\<close> unfolding in_set_conv_nth by blast
    then have "k \<le> j" using k(3) by (meson leI less_irrefl)
    then show ?thesis using j k(4) sorted_nth_mono [OF assms(1), of k j] by (metis antisym le_less_trans order_refl)
  qed
  moreover have "ary ! k \<in> set ary" if "k < length ary" using that by simp
  ultimately show ?thesis using k by (auto simp: BIN_SEARCH_EQ_def)
qed

lemma sorted_prime_table: "sorted prime_table"
  unfolding prime_table_def by (simp del: sorted_wrt.simps add: sorted2_simps sorted1)

lemma length_prime_table: "length prime_table = 105"
  by (simp add: prime_table_def)

lemma last_prime_table: "prime_table ! 104 = 4294967291"
  by (simp add: prime_table_def)

lemmas prime_table_facts = sorted_prime_table NPRIMES_def length_prime_table last_prime_table

lemma first_ge_prime_table:
  "\<exists>k. BIN_SEARCH_FIRST_GE prime_table NPRIMES x = Some k \<and> k \<le> 105 \<and>
     (\<forall>i < k. prime_table ! i < x) \<and> (\<forall>i. k \<le> i \<and> i < 105 \<longrightarrow> x \<le> prime_table ! i)"
  using first_ge_correct [OF prime_table_facts(1), of x] unfolding prime_table_facts by simp

lemma prime_table_mono: "i \<le> j \<Longrightarrow> j < 105 \<Longrightarrow> prime_table ! i \<le> prime_table ! j"
  using sorted_nth_mono [OF sorted_prime_table] by (simp add: length_prime_table)

lemma next_table_prime_correct:
  "\<exists>p. next_table_prime x = Some p \<and>
    (if x < 4294967291 then p \<in> set prime_table \<and> x < p \<and> (\<forall>q \<in> set prime_table. x < q \<longrightarrow> p \<le> q) else p = 0)"
proof (cases "x < 4294967291")
  case True
  obtain k where k: "BIN_SEARCH_FIRST_GE prime_table NPRIMES (x + 1) = Some k" "k \<le> 105"
      "\<And>i. i < k \<Longrightarrow> prime_table ! i < x + 1" "\<And>i. k \<le> i \<Longrightarrow> i < 105 \<Longrightarrow> x + 1 \<le> prime_table ! i"
    using first_ge_prime_table [of "x + 1"] by auto
  have "k \<noteq> 105" using k(3) [of 104] True last_prime_table by auto
  then have k': "k < 105" using k(2) by simp
  have "prime_table ! k \<le> q" if q: "q \<in> set prime_table" "x < q" for q
  proof -
    obtain i where i: "q = prime_table ! i" "i < 105" using q(1) unfolding in_set_conv_nth length_prime_table by blast
    then have "k \<le> i" using k(3) [of i] that(2) i(1) by (cases "i < k") auto
    then show ?thesis using i prime_table_mono by simp
  qed
  moreover have "x < prime_table ! k" using k(4) [of k] k' by simp
  ultimately show ?thesis using k(1) k' True
    by (intro exI [of _ "prime_table ! k"]) (simp add: next_table_prime_def NPRIMES_def length_prime_table last_prime_table)
next
  case False
  then show ?thesis by (simp add: next_table_prime_def NPRIMES_def length_prime_table last_prime_table)
qed

lemma prev_table_prime_correct:
  "\<exists>p. prev_table_prime x = Some p \<and>
    (if 3 < x then p \<in> set prime_table \<and> p < x \<and> (\<forall>q \<in> set prime_table. q < x \<longrightarrow> q \<le> p) else p = 0)"
proof -
  obtain k where k: "BIN_SEARCH_FIRST_GE prime_table NPRIMES x = Some k" "k \<le> 105"
      "\<And>i. i < k \<Longrightarrow> prime_table ! i < x" "\<And>i. k \<le> i \<Longrightarrow> i < 105 \<Longrightarrow> x \<le> prime_table ! i"
    using first_ge_prime_table [of x] by auto
  have 0: "prime_table ! 0 = 3" by (simp add: prime_table_def)
  have kx: "k = 0 \<longleftrightarrow> x \<le> 3" using k(3) [of 0] k(4) [of 0] 0 by (cases k) auto
  have "q \<le> prime_table ! (k - 1)" if q: "q \<in> set prime_table" "q < x" "k \<noteq> 0" for q
  proof -
    obtain i where i: "q = prime_table ! i" "i < 105" using q(1) unfolding in_set_conv_nth length_prime_table by blast
    then have "i < k" using k(4) [of i] that(2) by (meson leD leI)
    then show ?thesis using i k(2) prime_table_mono [of i "k - 1"] by simp
  qed
  then show ?thesis using k(1,2) k(3) [of "k - 1"] kx
    by (auto simp: prev_table_prime_def length_prime_table not_less)
qed

section \<open>A large prime\<close>

text \<open>That 3221225473 is prime follows from the residue of a power: modulo any divisor \<open>q\<close> the powers of 125
  up to the exponent \<open>2\<^sup>3\<^sup>0\<close> differ, so \<open>q\<close> is at least \<open>2\<^sup>3\<^sup>0\<close>.\<close>

lemma odd_part: "0 < d \<Longrightarrow> \<exists>e m. d = 2 ^ e * m \<and> odd (m :: nat)"
proof (induction d rule: less_induct)
  case (less d)
  show ?case
  proof (cases "even d")
    case True
    then obtain c where c: "d = 2 * c" by auto
    then obtain e m where "c = 2 ^ e * m" "odd m" using less.IH [of c] less.prems by auto
    then show ?thesis using c by (intro exI [of _ "Suc e"] exI [of _ m]) simp
  next
    case False
    then show ?thesis by (intro exI [of _ 0] exI [of _ d]) simp
  qed
qed

lemma powers_differ:
  fixes b q :: int
  assumes "1 < q" "odd q" "b ^ (2 ^ n) mod q = (- 1) mod q" "0 < d" "d < 2 ^ Suc n"
  shows "b ^ d mod q \<noteq> 1"
proof
  assume d1: "b ^ d mod q = 1"
  obtain e m where dm: "d = 2 ^ e * m" "odd m" using odd_part [OF assms(4)] by auto
  have "e \<le> n"
  proof (rule ccontr)
    assume "\<not> e \<le> n"
    then have "2 ^ Suc n \<le> (2 :: nat) ^ e" by (intro power_increasing) auto
    also have "\<dots> \<le> d" using dm assms(4) by (cases m) auto
    finally show False using assms(5) by simp
  qed
  then have "d * 2 ^ (n - e) = 2 ^ n * m" using dm by (simp add: mult.assoc power_add [symmetric] mult.commute mult.left_commute)
  then have "(b ^ d) ^ (2 ^ (n - e)) mod q = (b ^ (2 ^ n)) ^ m mod q" by (simp add: power_mult [symmetric])
  also have "\<dots> = (- 1) ^ m mod q" using assms(3) by (metis power_mod)
  finally have "1 mod q = (- 1) mod q" using d1 dm(2) by (metis power_mod power_one uminus_power_if odd_pos)
  then have "q dvd 2" by (metis diff_minus_eq_add mod_eq_dvd_iff one_add_one)
  then show False using assms(1,2) zdvd_imp_le [of q 2] by (cases "q = 2") auto
qed

lemma divisor_large:
  fixes b q :: int
  assumes "1 < q" "odd q" "b ^ (2 ^ n) mod q = (- 1) mod q"
  shows "2 ^ Suc n \<le> q"
proof -
  have one: "b ^ (2 ^ Suc n) mod q = 1"
  proof -
    have "b ^ (2 ^ Suc n) mod q = (b ^ (2 ^ n)) ^ 2 mod q" by (simp add: power_mult [symmetric] mult.commute)
    also have "\<dots> = (- 1) ^ 2 mod q" using assms(3) by (metis power_mod)
    finally show ?thesis using assms(1) by simp
  qed
  have ne: "b ^ i mod q \<noteq> b ^ j mod q" if "i < j" "j < 2 ^ Suc n" for i j
  proof
    assume e: "b ^ i mod q = b ^ j mod q"
    have "b ^ (j - i) mod q = b ^ (j - i) * b ^ (2 ^ Suc n) mod q" using one by (metis mod_mult_right_eq mult.right_neutral)
    also have "\<dots> = b ^ j * b ^ (2 ^ Suc n - i) mod q" using that by (simp add: power_add [symmetric])
    also have "\<dots> = b ^ i * b ^ (2 ^ Suc n - i) mod q" using e by (metis mod_mult_left_eq)
    also have "\<dots> = 1" using that one by (simp add: power_add [symmetric])
    finally show False using powers_differ [OF assms, of "j - i"] that by (simp add: less_imp_diff_less)
  qed
  have "inj_on (\<lambda>i. b ^ i mod q) {..<2 ^ Suc n}"
    by (rule inj_onI) (metis ne lessThan_iff linorder_neqE_nat)
  moreover have "(\<lambda>i. b ^ i mod q) ` {..<2 ^ Suc n} \<subseteq> {0..<q}" using assms(1) by auto
  ultimately have "card {..<(2 :: nat) ^ Suc n} \<le> card {0..<q}" by (rule card_inj_on_le) simp
  then have "2 ^ Suc n \<le> nat q" by simp
  then show ?thesis by (metis assms(1) int_nat_eq of_nat_le_iff of_nat_numeral of_nat_power order.strict_trans less_imp_le zero_less_one)
qed

primrec square_times :: "nat \<Rightarrow> int \<Rightarrow> int \<Rightarrow> int" where
  "square_times 0 q b = b"
| "square_times (Suc n) q b = square_times n q (b * b mod q)"

lemma square_times_power: "square_times n q b mod q = b ^ (2 ^ n) mod q"
proof (induction n arbitrary: b)
  case (Suc n)
  have "(b * b) ^ (2 ^ n) = b ^ (2 ^ Suc n)" by (simp add: power_mult_distrib power_add [symmetric] mult_2)
  then show ?case using Suc.IH [of "b * b mod q"] by (simp add: power_mod)
qed simp

lemma power_125: "(125 :: int) ^ (2 ^ 29) mod 3221225473 = (- 1) mod 3221225473"
proof -
  have sq: "square_times 29 3221225473 125 = 3221225472" unfolding numeral_nat by simp
  have "(125 :: int) ^ (2 ^ 29) mod 3221225473 = square_times 29 3221225473 125 mod 3221225473"
    by (rule square_times_power [symmetric])
  also have "\<dots> = (- 1) mod 3221225473" unfolding sq by simp
  finally show ?thesis .
qed

lemma divisor_3221225473:
  fixes q :: int
  assumes "q dvd 3221225473" "1 < q"
  shows "2 ^ 30 \<le> q"
proof -
  have o: "odd q" using assms(1) by (meson dvd_trans odd_numeral)
  have "125 ^ (2 ^ 29) mod q = (125 ^ (2 ^ 29) mod 3221225473) mod q" using assms(1) by (rule mod_mod_cancel [symmetric])
  also have "\<dots> = ((- 1) mod 3221225473) mod q" by (simp only: power_125)
  also have "\<dots> = (- 1) mod q" using assms(1) by (rule mod_mod_cancel)
  finally have "2 ^ Suc 29 \<le> q" by (rule divisor_large [OF assms(2) o])
  then show ?thesis by simp
qed

lemma is_prime_3221225473: "is_prime 3221225473"
proof (rule is_primeI)
  fix d :: nat
  assume d: "1 < d" "d < 3221225473"
  show "\<not> d dvd 3221225473"
  proof
    assume "d dvd 3221225473"
    then obtain e where e: "3221225473 = d * e" by (rule dvdE)
    then have e1: "1 < e" using d(2) by (cases "e = 0"; cases "e = 1") auto
    have i: "3221225473 = int d * int e" using arg_cong [OF e, of int] by simp
    have "2 ^ 30 \<le> int d" "2 ^ 30 \<le> int e"
      using divisor_3221225473 [of "int d"] divisor_3221225473 [of "int e"] i d(1) e1 by simp_all
    then have "2 ^ 30 * 2 ^ 30 \<le> int d * int e" by (intro mult_mono) auto
    then show False using i by simp
  qed
qed simp

section \<open>Properties\<close>

text \<open>C37: For every value of the type \<open>uint\<close> the test \<open>isprime\<close> ends and tells primes from other numbers, and
  the search \<open>nextprime\<close> ends; for values below \<open>2\<^sup>3\<^sup>1\<close> its result is a prime greater than \<open>x\<close>.\<close>

theorem primes_correct:
  assumes "x < 2 ^ 32"
  shows "isprime x = Some (is_prime x) \<and>
    (\<exists>y. nextprime x = Some y \<and> (x < 2 ^ 31 \<longrightarrow> x < y \<and> y < 2 ^ 32 \<and> is_prime y))"
proof (intro conjI)
  show "isprime x = Some (is_prime x)" using isprime_correct_aux [of x] assms by simp
  show "\<exists>y. nextprime x = Some y \<and> (x < 2 ^ 31 \<longrightarrow> x < y \<and> y < 2 ^ 32 \<and> is_prime y)"
  proof (cases "x \<le> 4294967291")
    case True
    let ?x = "x + (5 - x mod 6)"
    obtain y where y: "nextprime_loop ?x = Some y" "?x < y \<and> y < 4294967296 \<and> is_prime y \<or> y = 1 \<and> primeless ?x 4294967295"
      using nextprime_loop_correct nextprime_start [OF True] by blast
    have "\<not> primeless ?x 4294967295" if "x < 2 ^ 31"
      using that is_prime_3221225473 unfolding primeless_def by (auto intro!: exI [of _ 3221225473])
    then show ?thesis using y nextprime_start [OF True] by (auto simp: nextprime_def)
  next
    case False
    then show ?thesis using nextprime_wrap [of x] assms by auto
  qed
qed

theorem primes_correct_witness:
  "isprime 25 = Some (is_prime 25) \<and> isprime 25 = Some False \<and>
   (\<exists>y. nextprime 2147483647 = Some y \<and> 2147483647 < y \<and> is_prime y)"
proof -
  have "isprime 25 = Some False" by (simp add: isprime_def isprime_seq_def isprime_loop.simps [of 25 5])
  moreover have "2147483647 < (2 :: nat) ^ 31" "2147483647 < (2 :: nat) ^ 32" "25 < (2 :: nat) ^ 32" by simp_all
  ultimately show ?thesis using primes_correct [of 25] primes_correct [of 2147483647] by blast
qed

text \<open>C38: The table lookups return the neighbours of \<open>x\<close> in the table of primes: \<open>next_table_prime\<close> the lowest
  entry greater than \<open>x\<close>, or 0 when \<open>x\<close> is not lower than the last entry; \<open>prev_table_prime\<close>, from 7 on, the greatest entry
  lower than \<open>x\<close>, and 0 when there is no entry lower than \<open>x\<close>.\<close>

theorem table_primes:
  assumes "x < 2 ^ 32"
  shows "(\<exists>p. next_table_prime x = Some p \<and>
      (if x < 4294967291 then p \<in> set prime_table \<and> x < p \<and> (\<forall>q \<in> set prime_table. x < q \<longrightarrow> p \<le> q) else p = 0)) \<and>
    (\<exists>p. prev_table_prime x = Some p \<and>
      (7 \<le> x \<longrightarrow> p \<in> set prime_table \<and> p < x \<and> (\<forall>q \<in> set prime_table. q < x \<longrightarrow> q \<le> p)) \<and> (x \<le> 3 \<longrightarrow> p = 0))"
  using next_table_prime_correct [of x] prev_table_prime_correct [of x] by (auto simp del: length_prime_table)

theorem table_primes_witness: "\<exists>p. next_table_prime 64 = Some p \<and> p \<in> set prime_table \<and> 64 < p"
  using table_primes [of 64] by auto

text \<open>The documentation of \<open>prev_table_prime\<close> promises 0 below 7; the code returns 3 for 4, 5 and 6. For values
  close to \<open>2\<^sup>3\<^sup>2\<close> the counter of \<open>nextprime\<close> wraps around and the result is not a greater prime.\<close>

lemma prev_table_prime_4: "prev_table_prime 4 = Some 3"
proof -
  obtain p where p: "prev_table_prime 4 = Some p" "p < 4" "\<forall>q \<in> set prime_table. q < 4 \<longrightarrow> q \<le> p"
    using prev_table_prime_correct [of 4] by auto
  have "3 \<in> set prime_table" by (simp add: prime_table_def)
  then have "p = 3" using p(2,3) by fastforce
  then show ?thesis using p(1) by simp
qed

lemma nextprime_wraps: "nextprime 4294967295 = Some 3"
  by (rule nextprime_wrap) simp_all

end
