(* ===== verification/Hashtable.thy ===== *)
theory Hashtable
  imports Primes "HOL-Library.Multiset"
begin

text \<open>
  \<open>ucw/hashtable.h\<close>: the generator of hash tables. The parameters given by macros are the record
  \<open>hash_params\<close>; a bucket is a record with the address of its node, and the chain of a slot is the list of
  its buckets. Allocation is outside of the table: operations that create a node get the address the
  allocator returned. Values of the type \<open>uint\<close> are natural numbers below \<open>2\<^sup>3\<^sup>2\<close>.
\<close>

section \<open>Operations\<close>

record ('k, 'd) hash_params =
  hashfn :: "'k \<Rightarrow> nat"
  eqfn :: "'k \<Rightarrow> 'k \<Rightarrow> bool"
  init_data :: "'k \<Rightarrow> 'd"
  conserve_space :: bool
  table_growing :: bool
  default_size :: nat
  fn_bits :: nat

record ('k, 'd) bucket =
  addr :: nat
  stored_hash :: nat
  key :: 'k
  data :: 'd

record ('k, 'd) table =
  hash_size :: nat
  hash_count :: nat
  hash_max :: nat
  hash_min :: nat
  hash_hard_max :: nat
  ht :: "('k, 'd) bucket list list"

text \<open>The operator \<open>%\<close> faults on a zero divisor.\<close>

definition slot :: "nat \<Rightarrow> ('k, 'd) table \<Rightarrow> nat res" where
  "slot h T = (if hash_size T = 0 then Inl Div_zero else Inr (h mod hash_size T))"

definition alloc_table :: "('k, 'd) hash_params \<Rightarrow> ('k, 'd) table \<Rightarrow> ('k, 'd) table res" where
  "alloc_table P T = (case next_table_prime (hash_size T) of
     None \<Rightarrow> Inl Diverges
   | Some sz \<Rightarrow> Inr (T\<lparr>hash_size := sz, ht := replicate sz [],
       hash_max := (if U32 (2 * sz) < hash_hard_max T then U32 (2 * sz) else 2 ^ 32 - 1),
       hash_min := (if \<not> table_growing P \<and> sz div 2 > default_size P then sz div 4 else 0)\<rparr>))"

definition empty_table :: "('k, 'd) hash_params \<Rightarrow> ('k, 'd) table" where
  "empty_table P = \<lparr>hash_size = default_size P, hash_count = 0, hash_max = 0, hash_min = 0,
     hash_hard_max = (if fn_bits P < 28 then 2 ^ fn_bits P else 2 ^ 28), ht = []\<rparr>"

definition ht_init :: "('k, 'd) hash_params \<Rightarrow> ('k, 'd) table res" where
  "ht_init P = alloc_table P (empty_table P)"

definition bucket_hash :: "('k, 'd) hash_params \<Rightarrow> ('k, 'd) bucket \<Rightarrow> nat" where
  "bucket_hash P b = (if conserve_space P then hashfn P (key b) else stored_hash b)"

text \<open>Linking a bucket to the head of a chain; the body and the loops of \<open>rehash\<close>.\<close>

definition link_bucket :: "nat \<Rightarrow> ('k, 'd) bucket \<Rightarrow> ('k, 'd) table \<Rightarrow> ('k, 'd) table res" where
  "link_bucket h0 b T = res_bind (slot h0 T) (\<lambda>h. Inr (T\<lparr>ht := (ht T)[h := b # ht T ! h]\<rparr>))"

primrec rehash_chain :: "('k, 'd) hash_params \<Rightarrow> ('k, 'd) bucket list \<Rightarrow> ('k, 'd) table \<Rightarrow> ('k, 'd) table res" where
  "rehash_chain P [] T = Inr T"
| "rehash_chain P (b # bs) T = res_bind (link_bucket (bucket_hash P b) b T) (rehash_chain P bs)"

primrec rehash_slots :: "('k, 'd) hash_params \<Rightarrow> ('k, 'd) bucket list list \<Rightarrow> ('k, 'd) table \<Rightarrow> ('k, 'd) table res" where
  "rehash_slots P [] T = Inr T"
| "rehash_slots P (c # cs) T = res_bind (rehash_chain P c T) (rehash_slots P cs)"

definition rehash :: "('k, 'd) hash_params \<Rightarrow> nat \<Rightarrow> ('k, 'd) table \<Rightarrow> ('k, 'd) table res" where
  "rehash P sz T = res_bind (alloc_table P (T\<lparr>hash_size := sz\<rparr>)) (rehash_slots P (ht T))"

text \<open>The test of \<open>find\<close>, \<open>lookup\<close> and \<open>delete\<close> on a bucket.\<close>

definition matches :: "('k, 'd) hash_params \<Rightarrow> nat \<Rightarrow> 'k \<Rightarrow> ('k, 'd) bucket \<Rightarrow> bool" where
  "matches P h0 k b \<longleftrightarrow> (conserve_space P \<or> stored_hash b = h0) \<and> eqfn P k (key b)"

definition ht_find :: "('k, 'd) hash_params \<Rightarrow> 'k \<Rightarrow> ('k, 'd) table \<Rightarrow> nat option res" where
  "ht_find P k T = (let h0 = hashfn P k in
     res_bind (slot h0 T) (\<lambda>h. Inr (map_option addr (List.find (matches P h0 k) (ht T ! h)))))"

text \<open>A pointer to a node denotes the bucket at its address, whose \<open>next\<close> fields lead through the rest of
  its chain.\<close>

fun from_addr :: "nat \<Rightarrow> ('k, 'd) bucket list list \<Rightarrow> ('k, 'd) bucket list" where
  "from_addr a [] = []"
| "from_addr a (c # cs) = (if a \<in> addr ` set c then dropWhile (\<lambda>b. addr b \<noteq> a) c else from_addr a cs)"

definition ht_find_next :: "('k, 'd) hash_params \<Rightarrow> nat \<Rightarrow> ('k, 'd) table \<Rightarrow> nat option res" where
  "ht_find_next P a T = (case from_addr a (ht T) of
     [] \<Rightarrow> Inl Out_of_bounds
   | start # rest \<Rightarrow> Inr (map_option addr (List.find (matches P (hashfn P (key start)) (key start)) rest)))"

text \<open>Creating a node: the common end of \<open>new\<close> and \<open>lookup\<close>.\<close>

definition count_new :: "('k, 'd) hash_params \<Rightarrow> ('k, 'd) table \<Rightarrow> ('k, 'd) table res" where
  "count_new P T = (let T' = T\<lparr>hash_count := U32 (hash_count T + 1)\<rparr> in
     if hash_count T \<ge> hash_max T then rehash P (U32 (2 * hash_size T)) T' else Inr T')"

definition new_bucket :: "('k, 'd) hash_params \<Rightarrow> nat \<Rightarrow> 'k \<Rightarrow> ('k, 'd) bucket" where
  "new_bucket P a k = \<lparr>addr = a, stored_hash = (if conserve_space P then 0 else hashfn P k), key = k, data = init_data P k\<rparr>"

definition ht_new :: "('k, 'd) hash_params \<Rightarrow> nat \<Rightarrow> 'k \<Rightarrow> ('k, 'd) table \<Rightarrow> (nat \<times> ('k, 'd) table) res" where
  "ht_new P a k T = res_bind (link_bucket (hashfn P k) (new_bucket P a k) T) (\<lambda>T.
     res_bind (count_new P T) (\<lambda>T. Inr (a, T)))"

definition ht_lookup :: "('k, 'd) hash_params \<Rightarrow> nat \<Rightarrow> 'k \<Rightarrow> ('k, 'd) table \<Rightarrow> (nat \<times> bool \<times> ('k, 'd) table) res" where
  "ht_lookup P a k T = (let h0 = hashfn P k in
     res_bind (slot h0 T) (\<lambda>h.
     case List.find (matches P h0 k) (ht T ! h) of
       Some b \<Rightarrow> Inr (addr b, False, T)
     | None \<Rightarrow> res_bind (link_bucket h0 (new_bucket P a k) T) (\<lambda>T.
         res_bind (count_new P T) (\<lambda>T. Inr (a, True, T)))))"

text \<open>Unlinking the first bucket of a chain with a given property, and the common end of \<open>delete\<close> and \<open>remove\<close>.\<close>

fun unlink :: "(('k, 'd) bucket \<Rightarrow> bool) \<Rightarrow> ('k, 'd) bucket list \<Rightarrow> ('k, 'd) bucket list option" where
  "unlink p [] = None"
| "unlink p (b # bs) = (if p b then Some bs else map_option (\<lambda>c. b # c) (unlink p bs))"

definition count_deleted :: "('k, 'd) hash_params \<Rightarrow> ('k, 'd) table \<Rightarrow> ('k, 'd) table res" where
  "count_deleted P T = (let T' = T\<lparr>hash_count := U32 (hash_count T + (2 ^ 32 - 1))\<rparr> in
     if \<not> table_growing P \<and> hash_count T' < hash_min T' then rehash P (hash_size T' div 2) T' else Inr T')"

definition ht_delete :: "('k, 'd) hash_params \<Rightarrow> 'k \<Rightarrow> ('k, 'd) table \<Rightarrow> (bool \<times> ('k, 'd) table) res" where
  "ht_delete P k T = (let h0 = hashfn P k in
     res_bind (slot h0 T) (\<lambda>h.
     case unlink (matches P h0 k) (ht T ! h) of
       None \<Rightarrow> Inr (False, T)
     | Some c \<Rightarrow> res_bind (count_deleted P (T\<lparr>ht := (ht T)[h := c]\<rparr>)) (\<lambda>T. Inr (True, T))))"

definition ht_remove :: "('k, 'd) hash_params \<Rightarrow> nat \<Rightarrow> ('k, 'd) table \<Rightarrow> ('k, 'd) table res" where
  "ht_remove P a T = (case from_addr a (ht T) of
     [] \<Rightarrow> Inl Out_of_bounds
   | x # _ \<Rightarrow> res_bind (slot (bucket_hash P x) T) (\<lambda>h.
       case unlink (\<lambda>b. addr b = a) (ht T ! h) of
         None \<Rightarrow> Inl Assert_failed
       | Some c \<Rightarrow> count_deleted P (T\<lparr>ht := (ht T)[h := c]\<rparr>)))"

text \<open>The order of the iterator; \<open>cleanup\<close> frees the nodes in the same order.\<close>

definition HASH_FOR_ALL :: "('k, 'd) table \<Rightarrow> nat list" where
  "HASH_FOR_ALL T = concat (map (map addr) (ht T))"

definition ht_cleanup :: "('k, 'd) table \<Rightarrow> nat list" where
  "ht_cleanup T = concat (map (\<lambda>c. map addr c) (ht T))"

section \<open>Chains\<close>

lemma mset_concat_update:
  assumes "h < length xs"
  shows "mset (concat (xs[h := c])) + mset (xs ! h) = mset (concat xs) + mset c"
proof -
  have "mset (concat xs) = mset (concat (take h xs)) + mset (xs ! h) + mset (concat (drop (Suc h) xs))"
    by (subst id_take_nth_drop [OF assms]) simp
  then show ?thesis by (simp add: upd_conv_take_nth_drop [OF assms])
qed

lemma unlink_None: "unlink p c = None \<longleftrightarrow> (\<forall>b \<in> set c. \<not> p b)"
  by (induction c) auto

lemma unlink_Some:
  "unlink p c = Some d \<Longrightarrow> \<exists>b. p b \<and> b \<in> set c \<and> mset c = add_mset b (mset d) \<and> set d \<subseteq> set c"
proof (induction c arbitrary: d)
  case (Cons x c)
  then show ?case by (cases "p x") (fastforce split: option.splits)+
qed simp

lemma find_Some_iff: "List.find p c = Some b \<Longrightarrow> b \<in> set c \<and> p b"
  by (metis find_Some_iff nth_mem)

lemma from_addr_mem: "from_addr a cs = b # r \<Longrightarrow> \<exists>c \<in> set cs. \<exists>q. c = q @ b # r \<and> addr b = a"
proof (induction cs)
  case (Cons c cs)
  show ?case
  proof (cases "a \<in> addr ` set c")
    case True
    then have d: "dropWhile (\<lambda>b. addr b \<noteq> a) c = b # r" using Cons.prems by simp
    then have "addr b = a" using hd_dropWhile [of "\<lambda>b. addr b \<noteq> a" c] by auto
    then show ?thesis using takeWhile_dropWhile_id [of "\<lambda>b. addr b \<noteq> a" c] d by (metis list.set_intros(1))
  next
    case False
    then show ?thesis using Cons by auto
  qed
qed simp

lemma from_addr_nonempty: "from_addr a cs = [] \<longleftrightarrow> a \<notin> addr ` set (concat cs)"
  by (induction cs) (auto simp: dropWhile_eq_Nil_conv image_iff)

section \<open>The invariant\<close>

definition buckets :: "('k, 'd) table \<Rightarrow> ('k, 'd) bucket multiset" where
  "buckets T = mset (concat (ht T))"

definition params_ok :: "('k, 'd) hash_params \<Rightarrow> bool" where
  "params_ok P \<longleftrightarrow> equivp (eqfn P) \<and> (\<forall>k k'. eqfn P k k' \<longrightarrow> hashfn P k = hashfn P k') \<and> default_size P < 4294967291"

definition bucket_ok :: "('k, 'd) hash_params \<Rightarrow> ('k, 'd) bucket \<Rightarrow> bool" where
  "bucket_ok P b \<longleftrightarrow> conserve_space P \<or> stored_hash b = hashfn P (key b)"

text \<open>The shape of a table: every bucket is in the slot of its hash value.\<close>

definition slots_ok :: "('k, 'd) hash_params \<Rightarrow> ('k, 'd) table \<Rightarrow> bool" where
  "slots_ok P T \<longleftrightarrow> 0 < hash_size T \<and> hash_size T < 4294967296 \<and> length (ht T) = hash_size T \<and>
     (hash_max T = 4294967295 \<or> U32 (2 * hash_size T) < 268435456) \<and> hash_hard_max T \<le> 268435456 \<and>
     (\<forall>h < hash_size T. \<forall>b \<in> set (ht T ! h). bucket_ok P b \<and> bucket_hash P b mod hash_size T = h)"

definition table_ok :: "('k, 'd) hash_params \<Rightarrow> ('k, 'd) table \<Rightarrow> bool" where
  "table_ok P T \<longleftrightarrow> slots_ok P T \<and> size (buckets T) < 4294967295 \<and> hash_count T = size (buckets T) \<and>
     distinct (HASH_FOR_ALL T)"

lemma bucket_hash_key: "bucket_ok P b \<Longrightarrow> bucket_hash P b = hashfn P (key b)"
  by (auto simp: bucket_ok_def bucket_hash_def)

lemma HASH_FOR_ALL_buckets: "mset (HASH_FOR_ALL T) = image_mset addr (buckets T)"
  by (simp add: HASH_FOR_ALL_def buckets_def map_concat [symmetric])

lemma distinct_buckets: "buckets T = buckets U \<Longrightarrow> distinct (HASH_FOR_ALL T) = distinct (HASH_FOR_ALL U)"
  by (metis HASH_FOR_ALL_buckets mset_eq_imp_distinct_iff)

lemma set_concat_nth: "b \<in> set (concat xs) \<longleftrightarrow> (\<exists>h < length xs. b \<in> set (xs ! h))"
  by (metis in_set_conv_nth set_concat UN_iff nth_mem)

lemma slots_okD:
  assumes "slots_ok P T" "h < hash_size T" "b \<in> set (ht T ! h)"
  shows "bucket_ok P b" "hashfn P (key b) mod hash_size T = h"
proof -
  have "bucket_ok P b \<and> bucket_hash P b mod hash_size T = h" using assms by (simp add: slots_ok_def)
  then show "bucket_ok P b" "hashfn P (key b) mod hash_size T = h" using bucket_hash_key [of P b] by auto
qed

lemma in_buckets:
  assumes "slots_ok P T"
  shows "b \<in># buckets T \<longleftrightarrow> b \<in> set (ht T ! (hashfn P (key b) mod hash_size T))"
proof -
  have l: "length (ht T) = hash_size T" "0 < hash_size T" using assms by (simp_all add: slots_ok_def)
  then show ?thesis unfolding buckets_def set_mset_mset set_concat_nth
    using slots_okD(2) [OF assms] by (metis mod_less_divisor)
qed

lemma buckets_ok: "slots_ok P T \<Longrightarrow> b \<in># buckets T \<Longrightarrow> bucket_ok P b"
  using slots_okD(1) [of P T] unfolding buckets_def set_mset_mset set_concat_nth by (auto simp: slots_ok_def)

section \<open>Rehashing\<close>

lemma link_bucket_ok:
  assumes "slots_ok P T" "bucket_ok P b" "h0 = bucket_hash P b"
  shows "\<exists>T'. link_bucket h0 b T = Inr T' \<and> slots_ok P T' \<and> buckets T' = add_mset b (buckets T) \<and>
    hash_count T' = hash_count T \<and> hash_size T' = hash_size T \<and> hash_max T' = hash_max T"
proof -
  let ?h = "h0 mod hash_size T"
  have h: "?h < length (ht T)" using assms(1) by (simp add: slots_ok_def)
  have "mset (concat ((ht T)[?h := b # ht T ! ?h])) = add_mset b (mset (concat (ht T)))"
    using mset_concat_update [OF h, of "b # ht T ! ?h"] by simp
  then show ?thesis using assms h
    by (auto simp: link_bucket_def slot_def slots_ok_def buckets_def nth_list_update)
qed

lemma rehash_chain_ok:
  assumes "slots_ok P T" "\<forall>b \<in> set c. bucket_ok P b"
  shows "\<exists>T'. rehash_chain P c T = Inr T' \<and> slots_ok P T' \<and> buckets T' = mset c + buckets T \<and> hash_count T' = hash_count T"
  using assms
proof (induction c arbitrary: T)
  case (Cons b c)
  then obtain T' where "link_bucket (bucket_hash P b) b T = Inr T'" "slots_ok P T'" "buckets T' = add_mset b (buckets T)"
      "hash_count T' = hash_count T"
    using link_bucket_ok [of P T b] by auto
  then show ?case using Cons.IH [of T'] Cons.prems by auto
qed simp

lemma rehash_slots_ok:
  assumes "slots_ok P T" "\<forall>b \<in> set (concat cs). bucket_ok P b"
  shows "\<exists>T'. rehash_slots P cs T = Inr T' \<and> slots_ok P T' \<and> buckets T' = mset (concat cs) + buckets T \<and> hash_count T' = hash_count T"
  using assms
proof (induction cs arbitrary: T)
  case (Cons c cs)
  obtain T' where "rehash_chain P c T = Inr T'" "slots_ok P T'" "buckets T' = mset c + buckets T" "hash_count T' = hash_count T"
    using rehash_chain_ok [of P T c] Cons.prems by auto
  then show ?case using Cons.IH [of T'] Cons.prems by auto
qed simp

lemma alloc_table_ok:
  assumes "hash_size T < 4294967291" "hash_hard_max T \<le> 268435456"
  shows "\<exists>T'. alloc_table P T = Inr T' \<and> slots_ok P T' \<and> buckets T' = {#} \<and> hash_count T' = hash_count T"
proof -
  obtain p where p: "next_table_prime (hash_size T) = Some p" "hash_size T < p" "p \<in> set prime_table"
    using next_table_prime_correct [of "hash_size T"] assms(1) by auto
  have "p \<le> 4294967291" using p(3) prime_table_mono [of _ 104] by (auto simp: in_set_conv_nth length_prime_table last_prime_table)
  then show ?thesis using p assms by (auto simp: alloc_table_def slots_ok_def buckets_def)
qed

lemma rehash_ok:
  assumes "slots_ok P T" "n < 4294967291"
  shows "\<exists>T'. rehash P n T = Inr T' \<and> slots_ok P T' \<and> buckets T' = buckets T \<and> hash_count T' = hash_count T"
proof -
  obtain T' where T': "alloc_table P (T\<lparr>hash_size := n\<rparr>) = Inr T'" "slots_ok P T'" "buckets T' = {#}" "hash_count T' = hash_count T"
    using alloc_table_ok [of "T\<lparr>hash_size := n\<rparr>" P] assms by (auto simp: slots_ok_def)
  moreover have "\<forall>b \<in> set (concat (ht T)). bucket_ok P b"
    using buckets_ok [OF assms(1)] by (simp add: buckets_def)
  ultimately show ?thesis using rehash_slots_ok [of P T' "ht T"] by (auto simp: rehash_def buckets_def)
qed

lemma count_new_ok:
  assumes "slots_ok P T" "hash_count T < 4294967295"
  shows "\<exists>T'. count_new P T = Inr T' \<and> slots_ok P T' \<and> buckets T' = buckets T \<and> hash_count T' = hash_count T + 1"
proof (cases "hash_count T \<ge> hash_max T")
  case True
  let ?T = "T\<lparr>hash_count := hash_count T + 1\<rparr>"
  have "slots_ok P ?T" "buckets ?T = buckets T" "U32 (2 * hash_size T) < 4294967291"
    using assms True by (auto simp: slots_ok_def bucket_ok_def bucket_hash_def buckets_def)
  then show ?thesis using rehash_ok [of P ?T "U32 (2 * hash_size T)"] True assms(2) by (auto simp: count_new_def Let_def)
next
  case False
  then show ?thesis using assms by (auto simp: count_new_def Let_def slots_ok_def buckets_def)
qed

lemma count_deleted_ok:
  assumes "slots_ok P T" "0 < hash_count T" "hash_count T < 4294967295"
  shows "\<exists>T'. count_deleted P T = Inr T' \<and> slots_ok P T' \<and> buckets T' = buckets T \<and> hash_count T' = hash_count T - 1"
proof -
  let ?T = "T\<lparr>hash_count := hash_count T - 1\<rparr>"
  have u: "U32 (hash_count T + 4294967295) = hash_count T - 1"
    using assms(2,3) by (cases "hash_count T") (auto simp: U32_def)
  have "slots_ok P ?T" "buckets ?T = buckets T" "hash_size T div 2 < 4294967291"
    using assms by (auto simp: slots_ok_def buckets_def)
  then show ?thesis using rehash_ok [of P ?T "hash_size T div 2"] u by (auto simp: count_deleted_def Let_def)
qed

section \<open>Operations on valid tables\<close>

lemma matches_iff: "params_ok P \<Longrightarrow> bucket_ok P b \<Longrightarrow> matches P (hashfn P k) k b \<longleftrightarrow> eqfn P k (key b)"
  by (auto simp: matches_def params_ok_def bucket_ok_def)

text \<open>The chain of a key holds exactly the buckets with keys equal to it (and others).\<close>

lemma chain_matches:
  assumes "params_ok P" "slots_ok P T" "h = hashfn P k mod hash_size T"
  shows "b \<in> set (ht T ! h) \<and> matches P (hashfn P k) k b \<longleftrightarrow> b \<in># buckets T \<and> eqfn P k (key b)"
proof -
  have h: "h < hash_size T" using assms(2,3) by (simp add: slots_ok_def)
  have "eqfn P k (key b) \<Longrightarrow> hashfn P (key b) = hashfn P k" using assms(1) by (metis params_ok_def)
  then show ?thesis using slots_okD [OF assms(2) h, of b] in_buckets [OF assms(2), of b] buckets_ok [OF assms(2), of b]
      matches_iff [OF assms(1), of b k] assms(3) by auto
qed

lemma slot_ok: "slots_ok P T \<Longrightarrow> slot h T = Inr (h mod hash_size T)"
  by (simp add: slot_def slots_ok_def)

lemma table_okI:
  assumes "slots_ok P T'" "table_ok P T" "buckets T' = add_mset b (buckets T)" "hash_count T' = hash_count T + 1"
    "addr b \<notin> addr ` set_mset (buckets T)" "size (buckets T) < 4294967294"
  shows "table_ok P T'"
proof -
  have "mset (HASH_FOR_ALL T') = mset (addr b # HASH_FOR_ALL T)" using assms(3) by (simp add: HASH_FOR_ALL_buckets)
  then have "distinct (HASH_FOR_ALL T') = distinct (addr b # HASH_FOR_ALL T)" by (rule mset_eq_imp_distinct_iff)
  moreover have "set (HASH_FOR_ALL T) = addr ` set_mset (buckets T)"
    by (metis HASH_FOR_ALL_buckets set_image_mset set_mset_mset)
  ultimately show ?thesis using assms by (simp add: table_ok_def)
qed

lemma table_ok_remove:
  assumes "slots_ok P T'" "table_ok P T" "buckets T = add_mset b (buckets T')" "hash_count T' = hash_count T - 1"
  shows "table_ok P T'"
proof -
  have "mset (HASH_FOR_ALL T) = mset (addr b # HASH_FOR_ALL T')" using assms(3) by (simp add: HASH_FOR_ALL_buckets)
  then have "distinct (HASH_FOR_ALL T) = distinct (addr b # HASH_FOR_ALL T')" by (rule mset_eq_imp_distinct_iff)
  then show ?thesis using assms by (simp add: table_ok_def)
qed

lemma same_addr:
  assumes "table_ok P T" "b \<in># buckets T" "c \<in># buckets T" "addr b = addr c"
  shows "b = c"
proof (rule ccontr)
  assume "b \<noteq> c"
  then have "{#b, c#} \<subseteq># buckets T" using assms(2,3) by (simp add: insert_subset_eq_iff in_diff_count)
  then have "{#addr b, addr c#} \<subseteq># mset (HASH_FOR_ALL T)"
    unfolding HASH_FOR_ALL_buckets using image_mset_subseteq_mono by fastforce
  then have "2 \<le> count (mset (HASH_FOR_ALL T)) (addr b)" using assms(4) by (metis count_add_mset count_empty mset_subset_eq_count numeral_2_eq_2)
  moreover have "count (mset (HASH_FOR_ALL T)) (addr b) \<le> 1"
    using assms(1) by (simp add: table_ok_def distinct_count_atmost_1)
  ultimately show False by simp
qed

lemma ht_find_ok:
  assumes "params_ok P" "table_ok P T"
  shows "\<exists>r. ht_find P k T = Inr r \<and> (case r of
      None \<Rightarrow> \<forall>b \<in># buckets T. \<not> eqfn P k (key b)
    | Some a \<Rightarrow> \<exists>b \<in># buckets T. addr b = a \<and> eqfn P k (key b))"
proof -
  have s: "slots_ok P T" using assms(2) by (simp add: table_ok_def)
  note m = chain_matches [OF assms(1) s refl, of _ k]
  show ?thesis
    using m unfolding ht_find_def Let_def slot_ok [OF s]
    by (auto simp: find_None_iff dest!: find_Some_iff split: option.splits)
qed

lemma ht_new_ok:
  assumes "params_ok P" "table_ok P T" "a \<notin> addr ` set_mset (buckets T)" "size (buckets T) < 4294967294"
  shows "\<exists>T'. ht_new P a k T = Inr (a, T') \<and> table_ok P T' \<and> buckets T' = add_mset (new_bucket P a k) (buckets T)"
proof -
  have b: "bucket_ok P (new_bucket P a k)" "bucket_hash P (new_bucket P a k) = hashfn P k" "addr (new_bucket P a k) = a"
    by (simp_all add: bucket_ok_def bucket_hash_def new_bucket_def)
  have s: "slots_ok P T" using assms(2) by (simp add: table_ok_def)
  obtain U where U: "link_bucket (hashfn P k) (new_bucket P a k) T = Inr U" "slots_ok P U"
      "buckets U = add_mset (new_bucket P a k) (buckets T)" "hash_count U = hash_count T"
    using link_bucket_ok [OF s b(1)] b(2) by metis
  obtain V where V: "count_new P U = Inr V" "slots_ok P V" "buckets V = buckets U" "hash_count V = hash_count U + 1"
    using count_new_ok [OF U(2)] U(4) assms(2,4) by (auto simp: table_ok_def)
  show ?thesis using U V table_okI [OF V(2) assms(2), of "new_bucket P a k"] assms(3,4) b(3) by (simp add: ht_new_def)
qed

lemma ht_lookup_find_new:
  "ht_lookup P a k T = res_bind (ht_find P k T) (\<lambda>r. case r of
     Some x \<Rightarrow> Inr (x, False, T)
   | None \<Rightarrow> res_bind (ht_new P a k T) (\<lambda>(x, T). Inr (x, True, T)))"
  by (auto simp: ht_lookup_def ht_find_def ht_new_def Let_def res_bind_assoc slot_def split: option.splits)

lemma unlink_ok:
  assumes "slots_ok P T" "h < hash_size T" "unlink p (ht T ! h) = Some c"
  shows "\<exists>b. p b \<and> b \<in> set (ht T ! h) \<and> buckets T = add_mset b (buckets (T\<lparr>ht := (ht T)[h := c]\<rparr>)) \<and>
    slots_ok P (T\<lparr>ht := (ht T)[h := c]\<rparr>)"
proof -
  obtain b where b: "p b" "b \<in> set (ht T ! h)" "mset (ht T ! h) = add_mset b (mset c)" "set c \<subseteq> set (ht T ! h)"
    using unlink_Some [OF assms(3)] by blast
  have h: "h < length (ht T)" using assms(1,2) by (simp add: slots_ok_def)
  have "mset (concat (ht T)) = add_mset b (mset (concat ((ht T)[h := c])))"
    using mset_concat_update [OF h, of c] b(3) by simp
  moreover have "slots_ok P (T\<lparr>ht := (ht T)[h := c]\<rparr>)"
    using assms(1,2) b(4) by (auto simp: slots_ok_def nth_list_update)
  ultimately show ?thesis using b by (auto simp: buckets_def)
qed

lemma unlinked_ok:
  assumes "table_ok P T" "h < hash_size T" "unlink p (ht T ! h) = Some c"
  shows "\<exists>b T'. count_deleted P (T\<lparr>ht := (ht T)[h := c]\<rparr>) = Inr T' \<and> table_ok P T' \<and>
    p b \<and> b \<in> set (ht T ! h) \<and> buckets T = add_mset b (buckets T')"
proof -
  let ?U = "T\<lparr>ht := (ht T)[h := c]\<rparr>"
  have s: "slots_ok P T" using assms(1) by (simp add: table_ok_def)
  obtain b where b: "p b" "b \<in> set (ht T ! h)" "buckets T = add_mset b (buckets ?U)" "slots_ok P ?U"
    using unlink_ok [OF s assms(2,3)] by blast
  have "0 < hash_count T" "hash_count T < 4294967295" using assms(1) b(3) by (auto simp: table_ok_def)
  then obtain T' where "count_deleted P ?U = Inr T'" "slots_ok P T'" "buckets T' = buckets ?U" "hash_count T' = hash_count T - 1"
    using count_deleted_ok [OF b(4)] by auto
  then show ?thesis using table_ok_remove [OF _ assms(1), of T' b] b by (intro exI [of _ b] exI [of _ T']) simp
qed

lemma ht_delete_ok:
  assumes "params_ok P" "table_ok P T"
  shows "(\<forall>b \<in># buckets T. \<not> eqfn P k (key b)) \<and> ht_delete P k T = Inr (False, T) \<or>
    (\<exists>b T'. ht_delete P k T = Inr (True, T') \<and> table_ok P T' \<and> eqfn P k (key b) \<and> buckets T = add_mset b (buckets T'))"
proof -
  let ?h = "hashfn P k mod hash_size T"
  have s: "slots_ok P T" "?h < hash_size T" using assms(2) by (simp_all add: table_ok_def slots_ok_def)
  note m = chain_matches [OF assms(1) s(1) refl, of _ k]
  show ?thesis
  proof (cases "unlink (matches P (hashfn P k) k) (ht T ! ?h)")
    case None
    moreover from this have "\<forall>b \<in># buckets T. \<not> eqfn P k (key b)" using m by (auto simp: unlink_None)
    ultimately show ?thesis by (simp add: ht_delete_def Let_def slot_ok [OF s(1)])
  next
    case (Some c)
    then obtain b T' where *: "count_deleted P (T\<lparr>ht := (ht T)[?h := c]\<rparr>) = Inr T'" "table_ok P T'"
        "matches P (hashfn P k) k b" "b \<in> set (ht T ! ?h)" "buckets T = add_mset b (buckets T')"
      using unlinked_ok [OF assms(2) s(2) Some] by blast
    moreover have "eqfn P k (key b)" using m [of b] *(3,4) by blast
    ultimately show ?thesis using Some by (auto simp: ht_delete_def Let_def slot_ok [OF s(1)])
  qed
qed

lemma ht_remove_ok:
  assumes "params_ok P" "table_ok P T" "b \<in># buckets T"
  shows "\<exists>T'. ht_remove P (addr b) T = Inr T' \<and> table_ok P T' \<and> buckets T = add_mset b (buckets T')"
proof -
  have s: "slots_ok P T" using assms(2) by (simp add: table_ok_def)
  obtain x r where x: "from_addr (addr b) (ht T) = x # r"
    using assms(3) from_addr_nonempty [of "addr b" "ht T"] by (cases "from_addr (addr b) (ht T)") (auto simp: buckets_def)
  have "x \<in># buckets T" "addr x = addr b" using from_addr_mem [OF x] by (force simp: buckets_def)+
  then have "x = b" using same_addr [OF assms(2)] assms(3) by blast
  let ?h = "hashfn P (key b) mod hash_size T"
  have h: "?h < hash_size T" "b \<in> set (ht T ! ?h)" using s in_buckets [OF s, of b] assms(3) by (simp_all add: slots_ok_def)
  have bh: "bucket_hash P b = hashfn P (key b)" using buckets_ok [OF s assms(3)] bucket_hash_key by blast
  obtain c where c: "unlink (\<lambda>d. addr d = addr b) (ht T ! ?h) = Some c"
    using h(2) unlink_None [of "\<lambda>d. addr d = addr b" "ht T ! ?h"] by (cases "unlink (\<lambda>d. addr d = addr b) (ht T ! ?h)") auto
  obtain d T' where d: "count_deleted P (T\<lparr>ht := (ht T)[?h := c]\<rparr>) = Inr T'" "table_ok P T'" "addr d = addr b"
      "buckets T = add_mset d (buckets T')" using unlinked_ok [OF assms(2) h(1) c] by blast
  then have "d = b" using same_addr [OF assms(2) _ assms(3)] by simp
  then show ?thesis using d x \<open>x = b\<close> c bh by (auto simp: ht_remove_def slot_ok [OF s])
qed

text \<open>The nodes with a given key in the order in which \<open>find\<close> and \<open>find_next\<close> visit them.\<close>

primrec visit :: "('k, 'd) hash_params \<Rightarrow> nat \<Rightarrow> nat option \<Rightarrow> ('k, 'd) table \<Rightarrow> nat list res" where
  "visit P 0 r T = (case r of None \<Rightarrow> Inr [] | Some a \<Rightarrow> Inl Diverges)"
| "visit P (Suc n) r T = (case r of None \<Rightarrow> Inr [] | Some a \<Rightarrow>
     res_bind (ht_find_next P a T) (\<lambda>r. res_bind (visit P n r T) (\<lambda>xs. Inr (a # xs))))"

definition visit_all :: "('k, 'd) hash_params \<Rightarrow> 'k \<Rightarrow> ('k, 'd) table \<Rightarrow> nat list res" where
  "visit_all P k T = res_bind (ht_find P k T) (\<lambda>r. visit P (hash_count T) r T)"

lemma find_filter: "List.find p c = (case filter p c of [] \<Rightarrow> None | b # _ \<Rightarrow> Some b)"
  by (induction c) auto

lemma filter_split:
  "filter p c = b # bs \<Longrightarrow> \<exists>q r. c = q @ b # r \<and> filter p r = bs \<and> p b"
  by (metis Cons_eq_filterD)

lemma from_addr_chain:
  assumes "distinct (map addr (concat cs))" "c \<in> set cs" "c = q @ b # r"
  shows "from_addr (addr b) cs = b # r"
  using assms(1,2)
proof (induction cs)
  case (Cons d cs)
  show ?case
  proof (cases "d = c")
    case True
    have "\<forall>x \<in> set q. addr x \<noteq> addr b" using Cons.prems(1) True assms(3) by (auto simp del: not_in_set_insert) (metis image_eqI)
    then have "dropWhile (\<lambda>x. addr x \<noteq> addr b) (q @ b # r) = b # r" by (subst dropWhile_append2) auto
    then show ?thesis using True assms(3) by simp
  next
    case False
    then have "c \<in> set cs" "b \<in> set c" using Cons.prems(2) assms(3) by auto
    then have "b \<in> set (concat cs)" by auto
    then have "addr b \<in> addr ` set (concat cs)" by blast
    then have "addr b \<notin> addr ` set d" using Cons.prems(1) by auto
    then show ?thesis using Cons False by auto
  qed
qed simp

lemma visit_chain:
  assumes "params_ok P" "distinct (HASH_FOR_ALL T)" "c \<in> set (ht T)" "\<And>b. b \<in> set c \<Longrightarrow> bucket_ok P b"
    and "\<And>b. p b \<longleftrightarrow> b \<in> set c \<and> eqfn P k (key b)" "c = q @ r" "length (filter p r) \<le> n"
  shows "visit P n (map_option addr (List.find p r)) T = Inr (map addr (filter p r))"
  using assms(6,7)
proof (induction n arbitrary: q r)
  case 0
  then show ?case by (simp add: find_filter)
next
  case (Suc n)
  show ?case
  proof (cases "filter p r")
    case Nil
    then show ?thesis by (simp add: find_filter)
  next
    case (Cons b bs)
    then obtain q' r' where r: "r = q' @ b # r'" "filter p r' = bs" "p b" using filter_split by metis
    have f: "from_addr (addr b) (ht T) = b # r'"
      using from_addr_chain [OF _ assms(3), of "q @ q'" b r'] assms(2) Suc.prems(1) r(1)
      by (simp add: HASH_FOR_ALL_def map_concat)
    have "matches P (hashfn P (key b)) (key b) x = p x" if "x \<in> set r'" for x
    proof -
      have x: "x \<in> set c" using that r(1) Suc.prems(1) by simp
      have "eqfn P (key b) (key x) \<longleftrightarrow> eqfn P k (key x)"
        using r(3) assms(1,5) by (metis equivp_def params_ok_def)
      then show ?thesis using matches_iff [OF assms(1) assms(4) [OF x]] assms(5) x by simp
    qed
    then have "List.find (matches P (hashfn P (key b)) (key b)) r' = List.find p r'" by (intro find_cong) auto
    then have "ht_find_next P (addr b) T = Inr (map_option addr (List.find p r'))" by (simp add: ht_find_next_def f)
    moreover have "visit P n (map_option addr (List.find p r')) T = Inr (map addr (filter p r'))"
      by (rule Suc.IH [of "q @ q' @ [b]"]) (use Suc.prems r Cons in auto)
    ultimately show ?thesis using Cons r(2) by (simp add: find_filter [of p r])
  qed
qed

lemma visit_all_ok:
  assumes "params_ok P" "table_ok P T"
  shows "\<exists>xs. visit_all P k T = Inr xs \<and> distinct xs \<and> set xs = {addr b | b. b \<in># buckets T \<and> eqfn P k (key b)}"
proof -
  let ?h = "hashfn P k mod hash_size T"
  let ?c = "ht T ! ?h" and ?p = "matches P (hashfn P k) k"
  have s: "slots_ok P T" "?h < hash_size T" "length (ht T) = hash_size T" "distinct (HASH_FOR_ALL T)"
    using assms(2) by (simp_all add: table_ok_def slots_ok_def)
  have c: "?c \<in> set (ht T)" using s(2,3) by simp
  note m = chain_matches [OF assms(1) s(1) refl, of _ k]
  have len: "length (filter (\<lambda>b. b \<in> set ?c \<and> ?p b) ?c) \<le> hash_count T"
  proof -
    have "mset ?c \<subseteq># mset (concat (ht T))" using c by (metis in_set_conv_decomp concat_append concat.simps(2) mset_append mset_subset_eq_add_left mset_subset_eq_add_right subset_mset.order_trans)
    from size_mset_mono [OF this] have "length ?c \<le> hash_count T" using assms(2) by (simp add: table_ok_def buckets_def)
    then show ?thesis using length_filter_le le_trans by blast
  qed
  have "visit P (hash_count T) (map_option addr (List.find (\<lambda>b. b \<in> set ?c \<and> ?p b) ?c)) T =
      Inr (map addr (filter (\<lambda>b. b \<in> set ?c \<and> ?p b) ?c))"
  proof (rule visit_chain [OF assms(1) s(4) c, where k = k and q = "[]"])
    show "(b \<in> set ?c \<and> ?p b) = (b \<in> set ?c \<and> eqfn P k (key b))" for b
      using slots_okD(1) [OF s(1,2)] matches_iff [OF assms(1)] by blast
  qed (use slots_okD(1) [OF s(1,2)] len in auto)
  moreover have "List.find (\<lambda>b. b \<in> set ?c \<and> ?p b) ?c = List.find ?p ?c" by (rule find_cong) auto
  moreover have "filter (\<lambda>b. b \<in> set ?c \<and> ?p b) ?c = filter ?p ?c" by (rule filter_cong) auto
  ultimately have v: "visit_all P k T = Inr (map addr (filter ?p ?c))"
    by (simp add: visit_all_def ht_find_def Let_def slot_ok [OF s(1)])
  have "distinct (map addr ?c)" using s(4) c
    by (auto simp: HASH_FOR_ALL_def distinct_concat_iff)
  then have "distinct (map addr (filter ?p ?c))" by (rule distinct_map_filter)
  moreover have "set (map addr (filter ?p ?c)) = {addr b | b. b \<in># buckets T \<and> eqfn P k (key b)}" using m by auto
  ultimately show ?thesis using v by blast
qed

section \<open>The contract of a node table\<close>

text \<open>A table of nodes, each with an address of its own. Client lemmas: as long as nodes are only created by
  looking a key up first, the table is a dictionary.\<close>

locale node_table =
  fixes inv :: "'t \<Rightarrow> bool"
    and nodes :: "'t \<Rightarrow> 'b multiset"
    and naddr :: "'b \<Rightarrow> nat"
    and nkey :: "'b \<Rightarrow> 'k"
    and eq :: "'k \<Rightarrow> 'k \<Rightarrow> bool"
    and find :: "'k \<Rightarrow> 't \<Rightarrow> nat option res"
    and create :: "nat \<Rightarrow> 'k \<Rightarrow> 't \<Rightarrow> (nat \<times> 't) res"
    and del :: "'k \<Rightarrow> 't \<Rightarrow> (bool \<times> 't) res"
    and limit :: nat
  assumes eq: "inv t \<Longrightarrow> equivp eq"
    and addr_unique: "inv t \<Longrightarrow> b \<in># nodes t \<Longrightarrow> c \<in># nodes t \<Longrightarrow> naddr b = naddr c \<Longrightarrow> b = c"
    and find: "inv t \<Longrightarrow> \<exists>r. find k t = Inr r \<and> (case r of
        None \<Rightarrow> \<forall>b \<in># nodes t. \<not> eq k (nkey b) | Some a \<Rightarrow> \<exists>b \<in># nodes t. naddr b = a \<and> eq k (nkey b))"
    and create: "inv t \<Longrightarrow> a \<notin> naddr ` set_mset (nodes t) \<Longrightarrow> size (nodes t) < limit \<Longrightarrow>
      \<exists>b t'. create a k t = Inr (a, t') \<and> inv t' \<and> naddr b = a \<and> nkey b = k \<and> nodes t' = add_mset b (nodes t)"
    and del: "inv t \<Longrightarrow> (\<forall>b \<in># nodes t. \<not> eq k (nkey b)) \<and> del k t = Inr (False, t) \<or>
      (\<exists>b t'. del k t = Inr (True, t') \<and> inv t' \<and> eq k (nkey b) \<and> nodes t = add_mset b (nodes t'))"
begin

definition dict :: "'t \<Rightarrow> 'k \<Rightarrow> nat option" where
  "dict t k = (case find k t of Inr r \<Rightarrow> r | Inl _ \<Rightarrow> None)"

definition unique :: "'t \<Rightarrow> bool" where
  "unique t \<longleftrightarrow> inv t \<and> (\<forall>b \<in># nodes t. \<forall>c \<in># nodes t - {#b#}. \<not> eq (nkey b) (nkey c))"

lemma find_dict: "inv t \<Longrightarrow> find k t = Inr (dict t k)"
  using find [of t k] by (auto simp: dict_def)

lemma dict_None: "inv t \<Longrightarrow> dict t k = None \<longleftrightarrow> (\<forall>b \<in># nodes t. \<not> eq k (nkey b))"
  using find [of t k] by (auto simp: dict_def split: option.splits)

lemma unique_key:
  assumes "unique t" "b \<in># nodes t" "c \<in># nodes t" "eq (nkey b) (nkey c)"
  shows "b = c"
proof (rule ccontr)
  assume "b \<noteq> c"
  then have "c \<in># nodes t - {#b#}" using assms(3) by (simp add: in_diff_count)
  then show False using assms(1,2,4) by (auto simp: unique_def)
qed

lemma dict_Some:
  assumes "unique t"
  shows "dict t k = Some a \<longleftrightarrow> (\<exists>b \<in># nodes t. naddr b = a \<and> eq k (nkey b))"
proof -
  have i: "inv t" using assms by (simp add: unique_def)
  obtain r where r: "find k t = Inr r" "case r of None \<Rightarrow> \<forall>b \<in># nodes t. \<not> eq k (nkey b)
      | Some a \<Rightarrow> \<exists>b \<in># nodes t. naddr b = a \<and> eq k (nkey b)" using find [OF i] by blast
  have "naddr b = naddr c" if "b \<in># nodes t" "c \<in># nodes t" "eq k (nkey b)" "eq k (nkey c)" for b c
    using unique_key [OF assms that(1,2)] that(3,4) eq [OF i] by (metis equivp_symp equivp_transp)
  then show ?thesis using r by (cases r) (auto simp: dict_def)
qed

lemma dict_cong:
  assumes "unique t" "unique t'" "\<And>b. eq k (nkey b) \<Longrightarrow> b \<in># nodes t \<longleftrightarrow> b \<in># nodes t'"
  shows "dict t k = dict t' k"
  using assms(3) by (intro option.expand) (metis dict_Some [OF assms(1)] dict_Some [OF assms(2)] not_None_eq option.sel)+

lemma lookup_dict:
  assumes "unique t" "a \<notin> naddr ` set_mset (nodes t)" "size (nodes t) < limit" "dict t k = None"
  shows "\<exists>t'. create a k t = Inr (a, t') \<and> unique t' \<and> (\<forall>k'. dict t' k' = (if eq k k' then Some a else dict t k'))"
proof -
  have i: "inv t" using assms(1) by (simp add: unique_def)
  note e = eq [OF i]
  obtain b t' where t': "create a k t = Inr (a, t')" "inv t'" "naddr b = a" "nkey b = k" "nodes t' = add_mset b (nodes t)"
    using create [OF i assms(2,3)] by blast
  have no: "\<not> eq k (nkey c)" if "c \<in># nodes t" for c using assms(4) dict_None [OF i] that by blast
  have "\<not> eq (nkey x) (nkey y)" if xy: "x \<in># nodes t'" "y \<in># nodes t' - {#x#}" for x y
  proof (cases "x = b")
    case True
    then show ?thesis using xy no t'(4,5) by simp
  next
    case False
    then have x: "x \<in># nodes t" using xy(1) t'(5) by simp
    then have "y = b \<or> y \<in># nodes t - {#x#}" using xy(2) t'(5) by (auto simp: diff_union_swap2)
    then show ?thesis using no [OF x] assms(1) x t'(4) e by (auto simp: unique_def dest: equivp_symp)
  qed
  then have u: "unique t'" using t'(2) by (auto simp: unique_def)
  have "dict t' k' = (if eq k k' then Some a else dict t k')" for k'
  proof (cases "eq k k'")
    case True
    then show ?thesis using dict_Some [OF u, of k' a] t'(3-5) e by (auto dest: equivp_symp)
  next
    case False
    then have "dict t' k' = dict t k'" using dict_cong [OF u assms(1), of k'] t'(4,5) e by (auto dest: equivp_symp)
    then show ?thesis using False by simp
  qed
  then show ?thesis using t'(1) u by blast
qed

lemma delete_dict:
  assumes "unique t"
  shows "\<exists>t'. del k t = Inr (dict t k \<noteq> None, t') \<and> unique t' \<and> (\<forall>k'. dict t' k' = (if eq k k' then None else dict t k'))"
proof -
  have i: "inv t" using assms by (simp add: unique_def)
  note e = eq [OF i]
  consider "\<forall>b \<in># nodes t. \<not> eq k (nkey b)" "del k t = Inr (False, t)"
    | b t' where "del k t = Inr (True, t')" "inv t'" "eq k (nkey b)" "nodes t = add_mset b (nodes t')"
    using del [OF i, of k] by blast
  then show ?thesis
  proof cases
    case 1
    then have "dict t k' = None" if "eq k k'" for k'
      using that dict_None [OF i, of k'] e by (metis equivp_symp equivp_transp)
    then show ?thesis using 1 assms dict_None [OF i, of k] by auto
  next
    case 2
    have u: "unique t'" using assms 2(2,4) by (auto simp: unique_def diff_union_swap2)
    have no: "\<not> eq k (nkey c)" if "c \<in># nodes t'" for c
    proof
      assume "eq k (nkey c)"
      then have "eq (nkey b) (nkey c)" using 2(3) e by (metis equivp_symp equivp_transp)
      then show False using assms 2(4) that by (auto simp: unique_def)
    qed
    have "dict t' k' = (if eq k k' then None else dict t k')" for k'
    proof (cases "eq k k'")
      case True
      then have "\<not> eq k' (nkey c)" if "c \<in># nodes t'" for c using no [OF that] e by (metis equivp_transp)
      then show ?thesis using True dict_None [OF 2(2)] by simp
    next
      case False
      then have "\<not> eq k' (nkey b)" using 2(3) e by (metis equivp_symp equivp_transp)
      then have "dict t k' = dict t' k'" using dict_cong [OF assms u, of k'] 2(4) by auto
      then show ?thesis using False by simp
    qed
    moreover have "dict t k \<noteq> None" using dict_None [OF i] 2(3,4) by auto
    ultimately show ?thesis using 2(1) u by auto
  qed
qed

end

interpretation hasht: node_table "\<lambda>T. params_ok P \<and> table_ok P T" buckets addr key "eqfn P" "ht_find P" "ht_new P" "ht_delete P" 4294967294
  for P :: "('k, 'd) hash_params"
proof unfold_locales
  fix T :: "('k, 'd) table" and k a
  assume "params_ok P \<and> table_ok P T"
  then have p: "params_ok P" and t: "table_ok P T" by simp_all
  show "equivp (eqfn P)" using p by (simp add: params_ok_def)
  show "\<exists>r. ht_find P k T = Inr r \<and> (case r of None \<Rightarrow> \<forall>b \<in># buckets T. \<not> eqfn P k (key b)
      | Some a \<Rightarrow> \<exists>b \<in># buckets T. addr b = a \<and> eqfn P k (key b))" by (rule ht_find_ok [OF p t])
  show "(\<forall>b \<in># buckets T. \<not> eqfn P k (key b)) \<and> ht_delete P k T = Inr (False, T) \<or>
      (\<exists>b T'. ht_delete P k T = Inr (True, T') \<and> (params_ok P \<and> table_ok P T') \<and> eqfn P k (key b) \<and> buckets T = add_mset b (buckets T'))"
    using ht_delete_ok [OF p t, of k] p by simp
  show "b = c" if "b \<in># buckets T" "c \<in># buckets T" "addr b = addr c" for b c by (rule same_addr [OF t that])
  show "\<exists>b T'. ht_new P a k T = Inr (a, T') \<and> (params_ok P \<and> table_ok P T') \<and> addr b = a \<and> key b = k \<and>
      buckets T' = add_mset b (buckets T)"
    if "a \<notin> addr ` set_mset (buckets T)" "size (buckets T) < 4294967294"
    using ht_new_ok [OF p t that, of k] p by (auto simp: new_bucket_def intro!: exI [of _ "new_bucket P a k"])
qed

section \<open>Dictionaries\<close>

definition ht_dict :: "('k, 'd) hash_params \<Rightarrow> ('k, 'd) table \<Rightarrow> 'k \<Rightarrow> nat option" where
  "ht_dict P T k = (case ht_find P k T of Inr r \<Rightarrow> r | Inl _ \<Rightarrow> None)"

definition keys_unique :: "('k, 'd) hash_params \<Rightarrow> ('k, 'd) table \<Rightarrow> bool" where
  "keys_unique P T \<longleftrightarrow> (\<forall>b \<in># buckets T. \<forall>c \<in># buckets T - {#b#}. \<not> eqfn P (key b) (key c))"

lemma hasht_dict: "hasht.dict P = ht_dict P"
  by (intro ext) (simp add: hasht.dict_def ht_dict_def)

lemma hasht_unique: "params_ok P \<Longrightarrow> hasht.unique P T \<longleftrightarrow> table_ok P T \<and> keys_unique P T"
  unfolding hasht.unique_def keys_unique_def by blast

lemma ht_lookup_dict:
  assumes "params_ok P" "table_ok P T" "keys_unique P T" "a \<notin> addr ` set_mset (buckets T)" "size (buckets T) < 4294967294"
  shows "\<exists>r T'. ht_lookup P a k T = Inr (r, ht_dict P T k = None, T') \<and> table_ok P T' \<and> keys_unique P T' \<and>
    r = (case ht_dict P T k of None \<Rightarrow> a | Some x \<Rightarrow> x) \<and>
    (\<forall>k'. ht_dict P T' k' = (if eqfn P k k' then Some r else ht_dict P T k'))"
proof -
  have u: "hasht.unique P T" using hasht_unique assms by blast
  have f: "ht_find P k T = Inr (ht_dict P T k)" using hasht.find_dict [of P T k] assms(1,2) by (simp add: hasht_dict)
  show ?thesis
  proof (cases "ht_dict P T k")
    case None
    then obtain T' where "ht_new P a k T = Inr (a, T')" "table_ok P T' \<and> keys_unique P T'"
        "\<forall>k'. ht_dict P T' k' = (if eqfn P k k' then Some a else ht_dict P T k')"
      using hasht.lookup_dict [OF u assms(4,5), of k, unfolded hasht_dict hasht_unique [OF assms(1)]] by blast
    then show ?thesis using None f by (simp add: ht_lookup_find_new)
  next
    case (Some x)
    have "equivp (eqfn P)" using assms(1) by (simp add: params_ok_def)
    then have "ht_dict P T k' = Some x" if "eqfn P k k'" for k'
    proof -
      obtain b where "b \<in># buckets T" "addr b = x" "eqfn P k (key b)"
        using Some hasht.dict_Some [OF u, of k x] by (auto simp: hasht_dict)
      moreover have "eqfn P k' (key b)" using \<open>equivp (eqfn P)\<close> that \<open>eqfn P k (key b)\<close> by (meson equivp_symp equivp_transp)
      ultimately show ?thesis using hasht.dict_Some [OF u, of k' x] by (auto simp: hasht_dict)
    qed
    then show ?thesis using Some f assms by (auto simp: ht_lookup_find_new)
  qed
qed

lemma ht_init_ok:
  assumes "params_ok P"
  shows "\<exists>T. ht_init P = Inr T \<and> table_ok P T \<and> buckets T = {#}"
proof -
  have "hash_hard_max (empty_table P) \<le> 268435456"
    using power_increasing [of "fn_bits P" 28 "2 :: nat"] by (simp add: empty_table_def)
  then obtain T where "ht_init P = Inr T" "slots_ok P T" "buckets T = {#}" "hash_count T = 0"
    using alloc_table_ok [of "empty_table P" P] assms by (auto simp: ht_init_def params_ok_def empty_table_def)
  moreover from this have "HASH_FOR_ALL T = []" using HASH_FOR_ALL_buckets [of T] by simp
  ultimately show ?thesis by (simp add: table_ok_def)
qed

section \<open>Properties\<close>

text \<open>C2: Hash tables hold exactly the nodes created and not deleted, through every rehashing. For an equality
  that is an equivalence and a hash function that respects it, \<open>init\<close> gives a valid empty table, and on every
  valid table: \<open>find\<close> returns a node with the key if there is one; \<open>new\<close> adds exactly the new node; \<open>delete\<close>
  removes exactly one node with the key and reports whether there was one; \<open>remove\<close> removes exactly the given
  node; no operation fails, and each leaves a valid table.\<close>

theorem hash_table_nodes:
  assumes "params_ok P"
  shows "(\<exists>T. ht_init P = Inr T \<and> table_ok P T \<and> buckets T = {#}) \<and>
    (\<forall>T. table_ok P T \<longrightarrow>
      (\<exists>r. ht_find P k T = Inr r \<and> (case r of
          None \<Rightarrow> \<forall>b \<in># buckets T. \<not> eqfn P k (key b)
        | Some a \<Rightarrow> \<exists>b \<in># buckets T. addr b = a \<and> eqfn P k (key b))) \<and>
      (a \<notin> addr ` set_mset (buckets T) \<longrightarrow> size (buckets T) < 2 ^ 32 - 2 \<longrightarrow>
        (\<exists>T'. ht_new P a k T = Inr (a, T') \<and> table_ok P T' \<and> buckets T' = add_mset (new_bucket P a k) (buckets T))) \<and>
      ((\<forall>b \<in># buckets T. \<not> eqfn P k (key b)) \<and> ht_delete P k T = Inr (False, T) \<or>
        (\<exists>b T'. ht_delete P k T = Inr (True, T') \<and> table_ok P T' \<and> eqfn P k (key b) \<and> buckets T = add_mset b (buckets T'))) \<and>
      (\<forall>b \<in># buckets T. \<exists>T'. ht_remove P (addr b) T = Inr T' \<and> table_ok P T' \<and> buckets T = add_mset b (buckets T')))"
proof (intro conjI allI impI)
  show "\<exists>T. ht_init P = Inr T \<and> table_ok P T \<and> buckets T = {#}" by (rule ht_init_ok [OF assms])
next
  fix T
  assume t: "table_ok P T"
  show "\<exists>r. ht_find P k T = Inr r \<and> (case r of None \<Rightarrow> \<forall>b \<in># buckets T. \<not> eqfn P k (key b)
      | Some a \<Rightarrow> \<exists>b \<in># buckets T. addr b = a \<and> eqfn P k (key b))" by (rule ht_find_ok [OF assms t])
  show "\<exists>T'. ht_new P a k T = Inr (a, T') \<and> table_ok P T' \<and> buckets T' = add_mset (new_bucket P a k) (buckets T)"
    if "a \<notin> addr ` set_mset (buckets T)" "size (buckets T) < 2 ^ 32 - 2"
    using ht_new_ok [OF assms t that(1)] that(2) by simp
  show "(\<forall>b \<in># buckets T. \<not> eqfn P k (key b)) \<and> ht_delete P k T = Inr (False, T) \<or>
        (\<exists>b T'. ht_delete P k T = Inr (True, T') \<and> table_ok P T' \<and> eqfn P k (key b) \<and> buckets T = add_mset b (buckets T'))"
    by (rule ht_delete_ok [OF assms t])
  show "\<forall>b \<in># buckets T. \<exists>T'. ht_remove P (addr b) T = Inr T' \<and> table_ok P T' \<and> buckets T = add_mset b (buckets T')"
    using ht_remove_ok [OF assms t] by blast
qed

definition example_params :: "(nat, unit) hash_params" where
  "example_params = \<lparr>hashfn = \<lambda>k. k mod 7, eqfn = (=), init_data = \<lambda>_. (), conserve_space = False, table_growing = False,
     default_size = 32, fn_bits = 32\<rparr>"

lemma example_params_ok: "params_ok example_params"
  by (simp add: params_ok_def example_params_def identity_equivp)

theorem hash_table_nodes_witness:
  "\<exists>T T'. ht_init example_params = Inr T \<and> ht_new example_params 1000 42 T = Inr (1000, T') \<and>
     buckets T' = {#new_bucket example_params 1000 42#}"
proof -
  obtain T where T: "ht_init example_params = Inr T" "table_ok example_params T" "buckets T = {#}"
    using hash_table_nodes [OF example_params_ok] by blast
  then show ?thesis using hash_table_nodes [OF example_params_ok, of 42 1000] by fastforce
qed

text \<open>C8: A hash table in which nodes are only created by \<open>lookup\<close> is a dictionary from keys to nodes: \<open>lookup\<close>
  returns the node of the key, or creates it, reports which of the two happened and changes no other key;
  \<open>delete\<close> removes the key and no other; the keys stay unique. \<open>find\<close> and repeated \<open>find_next\<close> visit every node
  with the key exactly once, and \<open>HASH_FOR_ALL\<close> every node of the table exactly once.\<close>

theorem hash_dictionary:
  assumes "params_ok P" "table_ok P T"
  shows "(keys_unique P T \<and> a \<notin> addr ` set_mset (buckets T) \<and> size (buckets T) < 2 ^ 32 - 2 \<longrightarrow>
      (\<exists>r T'. ht_lookup P a k T = Inr (r, ht_dict P T k = None, T') \<and> table_ok P T' \<and> keys_unique P T' \<and>
        r = (case ht_dict P T k of None \<Rightarrow> a | Some x \<Rightarrow> x) \<and>
        (\<forall>k'. ht_dict P T' k' = (if eqfn P k k' then Some r else ht_dict P T k')))) \<and>
    (keys_unique P T \<longrightarrow>
      (\<exists>T'. ht_delete P k T = Inr (ht_dict P T k \<noteq> None, T') \<and> table_ok P T' \<and> keys_unique P T' \<and>
        (\<forall>k'. ht_dict P T' k' = (if eqfn P k k' then None else ht_dict P T k')))) \<and>
    (\<exists>xs. visit_all P k T = Inr xs \<and> distinct xs \<and> set xs = {addr b | b. b \<in># buckets T \<and> eqfn P k (key b)}) \<and>
    distinct (HASH_FOR_ALL T) \<and> set (HASH_FOR_ALL T) = addr ` set_mset (buckets T)"
proof (intro conjI impI)
  show "\<exists>r T'. ht_lookup P a k T = Inr (r, ht_dict P T k = None, T') \<and> table_ok P T' \<and> keys_unique P T' \<and>
        r = (case ht_dict P T k of None \<Rightarrow> a | Some x \<Rightarrow> x) \<and>
        (\<forall>k'. ht_dict P T' k' = (if eqfn P k k' then Some r else ht_dict P T k'))"
    if "keys_unique P T \<and> a \<notin> addr ` set_mset (buckets T) \<and> size (buckets T) < 2 ^ 32 - 2"
    using that by (intro ht_lookup_dict [OF assms]) auto
  show "\<exists>T'. ht_delete P k T = Inr (ht_dict P T k \<noteq> None, T') \<and> table_ok P T' \<and> keys_unique P T' \<and>
        (\<forall>k'. ht_dict P T' k' = (if eqfn P k k' then None else ht_dict P T k'))" if "keys_unique P T"
    using hasht.delete_dict [of P T k, unfolded hasht_dict hasht_unique [OF assms(1)]] that assms(2) by blast
  show "\<exists>xs. visit_all P k T = Inr xs \<and> distinct xs \<and> set xs = {addr b | b. b \<in># buckets T \<and> eqfn P k (key b)}"
    by (rule visit_all_ok [OF assms])
  show "distinct (HASH_FOR_ALL T)" using assms(2) by (simp add: table_ok_def)
  show "set (HASH_FOR_ALL T) = addr ` set_mset (buckets T)" by (metis HASH_FOR_ALL_buckets set_image_mset set_mset_mset)
qed

theorem hash_dictionary_witness:
  "\<exists>T T'. ht_init example_params = Inr T \<and> ht_lookup example_params 1000 42 T = Inr (1000, True, T') \<and>
     ht_dict example_params T' 42 = Some 1000"
proof -
  obtain T where T: "ht_init example_params = Inr T" "table_ok example_params T" "buckets T = {#}"
    using ht_init_ok [OF example_params_ok] by blast
  then have n: "ht_dict example_params T 42 = None"
    using ht_find_ok [OF example_params_ok T(2), of 42] by (auto simp: ht_dict_def split: option.splits)
  have "keys_unique example_params T \<and> 1000 \<notin> addr ` set_mset (buckets T) \<and> size (buckets T) < 2 ^ 32 - 2"
    using T(3) by (simp add: keys_unique_def)
  then show ?thesis using hash_dictionary [OF example_params_ok T(2), of 1000 42] T(1) n by (auto simp: example_params_def)
qed

end
