(* ===== verification/Clists.thy ===== *)
theory Clists
  imports Ucw_Interfaces
begin

text \<open>
  \<open>ucw/clists.h\<close>: circular doubly linked lists. Memory is a partial map from addresses to nodes; the
  address 0 is the null pointer, the address of a \<open>clist\<close> is the address of its head. Every function
  reads and writes the fields in the order of the code; an access to an address without a node is the
  fault \<open>Out_of_bounds\<close>.
\<close>

section \<open>Operations\<close>

record cnode =
  cnext :: nat
  cprev :: nat

type_synonym cstore = "nat \<Rightarrow> cnode option"

definition get_next :: "nat \<Rightarrow> cstore \<Rightarrow> nat res" where
  "get_next a H = (case H a of None \<Rightarrow> Inl Out_of_bounds | Some n \<Rightarrow> Inr (cnext n))"

definition get_prev :: "nat \<Rightarrow> cstore \<Rightarrow> nat res" where
  "get_prev a H = (case H a of None \<Rightarrow> Inl Out_of_bounds | Some n \<Rightarrow> Inr (cprev n))"

definition set_next :: "nat \<Rightarrow> nat \<Rightarrow> cstore \<Rightarrow> cstore res" where
  "set_next a v H = (case H a of None \<Rightarrow> Inl Out_of_bounds | Some n \<Rightarrow> Inr (H(a \<mapsto> n\<lparr>cnext := v\<rparr>)))"

definition set_prev :: "nat \<Rightarrow> nat \<Rightarrow> cstore \<Rightarrow> cstore res" where
  "set_prev a v H = (case H a of None \<Rightarrow> Inl Out_of_bounds | Some n \<Rightarrow> Inr (H(a \<mapsto> n\<lparr>cprev := v\<rparr>)))"

definition clist_init :: "nat \<Rightarrow> cstore \<Rightarrow> cstore res" where
  "clist_init l H = res_bind (set_prev l l H) (set_next l l)"

definition clist_head :: "nat \<Rightarrow> cstore \<Rightarrow> nat res" where
  "clist_head l H = res_bind (get_next l H) (\<lambda>n. Inr (if n \<noteq> l then n else 0))"

definition clist_tail :: "nat \<Rightarrow> cstore \<Rightarrow> nat res" where
  "clist_tail l H = res_bind (get_prev l H) (\<lambda>n. Inr (if n \<noteq> l then n else 0))"

definition clist_next :: "nat \<Rightarrow> nat \<Rightarrow> cstore \<Rightarrow> nat res" where
  "clist_next l n H = res_bind (get_next n H) (\<lambda>m. Inr (if m \<noteq> l then m else 0))"

definition clist_prev :: "nat \<Rightarrow> nat \<Rightarrow> cstore \<Rightarrow> nat res" where
  "clist_prev l n H = res_bind (get_prev n H) (\<lambda>m. Inr (if m \<noteq> l then m else 0))"

definition clist_empty :: "nat \<Rightarrow> cstore \<Rightarrow> bool res" where
  "clist_empty l H = res_bind (get_next l H) (\<lambda>n. Inr (n = l))"

text \<open>The loops, as the list of the nodes they visit.\<close>

partial_function (option) clist_walk :: "nat \<Rightarrow> nat \<Rightarrow> cstore \<Rightarrow> nat list res option" where
  "clist_walk n l H =
    (if n = l then Some (Inr [])
     else case H n of
       None \<Rightarrow> Some (Inl Out_of_bounds)
     | Some c \<Rightarrow> Option.bind (clist_walk (cnext c) l H) (\<lambda>r. Some (res_bind r (\<lambda>ns. Inr (n # ns)))))"

partial_function (option) clist_walk_back :: "nat \<Rightarrow> nat \<Rightarrow> cstore \<Rightarrow> nat list res option" where
  "clist_walk_back n l H =
    (if n = l then Some (Inr [])
     else case H n of
       None \<Rightarrow> Some (Inl Out_of_bounds)
     | Some c \<Rightarrow> Option.bind (clist_walk_back (cprev c) l H) (\<lambda>r. Some (res_bind r (\<lambda>ns. Inr (n # ns)))))"

definition CLIST_FOR_EACH :: "nat \<Rightarrow> cstore \<Rightarrow> nat list res option" where
  "CLIST_FOR_EACH l H = (case get_next l H of Inl e \<Rightarrow> Some (Inl e) | Inr n \<Rightarrow> clist_walk n l H)"

definition CLIST_FOR_EACH_BACKWARDS :: "nat \<Rightarrow> cstore \<Rightarrow> nat list res option" where
  "CLIST_FOR_EACH_BACKWARDS l H = (case get_prev l H of Inl e \<Rightarrow> Some (Inl e) | Inr n \<Rightarrow> clist_walk_back n l H)"

definition clist_size :: "nat \<Rightarrow> cstore \<Rightarrow> nat res option" where
  "clist_size l H = Option.bind (CLIST_FOR_EACH l H) (\<lambda>r. Some (res_bind r (\<lambda>ns. Inr (length ns mod 2 ^ 32))))"

definition clist_insert_after :: "nat \<Rightarrow> nat \<Rightarrow> cstore \<Rightarrow> cstore res" where
  "clist_insert_after what after H =
    res_bind (get_next after H) (\<lambda>before.
    res_bind (set_next what before H) (\<lambda>H.
    res_bind (set_prev what after H) (\<lambda>H.
    res_bind (set_prev before what H) (\<lambda>H. set_next after what H))))"

definition clist_insert_before :: "nat \<Rightarrow> nat \<Rightarrow> cstore \<Rightarrow> cstore res" where
  "clist_insert_before what before H =
    res_bind (get_prev before H) (\<lambda>after.
    res_bind (set_next what before H) (\<lambda>H.
    res_bind (set_prev what after H) (\<lambda>H.
    res_bind (set_prev before what H) (\<lambda>H. set_next after what H))))"

definition clist_add_head :: "nat \<Rightarrow> nat \<Rightarrow> cstore \<Rightarrow> cstore res" where
  "clist_add_head l n H = clist_insert_after n l H"

definition clist_add_tail :: "nat \<Rightarrow> nat \<Rightarrow> cstore \<Rightarrow> cstore res" where
  "clist_add_tail l n H = clist_insert_before n l H"

definition clist_remove :: "nat \<Rightarrow> cstore \<Rightarrow> cstore res" where
  "clist_remove n H =
    res_bind (get_prev n H) (\<lambda>before. res_bind (get_next n H) (\<lambda>after.
    res_bind (set_next before after H) (\<lambda>H. set_prev after before H)))"

definition clist_remove_head :: "nat \<Rightarrow> cstore \<Rightarrow> (nat \<times> cstore) res" where
  "clist_remove_head l H = res_bind (clist_head l H) (\<lambda>n.
     if n \<noteq> 0 then res_bind (clist_remove n H) (\<lambda>H. Inr (n, H)) else Inr (n, H))"

definition clist_remove_tail :: "nat \<Rightarrow> cstore \<Rightarrow> (nat \<times> cstore) res" where
  "clist_remove_tail l H = res_bind (clist_tail l H) (\<lambda>n.
     if n \<noteq> 0 then res_bind (clist_remove n H) (\<lambda>H. Inr (n, H)) else Inr (n, H))"

definition clist_insert_list_after :: "nat \<Rightarrow> nat \<Rightarrow> cstore \<Rightarrow> cstore res" where
  "clist_insert_list_after w after H = res_bind (clist_empty w H) (\<lambda>e.
     if e then Inr H else
     res_bind (get_prev w H) (\<lambda>wprev. res_bind (get_next after H) (\<lambda>n. res_bind (set_next wprev n H) (\<lambda>H.
     res_bind (get_next after H) (\<lambda>n. res_bind (get_prev w H) (\<lambda>wprev. res_bind (set_prev n wprev H) (\<lambda>H.
     res_bind (get_next w H) (\<lambda>wnext. res_bind (set_prev wnext after H) (\<lambda>H.
     res_bind (get_next w H) (\<lambda>wnext. res_bind (set_next after wnext H) (clist_init w)))))))))))"

definition clist_move :: "nat \<Rightarrow> nat \<Rightarrow> cstore \<Rightarrow> cstore res" where
  "clist_move to from H = res_bind (clist_init to H) (\<lambda>H.
     res_bind (clist_insert_list_after from to H) (clist_init from))"

definition clist_unlink :: "nat \<Rightarrow> cstore \<Rightarrow> cstore res" where
  "clist_unlink n H = res_bind (clist_remove n H) (\<lambda>H. res_bind (set_next n 0 H) (set_prev n 0))"

definition clist_unlink_head :: "nat \<Rightarrow> cstore \<Rightarrow> (nat \<times> cstore) res" where
  "clist_unlink_head l H = res_bind (clist_head l H) (\<lambda>n.
     if n \<noteq> 0 then res_bind (clist_unlink n H) (\<lambda>H. Inr (n, H)) else Inr (n, H))"

definition clist_unlink_tail :: "nat \<Rightarrow> cstore \<Rightarrow> (nat \<times> cstore) res" where
  "clist_unlink_tail l H = res_bind (clist_tail l H) (\<lambda>n.
     if n \<noteq> 0 then res_bind (clist_unlink n H) (\<lambda>H. Inr (n, H)) else Inr (n, H))"

definition clist_is_linked :: "nat \<Rightarrow> cstore \<Rightarrow> bool res" where
  "clist_is_linked n H = res_bind (get_next n H) (\<lambda>m. Inr (m \<noteq> 0))"

section \<open>Stores and links\<close>

text \<open>The fields as functions, and the stores after a write.\<close>

definition nx :: "cstore \<Rightarrow> nat \<Rightarrow> nat" where "nx H a = cnext (the (H a))"
definition pv :: "cstore \<Rightarrow> nat \<Rightarrow> nat" where "pv H a = cprev (the (H a))"
definition wn :: "nat \<Rightarrow> nat \<Rightarrow> cstore \<Rightarrow> cstore" where "wn a v H = H(a \<mapsto> (the (H a))\<lparr>cnext := v\<rparr>)"
definition wp :: "nat \<Rightarrow> nat \<Rightarrow> cstore \<Rightarrow> cstore" where "wp a v H = H(a \<mapsto> (the (H a))\<lparr>cprev := v\<rparr>)"

lemma clist_access_simps [simp]:
  "a \<in> dom H \<Longrightarrow> get_next a H = Inr (nx H a)" "a \<in> dom H \<Longrightarrow> get_prev a H = Inr (pv H a)"
  "a \<in> dom H \<Longrightarrow> set_next a v H = Inr (wn a v H)" "a \<in> dom H \<Longrightarrow> set_prev a v H = Inr (wp a v H)"
  by (auto simp: get_next_def get_prev_def set_next_def set_prev_def nx_def pv_def wn_def wp_def)

lemma clist_field_simps [simp]:
  "nx (wn a v H) = (nx H)(a := v)" "pv (wn a v H) = pv H" "nx (wp a v H) = nx H" "pv (wp a v H) = (pv H)(a := v)"
  "dom (wn a v H) = insert a (dom H)" "dom (wp a v H) = insert a (dom H)"
  by (auto simp: nx_def pv_def wn_def wp_def fun_eq_iff)

fun links :: "cstore \<Rightarrow> nat list \<Rightarrow> bool" where
  "links H (a # b # r) \<longleftrightarrow> nx H a = b \<and> pv H b = a \<and> links H (b # r)"
| "links H _ \<longleftrightarrow> True"

text \<open>The list at \<open>l\<close> consists of the nodes \<open>xs\<close>.\<close>

definition clist :: "cstore \<Rightarrow> nat \<Rightarrow> nat list \<Rightarrow> bool" where
  "clist H l xs \<longleftrightarrow> distinct (l # xs) \<and> 0 \<notin> set (l # xs) \<and> set (l # xs) \<subseteq> dom H \<and> links H (l # xs @ [l])"

lemma links_append: "links H (xs @ a # ys) \<longleftrightarrow> links H (xs @ [a]) \<and> links H (a # ys)"
proof (induction xs)
  case (Cons x xs)
  then show ?case by (cases xs) auto
qed simp

lemma links_frame:
  "(\<And>a. a \<in> set (butlast ns) \<Longrightarrow> nx H' a = nx H a) \<Longrightarrow> (\<And>b. b \<in> set (tl ns) \<Longrightarrow> pv H' b = pv H b) \<Longrightarrow> links H' ns = links H ns"
  by (induction H ns rule: links.induct) auto

text \<open>Inserting a node between two neighbours, removing a node, and splicing a sequence.\<close>

lemma butlast_mid: "butlast (p @ a # b # s) = p @ a # butlast (b # s)"
  by (simp add: butlast_append)

lemma tl_mid: "tl (p @ a # s) = tl (p @ [a]) @ s"
  by (cases p) simp_all

lemma set_tl_subset: "x \<in> set (tl ns) \<Longrightarrow> x \<in> set ns"
  by (cases ns) auto

lemma links_insert:
  assumes "links H (p @ a # b # s)" "distinct (butlast (p @ a # b # s))" "distinct (tl (p @ a # b # s))"
    and w: "what \<notin> set (p @ a # b # s)" and n: "nx H' = (nx H)(what := b, a := what)" and v: "pv H' = (pv H)(what := a, b := what)"
  shows "links H' (p @ a # what # b # s)"
proof -
  have "distinct (p @ a # butlast (b # s))" using assms(2) unfolding butlast_mid .
  then have d1: "a \<notin> set p" "a \<notin> set (butlast (b # s))" by (simp_all del: butlast.simps)
  have "distinct (tl (p @ [a]) @ b # s)" using assms(3) unfolding tl_mid [of p a "b # s"] .
  then have d2: "b \<notin> set (tl (p @ [a]))" "b \<notin> set s" by auto
  have "links H (p @ [a])" "links H (b # s)" using assms(1) links_append [of H p a "b # s"] by auto
  moreover have "links H' (p @ [a]) = links H (p @ [a])"
    by (rule links_frame) (use w n v d1 d2 set_tl_subset [of _ "p @ [a]"] in auto)
  moreover have "links H' (b # s) = links H (b # s)"
    by (rule links_frame) (use w n v d1 d2 in_set_butlastD [of _ "b # s"] in \<open>auto simp del: butlast.simps\<close>)
  ultimately show ?thesis using w n v links_append [of H' p a "what # b # s"] by auto
qed

lemma links_remove:
  assumes "links H (p @ a # n # b # s)" "distinct (butlast (p @ a # n # b # s))" "distinct (tl (p @ a # n # b # s))"
    and n: "nx H' = (nx H)(a := b)" and v: "pv H' = (pv H)(b := a)"
  shows "links H' (p @ a # b # s)"
proof -
  have "distinct ((p @ [a]) @ n # butlast (b # s))" using assms(2) butlast_mid [of "p @ [a]" n b s] by simp
  then have d1: "a \<notin> set p" "a \<notin> set (butlast (b # s))" by (auto simp del: butlast.simps)
  have "distinct (tl (p @ [a]) @ n # b # s)" using assms(3) unfolding tl_mid [of p a "n # b # s"] .
  then have d2: "b \<notin> set (tl (p @ [a]))" "b \<notin> set s" by auto
  have "links H (p @ [a])" "links H (b # s)" using assms(1) links_append [of H p a "n # b # s"] by auto
  moreover have "links H' (p @ [a]) = links H (p @ [a])" by (rule links_frame) (use n v d1 d2 in auto)
  moreover have "links H' (b # s) = links H (b # s)"
    by (rule links_frame) (use n v d1 d2 in \<open>auto simp del: butlast.simps\<close>)
  ultimately show ?thesis using n v links_append [of H' p a "b # s"] by auto
qed

section \<open>The operations on lists\<close>

lemma clist_shape:
  assumes "clist H l xs"
  shows "distinct (butlast (l # xs @ [l]))" "distinct (tl (l # xs @ [l]))" "links H (l # xs @ [l])"
    "l \<noteq> 0" "l \<in> dom H" "\<And>x. x \<in> set xs \<Longrightarrow> x \<noteq> 0 \<and> x \<noteq> l \<and> x \<in> dom H"
  using assms unfolding clist_def by (auto simp: butlast_append intro!: gr0I)

lemma clist_ends:
  assumes "clist H l xs"
  shows "nx H l = hd (xs @ [l])" "pv H l = last (l # xs)"
proof -
  show "nx H l = hd (xs @ [l])" using clist_shape(3) [OF assms] by (cases xs) auto
  have "links H (butlast (l # xs) @ [last (l # xs), l])"
    using clist_shape(3) [OF assms] append_butlast_last_id [of "l # xs"] by (metis append.assoc append_Cons append_Nil list.distinct(1))
  then show "pv H l = last (l # xs)" by (simp only: links_append [of H _ _ "[l]"]) simp
qed

lemma clist_neighbours:
  assumes "clist H l (ys @ n # zs)"
  shows "nx H n = hd (zs @ [l])" "pv H n = last (l # ys)"
proof -
  have "links H ((l # ys) @ n # zs @ [l])" using clist_shape(3) [OF assms] by simp
  then have l: "links H ((l # ys) @ [n])" "links H (n # zs @ [l])" using links_append by blast+
  show "nx H n = hd (zs @ [l])" using l(2) by (cases zs) auto
  have "links H (butlast (l # ys) @ [last (l # ys), n])"
    using l(1) append_butlast_last_id [of "l # ys"] by (metis append.assoc append_Cons append_Nil list.distinct(1))
  then show "pv H n = last (l # ys)" by (simp only: links_append [of H _ _ "[n]"]) simp
qed

lemma write_other: "x \<noteq> a \<Longrightarrow> wn a v H x = H x" "x \<noteq> a \<Longrightarrow> wp a v H x = H x"
  by (simp_all add: wn_def wp_def)

lemma clist_init_ok:
  "l \<in> dom H \<Longrightarrow> l \<noteq> 0 \<Longrightarrow> \<exists>H'. clist_init l H = Inr H' \<and> clist H' l [] \<and> dom H' = dom H \<and> (\<forall>a. a \<noteq> l \<longrightarrow> H' a = H a)"
  by (auto simp: clist_init_def clist_def write_other)

lemma insert_ok:
  assumes "clist H l (ys @ zs)" "what \<notin> set (l # ys @ zs)" "what \<in> dom H" "what \<noteq> 0"
  shows "\<exists>H'. clist_insert_after what (last (l # ys)) H = Inr H' \<and> clist_insert_before what (hd (zs @ [l])) H = Inr H' \<and>
    clist H' l (ys @ what # zs) \<and> dom H' = dom H \<and> (\<forall>a. a \<notin> set (l # ys @ what # zs) \<longrightarrow> H' a = H a)"
proof -
  obtain p b r where f: "l # ys @ zs @ [l] = p @ last (l # ys) # b # r" "l # ys = p @ [last (l # ys)]"
    "zs @ [l] = b # r" "b = hd (zs @ [l])" by (rule list_split_at)
  let ?a = "last (l # ys)"
  have full: "l # (ys @ zs) @ [l] = p @ ?a # b # r" using f(1) by simp
  note sh = clist_shape(1-3) [OF assms(1), unfolded full]
  have nb: "nx H ?a = b" "pv H b = ?a" using sh(3) links_append [of H p ?a "b # r"] by simp_all
  have in_list: "?a \<in> set (l # ys @ zs)" "b \<in> set (l # ys @ zs)" using f(3) by (auto simp: Cons_eq_append_conv append_eq_Cons_conv) 
  then have dom: "?a \<in> dom H" "b \<in> dom H" "what \<noteq> b" "what \<noteq> ?a" using assms(1,2) by (auto simp: clist_def)
  let ?H = "wn ?a what (wp b what (wp what ?a (wn what b H)))"
  have op: "clist_insert_after what ?a H = Inr ?H" "clist_insert_before what b H = Inr ?H"
    using dom assms(3) nb by (simp_all add: clist_insert_after_def clist_insert_before_def)
  have "what \<notin> set (p @ ?a # b # r)" using assms(2) unfolding full [symmetric] by auto
  then have "links ?H (p @ ?a # what # b # r)" by (rule links_insert [OF sh(3,1,2)]) simp_all
  moreover have "l # (ys @ what # zs) @ [l] = p @ ?a # what # b # r"
  proof -
    have "l # (ys @ what # zs) @ [l] = (l # ys) @ what # zs @ [l]" by simp
    then show ?thesis unfolding f(3) using f(2) by (metis append.assoc append_Cons append_Nil)
  qed
  ultimately have "clist ?H l (ys @ what # zs)" using assms dom unfolding clist_def by (simp, blast)
  moreover have "?H a = H a" if "a \<notin> set (l # ys @ what # zs)" for a
  proof -
    have "a \<noteq> ?a" "a \<noteq> b" using that in_list by (metis UnCI list.set_intros set_append set_ConsD Un_iff)+
    then show ?thesis using that by (simp add: write_other del: last.simps)
  qed
  ultimately show ?thesis using op dom assms(3) f(4) by auto
qed

lemma remove_ok:
  assumes "clist H l (ys @ n # zs)"
  shows "\<exists>H'. clist_remove n H = Inr H' \<and> clist H' l (ys @ zs) \<and> dom H' = dom H \<and>
    (\<forall>a. a \<notin> set (l # ys @ zs) \<longrightarrow> H' a = H a)"
proof -
  obtain p b r where f: "l # ys @ zs @ [l] = p @ last (l # ys) # b # r" "l # ys = p @ [last (l # ys)]"
    "zs @ [l] = b # r" "b = hd (zs @ [l])" by (rule list_split_at)
  let ?a = "last (l # ys)"
  have full: "l # (ys @ n # zs) @ [l] = p @ ?a # n # b # r"
  proof -
    have "l # (ys @ n # zs) @ [l] = (l # ys) @ n # zs @ [l]" by simp
    then show ?thesis unfolding f(3) using f(2) by (metis append.assoc append_Cons append_Nil)
  qed
  note sh = clist_shape(1-3) [OF assms(1), unfolded full]
  have nb: "nx H n = b" "pv H n = ?a" using sh(3) links_append [of H p ?a "n # b # r"] by simp_all
  have in_list: "?a \<in> set (l # ys @ zs)" "b \<in> set (l # ys @ zs)" using f(3) by (auto simp: Cons_eq_append_conv append_eq_Cons_conv)
  then have dom: "?a \<in> dom H" "b \<in> dom H" "n \<in> dom H" using assms(1) by (auto simp: clist_def)
  let ?H = "wp b ?a (wn ?a b H)"
  have op: "clist_remove n H = Inr ?H" using dom nb by (simp add: clist_remove_def)
  have "links ?H (p @ ?a # b # r)" by (rule links_remove [OF sh(3,1,2)]) simp_all
  then have "clist ?H l (ys @ zs)" using assms dom f(1) unfolding clist_def by (simp, blast)
  moreover have "?H a = H a" if "a \<notin> set (l # ys @ zs)" for a
  proof -
    have "a \<noteq> ?a" "a \<noteq> b" using that in_list by (metis UnCI list.set_intros set_append set_ConsD Un_iff)+
    then show ?thesis using that by (simp add: write_other del: last.simps)
  qed
  ultimately show ?thesis using op dom by auto
qed

lemma links_splice:
  assumes "links H (p @ a # b # s)" "distinct (butlast (p @ a # b # s))" "distinct (tl (p @ a # b # s))"
    and ws: "links H ws" "ws \<noteq> []" "distinct ws" "set ws \<inter> set (p @ a # b # s) = {}" and w: "w \<notin> set ws" "w \<notin> set (p @ a # b # s)"
    and n: "nx H' = (nx H)(last ws := b, a := hd ws, w := w)" and v: "pv H' = (pv H)(b := last ws, hd ws := a, w := w)"
  shows "links H' (p @ a # ws @ b # s)"
proof -
  have "distinct (p @ a # butlast (b # s))" using assms(2) unfolding butlast_mid .
  then have d1: "a \<notin> set p" "a \<notin> set (butlast (b # s))" by (simp_all del: butlast.simps)
  have "distinct (tl (p @ [a]) @ b # s)" using assms(3) unfolding tl_mid [of p a "b # s"] .
  then have d2: "b \<notin> set (tl (p @ [a]))" "b \<notin> set s" by auto
  have e: "hd ws \<in> set ws" "last ws \<in> set ws" using ws(2) by simp_all
  have "distinct (butlast ws @ [last ws])" "distinct (hd ws # tl ws)" using ws(2,3) by simp_all
  then have e2: "last ws \<notin> set (butlast ws)" "hd ws \<notin> set (tl ws)" by (simp_all del: distinct_butlast)
  have dj: "x \<noteq> last ws" "x \<noteq> hd ws" "x \<noteq> w" if "x \<in> set (p @ a # b # s)" for x using that e ws(4) w by blast+
  have in1: "x \<in> set (p @ a # b # s)" if "x \<in> set p \<or> x \<in> set (tl (p @ [a])) \<or> x \<in> set (butlast (b # s)) \<or> x \<in> set s" for x
    using that set_tl_subset [of x "p @ [a]"] in_set_butlastD [of x "b # s"] by auto
  have in2: "x \<in> set ws" if "x \<in> set (butlast ws) \<or> x \<in> set (tl ws)" for x
    using that set_tl_subset [of x ws] in_set_butlastD [of x ws] by auto
  have ab: "x \<noteq> a" "x \<noteq> b" "x \<noteq> w" if "x \<in> set ws" for x using that ws(4) w(1) by auto
  have "links H (p @ [a])" "links H (b # s)" using assms(1) links_append [of H p a "b # s"] by auto
  moreover have "links H' (p @ [a]) = links H (p @ [a])"
  proof (rule links_frame)
    fix x assume "x \<in> set (butlast (p @ [a]))"
    then have x: "x \<in> set p" by simp
    then show "nx H' x = nx H x" unfolding n using dj [OF in1, of x] d1 by auto
  next
    fix x assume x: "x \<in> set (tl (p @ [a]))"
    then show "pv H' x = pv H x" unfolding v using dj [OF in1, of x] d2 by auto
  qed
  moreover have "links H' (b # s) = links H (b # s)"
  proof (rule links_frame)
    fix x assume "x \<in> set (butlast (b # s))"
    then show "nx H' x = nx H x" unfolding n using dj [OF in1, of x] d1 by (auto simp del: butlast.simps)
  next
    fix x assume "x \<in> set (tl (b # s))"
    then show "pv H' x = pv H x" unfolding v using dj [OF in1, of x] d2 by auto
  qed
  moreover have "links H' ws = links H ws"
  proof (rule links_frame)
    fix x assume x: "x \<in> set (butlast ws)"
    then have "x \<noteq> last ws" using e2(1) by blast
    then show "nx H' x = nx H x" unfolding n using ab [OF in2, of x] x by simp
  next
    fix x assume x: "x \<in> set (tl ws)"
    then have "x \<noteq> hd ws" using e2(2) by blast
    then show "pv H' x = pv H x" unfolding v using ab [OF in2, of x] x by simp
  qed
  moreover have "links H' (ws @ b # s) \<longleftrightarrow> links H' ws \<and> links H' (last ws # b # s)"
    using links_append [of H' "butlast ws" "last ws" "b # s"] append_butlast_last_id [OF ws(2)] by (metis append.assoc append_Cons append_Nil)
  moreover have "nx H' (last ws) = b" "pv H' b = last ws" "nx H' a = hd ws" "pv H' (hd ws) = a"
    unfolding n v using ab [OF e(1)] ab [OF e(2)] dj [of a] dj [of b] by auto
  moreover have "links H' (a # ws @ b # s) \<longleftrightarrow> nx H' a = hd ws \<and> pv H' (hd ws) = a \<and> links H' (ws @ b # s)"
    using ws(2) by (cases ws) auto
  ultimately show ?thesis using ws(1) links_append [of H' p a "ws @ b # s"] by auto
qed

lemma insert_list_ok:
  assumes "clist H l (ys @ zs)" "clist H w ws" "set (l # ys @ zs) \<inter> set (w # ws) = {}"
  shows "\<exists>H'. clist_insert_list_after w (last (l # ys)) H = Inr H' \<and> clist H' l (ys @ ws @ zs) \<and> clist H' w [] \<and>
    dom H' = dom H \<and> (\<forall>a. a \<notin> set (l # ys @ zs) \<and> a \<notin> set (w # ws) \<longrightarrow> H' a = H a)"
proof (cases "ws = []")
  case True
  then have "clist_insert_list_after w (last (l # ys)) H = Inr H"
    using clist_ends(1) [OF assms(2)] clist_shape(5) [OF assms(2)] by (simp add: clist_insert_list_after_def clist_empty_def)
  then show ?thesis using True assms by auto
next
  case False
  obtain p b r where f: "l # ys @ zs @ [l] = p @ last (l # ys) # b # r" "l # ys = p @ [last (l # ys)]"
    "zs @ [l] = b # r" "b = hd (zs @ [l])" by (rule list_split_at)
  let ?a = "last (l # ys)"
  have full: "l # (ys @ zs) @ [l] = p @ ?a # b # r" using f(1) by simp
  note sh = clist_shape(1-3) [OF assms(1), unfolded full]
  have nb: "nx H ?a = b" using sh(3) links_append [of H p ?a "b # r"] by simp
  have wend: "nx H w = hd ws" "pv H w = last ws" using clist_ends [OF assms(2)] False by simp_all
  have e: "hd ws \<in> set ws" "last ws \<in> set ws" using False by simp_all
  have in_list: "?a \<in> set (l # ys @ zs)" "b \<in> set (l # ys @ zs)" using f(3) by (auto simp: Cons_eq_append_conv append_eq_Cons_conv)
  have dom: "?a \<in> dom H" "b \<in> dom H" "w \<in> dom H" "hd ws \<in> dom H" "last ws \<in> dom H"
    using in_list e assms(1,2) unfolding clist_def by auto
  have ne: "?a \<noteq> last ws" "?a \<noteq> hd ws" "?a \<noteq> w" "b \<noteq> last ws" "b \<noteq> hd ws" "b \<noteq> w" "hd ws \<noteq> w" "last ws \<noteq> w"
    using in_list e assms(2,3) unfolding clist_def by (auto simp del: last.simps)
  let ?H = "wn w w (wp w w (wn ?a (hd ws) (wp (hd ws) ?a (wp b (last ws) (wn (last ws) b H)))))"
  have op: "clist_insert_list_after w ?a H = Inr ?H"
    using dom ne nb wend by (simp add: clist_insert_list_after_def clist_empty_def clist_init_def fun_upd_other del: last.simps)
  have wl: "links H ws" "distinct ws" "w \<notin> set ws"
  proof -
    have e: "w # ws @ [w] = (w # butlast ws) @ last ws # [w]"
      using False by (metis append.assoc append_Cons append_Nil append_butlast_last_id)
    have "links H (w # ws)"
      using clist_shape(3) [OF assms(2)] False unfolding e links_append [of H "w # butlast ws" "last ws" "[w]"] by simp
    then show "links H ws" by (cases ws) auto
    show "distinct ws" "w \<notin> set ws" using assms(2) by (simp_all add: clist_def)
  qed
  have dj: "set ws \<inter> set (p @ ?a # b # r) = {}" "w \<notin> set (p @ ?a # b # r)"
    using assms(3) unfolding full [symmetric] by auto
  have "links ?H (p @ ?a # ws @ b # r)"
    by (rule links_splice [OF sh(3,1,2) wl(1) False wl(2) dj(1) wl(3) dj(2)]) simp_all
  moreover have "l # (ys @ ws @ zs) @ [l] = p @ ?a # ws @ b # r"
  proof -
    have "l # (ys @ ws @ zs) @ [l] = (l # ys) @ ws @ zs @ [l]" by simp
    then show ?thesis unfolding f(3) using f(2) by (metis append.assoc append_Cons append_Nil)
  qed
  ultimately have "clist ?H l (ys @ ws @ zs)" using assms dom unfolding clist_def by (simp, blast)
  moreover have "clist ?H w []" using assms(2) by (simp add: clist_def)
  moreover have "?H x = H x" if "x \<notin> set (l # ys @ zs)" "x \<notin> set (w # ws)" for x
  proof -
    have "x \<noteq> ?a" "x \<noteq> b" "x \<noteq> w" "x \<noteq> hd ws" "x \<noteq> last ws" using that in_list e by (metis list.set_intros)+
    then show ?thesis by (simp add: write_other del: last.simps)
  qed
  ultimately show ?thesis using op dom by auto
qed

lemma walk_ok:
  assumes "links H (zs @ [l])" "l \<notin> set zs" "set zs \<subseteq> dom H"
  shows "clist_walk (hd (zs @ [l])) l H = Some (Inr zs)"
  using assms
proof (induction zs)
  case Nil
  then show ?case by (simp add: clist_walk.simps)
next
  case (Cons z zs)
  then obtain c where c: "H z = Some c" by auto
  have "nx H z = hd (zs @ [l])" "links H (zs @ [l])" using Cons.prems(1) by (cases zs; simp)+
  then have "clist_walk (cnext c) l H = Some (Inr zs)" using Cons c by (simp add: nx_def)
  then show ?case using Cons.prems(2) c by (simp add: clist_walk.simps [of z])
qed

lemma walk_back_ok:
  assumes "links H (l # ys)" "l \<notin> set ys" "set ys \<subseteq> dom H"
  shows "clist_walk_back (last (l # ys)) l H = Some (Inr (rev ys))"
  using assms
proof (induction ys rule: rev_induct)
  case Nil
  then show ?case by (simp add: clist_walk_back.simps)
next
  case (snoc y ys)
  then obtain c where c: "H y = Some c" by auto
  have "links H (butlast (l # ys) @ last (l # ys) # [y])"
    using snoc.prems(1) append_butlast_last_id [of "l # ys"] by (metis append.assoc append_Cons append_Nil list.distinct(1))
  then have "pv H y = last (l # ys)" "links H (l # ys)"
    using links_append [of H "butlast (l # ys)" "last (l # ys)" "[y]"] append_butlast_last_id [of "l # ys"]
    by (simp_all del: last.simps butlast.simps)
  then have "clist_walk_back (cprev c) l H = Some (Inr (rev ys))" using snoc c by (simp add: pv_def del: last.simps)
  then show ?case using snoc.prems(2) c by (simp add: clist_walk_back.simps [of y])
qed

lemma move_ok:
  assumes "clist H f xs" "t \<in> dom H" "t \<noteq> 0" "t \<notin> set (f # xs)"
  shows "\<exists>H'. clist_move t f H = Inr H' \<and> clist H' t xs \<and> clist H' f [] \<and> dom H' = dom H \<and>
    (\<forall>a. a \<noteq> t \<and> a \<notin> set (f # xs) \<longrightarrow> H' a = H a)"
proof -
  obtain H1 where H1: "clist_init t H = Inr H1" "clist H1 t []" "dom H1 = dom H" "\<forall>a. a \<noteq> t \<longrightarrow> H1 a = H a"
    using clist_init_ok [OF assms(2,3)] by blast
  have "links H1 (f # xs @ [f]) = links H (f # xs @ [f])"
    by (rule links_frame) (use H1(4) assms(4) in \<open>auto simp: nx_def pv_def butlast_append\<close>)
  then have "clist H1 f xs" using assms(1) H1(3) by (simp add: clist_def)
  then obtain H2 where H2: "clist_insert_list_after f t H1 = Inr H2" "clist H2 t xs" "clist H2 f []" "dom H2 = dom H1"
      "\<forall>a. a \<notin> set [t] \<and> a \<notin> set (f # xs) \<longrightarrow> H2 a = H1 a"
    using insert_list_ok [of H1 t "[]" "[]" f xs] H1(2) assms(4) by auto
  have fd: "f \<in> dom H2" "f \<noteq> 0" using H2(3) by (simp_all add: clist_def)
  obtain H3 where H3: "clist_init f H2 = Inr H3" "clist H3 f []" "dom H3 = dom H2" "\<forall>a. a \<noteq> f \<longrightarrow> H3 a = H2 a"
    using clist_init_ok [OF fd] by blast
  have "f \<notin> set (t # xs)" using assms(1,4) by (auto simp: clist_def)
  then have "links H3 (t # xs @ [t]) = links H2 (t # xs @ [t])"
    by (intro links_frame) (use H3(4) in \<open>auto simp: nx_def pv_def butlast_append\<close>)
  then have "clist H3 t xs" using H2(2) H3(3) by (simp add: clist_def)
  then show ?thesis using H1 H2 H3 by (intro exI [of _ H3]) (simp add: clist_move_def)
qed

lemma ends_ok:
  assumes "clist H l xs"
  shows "clist_head l H = Inr (if xs = [] then 0 else hd xs)" "clist_tail l H = Inr (if xs = [] then 0 else last xs)"
    "clist_empty l H = Inr (xs = [])"
proof -
  have "hd xs \<noteq> l" "last xs \<noteq> l" if "xs \<noteq> []"
    using clist_shape(6) [OF assms] that hd_in_set [OF that] last_in_set [OF that] by blast+
  then show "clist_head l H = Inr (if xs = [] then 0 else hd xs)" "clist_tail l H = Inr (if xs = [] then 0 else last xs)"
    "clist_empty l H = Inr (xs = [])"
    using clist_ends [OF assms] clist_shape(5) [OF assms] by (cases xs; auto simp: clist_head_def clist_tail_def clist_empty_def)+
qed

lemma steps_ok:
  assumes "clist H l (ys @ n # zs)"
  shows "clist_next l n H = Inr (if zs = [] then 0 else hd zs)" "clist_prev l n H = Inr (if ys = [] then 0 else last ys)"
proof -
  note x = clist_shape(6) [OF assms]
  have "hd zs \<noteq> l" if "zs \<noteq> []" using x [of "hd zs"] hd_in_set [OF that] by simp
  moreover have "last ys \<noteq> l" if "ys \<noteq> []" using x [of "last ys"] last_in_set [OF that] by simp
  ultimately show "clist_next l n H = Inr (if zs = [] then 0 else hd zs)" "clist_prev l n H = Inr (if ys = [] then 0 else last ys)"
    using clist_neighbours [OF assms] x [of n] by (auto simp: clist_next_def clist_prev_def)
qed

lemma loops_ok:
  assumes "clist H l xs"
  shows "CLIST_FOR_EACH l H = Some (Inr xs)" "CLIST_FOR_EACH_BACKWARDS l H = Some (Inr (rev xs))"
    "clist_size l H = Some (Inr (length xs mod 2 ^ 32))"
proof -
  have ll: "links H ((l # xs) @ l # [])" using clist_shape(3) [OF assms] by simp
  have f: "links H (xs @ [l])" using clist_shape(3) [OF assms] by (cases xs) auto
  have b: "links H (l # xs)"
  proof (cases xs rule: rev_cases)
    case (snoc ys y)
    then have "links H ((l # ys) @ y # [l])" using clist_shape(3) [OF assms] by simp
    then show ?thesis using links_append [of H "l # ys" y "[l]"] snoc by simp
  qed simp
  have d: "l \<notin> set xs" "set xs \<subseteq> dom H" "l \<in> dom H" using assms by (auto simp: clist_def)
  show "CLIST_FOR_EACH l H = Some (Inr xs)"
    using walk_ok [OF f d(1,2)] clist_ends(1) [OF assms] d(3) by (simp add: CLIST_FOR_EACH_def)
  then show "clist_size l H = Some (Inr (length xs mod 2 ^ 32))" by (simp add: clist_size_def)
  show "CLIST_FOR_EACH_BACKWARDS l H = Some (Inr (rev xs))"
    using walk_back_ok [OF b d(1,2)] clist_ends(2) [OF assms] d(3) by (simp add: CLIST_FOR_EACH_BACKWARDS_def del: last.simps)
qed

lemma clist_unlink_ok:
  assumes "clist H l (ys @ n # zs)"
  shows "\<exists>H'. clist_unlink n H = Inr H' \<and> clist H' l (ys @ zs) \<and> dom H' = dom H \<and> clist_is_linked n H' = Inr False"
proof -
  obtain H1 where H1: "clist_remove n H = Inr H1" "clist H1 l (ys @ zs)" "dom H1 = dom H" using remove_ok [OF assms] by blast
  have n: "n \<in> dom H" "n \<notin> set (l # ys @ zs)" using assms by (auto simp: clist_def)
  let ?H = "wp n 0 (wn n 0 H1)"
  have "links ?H (l # (ys @ zs) @ [l]) = links H1 (l # (ys @ zs) @ [l])"
    by (rule links_frame) (use n(2) in \<open>auto simp: butlast_append split: if_splits dest: in_set_butlastD\<close>)
  then have "clist ?H l (ys @ zs)" using H1(2) unfolding clist_def by auto
  then show ?thesis using H1 n(1) by (intro exI [of _ ?H]) (auto simp: clist_unlink_def clist_is_linked_def)
qed

lemma remove_ends_ok:
  assumes "clist H l xs"
  shows "xs = [] \<Longrightarrow> clist_remove_head l H = Inr (0, H) \<and> clist_remove_tail l H = Inr (0, H) \<and>
      clist_unlink_head l H = Inr (0, H) \<and> clist_unlink_tail l H = Inr (0, H)"
    and "xs \<noteq> [] \<Longrightarrow> clist_remove_head l H = res_bind (clist_remove (hd xs) H) (\<lambda>H'. Inr (hd xs, H')) \<and>
      clist_remove_tail l H = res_bind (clist_remove (last xs) H) (\<lambda>H'. Inr (last xs, H')) \<and>
      clist_unlink_head l H = res_bind (clist_unlink (hd xs) H) (\<lambda>H'. Inr (hd xs, H')) \<and>
      clist_unlink_tail l H = res_bind (clist_unlink (last xs) H) (\<lambda>H'. Inr (last xs, H'))"
proof -
  have "hd xs \<noteq> 0" "last xs \<noteq> 0" if "xs \<noteq> []"
    using clist_shape(6) [OF assms] hd_in_set [OF that] last_in_set [OF that] by blast+
  then show "xs = [] \<Longrightarrow> clist_remove_head l H = Inr (0, H) \<and> clist_remove_tail l H = Inr (0, H) \<and>
      clist_unlink_head l H = Inr (0, H) \<and> clist_unlink_tail l H = Inr (0, H)"
    "xs \<noteq> [] \<Longrightarrow> clist_remove_head l H = res_bind (clist_remove (hd xs) H) (\<lambda>H'. Inr (hd xs, H')) \<and>
      clist_remove_tail l H = res_bind (clist_remove (last xs) H) (\<lambda>H'. Inr (last xs, H')) \<and>
      clist_unlink_head l H = res_bind (clist_unlink (hd xs) H) (\<lambda>H'. Inr (hd xs, H')) \<and>
      clist_unlink_tail l H = res_bind (clist_unlink (last xs) H) (\<lambda>H'. Inr (last xs, H'))"
    using ends_ok [OF assms] by (simp_all add: clist_remove_head_def clist_remove_tail_def clist_unlink_head_def clist_unlink_tail_def)
qed

interpretation clist_fifo: fifo "\<lambda>H. clist H l" "\<lambda>H n. n \<in> dom H \<and> n \<noteq> 0 \<and> n \<noteq> l" "clist_add_tail l" "clist_remove_head l" for l
proof unfold_locales
  fix H xs n
  assume "clist H l xs" "n \<in> dom H \<and> n \<noteq> 0 \<and> n \<noteq> l" "n \<notin> set xs"
  then show "\<exists>H'. clist_add_tail l n H = Inr H' \<and> clist H' l (xs @ [n]) \<and>
      (\<lambda>m. m \<in> dom H' \<and> m \<noteq> 0 \<and> m \<noteq> l) = (\<lambda>m. m \<in> dom H \<and> m \<noteq> 0 \<and> m \<noteq> l)"
    using insert_ok [of H l xs "[]" n] by (auto simp: clist_add_tail_def)
next
  fix H
  assume "clist H l []"
  then show "clist_remove_head l H = Inr (0, H)" using remove_ends_ok(1) by blast
next
  fix H x xs
  assume c: "clist H l (x # xs)"
  obtain H' where "clist_remove x H = Inr H'" "clist H' l xs" "dom H' = dom H" using remove_ok [of H l "[]" x xs] c by auto
  then show "\<exists>H'. clist_remove_head l H = Inr (x, H') \<and> clist H' l xs \<and>
      (\<lambda>m. m \<in> dom H' \<and> m \<noteq> 0 \<and> m \<noteq> l) = (\<lambda>m. m \<in> dom H \<and> m \<noteq> 0 \<and> m \<noteq> l)"
    using remove_ends_ok(2) [OF c] by auto
next
  fix H xs
  assume "clist H l xs"
  then show "0 \<notin> set xs" by (simp add: clist_def)
qed

section \<open>Properties\<close>

text \<open>C20: Circular doubly linked lists implement sequences of nodes. On a well-formed list: inserting a node after
  or before any position puts it exactly there; removing a node takes out exactly it; inserting a whole list
  splices its nodes in and leaves it empty; the ends, neighbours, loops in both directions and the size are those
  of the sequence. No operation faults, none touches memory outside of the lists, and all keep the lists
  well-formed.\<close>

theorem clist_implements_sequence:
  assumes "clist H l (ys @ zs)"
  shows "(what \<notin> set (l # ys @ zs) \<and> what \<in> dom H \<and> what \<noteq> 0 \<longrightarrow>
      (\<exists>H'. clist_insert_after what (last (l # ys)) H = Inr H' \<and> clist_insert_before what (hd (zs @ [l])) H = Inr H' \<and>
        clist H' l (ys @ what # zs) \<and> (\<forall>a. a \<notin> set (l # ys @ what # zs) \<longrightarrow> H' a = H a))) \<and>
    (zs \<noteq> [] \<longrightarrow>
      (\<exists>H'. clist_remove (hd zs) H = Inr H' \<and> clist H' l (ys @ tl zs) \<and> (\<forall>a. a \<notin> set (l # ys @ tl zs) \<longrightarrow> H' a = H a)) \<and>
      clist_next l (hd zs) H = Inr (if tl zs = [] then 0 else hd (tl zs)) \<and>
      clist_prev l (hd zs) H = Inr (if ys = [] then 0 else last ys)) \<and>
    (clist H w ws \<and> set (l # ys @ zs) \<inter> set (w # ws) = {} \<longrightarrow>
      (\<exists>H'. clist_insert_list_after w (last (l # ys)) H = Inr H' \<and> clist H' l (ys @ ws @ zs) \<and> clist H' w [] \<and>
        (\<forall>a. a \<notin> set (l # ys @ zs) \<and> a \<notin> set (w # ws) \<longrightarrow> H' a = H a))) \<and>
    clist_head l H = Inr (if ys @ zs = [] then 0 else hd (ys @ zs)) \<and>
    clist_tail l H = Inr (if ys @ zs = [] then 0 else last (ys @ zs)) \<and>
    CLIST_FOR_EACH l H = Some (Inr (ys @ zs)) \<and> CLIST_FOR_EACH_BACKWARDS l H = Some (Inr (rev (ys @ zs))) \<and>
    clist_size l H = Some (Inr (length (ys @ zs) mod 2 ^ 32))"
proof (intro conjI impI)
  show "\<exists>H'. clist_insert_after what (last (l # ys)) H = Inr H' \<and> clist_insert_before what (hd (zs @ [l])) H = Inr H' \<and>
        clist H' l (ys @ what # zs) \<and> (\<forall>a. a \<notin> set (l # ys @ what # zs) \<longrightarrow> H' a = H a)"
    if "what \<notin> set (l # ys @ zs) \<and> what \<in> dom H \<and> what \<noteq> 0" using insert_ok [OF assms] that by blast
  have z: "clist H l (ys @ hd zs # tl zs)" if "zs \<noteq> []" using assms that by simp
  show "\<exists>H'. clist_remove (hd zs) H = Inr H' \<and> clist H' l (ys @ tl zs) \<and> (\<forall>a. a \<notin> set (l # ys @ tl zs) \<longrightarrow> H' a = H a)"
    if "zs \<noteq> []" using remove_ok [OF z [OF that]] by blast
  show "clist_next l (hd zs) H = Inr (if tl zs = [] then 0 else hd (tl zs))" if "zs \<noteq> []" by (rule steps_ok(1) [OF z [OF that]])
  show "clist_prev l (hd zs) H = Inr (if ys = [] then 0 else last ys)" if "zs \<noteq> []" by (rule steps_ok(2) [OF z [OF that]])
  show "\<exists>H'. clist_insert_list_after w (last (l # ys)) H = Inr H' \<and> clist H' l (ys @ ws @ zs) \<and> clist H' w [] \<and>
        (\<forall>a. a \<notin> set (l # ys @ zs) \<and> a \<notin> set (w # ws) \<longrightarrow> H' a = H a)"
    if "clist H w ws \<and> set (l # ys @ zs) \<inter> set (w # ws) = {}" using insert_list_ok [OF assms, of w ws] that by blast
qed (use ends_ok [OF assms] loops_ok [OF assms] in simp_all)

theorem clist_implements_sequence_witness:
  "\<exists>H H'. clist H 1 [2] \<and> clist_insert_after 3 2 H = Inr H' \<and> clist H' 1 [2, 3]"
proof -
  let ?H = "[1 \<mapsto> \<lparr>cnext = 2, cprev = 2\<rparr>, 2 \<mapsto> \<lparr>cnext = 1, cprev = 1\<rparr>, 3 \<mapsto> \<lparr>cnext = 0, cprev = 0\<rparr>]"
  have "clist ?H 1 ([2] @ [])" by (simp add: clist_def nx_def pv_def)
  moreover from clist_implements_sequence [OF this, where what = 3, THEN conjunct1]
  obtain H' where "clist_insert_after 3 (last [1, 2]) ?H = Inr H'" "clist H' 1 [2, 3]" by auto
  ultimately show ?thesis by (intro exI [of _ ?H] exI [of _ H']) simp
qed

text \<open>C39: Nodes put to the tail of an initialised list and then removed from its head come back in the order
  of their insertion, after which the list is empty; moving a list to another header moves the whole
  sequence; a node taken out by \<open>clist_unlink\<close> is recognised as not linked.\<close>

theorem clist_queue:
  assumes "l \<in> dom H" "l \<noteq> 0" "distinct ns" "\<forall>n\<in>set ns. n \<in> dom H \<and> n \<noteq> 0 \<and> n \<noteq> l"
  shows "\<exists>H1 H2 H3. clist_init l H = Inr H1 \<and> add_all (clist_add_tail l) ns H1 = Inr H2 \<and>
    remove_all (clist_remove_head l) (length ns + 1) H2 = Inr (ns, H3) \<and> clist_empty l H3 = Inr True \<and>
    (\<forall>t \<in> dom H. t \<noteq> 0 \<longrightarrow> t \<notin> set (l # ns) \<longrightarrow> (\<exists>H4. clist_move t l H2 = Inr H4 \<and> clist H4 t ns \<and> clist H4 l [])) \<and>
    (\<forall>n \<in> set ns. \<exists>H5. clist_unlink n H2 = Inr H5 \<and> clist H5 l (remove1 n ns) \<and> clist_is_linked n H5 = Inr False)"
proof -
  obtain H1 where H1: "clist_init l H = Inr H1" "clist H1 l []" "dom H1 = dom H" using clist_init_ok [OF assms(1,2)] by blast
  obtain H2 where H2: "add_all (clist_add_tail l) ns H1 = Inr H2" "clist H2 l ([] @ ns)"
      "(\<lambda>m. m \<in> dom H2 \<and> m \<noteq> 0 \<and> m \<noteq> l) = (\<lambda>m. m \<in> dom H1 \<and> m \<noteq> 0 \<and> m \<noteq> l)"
    using clist_fifo.add_all_rep [OF H1(2), of ns] assms(3,4) H1(3) by auto
  obtain H3 where H3: "remove_all (clist_remove_head l) (length ns + 1) H2 = Inr (ns, H3)" "clist H3 l []"
    using clist_fifo.remove_all_rep [of H2 l ns "length ns + 1"] H2(2) by auto
  have "clist_empty l H3 = Inr True" using ends_ok(3) [OF H3(2)] by simp
  moreover have "\<exists>H4. clist_move t l H2 = Inr H4 \<and> clist H4 t ns \<and> clist H4 l []" if "t \<in> dom H" "t \<noteq> 0" "t \<notin> set (l # ns)" for t
  proof -
    have "t \<in> dom H2" using fun_cong [OF H2(3), of t] that H1(3) by auto
    then show ?thesis using move_ok [of H2 l ns t] H2(2) that by auto
  qed
  moreover have "\<exists>H5. clist_unlink n H2 = Inr H5 \<and> clist H5 l (remove1 n ns) \<and> clist_is_linked n H5 = Inr False" if n: "n \<in> set ns" for n
  proof -
    obtain ys zs where ns: "ns = ys @ n # zs" "n \<notin> set ys" using split_list_first [OF n] by blast
    then have "remove1 n ns = ys @ zs" by (simp add: remove1_append)
    moreover have "clist H2 l (ys @ n # zs)" using H2(2) ns(1) by simp
    ultimately show ?thesis using clist_unlink_ok [of H2 l ys n zs] by auto
  qed
  ultimately show ?thesis using H1(1) H2(1) H3(1) by blast
qed

theorem clist_queue_witness:
  "\<exists>H1 H2 H3. clist_init 1 (\<lambda>a. Some \<lparr>cnext = 0, cprev = 0\<rparr>) = Inr H1 \<and> add_all (clist_add_tail 1) [7, 3] H1 = Inr H2 \<and>
     remove_all (clist_remove_head 1) (length [7 :: nat, 3] + 1) H2 = Inr ([7, 3], H3)"
proof -
  let ?H = "\<lambda>a :: nat. Some \<lparr>cnext = 0, cprev = 0\<rparr>"
  have "1 \<in> dom ?H" "(1 :: nat) \<noteq> 0" "distinct [7 :: nat, 3]" "\<forall>n\<in>set [7 :: nat, 3]. n \<in> dom ?H \<and> n \<noteq> 0 \<and> n \<noteq> 1" by auto
  from clist_queue [OF this] show ?thesis by blast
qed

end
