(* ===== verification/Slists.thy ===== *)
theory Slists
  imports Ucw_Interfaces
begin

text \<open>
  \<open>ucw/slists.h\<close> and \<open>ucw/slists.c\<close>: singly linked lists with a pointer to the last node. Memory is a
  partial map from addresses to the \<open>next\<close> pointers of the nodes; the head of a list is a node at the
  address of the list, and its pointer \<open>last\<close> is kept beside. The address 0 is the null pointer.
\<close>

section \<open>Operations\<close>

record sstore =
  snext :: "nat \<Rightarrow> nat option"
  slast :: nat

definition read_next :: "nat \<Rightarrow> sstore \<Rightarrow> nat res" where
  "read_next a S = (case snext S a of None \<Rightarrow> Inl Out_of_bounds | Some n \<Rightarrow> Inr n)"

definition write_next :: "nat \<Rightarrow> nat \<Rightarrow> sstore \<Rightarrow> sstore res" where
  "write_next a v S = (case snext S a of None \<Rightarrow> Inl Out_of_bounds | Some n \<Rightarrow> Inr (S\<lparr>snext := (snext S)(a \<mapsto> v)\<rparr>))"

definition slist_init :: "nat \<Rightarrow> sstore \<Rightarrow> sstore res" where
  "slist_init l S = write_next l 0 (S\<lparr>slast := 0\<rparr>)"

definition slist_head :: "nat \<Rightarrow> sstore \<Rightarrow> nat res" where
  "slist_head l S = read_next l S"

definition slist_tail :: "sstore \<Rightarrow> nat" where
  "slist_tail S = slast S"

definition slist_next :: "nat \<Rightarrow> sstore \<Rightarrow> nat res" where
  "slist_next n S = read_next n S"

definition slist_empty :: "nat \<Rightarrow> sstore \<Rightarrow> bool res" where
  "slist_empty l S = res_bind (read_next l S) (\<lambda>n. Inr (n = 0))"

definition slist_add_head :: "nat \<Rightarrow> nat \<Rightarrow> sstore \<Rightarrow> sstore res" where
  "slist_add_head l n S = res_bind (read_next l S) (\<lambda>h. res_bind (write_next n h S) (\<lambda>S.
     res_bind (write_next l n S) (\<lambda>S. Inr (if slast S = 0 then S\<lparr>slast := n\<rparr> else S))))"

definition slist_add_tail :: "nat \<Rightarrow> nat \<Rightarrow> sstore \<Rightarrow> sstore res" where
  "slist_add_tail l n S = res_bind (if slast S \<noteq> 0 then write_next (slast S) n S else write_next l n S) (\<lambda>S.
     res_bind (write_next n 0 S) (\<lambda>S. Inr (S\<lparr>slast := n\<rparr>)))"

definition slist_insert_after :: "nat \<Rightarrow> nat \<Rightarrow> sstore \<Rightarrow> sstore res" where
  "slist_insert_after what after S = res_bind (read_next after S) (\<lambda>n. res_bind (write_next what n S) (\<lambda>S.
     res_bind (write_next after what S) (\<lambda>S. res_bind (read_next what S) (\<lambda>n.
     Inr (if n = 0 then S\<lparr>slast := what\<rparr> else S)))))"

definition slist_remove_after :: "nat \<Rightarrow> nat \<Rightarrow> sstore \<Rightarrow> sstore res" where
  "slist_remove_after l after S = res_bind (read_next after S) (\<lambda>n.
     if n \<noteq> 0 then res_bind (read_next n S) (\<lambda>m. res_bind (write_next after m S) (\<lambda>S.
       Inr (if slast S = n then S\<lparr>slast := (if after = l then 0 else after)\<rparr> else S)))
     else Inr S)"

definition slist_remove_head :: "nat \<Rightarrow> sstore \<Rightarrow> (nat \<times> sstore) res" where
  "slist_remove_head l S = res_bind (slist_head l S) (\<lambda>n.
     if n \<noteq> 0 then res_bind (slist_remove_after l l S) (\<lambda>S. Inr (n, S)) else Inr (n, S))"

text \<open>The loops, as the list of the nodes they visit, and the search for the predecessor of a node.\<close>

partial_function (option) slist_walk :: "nat \<Rightarrow> sstore \<Rightarrow> nat list res option" where
  "slist_walk n S = (if n = 0 then Some (Inr []) else
     case read_next n S of
       Inl e \<Rightarrow> Some (Inl e)
     | Inr m \<Rightarrow> Option.bind (slist_walk m S) (\<lambda>r. Some (res_bind r (\<lambda>ns. Inr (n # ns)))))"

definition SLIST_FOR_EACH :: "nat \<Rightarrow> sstore \<Rightarrow> nat list res option" where
  "SLIST_FOR_EACH l S = (case read_next l S of Inl e \<Rightarrow> Some (Inl e) | Inr n \<Rightarrow> slist_walk n S)"

definition slist_size :: "nat \<Rightarrow> sstore \<Rightarrow> nat res option" where
  "slist_size l S = Option.bind (SLIST_FOR_EACH l S) (\<lambda>r. Some (res_bind r (\<lambda>ns. Inr (length ns mod 2 ^ 32))))"

partial_function (option) slist_raw_prev :: "nat \<Rightarrow> nat \<Rightarrow> sstore \<Rightarrow> nat res option" where
  "slist_raw_prev m n S = (if m = 0 then Some (Inl Assert_failed) else
     case read_next m S of
       Inl e \<Rightarrow> Some (Inl e)
     | Inr x \<Rightarrow> if n = x then Some (Inr m) else slist_raw_prev x n S)"

definition slist_prev :: "nat \<Rightarrow> nat \<Rightarrow> sstore \<Rightarrow> nat res option" where
  "slist_prev l n S = Option.bind (slist_raw_prev l n S) (\<lambda>r. Some (res_bind r (\<lambda>p. Inr (if p = l then 0 else p))))"

definition slist_insert_before :: "nat \<Rightarrow> nat \<Rightarrow> nat \<Rightarrow> sstore \<Rightarrow> sstore res option" where
  "slist_insert_before l what before S = (case write_next what before S of
     Inl e \<Rightarrow> Some (Inl e)
   | Inr S \<Rightarrow> Option.bind (slist_raw_prev l before S) (\<lambda>r. Some (res_bind r (\<lambda>p. write_next p what S))))"

definition slist_remove :: "nat \<Rightarrow> nat \<Rightarrow> sstore \<Rightarrow> sstore res option" where
  "slist_remove l n S = (if n \<noteq> 0
     then Option.bind (slist_raw_prev l n S) (\<lambda>r. Some (res_bind r (\<lambda>p. slist_remove_after l p S)))
     else Some (Inr S))"

definition slist_remove_tail :: "nat \<Rightarrow> sstore \<Rightarrow> sstore res option" where
  "slist_remove_tail l S = slist_remove l (slast S) S"

section \<open>Chains\<close>

fun chain :: "(nat \<Rightarrow> nat option) \<Rightarrow> nat list \<Rightarrow> bool" where
  "chain N (a # b # r) \<longleftrightarrow> N a = Some b \<and> chain N (b # r)"
| "chain N _ \<longleftrightarrow> True"

definition slist :: "sstore \<Rightarrow> nat \<Rightarrow> nat list \<Rightarrow> bool" where
  "slist S l xs \<longleftrightarrow> distinct (l # xs) \<and> 0 \<notin> set (l # xs) \<and> chain (snext S) (l # xs @ [0]) \<and>
     slast S = (if xs = [] then 0 else last xs)"

lemma chain_append: "chain N (xs @ a # ys) \<longleftrightarrow> chain N (xs @ [a]) \<and> chain N (a # ys)"
proof (induction xs)
  case (Cons x xs)
  then show ?case by (cases xs) auto
qed simp

lemma chain_frame: "(\<And>a. a \<in> set (butlast ns) \<Longrightarrow> N' a = N a) \<Longrightarrow> chain N' ns = chain N ns"
  by (induction N ns rule: chain.induct) auto

lemma chain_dom: "chain N (xs @ [e]) \<Longrightarrow> x \<in> set xs \<Longrightarrow> x \<in> dom N"
proof (induction xs)
  case (Cons y xs)
  then show ?case by (cases xs) auto
qed simp

text \<open>A chain through \<open>a\<close> and its successor, changed at \<open>a\<close>.\<close>

lemma chain_mid: "chain N (p @ a # b # r) \<longleftrightarrow> chain N (p @ [a]) \<and> N a = Some b \<and> chain N (b # r)"
  using chain_append [of N p a "b # r"] by auto

lemma chain_update:
  assumes "a \<notin> set p"
  shows "chain (N(a \<mapsto> v)) (p @ [a]) = chain N (p @ [a])"
  by (rule chain_frame) (use assms in auto)

lemma chain_update2:
  assumes "a \<notin> set (butlast ns)"
  shows "chain (N(a \<mapsto> v)) ns = chain N ns"
  by (rule chain_frame) (use assms in auto)

lemma slist_access_simps [simp]:
  "snext S a = Some n \<Longrightarrow> read_next a S = Inr n"
  "a \<in> dom (snext S) \<Longrightarrow> write_next a v S = Inr (S\<lparr>snext := (snext S)(a \<mapsto> v)\<rparr>)"
  by (auto simp: read_next_def write_next_def)

section \<open>The operations on lists\<close>

lemma slist_pos:
  assumes "slist S l (ys @ zs)"
  obtains p b r where "l # ys @ zs @ [0] = p @ last (l # ys) # b # r" "l # ys = p @ [last (l # ys)]" "zs @ [0] = b # r"
    "b = hd (zs @ [0])" "chain (snext S) (p @ [last (l # ys)])" "snext S (last (l # ys)) = Some b" "chain (snext S) (b # r)"
    "last (l # ys) \<notin> set p" "last (l # ys) \<notin> set (butlast (b # r))"
proof -
  obtain p b r where f: "l # ys @ zs @ [0] = p @ last (l # ys) # b # r" "l # ys = p @ [last (l # ys)]" "zs @ [0] = b # r"
    "b = hd (zs @ [0])" by (rule list_split_at)
  have c: "chain (snext S) (p @ [last (l # ys)])" "snext S (last (l # ys)) = Some b" "chain (snext S) (b # r)"
    using assms f(1) unfolding slist_def by (simp_all add: chain_mid del: last.simps)
  have d: "distinct (l # ys @ zs)" using assms by (simp add: slist_def)
  have "butlast (b # r) = zs" using f(3) by (metis butlast_snoc)
  moreover have "distinct ((l # ys) @ zs)" using d by simp
  then have "distinct (p @ [last (l # ys)] @ zs)" by (metis f(2) append.assoc)
  ultimately show ?thesis using that [OF f c] by (auto simp del: last.simps butlast.simps)
qed

lemma slist_parts: "slist S l xs \<Longrightarrow> distinct (l # xs) \<and> 0 \<notin> set (l # xs) \<and> set (l # xs) \<subseteq> dom (snext S)"
  using chain_dom [of "snext S" "l # xs" 0] by (auto simp: slist_def)

lemma insert_slist:
  assumes "slist S l (ys @ zs)" "what \<notin> set (l # ys @ zs)" "what \<noteq> 0"
  shows "slist \<lparr>snext = (snext S)(what \<mapsto> hd (zs @ [0]), last (l # ys) \<mapsto> what), slast = (if zs = [] then what else last zs)\<rparr> l (ys @ what # zs)"
proof -
  obtain p b r where f: "l # ys @ zs @ [0] = p @ last (l # ys) # b # r" "l # ys = p @ [last (l # ys)]" "zs @ [0] = b # r"
    "b = hd (zs @ [0])" "chain (snext S) (p @ [last (l # ys)])" "snext S (last (l # ys)) = Some b" "chain (snext S) (b # r)"
    "last (l # ys) \<notin> set p" "last (l # ys) \<notin> set (butlast (b # r))" by (rule slist_pos [OF assms(1)])
  let ?a = "last (l # ys)" and ?N = "(snext S)(what \<mapsto> hd (zs @ [0]), last (l # ys) \<mapsto> what)"
  have w: "what \<notin> set (p @ [?a])" "what \<notin> set (butlast (b # r))" "what \<noteq> ?a"
  proof -
    show "what \<notin> set (p @ [?a])" unfolding f(2) [symmetric] using assms(2) by simp
    then show "what \<noteq> ?a" by auto
    have "butlast (b # r) = zs" using f(3) by (metis butlast_snoc)
    then show "what \<notin> set (butlast (b # r))" using assms(2) by simp
  qed
  have "chain ?N (p @ [?a])" using f(5) chain_update [OF f(8)] chain_update2 [of what "p @ [?a]"] w(1) by (simp del: last.simps)
  moreover have "chain ?N (b # r)" using f(7) chain_update2 [OF f(9)] chain_update2 [OF w(2)] by (simp del: last.simps butlast.simps)
  moreover have "?N ?a = Some what" "?N what = Some b" using w(3) f(4) by (simp_all del: last.simps)
  ultimately have "chain ?N (p @ ?a # what # b # r)" by (simp add: chain_mid del: last.simps fun_upd_apply)
  moreover have "l # (ys @ what # zs) @ [0] = p @ ?a # what # b # r"
  proof -
    have "l # (ys @ what # zs) @ [0] = (l # ys) @ what # zs @ [0]" by simp
    then show ?thesis unfolding f(3) using f(2) by (metis append.assoc append_Cons append_Nil)
  qed
  ultimately show ?thesis using assms by (auto simp: slist_def simp del: last.simps) simp_all
qed

lemma remove_slist:
  assumes "slist S l (ys @ n # zs)"
  shows "slist \<lparr>snext = (snext S)(last (l # ys) \<mapsto> hd (zs @ [0])),
    slast = (if zs \<noteq> [] then last zs else if ys = [] then 0 else last ys)\<rparr> l (ys @ zs)"
proof -
  obtain p b r where f: "l # ys @ (n # zs) @ [0] = p @ last (l # ys) # b # r" "l # ys = p @ [last (l # ys)]" "(n # zs) @ [0] = b # r"
    "b = hd ((n # zs) @ [0])" "chain (snext S) (p @ [last (l # ys)])" "snext S (last (l # ys)) = Some b" "chain (snext S) (b # r)"
    "last (l # ys) \<notin> set p" "last (l # ys) \<notin> set (butlast (b # r))" by (rule slist_pos [OF assms(1)])
  let ?a = "last (l # ys)" and ?N = "(snext S)(last (l # ys) \<mapsto> hd (zs @ [0]))"
  have br: "b = n" "r = zs @ [0]" using f(3) by simp_all
  obtain c s where cs: "zs @ [0] = c # s" by (cases "zs @ [0]") auto
  have "chain ?N (p @ [?a])" using f(5) chain_update [OF f(8)] by (simp del: last.simps)
  moreover have "chain ?N (c # s)"
  proof -
    have "chain (snext S) (c # s)" using f(7) br cs by simp
    moreover have "?a \<notin> set (butlast (c # s))" using f(9) br cs by (simp del: last.simps)
    ultimately show ?thesis using chain_update2 by blast
  qed
  moreover have "?N ?a = Some c" using cs by (cases zs) (simp_all del: last.simps)
  ultimately have "chain ?N (p @ ?a # c # s)" by (simp add: chain_mid del: last.simps fun_upd_apply)
  moreover have "l # (ys @ zs) @ [0] = p @ ?a # c # s"
  proof -
    have "l # (ys @ zs) @ [0] = (l # ys) @ zs @ [0]" by simp
    then show ?thesis unfolding cs using f(2) by (metis append.assoc append_Cons append_Nil)
  qed
  ultimately show ?thesis using assms by (auto simp: slist_def simp del: last.simps)
qed

lemma slist_nexts:
  assumes "slist S l (ys @ zs)"
  shows "snext S (last (l # ys)) = Some (hd (zs @ [0]))"
proof (rule slist_pos [OF assms])
  fix p b r
  assume "b = hd (zs @ [0])" "snext S (last (l # ys)) = Some b"
  then show ?thesis by (simp only:)
qed

lemma slast_simp: "slist S l xs \<Longrightarrow> slast S = (if xs = [] then 0 else last xs)"
  by (simp add: slist_def)

lemma last_nonzero: "slist S l xs \<Longrightarrow> last xs \<noteq> 0 \<or> xs = []"
  using last_in_set [of xs] unfolding slist_def by (metis list.set_intros(2))

lemma last_in: "last (l # ys) \<in> set (l # ys @ zs)"
  using last_in_set [of "l # ys"] by (simp del: last.simps) blast

lemma hd_zero: "slist S l (ys @ zs) \<Longrightarrow> hd (zs @ [0]) = 0 \<longleftrightarrow> zs = []"
  by (cases zs) (auto simp: slist_def)

lemma insert_after_ok:
  assumes "slist S l (ys @ zs)" "what \<notin> set (l # ys @ zs)" "what \<noteq> 0" "what \<in> dom (snext S)"
  shows "\<exists>S'. slist_insert_after what (last (l # ys)) S = Inr S' \<and> slist S' l (ys @ what # zs) \<and> dom (snext S') = dom (snext S)"
proof -
  let ?S = "\<lparr>snext = (snext S)(what \<mapsto> hd (zs @ [0]), last (l # ys) \<mapsto> what), slast = (if zs = [] then what else last zs)\<rparr>"
  have a: "last (l # ys) \<in> dom (snext S)" "what \<noteq> last (l # ys)"
    using slist_parts [OF assms(1)] last_in [of l ys zs] assms(2) by (auto simp del: last.simps)
  have "slist_insert_after what (last (l # ys)) S = Inr ?S"
    using slist_nexts [OF assms(1)] a assms(4) hd_zero [OF assms(1)] slast_simp [OF assms(1)]
    by (auto simp: slist_insert_after_def simp del: last.simps)
  then show ?thesis using insert_slist [OF assms(1-3)] a(1) assms(4) by auto
qed

lemma add_head_ok:
  assumes "slist S l xs" "n \<notin> set (l # xs)" "n \<noteq> 0" "n \<in> dom (snext S)"
  shows "\<exists>S'. slist_add_head l n S = Inr S' \<and> slist S' l (n # xs) \<and> dom (snext S') = dom (snext S)"
proof -
  let ?S = "\<lparr>snext = (snext S)(n \<mapsto> hd (xs @ [0]), l \<mapsto> n), slast = (if xs = [] then n else last xs)\<rparr>"
  have l: "l \<in> dom (snext S)" "n \<noteq> l" "last xs \<noteq> 0 \<or> xs = []"
    using slist_parts [OF assms(1)] assms(2) last_nonzero [OF assms(1)] by auto
  have "slist_add_head l n S = Inr ?S"
    using slist_nexts [of S l "[]" xs] l assms(1,4) slast_simp [OF assms(1)] by (auto simp: slist_add_head_def)
  then show ?thesis using insert_slist [of S l "[]" xs n] l(1) assms by auto
qed

lemma add_tail_ok:
  assumes "slist S l xs" "n \<notin> set (l # xs)" "n \<noteq> 0" "n \<in> dom (snext S)"
  shows "\<exists>S'. slist_add_tail l n S = Inr S' \<and> slist S' l (xs @ [n]) \<and> dom (snext S') = dom (snext S)"
proof -
  let ?S = "\<lparr>snext = (snext S)(n \<mapsto> 0, last (l # xs) \<mapsto> n), slast = n\<rparr>"
  have d: "last (l # xs) \<in> dom (snext S)" "n \<noteq> last (l # xs)"
    using slist_parts [OF assms(1)] last_in [of l xs "[]"] assms(2) by (auto simp del: last.simps)
  have "slist_add_tail l n S = Inr ?S"
    using d assms(4) slast_simp [OF assms(1)] last_nonzero [OF assms(1)] by (cases "xs = []") (auto simp: slist_add_tail_def fun_upd_twist)
  then show ?thesis using insert_slist [of S l xs "[]" n] d(1) assms by auto
qed

lemma remove_after_ok:
  assumes "slist S l (ys @ n # zs)"
  shows "\<exists>S'. slist_remove_after l (last (l # ys)) S = Inr S' \<and> slist S' l (ys @ zs) \<and> dom (snext S') = dom (snext S)"
proof -
  let ?S = "\<lparr>snext = (snext S)(last (l # ys) \<mapsto> hd (zs @ [0])), slast = (if zs \<noteq> [] then last zs else if ys = [] then 0 else last ys)\<rparr>"
  note p = slist_parts [OF assms]
  have a: "last (l # ys) \<in> dom (snext S)" using p last_in [of l ys "n # zs"] by (auto simp del: last.simps)
  have n: "n \<noteq> 0" "snext S n = Some (hd (zs @ [0]))" using p slist_nexts [of S l "ys @ [n]" zs] assms by auto
  have "last (l # ys) = l \<longleftrightarrow> ys = []" using p last_in_set [of ys] by auto
  moreover have "last (ys @ n # zs) = n \<longleftrightarrow> zs = []" using p last_in_set [of zs] by auto
  ultimately have "slist_remove_after l (last (l # ys)) S = Inr ?S"
    using slist_nexts [OF assms] a n slast_simp [OF assms] by (auto simp: slist_remove_after_def)
  then show ?thesis using remove_slist [OF assms] a by auto
qed

lemma remove_after_last:
  assumes "slist S l xs"
  shows "slist_remove_after l (last (l # xs)) S = Inr S"
  using slist_nexts [of S l xs "[]"] assms by (simp add: slist_remove_after_def del: last.simps)

lemma raw_prev_ok:
  assumes "chain (snext S) (l # ys @ [n])" "n \<notin> set ys" "0 \<notin> set (l # ys)"
  shows "slist_raw_prev l n S = Some (Inr (last (l # ys)))"
  using assms
proof (induction ys arbitrary: l)
  case Nil
  then show ?case by (simp add: slist_raw_prev.simps)
next
  case (Cons y ys)
  then have "slist_raw_prev y n S = Some (Inr (last (y # ys)))" by simp
  then show ?case using Cons.prems by (simp add: slist_raw_prev.simps [of l])
qed

lemma prev_chain:
  assumes "slist S l (ys @ n # zs)"
  shows "chain (snext S) (l # ys @ [n])" "n \<notin> set ys" "0 \<notin> set (l # ys)" "n \<noteq> 0"
  using assms chain_append [of "snext S" "l # ys" n "zs @ [0]"] by (auto simp: slist_def)

lemma slist_remove_ok:
  assumes "slist S l (ys @ n # zs)"
  shows "\<exists>S'. slist_remove l n S = Some (Inr S') \<and> slist S' l (ys @ zs) \<and> dom (snext S') = dom (snext S)"
  using raw_prev_ok [OF prev_chain(1-3) [OF assms]] remove_after_ok [OF assms] prev_chain(4) [OF assms]
  by (auto simp: slist_remove_def simp del: last.simps)

lemma insert_before_ok:
  assumes "slist S l (ys @ n # zs)" "what \<notin> set (l # ys @ n # zs)" "what \<noteq> 0" "what \<in> dom (snext S)"
  shows "\<exists>S'. slist_insert_before l what n S = Some (Inr S') \<and> slist S' l (ys @ what # n # zs) \<and> dom (snext S') = dom (snext S)"
proof -
  let ?T = "S\<lparr>snext := (snext S)(what \<mapsto> n)\<rparr>" and ?a = "last (l # ys)"
  note p = prev_chain [OF assms(1)]
  have "chain ((snext S)(what \<mapsto> n)) (l # ys @ [n]) = chain (snext S) (l # ys @ [n])"
    by (rule chain_update2) (use assms(2) in \<open>simp add: butlast_append\<close>)
  then have r: "slist_raw_prev l n ?T = Some (Inr ?a)" using raw_prev_ok [of ?T l ys n] p by (simp del: last.simps)
  have a: "?a \<in> dom (snext S)" using slist_parts [OF assms(1)] last_in [of l ys "n # zs"] by (auto simp del: last.simps)
  have "slist_insert_before l what n S = Some (Inr (?T\<lparr>snext := (snext ?T)(?a \<mapsto> what)\<rparr>))"
    using r a assms(4) by (simp add: slist_insert_before_def del: last.simps)
  moreover have "?T\<lparr>snext := (snext ?T)(?a \<mapsto> what)\<rparr> = \<lparr>snext = (snext S)(what \<mapsto> hd ((n # zs) @ [0]), ?a \<mapsto> what),
      slast = (if n # zs = [] then what else last (n # zs))\<rparr>"
    using slast_simp [OF assms(1)] by (cases S) (simp del: last.simps add: last_append)
  ultimately show ?thesis using insert_slist [OF assms(1-3)] a assms(4) by (auto simp del: last.simps)
qed

lemma slist_walk_ok: "chain (snext S) (xs @ [0]) \<Longrightarrow> 0 \<notin> set xs \<Longrightarrow> slist_walk (hd (xs @ [0])) S = Some (Inr xs)"
proof (induction xs)
  case Nil
  then show ?case by (simp add: slist_walk.simps)
next
  case (Cons x xs)
  have "snext S x = Some (hd (xs @ [0]))" "chain (snext S) (xs @ [0])" using Cons.prems(1) by (cases xs; simp)+
  then show ?case using Cons by (simp add: slist_walk.simps [of x])
qed

lemma slist_loops_ok:
  assumes "slist S l xs"
  shows "SLIST_FOR_EACH l S = Some (Inr xs)" "slist_size l S = Some (Inr (length xs mod 2 ^ 32))"
proof -
  have "chain (snext S) (xs @ [0])" "0 \<notin> set xs" using assms by (cases xs; simp add: slist_def)+
  then show "SLIST_FOR_EACH l S = Some (Inr xs)"
    using slist_walk_ok [of S xs] slist_nexts [of S l "[]" xs] assms by (simp add: SLIST_FOR_EACH_def)
  then show "slist_size l S = Some (Inr (length xs mod 2 ^ 32))" by (simp add: slist_size_def)
qed

interpretation slist_fifo: fifo "\<lambda>S. slist S l" "\<lambda>S n. n \<in> dom (snext S) \<and> n \<noteq> 0 \<and> n \<noteq> l" "slist_add_tail l" "slist_remove_head l" for l
proof unfold_locales
  fix S xs n
  assume "slist S l xs" "n \<in> dom (snext S) \<and> n \<noteq> 0 \<and> n \<noteq> l" "n \<notin> set xs"
  then show "\<exists>S'. slist_add_tail l n S = Inr S' \<and> slist S' l (xs @ [n]) \<and>
      (\<lambda>m. m \<in> dom (snext S') \<and> m \<noteq> 0 \<and> m \<noteq> l) = (\<lambda>m. m \<in> dom (snext S) \<and> m \<noteq> 0 \<and> m \<noteq> l)"
    using add_tail_ok [of S l xs n] by auto
next
  fix S
  assume "slist S l []"
  then show "slist_remove_head l S = Inr (0, S)"
    using slist_nexts [of S l "[]" "[]"] by (simp add: slist_remove_head_def slist_head_def)
next
  fix S x xs
  assume s: "slist S l (x # xs)"
  then have "snext S l = Some x" "x \<noteq> 0" using slist_nexts [of S l "[]" "x # xs"] slist_parts [OF s] by auto
  then show "\<exists>S'. slist_remove_head l S = Inr (x, S') \<and> slist S' l xs \<and>
      (\<lambda>m. m \<in> dom (snext S') \<and> m \<noteq> 0 \<and> m \<noteq> l) = (\<lambda>m. m \<in> dom (snext S) \<and> m \<noteq> 0 \<and> m \<noteq> l)"
    using remove_after_ok [of S l "[]" x xs] s by (auto simp: slist_remove_head_def slist_head_def)
next
  fix S xs
  assume "slist S l xs"
  then show "0 \<notin> set xs" by (simp add: slist_def)
qed

section \<open>Properties\<close>

lemma init_ok:
  assumes "l \<in> dom (snext S)" "l \<noteq> 0"
  shows "\<exists>T. slist_init l S = Inr T \<and> slist T l []"
  using assms by (auto simp: slist_init_def slist_def)

lemma remove_tail_ok:
  assumes "slist S l xs"
  shows "\<exists>T. slist_remove_tail l S = Some (Inr T) \<and> slist T l (butlast xs)"
proof (cases "xs = []")
  case True
  then show ?thesis using assms slast_simp [OF assms] by (simp add: slist_remove_tail_def slist_remove_def)
next
  case False
  then have "slist S l (butlast xs @ last xs # [])" using assms by simp
  then show ?thesis using slist_remove_ok [of S l "butlast xs" "last xs" "[]"] slast_simp [OF assms] False
    by (auto simp: slist_remove_tail_def)
qed

lemma slist_ends:
  assumes "slist S l xs"
  shows "slist_head l S = Inr (hd (xs @ [0])) \<and> slist_tail S = last (0 # xs) \<and> slist_empty l S = Inr (xs = [])"
  using slist_nexts [of S l "[]" xs] assms slast_simp [OF assms] hd_zero [of S l "[]" xs]
  by (auto simp: slist_head_def slist_tail_def slist_empty_def)

lemma remove_head_ok:
  assumes "slist S l xs"
  shows "\<exists>T. slist_remove_head l S = Inr (hd (xs @ [0]), T) \<and> slist T l (tl xs)"
proof (cases xs)
  case Nil
  then show ?thesis using slist_fifo.rem_Nil assms by auto
next
  case (Cons x r)
  then show ?thesis using slist_fifo.rem_Cons [of S l x r] assms by auto
qed

text \<open>The operations at a node \<open>n\<close> of the list.\<close>

lemma node_operations_ok:
  assumes "slist S l (ys @ n # zs)"
  shows "(what \<notin> set (l # ys @ n # zs) \<and> what \<in> dom (snext S) \<and> what \<noteq> 0 \<longrightarrow>
      (\<exists>T. slist_insert_after what n S = Inr T \<and> slist T l (ys @ n # what # zs)) \<and>
      (\<exists>T. slist_insert_before l what n S = Some (Inr T) \<and> slist T l (ys @ what # n # zs))) \<and>
    (\<exists>T. slist_remove_after l (last (l # ys)) S = Inr T \<and> slist T l (ys @ zs)) \<and>
    (\<exists>T. slist_remove l n S = Some (Inr T) \<and> slist T l (ys @ zs)) \<and>
    slist_prev l n S = Some (Inr (last (0 # ys))) \<and> slist_next n S = Inr (hd (zs @ [0]))"
proof (intro conjI impI)
  have s: "slist S l ((ys @ [n]) @ zs)" using assms by simp
  {
    assume "what \<notin> set (l # ys @ n # zs) \<and> what \<in> dom (snext S) \<and> what \<noteq> 0"
    then have w: "what \<notin> set (l # ys @ n # zs)" "what \<in> dom (snext S)" "what \<noteq> 0" by simp_all
    show "\<exists>T. slist_insert_after what n S = Inr T \<and> slist T l (ys @ n # what # zs)" using insert_after_ok [OF s _ w(3,2)] w(1) by auto
    show "\<exists>T. slist_insert_before l what n S = Some (Inr T) \<and> slist T l (ys @ what # n # zs)"
      using insert_before_ok [OF assms w(1,3,2)] by blast
  }
  show "\<exists>T. slist_remove_after l (last (l # ys)) S = Inr T \<and> slist T l (ys @ zs)" using remove_after_ok [OF assms] by blast
  show "\<exists>T. slist_remove l n S = Some (Inr T) \<and> slist T l (ys @ zs)" using slist_remove_ok [OF assms] by blast
  show "slist_prev l n S = Some (Inr (last (0 # ys)))"
    using raw_prev_ok [OF prev_chain(1-3) [OF assms]] slist_parts [OF assms] last_in_set [of ys] by (auto simp: slist_prev_def)
  show "slist_next n S = Inr (hd (zs @ [0]))" using slist_nexts [OF s] by (simp add: slist_next_def)
qed

text \<open>C21: Singly linked lists implement sequences of nodes, empty sequences included, with the pointer to the last
  node kept right by every operation: initialisation, adding and removing at both ends, inserting after or before a
  node, removing after a node (nothing happens after the last one) and by node, the neighbours of a node, both ends, the
  loop and the size. No operation faults on a well-formed list, and nodes added at the tail and removed from the head
  come back in order.\<close>

theorem slist_implements_sequence:
  assumes "slist S l xs"
  shows "(\<exists>T. slist_init l S = Inr T \<and> slist T l []) \<and>
    (what \<notin> set (l # xs) \<and> what \<in> dom (snext S) \<and> what \<noteq> 0 \<longrightarrow>
      (\<exists>T. slist_add_head l what S = Inr T \<and> slist T l (what # xs)) \<and>
      (\<exists>T. slist_add_tail l what S = Inr T \<and> slist T l (xs @ [what]))) \<and>
    (\<exists>T. slist_remove_head l S = Inr (hd (xs @ [0]), T) \<and> slist T l (tl xs)) \<and>
    (\<exists>T. slist_remove_tail l S = Some (Inr T) \<and> slist T l (butlast xs)) \<and>
    slist_remove_after l (last (l # xs)) S = Inr S \<and>
    slist_head l S = Inr (hd (xs @ [0])) \<and> slist_tail S = last (0 # xs) \<and> slist_empty l S = Inr (xs = []) \<and>
    SLIST_FOR_EACH l S = Some (Inr xs) \<and> slist_size l S = Some (Inr (length xs mod 2 ^ 32)) \<and>
    (\<forall>ys n zs. xs = ys @ n # zs \<longrightarrow> (what \<notin> set (l # ys @ n # zs) \<and> what \<in> dom (snext S) \<and> what \<noteq> 0 \<longrightarrow>
        (\<exists>T. slist_insert_after what n S = Inr T \<and> slist T l (ys @ n # what # zs)) \<and>
        (\<exists>T. slist_insert_before l what n S = Some (Inr T) \<and> slist T l (ys @ what # n # zs))) \<and>
      (\<exists>T. slist_remove_after l (last (l # ys)) S = Inr T \<and> slist T l (ys @ zs)) \<and>
      (\<exists>T. slist_remove l n S = Some (Inr T) \<and> slist T l (ys @ zs)) \<and>
      slist_prev l n S = Some (Inr (last (0 # ys))) \<and> slist_next n S = Inr (hd (zs @ [0]))) \<and>
    (\<exists>T. remove_all (slist_remove_head l) (length xs + 1) S = Inr (xs, T) \<and> slist T l [])"
proof -
  have l: "l \<in> dom (snext S)" "l \<noteq> 0" using slist_parts [OF assms] by auto
  have add: "(\<exists>T. slist_add_head l what S = Inr T \<and> slist T l (what # xs)) \<and> (\<exists>T. slist_add_tail l what S = Inr T \<and> slist T l (xs @ [what]))"
    if "what \<notin> set (l # xs) \<and> what \<in> dom (snext S) \<and> what \<noteq> 0"
    using that add_head_ok [OF assms, of what] add_tail_ok [OF assms, of what] by blast
  have node: "\<forall>ys n zs. xs = ys @ n # zs \<longrightarrow> (what \<notin> set (l # ys @ n # zs) \<and> what \<in> dom (snext S) \<and> what \<noteq> 0 \<longrightarrow>
      (\<exists>T. slist_insert_after what n S = Inr T \<and> slist T l (ys @ n # what # zs)) \<and>
      (\<exists>T. slist_insert_before l what n S = Some (Inr T) \<and> slist T l (ys @ what # n # zs))) \<and>
    (\<exists>T. slist_remove_after l (last (l # ys)) S = Inr T \<and> slist T l (ys @ zs)) \<and>
    (\<exists>T. slist_remove l n S = Some (Inr T) \<and> slist T l (ys @ zs)) \<and>
    slist_prev l n S = Some (Inr (last (0 # ys))) \<and> slist_next n S = Inr (hd (zs @ [0]))"
    using node_operations_ok assms by blast
  have all: "\<exists>T. remove_all (slist_remove_head l) (length xs + 1) S = Inr (xs, T) \<and> slist T l []"
    by (rule slist_fifo.remove_all_rep [OF assms]) simp
  note ends = slist_ends [OF assms]
  show ?thesis
    by (intro conjI impI) (rule init_ok [OF l] add [THEN conjunct1] add [THEN conjunct2] remove_head_ok [OF assms] remove_tail_ok [OF assms]
      remove_after_last [OF assms] slist_loops_ok [OF assms] ends [THEN conjunct1] ends [THEN conjunct2, THEN conjunct1]
      ends [THEN conjunct2, THEN conjunct2] node all | assumption)+
qed

theorem slist_implements_sequence_witness:
  "(\<exists>T. slist_add_tail 1 2 \<lparr>snext = [1 \<mapsto> 0, 2 \<mapsto> 7], slast = 0\<rparr> = Inr T \<and> slist T 1 [2]) \<and>
   (\<exists>T. slist_remove_tail 1 \<lparr>snext = [1 \<mapsto> 2, 2 \<mapsto> 3, 3 \<mapsto> 0], slast = 3\<rparr> = Some (Inr T) \<and> slist T 1 [2])"
proof
  have "slist \<lparr>snext = [1 \<mapsto> 0, 2 \<mapsto> 7], slast = 0\<rparr> 1 []" by (simp add: slist_def)
  from slist_implements_sequence [OF this, of 2, THEN conjunct2, THEN conjunct1]
  show "\<exists>T. slist_add_tail 1 2 \<lparr>snext = [1 \<mapsto> 0, 2 \<mapsto> 7], slast = 0\<rparr> = Inr T \<and> slist T 1 [2]" by simp
  have "slist \<lparr>snext = [1 \<mapsto> 2, 2 \<mapsto> 3, 3 \<mapsto> 0], slast = 3\<rparr> 1 [2, 3]" by (simp add: slist_def)
  from slist_implements_sequence [OF this, THEN conjunct2, THEN conjunct2, THEN conjunct2, THEN conjunct1]
  show "\<exists>T. slist_remove_tail 1 \<lparr>snext = [1 \<mapsto> 2, 2 \<mapsto> 3, 3 \<mapsto> 0], slast = 3\<rparr> = Some (Inr T) \<and> slist T 1 [2]" by simp
qed

end
