(* ===== verification/Asort.thy ===== *)
theory Asort
  imports Ucw_Interfaces "HOL-Library.Multiset"
begin

text \<open>
  \<open>ucw/sorter/array-simple.h\<close>: the generator of in-place sorters of arrays, a quicksort with an explicit
  stack that leaves small segments to a final insertion sort. The array is a list, the comparison \<open>lt\<close> and
  the threshold \<open>th\<close> are parameters. Indices are the C type \<open>int\<close>: integers, with the sum that can
  overflow checked; every access outside of the array or of the stack is a fault.
\<close>

section \<open>Operations\<close>

definition in_array :: "'a list \<Rightarrow> int \<Rightarrow> bool" where
  "in_array a i \<longleftrightarrow> 0 \<le> i \<and> i < int (length a)"

definition ASORT_ELT :: "'a list \<Rightarrow> int \<Rightarrow> 'a res" where
  "ASORT_ELT a i = (if in_array a i then Inr (a ! nat i) else Inl Out_of_bounds)"

definition ASORT_SWAP :: "'a list \<Rightarrow> int \<Rightarrow> int \<Rightarrow> 'a list res" where
  "ASORT_SWAP a i j = (if in_array a i \<and> in_array a j then Inr (a[nat i := a ! nat j, nat j := a ! nat i]) else Inl Out_of_bounds)"

definition lt_at :: "('a \<Rightarrow> 'a \<Rightarrow> bool) \<Rightarrow> 'a list \<Rightarrow> int \<Rightarrow> int \<Rightarrow> bool res" where
  "lt_at lt a i j = res_bind (ASORT_ELT a i) (\<lambda>x. res_bind (ASORT_ELT a j) (\<lambda>y. Inr (lt x y)))"

text \<open>The median of the first, the middle and the last element is moved to the middle.\<close>

definition median3 :: "('a \<Rightarrow> 'a \<Rightarrow> bool) \<Rightarrow> 'a list \<Rightarrow> int \<Rightarrow> int \<Rightarrow> int \<Rightarrow> 'a list res" where
  "median3 lt a l m r =
    res_bind (lt_at lt a m l) (\<lambda>b. res_bind (if b then ASORT_SWAP a l m else Inr a) (\<lambda>a.
    res_bind (lt_at lt a r m) (\<lambda>b.
      if b then res_bind (ASORT_SWAP a m r) (\<lambda>a.
        res_bind (lt_at lt a m l) (\<lambda>b. if b then ASORT_SWAP a l m else Inr a))
      else Inr a)))"

function scan_up :: "('a \<Rightarrow> 'a \<Rightarrow> bool) \<Rightarrow> 'a list \<Rightarrow> 'a \<Rightarrow> int \<Rightarrow> int res" where
  "scan_up lt a pivot l = res_bind (ASORT_ELT a l) (\<lambda>x. if lt x pivot then scan_up lt a pivot (l + 1) else Inr l)"
  by pat_completeness auto
termination
  by (relation "measure (\<lambda>(lt, a, pivot, l). nat (int (length a) - l))") (auto simp: ASORT_ELT_def in_array_def split: if_splits)

function scan_down :: "('a \<Rightarrow> 'a \<Rightarrow> bool) \<Rightarrow> 'a list \<Rightarrow> 'a \<Rightarrow> int \<Rightarrow> int res" where
  "scan_down lt a pivot r = res_bind (ASORT_ELT a r) (\<lambda>x. if lt pivot x then scan_down lt a pivot (r - 1) else Inr r)"
  by pat_completeness auto
termination
  by (relation "measure (\<lambda>(lt, a, pivot, r). nat (r + 1))") (auto simp: ASORT_ELT_def in_array_def split: if_splits)

declare scan_up.simps [simp del] scan_down.simps [simp del]

lemma scan_up_ge: "scan_up lt a pivot l = Inr k \<Longrightarrow> l \<le> k"
proof (induction lt a pivot l rule: scan_up.induct)
  case (1 lt a pivot l)
  show ?case using 1(2) 1(1) by (auto simp: scan_up.simps [of lt a pivot l] res_bind_Inr split: if_splits)
qed

lemma scan_down_le: "scan_down lt a pivot r = Inr k \<Longrightarrow> k \<le> r"
proof (induction lt a pivot r rule: scan_down.induct)
  case (1 lt a pivot r)
  show ?case using 1(2) 1(1) by (auto simp: scan_down.simps [of lt a pivot r] res_bind_Inr split: if_splits)
qed

text \<open>The exchange in the body of the partitioning loop, and the loop.\<close>

definition exchange :: "'a list \<Rightarrow> int \<Rightarrow> int \<Rightarrow> ('a list \<times> int \<times> int) res" where
  "exchange a l r = (if l < r then res_bind (ASORT_SWAP a l r) (\<lambda>a. Inr (a, l + 1, r - 1))
     else if l = r then Inr (a, l + 1, r - 1) else Inr (a, l, r))"

lemma exchange_bounds: "exchange a l r = Inr (a', l', r') \<Longrightarrow> l \<le> l' \<and> r' \<le> r \<and> (l' \<le> r' \<longrightarrow> l < l')"
  by (auto simp: exchange_def res_bind_Inr split: if_splits)

function part_loop :: "('a \<Rightarrow> 'a \<Rightarrow> bool) \<Rightarrow> 'a \<Rightarrow> 'a list \<Rightarrow> int \<Rightarrow> int \<Rightarrow> ('a list \<times> int \<times> int) res" where
  "part_loop lt pivot a l r =
    res_bind (scan_up lt a pivot l) (\<lambda>l. res_bind (scan_down lt a pivot r) (\<lambda>r.
    res_bind (exchange a l r) (\<lambda>(a, l, r). if l \<le> r then part_loop lt pivot a l r else Inr (a, l, r))))"
  by pat_completeness auto
termination
proof (relation "measure (\<lambda>(lt, pivot, a, l, r). nat (r - l + 1))", goal_cases)
  case (2 lt pivot a l r l1 r1 s a2 t l2 r2)
  then show ?case using scan_up_ge [OF 2(1)] scan_down_le [OF 2(2)] exchange_bounds [of a l1 r1 a2 l2 r2] by auto
qed simp

declare part_loop.simps [simp del]

text \<open>After a partition: the segment to go on with and the stack, or the end.\<close>

definition next_work :: "int \<Rightarrow> int \<Rightarrow> int \<Rightarrow> int \<Rightarrow> int \<Rightarrow> (int \<times> int) list \<Rightarrow> ((int \<times> int) \<times> (int \<times> int) list) option res" where
  "next_work th left right l r stack =
    (if r - left \<ge> th \<and> right - l \<ge> th then
       (if length stack \<ge> 32 then Inl Out_of_bounds
        else if r - left > right - l then Inr (Some ((l, right), (left, r) # stack))
        else Inr (Some ((left, r), (l, right) # stack)))
     else if r - left \<ge> th then Inr (Some ((left, r), stack))
     else if right - l \<ge> th then Inr (Some ((l, right), stack))
     else case stack of [] \<Rightarrow> Inr None | s # stack \<Rightarrow> Inr (Some (s, stack)))"

text \<open>One pass of the main loop.\<close>

definition qs_step :: "('a \<Rightarrow> 'a \<Rightarrow> bool) \<Rightarrow> int \<Rightarrow> 'a list \<Rightarrow> int \<Rightarrow> int \<Rightarrow> (int \<times> int) list \<Rightarrow>
    ('a list \<times> ((int \<times> int) \<times> (int \<times> int) list) option) res" where
  "qs_step lt th a left right stack =
    (if left + right \<ge> 2 ^ 31 then Inl Overflow else
     let m = (left + right) div 2 in
     res_bind (median3 lt a left m right) (\<lambda>a.
     res_bind (ASORT_ELT a m) (\<lambda>pivot.
     res_bind (part_loop lt pivot a left right) (\<lambda>(a, l, r).
     res_bind (next_work th left right l r stack) (\<lambda>w. Inr (a, w))))))"

partial_function (option) qs_loop :: "('a \<Rightarrow> 'a \<Rightarrow> bool) \<Rightarrow> int \<Rightarrow> 'a list \<Rightarrow> (int \<times> int) \<Rightarrow> (int \<times> int) list \<Rightarrow> 'a list res option" where
  "qs_loop lt th a seg stack =
    (case qs_step lt th a (fst seg) (snd seg) stack of
       Inl e \<Rightarrow> Some (Inl e)
     | Inr (a, None) \<Rightarrow> Some (Inr a)
     | Inr (a, Some (seg, stack)) \<Rightarrow> qs_loop lt th a seg stack)"

text \<open>The search for the least element of the first segment, and the insertion sort.\<close>

function find_barrier :: "('a \<Rightarrow> 'a \<Rightarrow> bool) \<Rightarrow> 'a list \<Rightarrow> int \<Rightarrow> int \<Rightarrow> int \<Rightarrow> int res" where
  "find_barrier lt a r l m = (if l < r then res_bind (lt_at lt a l m) (\<lambda>b. find_barrier lt a r (l + 1) (if b then l else m)) else Inr m)"
  by pat_completeness auto
termination
  by (relation "measure (\<lambda>(lt, a, r, l, m). nat (r - l))") auto

function find_slot :: "('a \<Rightarrow> 'a \<Rightarrow> bool) \<Rightarrow> 'a list \<Rightarrow> int \<Rightarrow> int \<Rightarrow> int res" where
  "find_slot lt a m l = res_bind (lt_at lt a m (l - 1)) (\<lambda>b. if b then find_slot lt a m (l - 1) else Inr l)"
  by pat_completeness auto
termination
  by (relation "measure (\<lambda>(lt, a, m, l). nat l)") (auto simp: lt_at_def ASORT_ELT_def in_array_def res_bind_Inr split: if_splits)

function rotate_in :: "'a list \<Rightarrow> int \<Rightarrow> int \<Rightarrow> 'a list res" where
  "rotate_in a l m = (if l < m then res_bind (ASORT_SWAP a l m) (\<lambda>a. rotate_in a (l + 1) m) else Inr a)"
  by pat_completeness auto
termination
  by (relation "measure (\<lambda>(a, l, m). nat (m - l))") auto

function insert_loop :: "('a \<Rightarrow> 'a \<Rightarrow> bool) \<Rightarrow> 'a list \<Rightarrow> int \<Rightarrow> int \<Rightarrow> 'a list res" where
  "insert_loop lt a n m = (if m < n then
     res_bind (find_slot lt a m m) (\<lambda>l. res_bind (rotate_in a l m) (\<lambda>a. insert_loop lt a n (m + 1)))
     else Inr a)"
  by pat_completeness auto
termination
  by (relation "measure (\<lambda>(lt, a, n, m). nat (n - m))") auto

declare find_barrier.simps [simp del] find_slot.simps [simp del] rotate_in.simps [simp del] insert_loop.simps [simp del]

definition asort :: "('a \<Rightarrow> 'a \<Rightarrow> bool) \<Rightarrow> int \<Rightarrow> 'a list \<Rightarrow> 'a list res option" where
  "asort lt th a = (let n = int (length a) in
     if n \<le> 1 then Some (Inr a)
     else Option.bind (qs_loop lt th a (0, n - 1) []) (\<lambda>r. Some (res_bind r (\<lambda>a.
       res_bind (find_barrier lt a (min n th) 1 0) (\<lambda>m.
       res_bind (ASORT_SWAP a 0 m) (\<lambda>a. insert_loop lt a n 1))))))"

section \<open>Rearrangements of a segment\<close>

definition seg :: "int \<Rightarrow> int \<Rightarrow> 'a list \<Rightarrow> 'a list \<Rightarrow> bool" where
  "seg lo hi a b \<longleftrightarrow> length b = length a \<and> mset b = mset a \<and> (\<forall>k. (int k < lo \<or> hi < int k) \<longrightarrow> b ! k = a ! k) \<and>
     (\<forall>k. lo \<le> int k \<and> int k \<le> hi \<longrightarrow> (\<exists>k'. lo \<le> int k' \<and> int k' \<le> hi \<and> b ! k = a ! k'))"

lemma seg_refl [simp]: "seg lo hi a a"
  by (auto simp: seg_def)

lemma seg_trans: "seg lo hi a b \<Longrightarrow> seg lo hi b c \<Longrightarrow> seg lo hi a c"
  unfolding seg_def by (metis (no_types, opaque_lifting))

lemma seg_length: "seg lo hi a b \<Longrightarrow> length b = length a"
  by (simp add: seg_def)

lemma in_array_seg: "seg lo hi a b \<Longrightarrow> in_array b i = in_array a i"
  by (simp add: in_array_def seg_length)

lemma swap_seg:
  assumes "in_array a i" "in_array a j" "lo \<le> i" "i \<le> hi" "lo \<le> j" "j \<le> hi"
  shows "\<exists>b. ASORT_SWAP a i j = Inr b \<and> seg lo hi a b \<and> b ! nat i = a ! nat j \<and> b ! nat j = a ! nat i \<and>
    (\<forall>k. k \<noteq> nat i \<and> k \<noteq> nat j \<longrightarrow> b ! k = a ! k)"
proof -
  let ?b = "a[nat i := a ! nat j, nat j := a ! nat i]"
  have l: "nat i < length a" "nat j < length a" "int (nat i) = i" "int (nat j) = j" using assms(1,2) by (auto simp: in_array_def)
  have nth: "?b ! nat i = a ! nat j" "?b ! nat j = a ! nat i" "\<And>k. k \<noteq> nat i \<and> k \<noteq> nat j \<Longrightarrow> ?b ! k = a ! k"
    using l by (auto simp: nth_list_update)
  have "seg lo hi a ?b" unfolding seg_def
  proof (intro conjI allI impI)
    show "mset ?b = mset a" using mset_swap [of "nat j" a "nat i"] l by simp
    fix k
    show "?b ! k = a ! k" if "int k < lo \<or> hi < int k" using that assms l nth(3) [of k] by fastforce
    show "\<exists>k'. lo \<le> int k' \<and> int k' \<le> hi \<and> ?b ! k = a ! k'" if "lo \<le> int k \<and> int k \<le> hi"
      using that assms l nth by (cases "k = nat i"; cases "k = nat j") metis+
  qed simp
  then show ?thesis using assms(1,2) nth by (auto simp: ASORT_SWAP_def)
qed

lemma lt_at_ok: "in_array a i \<Longrightarrow> in_array a j \<Longrightarrow> lt_at lt a i j = Inr (lt (a ! nat i) (a ! nat j))"
  by (simp add: lt_at_def ASORT_ELT_def)

lemma median3_ok:
  assumes "0 \<le> l" "l \<le> m" "m \<le> r" "r < int (length a)"
  shows "\<exists>b. median3 lt a l m r = Inr b \<and> seg l r a b"
proof -
  have ia: "in_array a l" "in_array a m" "in_array a r" using assms by (auto simp: in_array_def)
  have sw: "\<exists>b. (if c then ASORT_SWAP x i j else Inr x) = Inr b \<and> seg l r a b"
    if "seg l r a x" "i \<in> {l, m, r}" "j \<in> {l, m, r}" for x c i j
  proof -
    have "in_array x i" "in_array x j" using that ia in_array_seg [OF that(1)] by auto
    then show ?thesis using swap_seg [of x i j l r] that assms seg_trans [OF that(1)] by auto
  qed
  obtain x where x: "(if lt (a ! nat m) (a ! nat l) then ASORT_SWAP a l m else Inr a) = Inr x" "seg l r a x"
    using sw [OF seg_refl, of l m] by auto
  obtain y where y: "ASORT_SWAP x m r = Inr y" "seg l r a y" using sw [OF x(2), of m r True] by auto
  obtain z where z: "(if lt (y ! nat m) (y ! nat l) then ASORT_SWAP y l m else Inr y) = Inr z" "seg l r a z"
    using sw [OF y(2), of l m] by auto
  show ?thesis using x y z ia in_array_seg [OF x(2)] in_array_seg [OF y(2)]
    by (auto simp: median3_def lt_at_ok)
qed

section \<open>Partitioning\<close>

lemma scan_up_ok:
  assumes "0 \<le> l" "l \<le> i" "i < int (length a)" "\<not> lt (a ! nat i) pivot"
  shows "\<exists>k. scan_up lt a pivot l = Inr k \<and> l \<le> k \<and> k \<le> i \<and> \<not> lt (a ! nat k) pivot \<and> (\<forall>j. l \<le> j \<and> j < k \<longrightarrow> lt (a ! nat j) pivot)"
  using assms
proof (induction lt a pivot l rule: scan_up.induct)
  case (1 lt a pivot l)
  have e: "ASORT_ELT a l = Inr (a ! nat l)" using 1(2-4) by (simp add: ASORT_ELT_def in_array_def)
  show ?case
  proof (cases "lt (a ! nat l) pivot")
    case True
    then have "l + 1 \<le> i" using 1(3,5) by (cases "l = i") auto
    then obtain k where k: "scan_up lt a pivot (l + 1) = Inr k" "l + 1 \<le> k" "k \<le> i" "\<not> lt (a ! nat k) pivot"
        "\<forall>j. l + 1 \<le> j \<and> j < k \<longrightarrow> lt (a ! nat j) pivot"
      using 1(1) [OF e True] 1(2,4,5) by auto
    have "lt (a ! nat j) pivot" if "l \<le> j" "j < k" for j using k(5) True that by (cases "j = l") auto
    then show ?thesis using k True e by (subst scan_up.simps) auto
  next
    case False
    then show ?thesis using 1(3) e by (subst scan_up.simps) auto
  qed
qed

lemma scan_down_ok:
  assumes "0 \<le> i" "i \<le> r" "r < int (length a)" "\<not> lt pivot (a ! nat i)"
  shows "\<exists>k. scan_down lt a pivot r = Inr k \<and> k \<le> r \<and> i \<le> k \<and> \<not> lt pivot (a ! nat k) \<and> (\<forall>j. k < j \<and> j \<le> r \<longrightarrow> lt pivot (a ! nat j))"
  using assms
proof (induction lt a pivot r rule: scan_down.induct)
  case (1 lt a pivot r)
  have e: "ASORT_ELT a r = Inr (a ! nat r)" using 1(2-4) by (simp add: ASORT_ELT_def in_array_def)
  show ?case
  proof (cases "lt pivot (a ! nat r)")
    case True
    then have "i \<le> r - 1" using 1(3,5) by (cases "r = i") auto
    then obtain k where k: "scan_down lt a pivot (r - 1) = Inr k" "k \<le> r - 1" "i \<le> k" "\<not> lt pivot (a ! nat k)"
        "\<forall>j. k < j \<and> j \<le> r - 1 \<longrightarrow> lt pivot (a ! nat j)"
      using 1(1) [OF e True] 1(2,4,5) by auto
    have "lt pivot (a ! nat j)" if "k < j" "j \<le> r" for j using k(5) True that by (cases "j = r") auto
    then show ?thesis using k True e by (subst scan_down.simps) auto
  next
    case False
    then show ?thesis using 1(3) e by (subst scan_down.simps) auto
  qed
qed

text \<open>The elements before \<open>l\<close> are not greater than the pivot, those behind \<open>r\<close> not lower.\<close>

definition split_at :: "('a \<Rightarrow> 'a \<Rightarrow> bool) \<Rightarrow> 'a \<Rightarrow> int \<Rightarrow> int \<Rightarrow> 'a list \<Rightarrow> int \<Rightarrow> int \<Rightarrow> bool" where
  "split_at lt pivot left right a l r \<longleftrightarrow> left \<le> l \<and> r \<le> right \<and>
     (\<forall>k. left \<le> k \<and> k < l \<and> k \<le> right \<longrightarrow> \<not> lt pivot (a ! nat k)) \<and> (\<forall>k. r < k \<and> k \<le> right \<and> left \<le> k \<longrightarrow> \<not> lt (a ! nat k) pivot)"

section \<open>The segments on which work remains\<close>

definition kept :: "int \<Rightarrow> int \<Rightarrow> int \<Rightarrow> (int \<times> int) multiset" where
  "kept th l r = (if r - l \<ge> th then {#(l, r)#} else {#})"

definition size_of :: "int \<times> int \<Rightarrow> int" where
  "size_of s = snd s - fst s + 1"

text \<open>The sizes at least double from one stacked segment to the one below.\<close>

primrec works_ok :: "int \<Rightarrow> (int \<times> int) list \<Rightarrow> bool" where
  "works_ok n [] \<longleftrightarrow> True"
| "works_ok n (s # st) \<longleftrightarrow> 0 \<le> fst s \<and> fst s < snd s \<and> snd s < n \<and> size_of s * 2 ^ length st \<le> n \<and> works_ok n st"

definition works_measure :: "(int \<times> int) list \<Rightarrow> int" where
  "works_measure ws = (\<Sum>s\<leftarrow>ws. 2 * size_of s - 1)"

definition works :: "(int \<times> int) list \<Rightarrow> ((int \<times> int) \<times> (int \<times> int) list) option" where
  "works ws = (case ws of [] \<Rightarrow> None | s # st \<Rightarrow> Some (s, st))"

lemma works_ok_pow:
  assumes "works_ok n (s # st)"
  shows "2 ^ length st \<le> n"
proof -
  have "1 * 2 ^ length st \<le> size_of s * 2 ^ length st" using assms by (intro mult_right_mono) (auto simp: size_of_def)
  also have "\<dots> \<le> n" using assms by simp
  finally show ?thesis by simp
qed

lemma works_ok_depth:
  assumes "works_ok n (s # st)" "n \<le> 2 ^ 30"
  shows "length st < 32"
proof -
  have "(2::int) ^ length st \<le> 2 ^ 30" using works_ok_pow [OF assms(1)] assms(2) by linarith
  then have "length st \<le> 30" by (subst (asm) power_increasing_iff) auto
  then show ?thesis by simp
qed

lemma works_measure_nonneg: "works_ok n ws \<Longrightarrow> 0 \<le> works_measure ws"
  by (induction ws) (auto simp: works_measure_def size_of_def)

lemma shrink_pow: "(x::int) \<le> z \<Longrightarrow> z * 2 ^ k \<le> n \<Longrightarrow> x * 2 ^ k \<le> n"
  by (rule order_trans [OF mult_right_mono]) auto

lemma halve_pow: "(2::int) * x \<le> z \<Longrightarrow> z * 2 ^ k \<le> n \<Longrightarrow> x * 2 ^ Suc k \<le> n"
  using shrink_pow [of "2 * x" z k n] by (simp add: mult.left_commute mult.commute)

lemma next_work_ok:
  assumes "works_ok n ((left, right) # st)" "n \<le> 2 ^ 30" "1 \<le> th" "r < l" "left < l" "r < right" "l \<le> right + 1" "left - 1 \<le> r"
  shows "\<exists>ws. next_work th left right l r st = Inr (works ws) \<and> mset ws = kept th left r + kept th l right + mset st \<and>
    works_ok n ws \<and> works_measure ws < works_measure ((left, right) # st)"
proof -
  have d: "length st < 32" by (rule works_ok_depth [OF assms(1,2)])
  have z: "size_of (left, right) * 2 ^ length st \<le> n" "works_ok n st" "0 \<le> left" "right < n" "left < right" using assms(1) by auto
  note sh = shrink_pow [OF _ z(1)] and ha = halve_pow [OF _ z(1)]
  consider (both) "r - left \<ge> th" "right - l \<ge> th" | (l) "r - left \<ge> th" "right - l < th" | (r) "r - left < th" "right - l \<ge> th"
    | (none) "r - left < th" "right - l < th" by linarith
  then show ?thesis
  proof cases
    case both
    show ?thesis
    proof (cases "r - left > right - l")
      case True
      have "works_ok n ((l, right) # (left, r) # st)"
        using both True assms(3-8) z ha [of "size_of (l, right)"] sh [of "size_of (left, r)"] by (simp add: size_of_def)
      then show ?thesis using both True d assms(3-8)
        by (intro exI [of _ "(l, right) # (left, r) # st"]) (simp add: next_work_def works_def kept_def works_measure_def size_of_def)
    next
      case False
      have "works_ok n ((left, r) # (l, right) # st)"
        using both False assms(3-8) z ha [of "size_of (left, r)"] sh [of "size_of (l, right)"] by (simp add: size_of_def)
      then show ?thesis using both False d assms(3-8)
        by (intro exI [of _ "(left, r) # (l, right) # st"]) (simp add: next_work_def works_def kept_def works_measure_def size_of_def)
    qed
  next
    case l
    then show ?thesis using assms(3-8) z sh [of "size_of (left, r)"]
      by (intro exI [of _ "(left, r) # st"]) (simp add: next_work_def works_def kept_def works_measure_def size_of_def)
  next
    case r
    then show ?thesis using assms(3-8) z sh [of "size_of (l, right)"]
      by (intro exI [of _ "(l, right) # st"]) (simp add: next_work_def works_def kept_def works_measure_def size_of_def)
  next
    case none
    then show ?thesis using assms(3-8) z
      by (intro exI [of _ st]) (auto simp: next_work_def works_def kept_def works_measure_def size_of_def split: list.split)
  qed
qed

context strict_weak_order
begin

lemma split_at_scan:
  assumes "split_at lt pivot left right a l r" "l \<le> l1" "r1 \<le> r"
    "\<forall>k. l \<le> k \<and> k < l1 \<longrightarrow> lt (a ! nat k) pivot" "\<forall>k. r1 < k \<and> k \<le> r \<longrightarrow> lt pivot (a ! nat k)"
  shows "split_at lt pivot left right a l1 r1"
proof -
  have "\<not> lt pivot (a ! nat k)" if "left \<le> k" "k < l1" "k \<le> right" for k
    using assms(1,4) that asym by (cases "k < l") (auto simp: split_at_def)
  moreover have "\<not> lt (a ! nat k) pivot" if "r1 < k" "k \<le> right" "left \<le> k" for k
    using assms(1,5) that asym by (cases "r < k") (auto simp: split_at_def)
  ultimately show ?thesis using assms(1-3) by (auto simp: split_at_def)
qed

lemma exchange_ok:
  assumes "0 \<le> left" "right < int (length a)" "split_at lt pivot left right a l r" "left \<le> l" "l \<le> right" "left \<le> r" "r \<le> right"
    "\<not> lt (a ! nat l) pivot" "\<not> lt pivot (a ! nat r)"
  shows "\<exists>b l' r'. exchange a l r = Inr (b, l', r') \<and> seg left right a b \<and> split_at lt pivot left right b l' r' \<and>
    (l' = l + 1 \<and> r' = r - 1 \<and> l \<le> r \<or> l' = l \<and> r' = r \<and> r < l) \<and>
    (l < r \<longrightarrow> \<not> lt (b ! nat r) pivot \<and> \<not> lt pivot (b ! nat l))"
proof -
  consider "l < r" | "l = r" | "r < l" by linarith
  then show ?thesis
  proof cases
    case 1
    have ia: "in_array a l" "in_array a r" using assms(1,2,4-7) by (auto simp: in_array_def)
    obtain b where b: "ASORT_SWAP a l r = Inr b" "seg left right a b" "b ! nat l = a ! nat r" "b ! nat r = a ! nat l"
        "\<forall>k. k \<noteq> nat l \<and> k \<noteq> nat r \<longrightarrow> b ! k = a ! k"
      using swap_seg [OF ia, of left right] assms(4-7) by auto
    have same: "b ! nat k = a ! nat k" if "k \<noteq> l" "k \<noteq> r" "left \<le> k" for k
      using b(5) that assms(1,4,6) by (metis nat_0_le order_trans)
    have "\<not> lt pivot (b ! nat k)" if "left \<le> k" "k < l + 1" "k \<le> right" for k
      using same [of k] that 1 b(3) assms(3,9) by (cases "k = l") (auto simp: split_at_def)
    moreover have "\<not> lt (b ! nat k) pivot" if "r - 1 < k" "k \<le> right" "left \<le> k" for k
      using same [of k] that 1 b(4) assms(3,8) by (cases "k = r") (auto simp: split_at_def)
    ultimately show ?thesis using b 1 assms(4,7,8,9) by (auto simp: exchange_def split_at_def)
  next
    case 2
    have "split_at lt pivot left right a (l + 1) (r - 1)"
    proof -
      have "\<not> lt pivot (a ! nat k)" if "left \<le> k" "k < l + 1" "k \<le> right" for k
        using that 2 assms(3,9) by (cases "k = l") (auto simp: split_at_def)
      moreover have "\<not> lt (a ! nat k) pivot" if "r - 1 < k" "k \<le> right" "left \<le> k" for k
        using that 2 assms(3,8) by (cases "k = r") (auto simp: split_at_def)
      ultimately show ?thesis using assms(4,7) by (auto simp: split_at_def)
    qed
    then show ?thesis using 2 by (auto simp: exchange_def)
  next
    case 3
    then show ?thesis using assms(3) by (auto simp: exchange_def)
  qed
qed

lemma part_loop_ok:
  assumes "0 \<le> left" "right < int (length a)" "l \<le> r" "split_at lt pivot left right a l r"
    and "\<exists>i. l \<le> i \<and> i \<le> right \<and> \<not> lt (a ! nat i) pivot" "\<exists>j. left \<le> j \<and> j \<le> r \<and> \<not> lt pivot (a ! nat j)"
  shows "\<exists>b l' r'. part_loop lt pivot a l r = Inr (b, l', r') \<and> seg left right a b \<and> split_at lt pivot left right b l' r' \<and>
    r' < l' \<and> l \<le> l' \<and> r' \<le> r \<and> l' \<le> right + 1 \<and> left - 1 \<le> r' \<and>
    ((\<exists>m. l \<le> m \<and> m \<le> r \<and> \<not> lt (a ! nat m) pivot \<and> \<not> lt pivot (a ! nat m)) \<longrightarrow> l < l' \<and> r' < r)"
  using assms(2-)
proof (induction "nat (r - l)" arbitrary: a l r rule: less_induct)
  case less
  have lr: "left \<le> l" "r \<le> right" using less.prems(3) by (auto simp: split_at_def)
  obtain i where i: "l \<le> i" "i \<le> right" "\<not> lt (a ! nat i) pivot" using less.prems(4) by blast
  obtain j where j: "left \<le> j" "j \<le> r" "\<not> lt pivot (a ! nat j)" using less.prems(5) by blast
  obtain l1 where l1: "scan_up lt a pivot l = Inr l1" "l \<le> l1" "l1 \<le> right" "\<not> lt (a ! nat l1) pivot"
      "\<forall>k. l \<le> k \<and> k < l1 \<longrightarrow> lt (a ! nat k) pivot"
    using scan_up_ok [of l i a lt pivot] i lr less.prems(1) assms(1) by auto
  obtain r1 where r1: "scan_down lt a pivot r = Inr r1" "r1 \<le> r" "left \<le> r1" "\<not> lt pivot (a ! nat r1)"
      "\<forall>k. r1 < k \<and> k \<le> r \<longrightarrow> lt pivot (a ! nat k)"
    using scan_down_ok [of j r a lt pivot] j lr less.prems(1) assms(1) by auto
  have sp: "split_at lt pivot left right a l1 r1" by (rule split_at_scan [OF less.prems(3) l1(2) r1(2) l1(5) r1(5)])
  obtain b l2 r2 where e: "exchange a l1 r1 = Inr (b, l2, r2)" "seg left right a b" "split_at lt pivot left right b l2 r2"
      "l2 = l1 + 1 \<and> r2 = r1 - 1 \<and> l1 \<le> r1 \<or> l2 = l1 \<and> r2 = r1 \<and> r1 < l1"
      "l1 < r1 \<longrightarrow> \<not> lt (b ! nat r1) pivot \<and> \<not> lt pivot (b ! nat l1)"
    using exchange_ok [OF assms(1) less.prems(1) sp] l1 r1 lr by auto
  have mid: "l1 \<le> m \<and> m \<le> r1" if "l \<le> m" "m \<le> r" "\<not> lt (a ! nat m) pivot" "\<not> lt pivot (a ! nat m)" for m
    using l1(5) r1(5) that by (meson not_le)
  show ?case
  proof (cases "l2 \<le> r2")
    case True
    then have x: "l2 = l1 + 1" "r2 = r1 - 1" "l1 < r1" using e(4) by auto
    have "\<exists>b' l' r'. part_loop lt pivot b l2 r2 = Inr (b', l', r') \<and> seg left right b b' \<and> split_at lt pivot left right b' l' r' \<and>
        r' < l' \<and> l2 \<le> l' \<and> r' \<le> r2 \<and> l' \<le> right + 1 \<and> left - 1 \<le> r' \<and>
        ((\<exists>m. l2 \<le> m \<and> m \<le> r2 \<and> \<not> lt (b ! nat m) pivot \<and> \<not> lt pivot (b ! nat m)) \<longrightarrow> l2 < l' \<and> r' < r2)"
    proof (rule less.hyps)
      show "nat (r2 - l2) < nat (r - l)" using x l1(2) r1(2) less.prems(2) True by linarith
      show "right < int (length b)" using less.prems(1) seg_length [OF e(2)] by simp
      show "\<exists>i. l2 \<le> i \<and> i \<le> right \<and> \<not> lt (b ! nat i) pivot" using e(5) x r1(2) lr(2) by (intro exI [of _ r1]) auto
      show "\<exists>j. left \<le> j \<and> j \<le> r2 \<and> \<not> lt pivot (b ! nat j)" using e(5) x l1(2) lr(1) by (intro exI [of _ l1]) auto
    qed (use True e(3) in auto)
    then obtain b' l' r' where y: "part_loop lt pivot b l2 r2 = Inr (b', l', r')" "seg left right b b'"
        "split_at lt pivot left right b' l' r'" "r' < l'" "l2 \<le> l'" "r' \<le> r2" "l' \<le> right + 1" "left - 1 \<le> r'" by blast
    have "part_loop lt pivot a l r = Inr (b', l', r')" using l1(1) r1(1) e(1) True y(1) by (subst part_loop.simps) simp
    then show ?thesis using y x l1(2) r1(2) seg_trans [OF e(2) y(2)] by auto
  next
    case False
    then have "part_loop lt pivot a l r = Inr (b, l2, r2)" using l1(1) r1(1) e(1) by (subst part_loop.simps) simp
    moreover have "l < l2 \<and> r2 < r" if "\<exists>m. l \<le> m \<and> m \<le> r \<and> \<not> lt (a ! nat m) pivot \<and> \<not> lt pivot (a ! nat m)"
      using that mid e(4) l1(2) r1(2) by force
    ultimately show ?thesis using e False l1(2,3) r1(2,3) by auto
  qed
qed

lemma qs_step_ok:
  assumes "0 \<le> left" "left \<le> right" "right < int (length a)" "left + right < 2 ^ 31"
  shows "\<exists>b pivot l r. qs_step lt th a left right stack = res_bind (next_work th left right l r stack) (\<lambda>w. Inr (b, w)) \<and>
    seg left right a b \<and> split_at lt pivot left right b l r \<and> r < l \<and> left < l \<and> r < right \<and> l \<le> right + 1 \<and> left - 1 \<le> r"
proof -
  let ?m = "(left + right) div 2"
  have m: "left \<le> ?m" "?m \<le> right" using assms(2) by linarith+
  obtain c where c: "median3 lt a left ?m right = Inr c" "seg left right a c" using median3_ok [OF assms(1) m assms(3)] by blast
  have len: "length c = length a" by (rule seg_length [OF c(2)])
  then have rc: "right < int (length c)" using assms(3) by simp
  have e: "ASORT_ELT c ?m = Inr (c ! nat ?m)" using m assms(1,3) len by (simp add: ASORT_ELT_def in_array_def)
  let ?p = "c ! nat ?m"
  have self: "\<not> lt ?p ?p" using asym by blast
  have "split_at lt ?p left right c left right" by (auto simp: split_at_def)
  moreover have mid: "\<exists>m. left \<le> m \<and> m \<le> right \<and> \<not> lt (c ! nat m) ?p \<and> \<not> lt ?p (c ! nat m)"
    using self m by (intro exI [of _ ?m]) simp
  ultimately obtain b l r where b: "part_loop lt ?p c left right = Inr (b, l, r)" "seg left right c b" "split_at lt ?p left right b l r"
      "r < l" "l \<le> right + 1" "left - 1 \<le> r" "left < l \<and> r < right"
    using part_loop_ok [of left right c left right ?p] assms(1,2) rc by blast
  then show ?thesis using c e assms(4) seg_trans [OF c(2) b(2)]
    by (intro exI [of _ b] exI [of _ ?p] exI [of _ l] exI [of _ r]) (simp add: qs_step_def Let_def)
qed

text \<open>The first elements: up to \<open>e\<close> they are not greater than the others, and \<open>e\<close> is below the threshold
  or the end of a segment on which work remains.\<close>

definition low_upto :: "'a list \<Rightarrow> int \<Rightarrow> bool" where
  "low_upto a e \<longleftrightarrow> 0 \<le> e \<and> e < int (length a) \<and> (\<forall>i j. int i \<le> e \<and> e < int j \<and> j < length a \<longrightarrow> \<not> lt (a ! j) (a ! i))"

definition leftmost :: "int \<Rightarrow> 'a list \<Rightarrow> (int \<times> int) multiset \<Rightarrow> bool" where
  "leftmost th a M \<longleftrightarrow> (\<exists>e S. low_upto a e \<and> (M = S \<and> e < th \<or> M = add_mset (0, e) S) \<and> (\<forall>s \<in># S. e < fst s))"

lemma seg_cases:
  assumes "seg lo hi a b" "hi < int (length a)" "j < length b"
  obtains "b ! j = a ! j" "int j < lo \<or> hi < int j" | k where "b ! j = a ! k" "lo \<le> int k" "int k \<le> hi" "lo \<le> int j" "int j \<le> hi"
  using assms unfolding seg_def by (metis not_le)

lemma low_upto_seg:
  assumes "low_upto a e" "seg left right a b" "e < left" "right < int (length a)"
  shows "low_upto b e"
proof -
  have "\<not> lt (b ! j) (b ! i)" if i: "int i \<le> e" "e < int j" "j < length b" for i j
  proof -
    have bi: "b ! i = a ! i" using assms(2,3) i(1) unfolding seg_def by (metis le_less_trans)
    have "\<exists>k. e < int k \<and> k < length a \<and> b ! j = a ! k"
    proof (rule seg_cases [OF assms(2,4) i(3)])
      assume "b ! j = a ! j"
      then show ?thesis using i(2,3) seg_length [OF assms(2)] by auto
    next
      fix k assume "b ! j = a ! k" "left \<le> int k" "int k \<le> right"
      then show ?thesis using assms(3,4) by (intro exI [of _ k]) auto
    qed
    then show ?thesis using assms(1) i(1) bi unfolding low_upto_def by metis
  qed
  then show ?thesis using assms(1) seg_length [OF assms(2)] by (auto simp: low_upto_def)
qed

lemma low_upto_split:
  assumes "low_upto a right" "seg 0 right a b" "split_at lt pivot 0 right b l r" "r < l" "0 < l" "r < right" "right < int (length a)" "0 \<le> right"
  shows "low_upto b (max r 0)"
proof -
  have "\<not> lt (b ! j) (b ! i)" if i: "int i \<le> max r 0" "max r 0 < int j" "j < length b" for i j
  proof (cases "int j \<le> right")
    case True
    have ir: "int i < l" "int i \<le> right" "r < int j" using i assms(4-6) True by linarith+
    have z: "0 \<le> int i" "0 \<le> int j" by simp_all
    have "\<not> lt pivot (b ! nat (int i))" "\<not> lt (b ! nat (int j)) pivot"
      using assms(3) ir True z unfolding split_at_def by blast+
    then show ?thesis using neg_trans [of "b ! j" pivot "b ! i"] by simp
  next
    case False
    then have "b ! j = a ! j" using assms(2) unfolding seg_def by (metis not_le)
    moreover have "int i \<le> right" using i(1) assms(6,8) by linarith
    then obtain k where "b ! i = a ! k" "int k \<le> right" using assms(2) unfolding seg_def by (metis of_nat_0_le_iff)
    ultimately show ?thesis using assms(1) False i(3) seg_length [OF assms(2)] unfolding low_upto_def by (metis not_le)
  qed
  then show ?thesis using assms(1,6) seg_length [OF assms(2)] by (auto simp: low_upto_def)
qed

lemma leftmost_step:
  assumes "leftmost th a (add_mset (left, right) S)" "seg left right a b" "split_at lt pivot left right b l r"
    "r < l" "left < l" "r < right" "left \<le> right" "right < int (length a)" "1 \<le> th"
  shows "leftmost th b (kept th left r + kept th l right + S)"
proof -
  obtain e S' where e: "low_upto a e" "add_mset (left, right) S = S' \<and> e < th \<or> add_mset (left, right) S = add_mset (0, e) S'"
      "\<forall>s \<in># S'. e < fst s"
    using assms(1) unfolding leftmost_def by blast
  show ?thesis
  proof (cases "(left, right) = (0, e) \<and> S = S'")
    case True
    have "low_upto b (max r 0)" using low_upto_split [of a right b pivot l r] True e(1) assms by auto
    moreover have "\<forall>s \<in># kept th l right + S. max r 0 < fst s" using True e(3) assms(4-7) by (auto simp: kept_def)
    moreover have "kept th left r + kept th l right + S = kept th l right + S \<and> max r 0 < th \<or>
        kept th left r + kept th l right + S = add_mset (0, max r 0) (kept th l right + S)"
      using True assms(9) by (auto simp: kept_def)
    ultimately show ?thesis unfolding leftmost_def by blast
  next
    case False
    then obtain K where K: "S = K \<and> e < th \<and> S' = add_mset (left, right) K \<or> S = add_mset (0, e) K \<and> S' = add_mset (left, right) K"
      using e(2) by (auto simp: add_eq_conv_ex)
    then have "e < left" using e(3) by auto
    then have "low_upto b e" "\<forall>s \<in># kept th left r + kept th l right + K. e < fst s"
      using low_upto_seg [OF e(1) assms(2)] assms(5,8) e(3) K by (auto simp: kept_def)
    then show ?thesis unfolding leftmost_def using K
      by (intro exI [of _ e] exI [of _ "kept th left r + kept th l right + K"]) auto
  qed
qed

lemma leftmost_done: "leftmost th a {#} \<Longrightarrow> \<exists>e. low_upto a e \<and> e < th"
  by (auto simp: leftmost_def)

lemma qs_loop_ok:
  assumes "works_ok (int (length a)) ws" "ws = s # st" "int (length a) \<le> 2 ^ 30" "1 \<le> th" "leftmost th a (mset ws)"
  shows "\<exists>b e. qs_loop lt th a s st = Some (Inr b) \<and> mset b = mset a \<and> low_upto b e \<and> e < th"
  using assms
proof (induction "nat (works_measure ws)" arbitrary: a ws s st rule: less_induct)
  case less
  obtain left right where s: "s = (left, right)" by (cases s)
  have w: "0 \<le> left" "left < right" "right < int (length a)" using less.prems(1,2) s by auto
  then have ov: "left + right < 2 ^ 31" using less.prems(3) by simp
  obtain b pivot l r where q: "qs_step lt th a left right st = res_bind (next_work th left right l r st) (\<lambda>w. Inr (b, w))"
      "seg left right a b" "split_at lt pivot left right b l r" "r < l" "left < l" "r < right" "l \<le> right + 1" "left - 1 \<le> r"
    using qs_step_ok [of left right a th st] w ov by auto
  have len: "length b = length a" by (rule seg_length [OF q(2)])
  obtain ws' where n: "next_work th left right l r st = Inr (works ws')" "mset ws' = kept th left r + kept th l right + mset st"
      "works_ok (int (length b)) ws'" "works_measure ws' < works_measure ws"
    using next_work_ok [of "int (length a)" left right st th r l] less.prems q(4-8) s len by auto
  have lm: "leftmost th b (mset ws')"
    using leftmost_step [of th a left right "mset st" b pivot l r] less.prems(2,4,5) s q w n(2) by auto
  have step: "qs_step lt th a (fst s) (snd s) st = Inr (b, works ws')" using q(1) n(1) s by simp
  have perm: "mset b = mset a" using q(2) by (simp add: seg_def)
  show ?case
  proof (cases ws')
    case Nil
    then show ?thesis using lm step perm leftmost_done [of th b] by (subst qs_loop.simps) (auto simp: works_def)
  next
    case (Cons s' st')
    have "nat (works_measure ws') < nat (works_measure ws)" using n(4) works_measure_nonneg [OF n(3)] by linarith
    then have "\<exists>c e. qs_loop lt th b s' st' = Some (Inr c) \<and> mset c = mset b \<and> low_upto c e \<and> e < th"
      using less.hyps [OF _ n(3) Cons] less.prems(3,4) lm len by simp
    then show ?thesis using step perm Cons by (subst qs_loop.simps) (simp add: works_def)
  qed
qed

end

section \<open>Insertion sort\<close>

context strict_weak_order
begin

definition sorted_upto :: "'a list \<Rightarrow> int \<Rightarrow> bool" where
  "sorted_upto a m \<longleftrightarrow> (\<forall>i j. 0 \<le> i \<and> i < j \<and> j < m \<longrightarrow> leq (a ! nat i) (a ! nat j))"

lemma sorted_upto_one: "sorted_upto a 1"
  by (auto simp: sorted_upto_def)

lemma find_barrier_ok:
  assumes "r \<le> int (length a)" "1 \<le> l" "0 \<le> m" "m < l" "l \<le> r" "\<forall>k. 0 \<le> k \<and> k < l \<longrightarrow> \<not> lt (a ! nat k) (a ! nat m)"
  shows "\<exists>m'. find_barrier lt a r l m = Inr m' \<and> 0 \<le> m' \<and> m' < r \<and> (\<forall>k. 0 \<le> k \<and> k < r \<longrightarrow> \<not> lt (a ! nat k) (a ! nat m'))"
  using assms
proof (induction "nat (r - l)" arbitrary: l m)
  case 0
  then show ?case by (subst find_barrier.simps) auto
next
  case (Suc x)
  let ?m = "if lt (a ! nat l) (a ! nat m) then l else m"
  have lr: "l < r" using Suc(2) by linarith
  have c: "lt_at lt a l m = Inr (lt (a ! nat l) (a ! nat m))" using Suc.prems lr by (intro lt_at_ok) (auto simp: in_array_def)
  have "\<not> lt (a ! nat k) (a ! nat ?m)" if "0 \<le> k" "k < l + 1" for k
  proof (cases "k = l")
    case True
    then show ?thesis using leq_refl [of "a ! nat l"] by (simp add: leq_def)
  next
    case False
    then have "leq (a ! nat m) (a ! nat k)" using Suc.prems(6) that by (simp add: leq_def)
    then show ?thesis using leq_trans [of "a ! nat l" "a ! nat m" "a ! nat k"] lt_leq by (auto simp: leq_def)
  qed
  then have "\<exists>m'. find_barrier lt a r (l + 1) ?m = Inr m' \<and> 0 \<le> m' \<and> m' < r \<and> (\<forall>k. 0 \<le> k \<and> k < r \<longrightarrow> \<not> lt (a ! nat k) (a ! nat m'))"
    using Suc.prems lr Suc(2) by (intro Suc(1)) auto
  then show ?case using lr c by (subst find_barrier.simps) auto
qed

lemma find_slot_ok:
  assumes "1 \<le> l" "l \<le> m" "m < int (length a)" "\<not> lt (a ! nat m) (a ! 0)"
  shows "\<exists>k. find_slot lt a m l = Inr k \<and> 1 \<le> k \<and> k \<le> l \<and> \<not> lt (a ! nat m) (a ! nat (k - 1)) \<and>
    (\<forall>j. k \<le> j \<and> j < l \<longrightarrow> lt (a ! nat m) (a ! nat j))"
  using assms
proof (induction "nat l" arbitrary: l)
  case (Suc x)
  have c: "lt_at lt a m (l - 1) = Inr (lt (a ! nat m) (a ! nat (l - 1)))" using Suc.prems by (intro lt_at_ok) (auto simp: in_array_def)
  show ?case
  proof (cases "lt (a ! nat m) (a ! nat (l - 1))")
    case True
    then have "1 \<le> l - 1" using Suc.prems by (cases "l = 1") auto
    moreover have nx: "x = nat (l - 1)" using Suc(2) by linarith
    ultimately obtain k where k: "find_slot lt a m (l - 1) = Inr k" "1 \<le> k" "k \<le> l - 1" "\<not> lt (a ! nat m) (a ! nat (k - 1))"
        "\<forall>j. k \<le> j \<and> j < l - 1 \<longrightarrow> lt (a ! nat m) (a ! nat j)"
      using Suc(1) [of "l - 1"] nx Suc.prems by auto
    have "lt (a ! nat m) (a ! nat j)" if "k \<le> j" "j < l" for j using k(5) that True by (cases "j = l - 1") auto
    then show ?thesis using k True c by (subst find_slot.simps) auto
  next
    case False
    then show ?thesis using c Suc.prems by (subst find_slot.simps) auto
  qed
qed simp

lemma rotate_in_ok:
  assumes "0 \<le> l" "l \<le> m" "m < int (length a)"
  shows "\<exists>b. rotate_in a l m = Inr b \<and> length b = length a \<and> mset b = mset a \<and> b ! nat l = a ! nat m \<and>
    (\<forall>k. (k < l \<or> m < k) \<and> 0 \<le> k \<longrightarrow> b ! nat k = a ! nat k) \<and> (\<forall>k. l < k \<and> k \<le> m \<longrightarrow> b ! nat k = a ! nat (k - 1))"
  using assms
proof (induction "nat (m - l)" arbitrary: a l)
  case 0
  then show ?case by (subst rotate_in.simps) auto
next
  case (Suc x)
  have lm: "l < m" and nx: "x = nat (m - (l + 1))" using Suc(2) by linarith+
  obtain c where c: "ASORT_SWAP a l m = Inr c" "seg 0 m a c" "c ! nat l = a ! nat m" "c ! nat m = a ! nat l"
      "\<forall>k. k \<noteq> nat l \<and> k \<noteq> nat m \<longrightarrow> c ! k = a ! k"
    using swap_seg [of a l m 0 m] Suc.prems by (auto simp: in_array_def)
  have len: "length c = length a" by (rule seg_length [OF c(2)])
  obtain b where b: "rotate_in c (l + 1) m = Inr b" "length b = length c" "mset b = mset c" "b ! nat (l + 1) = c ! nat m"
      "\<forall>k. (k < l + 1 \<or> m < k) \<and> 0 \<le> k \<longrightarrow> b ! nat k = c ! nat k" "\<forall>k. l + 1 < k \<and> k \<le> m \<longrightarrow> b ! nat k = c ! nat (k - 1)"
    using Suc(1) [of "l + 1" c] nx Suc.prems lm len by auto
  have same: "c ! nat k = a ! nat k" if "k \<noteq> l" "k \<noteq> m" "0 \<le> k" for k using c(5) that Suc.prems by (metis nat_eq_iff nat_0_le order_trans)
  have "b ! nat k = a ! nat k" if "k < l \<or> m < k" "0 \<le> k" for k using b(5) same [of k] that lm by auto
  moreover have "b ! nat k = a ! nat (k - 1)" if "l < k" "k \<le> m" for k
    using b(4,6) c(4) same [of "k - 1"] that Suc.prems(1) by (cases "k = l + 1") auto
  moreover have "b ! nat l = a ! nat m" using b(5) c(3) Suc.prems(1) by auto
  ultimately show ?case using b(1-3) c(1,2) len lm by (subst rotate_in.simps) (auto simp: seg_def)
qed

lemma insert_step:
  assumes "sorted_upto a m" "1 \<le> l" "l \<le> m" "\<not> lt (a ! nat m) (a ! nat (l - 1))" "\<forall>j. l \<le> j \<and> j < m \<longrightarrow> lt (a ! nat m) (a ! nat j)"
    "b ! nat l = a ! nat m" "\<forall>k. (k < l \<or> m < k) \<and> 0 \<le> k \<longrightarrow> b ! nat k = a ! nat k" "\<forall>k. l < k \<and> k \<le> m \<longrightarrow> b ! nat k = a ! nat (k - 1)"
  shows "sorted_upto b (m + 1)"
  unfolding sorted_upto_def
proof (intro allI impI, elim conjE)
  fix i j :: int
  assume ij: "0 \<le> i" "i < j" "j < m + 1"
  have s: "leq (a ! nat i') (a ! nat j')" if "0 \<le> i'" "i' < j'" "j' < m" for i' j' using assms(1) that unfolding sorted_upto_def by blast
  have low: "leq (a ! nat i') (a ! nat m)" if "0 \<le> i'" "i' < l" for i'
  proof (cases "i' = l - 1")
    case True
    then show ?thesis using assms(4) by (simp add: leq_def)
  next
    case False
    then have "leq (a ! nat i') (a ! nat (l - 1))" using s [of i' "l - 1"] that assms(3) by simp
    then show ?thesis using leq_trans assms(4) unfolding not_lt by blast
  qed
  have high: "leq (a ! nat m) (a ! nat j')" if "l \<le> j'" "j' < m" for j' using assms(5) that lt_leq by blast
  have b: "b ! nat k = a ! nat k" if "0 \<le> k" "k < l" for k using assms(7) that by blast
  have b': "b ! nat k = a ! nat (k - 1)" if "l < k" "k < m + 1" for k using assms(8) that by simp
  consider "j < l" | "j = l" | "i < l" "l < j" | "i = l" "l < j" | "l < i" using ij by linarith
  then show "leq (b ! nat i) (b ! nat j)"
  proof cases
    case 1
    show ?thesis unfolding b [OF ij(1) less_trans [OF ij(2) 1]] b [OF order.strict_implies_order [OF le_less_trans [OF ij(1,2)]] 1]
      by (rule s) (use 1 ij assms(3) in linarith)+
  next
    case 2
    then show ?thesis using low [of i] b [of i] assms(6) ij by simp
  next
    case 3
    then show ?thesis using s [of i "j - 1"] b [of i] b' [of j] ij by simp
  next
    case 4
    then show ?thesis using high [of "j - 1"] assms(6) b' [of j] ij by simp
  next
    case 5
    then show ?thesis using s [of "i - 1" "j - 1"] b' [of i] b' [of j] assms(2) ij by simp
  qed
qed

lemma insert_loop_ok:
  assumes "n = int (length a)" "1 \<le> m" "m \<le> n" "sorted_upto a m" "\<forall>k < length a. \<not> lt (a ! k) (a ! 0)"
  shows "\<exists>b. insert_loop lt a n m = Inr b \<and> mset b = mset a \<and> sorted_upto b n"
  using assms
proof (induction "nat (n - m)" arbitrary: a m)
  case 0
  then show ?case by (subst insert_loop.simps) auto
next
  case (Suc x)
  have mn: "m < n" and nx: "x = nat (n - (m + 1))" using Suc(2) by linarith+
  obtain l where l: "find_slot lt a m m = Inr l" "1 \<le> l" "l \<le> m" "\<not> lt (a ! nat m) (a ! nat (l - 1))"
      "\<forall>j. l \<le> j \<and> j < m \<longrightarrow> lt (a ! nat m) (a ! nat j)"
    using find_slot_ok [of m m a] Suc.prems mn by auto
  obtain b where b: "rotate_in a l m = Inr b" "length b = length a" "mset b = mset a" "b ! nat l = a ! nat m"
      "\<forall>k. (k < l \<or> m < k) \<and> 0 \<le> k \<longrightarrow> b ! nat k = a ! nat k" "\<forall>k. l < k \<and> k \<le> m \<longrightarrow> b ! nat k = a ! nat (k - 1)"
    using rotate_in_ok [of l m a] Suc.prems(1) l mn by auto
  have "sorted_upto b (m + 1)" by (rule insert_step [OF Suc.prems(4) l(2-5) b(4-6)])
  moreover have "\<forall>k < length b. \<not> lt (b ! k) (b ! 0)"
  proof (intro allI impI)
    fix k assume "k < length b"
    then have "b ! k \<in> set a" using nth_mem mset_eq_setD [OF b(3)] by metis
    moreover have "b ! 0 = a ! 0" using b(5) [rule_format, of 0] l(2) by simp
    ultimately show "\<not> lt (b ! k) (b ! 0)" using Suc.prems(5) by (auto simp: in_set_conv_nth)
  qed
  ultimately obtain c where "insert_loop lt b n (m + 1) = Inr c" "mset c = mset b" "sorted_upto c n"
    using Suc(1) [of "m + 1" b] nx Suc.prems(1-3) mn b(2) by auto
  then show ?case using l(1) b(1,3) mn by (subst insert_loop.simps) auto
qed

lemma sorted_upto_length: "sorted_upto a (int (length a)) \<Longrightarrow> sorted_wrt (\<lambda>x y. \<not> lt y x) a"
  unfolding sorted_wrt_iff_nth_less sorted_upto_def leq_def by (metis nat_int of_nat_0_le_iff of_nat_less_iff)

lemma finish_ok:
  assumes "low_upto a e" "e < th" "n = int (length a)" "1 < n" "1 \<le> th"
  shows "\<exists>m b c. find_barrier lt a (min n th) 1 0 = Inr m \<and> ASORT_SWAP a 0 m = Inr b \<and> insert_loop lt b n 1 = Inr c \<and>
    mset c = mset a \<and> sorted_wrt (\<lambda>x y. \<not> lt y x) c"
proof -
  have "\<exists>m. find_barrier lt a (min n th) 1 0 = Inr m \<and> 0 \<le> m \<and> m < min n th \<and> (\<forall>k. 0 \<le> k \<and> k < min n th \<longrightarrow> \<not> lt (a ! nat k) (a ! nat m))"
    using assms(3-5) leq_refl [of "a ! 0"] by (intro find_barrier_ok) (auto simp: leq_def le_less)
  then obtain m where m: "find_barrier lt a (min n th) 1 0 = Inr m" "0 \<le> m" "m < n"
      "\<And>k. 0 \<le> k \<and> k < min n th \<Longrightarrow> \<not> lt (a ! nat k) (a ! nat m)" by auto
  have least: "\<not> lt (a ! k) (a ! nat m)" if "k < length a" for k
  proof (cases "int k \<le> e")
    case True
    then show ?thesis using m(4) [of "int k"] that assms(2,3) by simp
  next
    case False
    have "\<not> lt (a ! k) (a ! 0)" using assms(1) False that unfolding low_upto_def by auto
    moreover have "\<not> lt (a ! 0) (a ! nat m)" using m(4) [of 0] assms(4,5) by simp
    ultimately show ?thesis using neg_trans by blast
  qed
  have ia: "in_array a 0" "in_array a m" using m(2,3) assms(3) by (auto simp: in_array_def)
  obtain b where b: "ASORT_SWAP a 0 m = Inr b" "seg 0 m a b" "b ! 0 = a ! nat m"
    using swap_seg [OF ia, of 0 m] m(2) by auto
  have pb: "mset b = mset a" "length b = length a" using b(2) by (auto simp: seg_def)
  have "\<not> lt (b ! k) (b ! 0)" if "k < length b" for k
  proof -
    have "b ! k \<in> set a" using that nth_mem mset_eq_setD [OF pb(1)] by metis
    then obtain k' where "k' < length a" "b ! k = a ! k'" by (metis in_set_conv_nth)
    then show ?thesis using least [of k'] b(3) by simp
  qed
  then obtain c where c: "insert_loop lt b n 1 = Inr c" "mset c = mset b" "sorted_upto c n"
    using insert_loop_ok [of n b 1] sorted_upto_one [of b] pb(2) assms(3,4) by auto
  have "length c = length a" using c(2) pb(1) by (metis mset_eq_length)
  then have "sorted_wrt (\<lambda>x y. \<not> lt y x) c" using c(3) assms(3) sorted_upto_length by simp
  then show ?thesis using m(1) b(1) c pb(1) by auto
qed

lemma asort_ok:
  assumes "1 \<le> th" "int (length a) \<le> 2 ^ 30"
  shows "\<exists>b. asort lt th a = Some (Inr b) \<and> mset b = mset a \<and> sorted_wrt (\<lambda>x y. \<not> lt y x) b"
proof (cases "int (length a) \<le> 1")
  case True
  then show ?thesis by (cases a) (auto simp: asort_def)
next
  case False
  let ?n = "int (length a)"
  have lm: "leftmost th a (mset [(0, ?n - 1)])" unfolding leftmost_def low_upto_def
    using False by (intro exI [of _ "?n - 1"] exI [of _ "{#}"]) auto
  have "works_ok ?n [(0, ?n - 1)]" using False by (simp add: size_of_def)
  then obtain b e where b: "qs_loop lt th a (0, ?n - 1) [] = Some (Inr b)" "mset b = mset a" "low_upto b e" "e < th"
    using qs_loop_ok [OF _ refl assms(2,1) lm] by auto
  have len: "length b = length a" using b(2) by (metis mset_eq_length)
  then show ?thesis using b False finish_ok [OF b(3,4), of ?n] assms(1) by (auto simp: asort_def Let_def)
qed

end

text \<open>C5: For a strict weak order, a threshold of at least one and an array of at most \<open>2 ^ 30\<close> elements,
  the generated sorter returns, without leaving the array or its stack of 32 entries and without overflow of
  an index, and the array then holds the same elements in order.\<close>

theorem asort_sorts:
  assumes "strict_weak_order lt" "1 \<le> th" "int (length a) \<le> 2 ^ 30"
  shows "\<exists>b. asort lt th a = Some (Inr b) \<and> mset b = mset a \<and> sorted_wrt (\<lambda>x y. \<not> lt y x) b"
  by (rule strict_weak_order.asort_ok [OF assms])

theorem asort_sorts_witness:
  "\<exists>b. asort (<) 2 [5, 1, 4, 2, 3 :: nat] = Some (Inr b) \<and> mset b = mset [5, 1, 4, 2, 3] \<and> sorted_wrt (\<lambda>x y. \<not> y < x) b"
  using asort_sorts [OF linord.strict_weak_order_axioms, of 2 "[5, 1, 4, 2, 3 :: nat]"] by simp

end
