(* ===== verification/Workqueue.thy ===== *)
theory Workqueue
  imports Heap
begin

text \<open>
  \<open>ucw/workqueue.c\<close>: raw queues (a FIFO list of requests of priority 0 and a heap of the others, with a
  semaphore), worker pools and work queues. The threads are modelled as a step relation: every step is what
  one thread does up to the next point where another thread can notice it, that is one semaphore operation or
  one section under the mutex of a queue. The callbacks are outside of the model: \<open>go\<close> of a request may change
  its priority arbitrarily, thread callbacks have no effect on the queues. The functions of raw queues have the widths of the
  code; the step relation abstracts from them and uses the same functions over unbounded counts (\<open>put_unb\<close>, \<open>get_unb\<close>, \<open>post_unb\<close>), which are
  shown to agree with those of the code on queues of less than \<open>2\<^sup>3\<^sup>0\<close> requests. Thread creation does not fail, and waiting for a semaphore
  is not interrupted by signals.
\<close>

section \<open>Raw queues\<close>

datatype go_fn = User_go | Worker_thread_signal_finish

record work =
  addr :: nat
  priority :: uint
  go :: go_fn

record raw_queue =
  pri0_queue :: "work list"
  pri_heap :: "work list"
  heap_cnt :: nat
  heap_max :: nat
  queue_sem :: nat

definition PRI_LESS :: "work \<Rightarrow> work \<Rightarrow> bool" where
  "PRI_LESS x y \<longleftrightarrow> priority x > priority y"

definition raw_queue_init :: raw_queue where
  "raw_queue_init = \<lparr>pri0_queue = [], pri_heap = [], heap_cnt = 0, heap_max = 0, queue_sem = 0\<rparr>"

definition raw_queue_cleanup :: "raw_queue \<Rightarrow> unit res" where
  "raw_queue_cleanup q = ensure (pri0_queue q = []) (ensure (heap_cnt q = 0) (Inr ()))"

text \<open>The heap is reallocated when it is full, with its size in a \<open>uint\<close>. The new cells have no particular contents; here they hold
  the new request.\<close>

definition grow_heap :: "work \<Rightarrow> raw_queue \<Rightarrow> raw_queue" where
  "grow_heap w q = (if heap_cnt q \<ge> heap_max q then
     let m = (if heap_max q \<noteq> 0 then U32 (2 * heap_max q) else 16) in
     q\<lparr>heap_max := m, pri_heap := take (m + 1) (pri_heap q @ replicate (m + 1 - length (pri_heap q)) w)\<rparr> else q)"

text \<open>The section of \<open>raw_queue_put\<close> under the mutex.\<close>

definition locked_put :: "work \<Rightarrow> raw_queue \<Rightarrow> raw_queue" where
  "locked_put w q = (if priority w = 0 then q\<lparr>pri0_queue := pri0_queue q @ [w]\<rparr>
     else let q = grow_heap w q; (n, h) = HEAP_INSERT PRI_LESS w (heap_cnt q, pri_heap q) in q\<lparr>heap_cnt := n, pri_heap := h\<rparr>)"

text \<open>The operations of the library on the semaphore of a queue. A post at the greatest value fails with \<open>EOVERFLOW\<close>, which the callers ignore.\<close>

definition sem_value_max :: nat where
  "sem_value_max = 2 ^ 31 - 1"

definition sem_post :: "raw_queue \<Rightarrow> raw_queue" where
  "sem_post q = (if queue_sem q < sem_value_max then q\<lparr>queue_sem := queue_sem q + 1\<rparr> else q)"

definition sem_trywait :: "raw_queue \<Rightarrow> raw_queue option" where
  "sem_trywait q = (if queue_sem q = 0 then None else Some (q\<lparr>queue_sem := queue_sem q - 1\<rparr>))"

definition raw_queue_put :: "work \<Rightarrow> raw_queue \<Rightarrow> raw_queue" where
  "raw_queue_put w q = sem_post (locked_put w q)"

definition raw_queue_do_get :: "raw_queue \<Rightarrow> (work \<times> raw_queue) res" where
  "raw_queue_do_get q = (if heap_cnt q = 0 then
       (case pri0_queue q of [] \<Rightarrow> Inl Assert_failed | w # ws \<Rightarrow> Inr (w, q\<lparr>pri0_queue := ws\<rparr>))
     else case HEAP_DELETE_MIN PRI_LESS (heap_cnt q, pri_heap q) of
       None \<Rightarrow> Inl Diverges
     | Some (n, h) \<Rightarrow> Inr (pri_heap q ! 1, q\<lparr>heap_cnt := n, pri_heap := h\<rparr>))"

text \<open>\<open>raw_queue_get\<close> waits for the semaphore, so it returns only when the semaphore is positive: otherwise
  the result is \<open>None\<close>, which for \<open>raw_queue_try_get\<close> is the null pointer.\<close>

definition raw_queue_try_get :: "raw_queue \<Rightarrow> (work \<times> raw_queue) res option" where
  "raw_queue_try_get q = map_option raw_queue_do_get (sem_trywait q)"

text \<open>The same over unbounded counts.\<close>

definition grow_unb :: "work \<Rightarrow> raw_queue \<Rightarrow> raw_queue" where
  "grow_unb w q = (if heap_cnt q \<ge> heap_max q then
     let m = (if heap_max q \<noteq> 0 then 2 * heap_max q else 16) in
     q\<lparr>heap_max := m, pri_heap := pri_heap q @ replicate (m + 1 - length (pri_heap q)) w\<rparr> else q)"

definition put_unb :: "work \<Rightarrow> raw_queue \<Rightarrow> raw_queue" where
  "put_unb w q = (if priority w = 0 then q\<lparr>pri0_queue := pri0_queue q @ [w]\<rparr>
     else let q = grow_unb w q; (n, h) = insert_ref PRI_LESS w (heap_cnt q, pri_heap q) in q\<lparr>heap_cnt := n, pri_heap := h\<rparr>)"

definition post_unb :: "raw_queue \<Rightarrow> raw_queue" where
  "post_unb q = q\<lparr>queue_sem := queue_sem q + 1\<rparr>"

definition get_unb :: "raw_queue \<Rightarrow> (work \<times> raw_queue) res" where
  "get_unb q = (if heap_cnt q = 0 then
       (case pri0_queue q of [] \<Rightarrow> Inl Assert_failed | w # ws \<Rightarrow> Inr (w, q\<lparr>pri0_queue := ws\<rparr>))
     else let (n, h) = delete_min_ref PRI_LESS (heap_cnt q, pri_heap q) in Inr (pri_heap q ! 1, q\<lparr>heap_cnt := n, pri_heap := h\<rparr>))"

section \<open>Raw queues are priority queues\<close>

interpretation pri: strict_weak_order PRI_LESS
  by unfold_locales (auto simp: PRI_LESS_def)

definition items :: "raw_queue \<Rightarrow> work multiset" where
  "items q = elems (heap_cnt q) (pri_heap q) + mset (pri0_queue q)"

definition queue_ok :: "raw_queue \<Rightarrow> bool" where
  "queue_ok q \<longleftrightarrow> heap_cnt q \<le> heap_max q \<and>
     (if heap_max q = 0 then pri_heap q = [] else length (pri_heap q) = heap_max q + 1 \<and> heap_ok PRI_LESS (heap_cnt q) (pri_heap q)) \<and>
     (\<forall>w\<in>#elems (heap_cnt q) (pri_heap q). priority w \<noteq> 0) \<and> (\<forall>w\<in>set (pri0_queue q). priority w = 0)"

text \<open>The request that is served next.\<close>

definition next_request :: "raw_queue \<Rightarrow> work" where
  "next_request q = (if heap_cnt q = 0 then hd (pri0_queue q) else pri_heap q ! 1)"

definition after_get :: "raw_queue \<Rightarrow> raw_queue" where
  "after_get q = (case raw_queue_do_get q of Inr (w, q) \<Rightarrow> q)"

text \<open>A valid queue whose heap fits the widths of the code.\<close>

definition queue_fits :: "raw_queue \<Rightarrow> bool" where
  "queue_fits q \<longleftrightarrow> queue_ok q \<and> heap_max q < 2 ^ 31"

lemma queue_ok_init: "queue_ok raw_queue_init" "items raw_queue_init = {#}" "queue_sem raw_queue_init = 0"
  by (simp_all add: queue_ok_def raw_queue_init_def items_def elems_def)

lemma length_insert_ref:
  assumes "n + 1 < length h"
  shows "length (snd (insert_ref lt w (n, h))) = length h"
  using UP_props [of "n + 1" "h[n + 1 := w]" "n + 1" lt] assms by (simp add: insert_ref_def Let_def)

lemma heap_ok_append: "heap_ok lt n h \<Longrightarrow> heap_ok lt n (h @ g) \<and> elems n (h @ g) = elems n h"
  by (cases h) (auto simp: heap_ok_def elems_def nth_append)

lemma grow_unb_ok:
  assumes "queue_ok q"
  shows "let g = grow_unb w q in heap_cnt g = heap_cnt q \<and> heap_cnt g < heap_max g \<and> length (pri_heap g) = heap_max g + 1 \<and>
    heap_ok PRI_LESS (heap_cnt g) (pri_heap g) \<and> elems (heap_cnt g) (pri_heap g) = elems (heap_cnt q) (pri_heap q) \<and>
    pri0_queue g = pri0_queue q \<and> queue_sem g = queue_sem q"
proof (cases "heap_max q = 0")
  case True
  then show ?thesis using assms by (auto simp: queue_ok_def grow_unb_def Let_def heap_ok_def elems_def)
next
  case False
  then show ?thesis using assms heap_ok_append [of PRI_LESS "heap_cnt q" "pri_heap q"]
    by (auto simp: queue_ok_def grow_unb_def Let_def)
qed

lemma put_unb_ok:
  assumes "queue_ok q"
  shows "queue_ok (put_unb w q) \<and> items (put_unb w q) = add_mset w (items q) \<and> queue_sem (put_unb w q) = queue_sem q"
proof (cases "priority w = 0")
  case True
  then show ?thesis using assms by (auto simp: put_unb_def queue_ok_def items_def)
next
  case False
  let ?g = "grow_unb w q"
  obtain n h where nh: "insert_ref PRI_LESS w (heap_cnt ?g, pri_heap ?g) = (n, h)" by fastforce
  note g = grow_unb_ok [OF assms, of w, unfolded Let_def]
  have h: "n = heap_cnt q + 1" "heap_ok PRI_LESS n h" "elems n h = add_mset w (elems (heap_cnt q) (pri_heap q))" "length h = heap_max ?g + 1"
    using pri.INSERT_ok [of "heap_cnt ?g" "pri_heap ?g" w] length_insert_ref [of "heap_cnt ?g" "pri_heap ?g" PRI_LESS w] g nh by auto
  then show ?thesis using False nh g assms by (auto simp: put_unb_def queue_ok_def items_def)
qed

lemma do_get_ok:
  assumes "queue_ok q" "items q \<noteq> {#}"
  shows "\<exists>g. get_unb q = Inr (next_request q, g) \<and> queue_ok g \<and> items q = add_mset (next_request q) (items g) \<and> queue_sem g = queue_sem q"
proof (cases "heap_cnt q = 0")
  case True
  then have "pri0_queue q \<noteq> []" using assms(2) by (auto simp: items_def elems_def)
  then obtain w ws where "pri0_queue q = w # ws" by (cases "pri0_queue q") auto
  then show ?thesis using True assms(1) by (auto simp: get_unb_def next_request_def queue_ok_def items_def)
next
  case False
  then have h: "heap_ok PRI_LESS (heap_cnt q) (pri_heap q)" "1 \<le> heap_cnt q" "heap_max q \<noteq> 0" using assms(1) by (auto simp: queue_ok_def split: if_splits)
  obtain n g where ng: "delete_min_ref PRI_LESS (heap_cnt q, pri_heap q) = (n, g)" by fastforce
  have d: "n = heap_cnt q - 1" "heap_ok PRI_LESS n g" "length g = length (pri_heap q)" "elems n g = elems (heap_cnt q) (pri_heap q) - {#pri_heap q ! 1#}"
    using pri.DELETE_MIN_ok [OF h(1,2)] ng by auto
  have m: "pri_heap q ! 1 \<in># elems (heap_cnt q) (pri_heap q)" using pri.heap_first [OF h(1,2)] by blast
  have "queue_ok (q\<lparr>heap_cnt := n, pri_heap := g\<rparr>)" using assms(1) d h(3) by (auto simp: queue_ok_def dest: in_diffD)
  then show ?thesis using False ng d m by (auto simp: get_unb_def next_request_def items_def)
qed

lemma get_pri0:
  assumes "queue_ok q" "get_unb q = Inr (w, g)"
  shows "pri0_queue q = (if priority w = 0 then [w] else []) @ pri0_queue g"
proof (cases "heap_cnt q = 0")
  case True
  then show ?thesis using assms by (auto simp: get_unb_def queue_ok_def split: list.splits)
next
  case False
  then have h: "heap_ok PRI_LESS (heap_cnt q) (pri_heap q)" "1 \<le> heap_cnt q" using assms(1) by (auto simp: queue_ok_def split: if_splits)
  have "priority (pri_heap q ! 1) \<noteq> 0" using pri.heap_first [OF h] assms(1) by (auto simp: queue_ok_def)
  then show ?thesis using False assms(2) by (auto simp: get_unb_def split: prod.splits)
qed

lemma next_request_max:
  assumes "queue_ok q" "items q \<noteq> {#}"
  shows "next_request q \<in># items q \<and> (\<forall>w\<in>#items q. priority w \<le> priority (next_request q))"
proof (cases "heap_cnt q = 0")
  case True
  then show ?thesis using assms by (cases "pri0_queue q") (auto simp: items_def elems_def queue_ok_def next_request_def)
next
  case False
  then have h: "heap_ok PRI_LESS (heap_cnt q) (pri_heap q)" "1 \<le> heap_cnt q" using assms(1) by (auto simp: queue_ok_def split: if_splits)
  then show ?thesis using pri.heap_first [OF h] False assms(1) by (auto simp: items_def next_request_def PRI_LESS_def queue_ok_def not_less)
qed

text \<open>The functions of the code agree with those over unbounded counts.\<close>

lemma grow_heap_unb: "queue_ok q \<Longrightarrow> heap_max q < 2 ^ 31 \<Longrightarrow> grow_heap w q = grow_unb w q"
proof -
  assume q: "queue_ok q" "heap_max q < 2 ^ 31"
  let ?m = "if heap_max q \<noteq> 0 then 2 * heap_max q else 16"
  have u: "(if heap_max q \<noteq> 0 then U32 (2 * heap_max q) else 16) = ?m" using q(2) by simp
  have "length (pri_heap q) \<le> ?m + 1" using q(1) by (auto simp: queue_ok_def split: if_splits)
  then have "take (?m + 1) (pri_heap q @ replicate (?m + 1 - length (pri_heap q)) w) = pri_heap q @ replicate (?m + 1 - length (pri_heap q)) w"
    by (intro take_all) simp
  then show ?thesis unfolding grow_heap_def grow_unb_def Let_def u by simp
qed

lemma heap_cnt_le: "queue_ok q \<Longrightarrow> heap_cnt q \<le> size (items q)"
  by (auto simp: queue_ok_def items_def elems_def heap_ok_def split: if_splits)

lemma locked_put_unb:
  assumes "queue_fits q" "size (items q) < 2 ^ 30"
  shows "locked_put w q = put_unb w q \<and> heap_max (put_unb w q) < 2 ^ 31"
proof -
  have q: "queue_ok q" "heap_max q < 2 ^ 31" "heap_cnt q < 2 ^ 30" using assms heap_cnt_le [of q] by (auto simp: queue_fits_def)
  have m: "heap_max (grow_unb w q) < 2 ^ 31" "heap_cnt (grow_unb w q) = heap_cnt q" using q by (auto simp: grow_unb_def Let_def)
  have "HEAP_INSERT PRI_LESS w (heap_cnt q, h) = insert_ref PRI_LESS w (heap_cnt q, h)" for h using q(3) by (intro INSERT_ref) simp
  then show ?thesis using m q(2) grow_heap_unb [OF q(1,2), of w] by (auto simp: locked_put_def put_unb_def Let_def split: prod.split)
qed

lemma do_get_unb:
  assumes "queue_fits q"
  shows "raw_queue_do_get q = get_unb q"
proof (cases "heap_cnt q = 0")
  case False
  then have "HEAP_DELETE_MIN PRI_LESS (heap_cnt q, pri_heap q) = Some (delete_min_ref PRI_LESS (heap_cnt q, pri_heap q))"
    using assms by (intro DELETE_MIN_ref) (auto simp: queue_fits_def queue_ok_def)
  then show ?thesis using False by (simp add: raw_queue_do_get_def get_unb_def split: prod.split)
qed (simp add: raw_queue_do_get_def get_unb_def)

lemma get_keeps_max: "get_unb q = Inr (w, g) \<Longrightarrow> heap_max g = heap_max q"
  by (auto simp: get_unb_def split: list.splits if_splits prod.splits)

lemma fits_put: "queue_fits q \<Longrightarrow> size (items q) < 2 ^ 30 \<Longrightarrow>
    queue_fits (locked_put w q) \<and> items (locked_put w q) = add_mset w (items q) \<and> queue_sem (locked_put w q) = queue_sem q"
  using locked_put_unb [of q w] put_unb_ok [of q w] by (auto simp: queue_fits_def)

lemma fits_get:
  assumes "queue_fits q" "items q \<noteq> {#}"
  shows "\<exists>g. raw_queue_do_get q = Inr (next_request q, g) \<and> queue_fits g \<and> items q = add_mset (next_request q) (items g) \<and> queue_sem g = queue_sem q"
  using do_get_ok [OF _ assms(2)] do_get_unb [OF assms(1)] get_keeps_max [of q "next_request q"] assms(1) unfolding queue_fits_def by fastforce

interpretation rq: priority_queue queue_fits items "\<lambda>q. size (items q) < 2 ^ 30" next_request after_get locked_put "\<lambda>v w. priority w \<le> priority v"
proof
  fix q w
  show "next_request q \<in># items q \<and> (\<forall>w\<in>#items q. priority w \<le> priority (next_request q))" if "queue_fits q" "items q \<noteq> {#}"
    using next_request_max [OF _ that(2)] that(1) by (simp add: queue_fits_def)
  show "queue_fits (after_get q) \<and> items (after_get q) = items q - {#next_request q#}" if "queue_fits q" "items q \<noteq> {#}"
    using fits_get [OF that] by (auto simp: after_get_def)
  show "queue_fits (locked_put w q) \<and> items (locked_put w q) = add_mset w (items q)" if "queue_fits q" "size (items q) < 2 ^ 30"
    using fits_put [OF that] by simp
qed

section \<open>Threads\<close>

text \<open>Where a worker thread stands: before the callback \<open>init_thread\<close>, at the wait for a request, between the wait
  and the section under the mutex, before the call of \<open>go\<close>, before putting the request to the queue of finished
  ones, between that and the post of its semaphore, and after its exit.\<close>

datatype worker = W_init | W_get | W_lock | W_go work | W_put work | W_post | W_exited

text \<open>What the owner of the pool and of one work queue does between the initialisation and the cleanup.\<close>

datatype command = Submit work | Wait | Try_wait | Wait_all

text \<open>Where the owner stands: in \<open>worker_pool_init\<close>, between two commands, inside \<open>work_submit\<close> and
  \<open>work_wait\<close>, in the two loops of \<open>worker_pool_cleanup\<close>, and at the end.\<close>

datatype owner = M_create nat | M_init_wait nat | M_run | M_put work | M_post | M_wait | M_lock
  | M_finish nat | M_finish_post nat | M_finish_wait nat | M_join nat | M_done

record system =
  num_threads :: nat
  requests :: raw_queue
  finished :: raw_queue
  nr_running :: nat
  init_cleanup_sem :: nat
  workers :: "worker list"
  owner :: owner
  script :: "command list"
  returned :: "work list"
  aborted :: bool

definition start :: "nat \<Rightarrow> command list \<Rightarrow> system" where
  "start n cs = \<lparr>num_threads = n, requests = raw_queue_init, finished = raw_queue_init, nr_running = 0, init_cleanup_sem = 0,
     workers = [], owner = M_create 0, script = cs, returned = [], aborted = False\<rparr>"

definition abort :: "system \<Rightarrow> system" where
  "abort s = s\<lparr>aborted := True\<rparr>"

text \<open>A step of \<open>worker_thread_init\<close>; \<open>p\<close> is the priority the request has after \<open>go\<close>. \<open>None\<close> means that the
  thread waits or has exited.\<close>

definition set_worker :: "nat \<Rightarrow> worker \<Rightarrow> system \<Rightarrow> system" where
  "set_worker t x s = s\<lparr>workers := (workers s)[t := x]\<rparr>"

definition worker_step :: "nat \<Rightarrow> uint \<Rightarrow> system \<Rightarrow> system option" where
  "worker_step t p s = (case workers s ! t of
     W_init \<Rightarrow> Some (set_worker t W_get (s\<lparr>init_cleanup_sem := init_cleanup_sem s + 1\<rparr>))
   | W_get \<Rightarrow> map_option (\<lambda>q. set_worker t W_lock (s\<lparr>requests := q\<rparr>)) (sem_trywait (requests s))
   | W_lock \<Rightarrow> (case get_unb (requests s) of
       Inl e \<Rightarrow> Some (abort s)
     | Inr (w, q) \<Rightarrow> Some (set_worker t (W_go w) (s\<lparr>requests := q\<rparr>)))
   | W_go w \<Rightarrow> (case go w of
       User_go \<Rightarrow> Some (set_worker t (W_put (w\<lparr>priority := p\<rparr>)) s)
     | Worker_thread_signal_finish \<Rightarrow> Some (set_worker t W_exited (s\<lparr>init_cleanup_sem := init_cleanup_sem s + 1\<rparr>)))
   | W_put w \<Rightarrow> Some (set_worker t W_post (s\<lparr>finished := put_unb w (finished s)\<rparr>))
   | W_post \<Rightarrow> Some (set_worker t W_get (s\<lparr>finished := post_unb (finished s)\<rparr>))
   | W_exited \<Rightarrow> None)"

text \<open>The steps of \<open>worker_pool_init\<close>.\<close>

definition pool_init_step :: "nat \<Rightarrow> system \<Rightarrow> system" where
  "pool_init_step i s = (if i < num_threads s then s\<lparr>workers := workers s @ [W_init], owner := M_init_wait i\<rparr> else s\<lparr>owner := M_run\<rparr>)"

definition init_wait_step :: "owner \<Rightarrow> system \<Rightarrow> system option" where
  "init_wait_step m s = (if init_cleanup_sem s = 0 then None else Some (s\<lparr>init_cleanup_sem := init_cleanup_sem s - 1, owner := m\<rparr>))"

text \<open>The steps of \<open>work_submit\<close>, of which the caller has checked that \<open>go\<close> is set.\<close>

definition submit_put :: "work \<Rightarrow> system \<Rightarrow> system" where
  "submit_put w s = s\<lparr>requests := put_unb w (requests s), owner := M_post\<rparr>"

definition submit_post :: "system \<Rightarrow> system" where
  "submit_post s = s\<lparr>requests := post_unb (requests s), nr_running := nr_running s + 1, owner := M_run\<rparr>"

text \<open>The steps of \<open>work_do_wait\<close>: the test of \<open>nr_running\<close>, the semaphore, and the section under the mutex.\<close>

definition wait_begin :: "system \<Rightarrow> system" where
  "wait_begin s = (if nr_running s = 0 then s else s\<lparr>owner := M_wait\<rparr>)"

definition wait_sem :: "system \<Rightarrow> system option" where
  "wait_sem s = map_option (\<lambda>q. s\<lparr>finished := q, owner := M_lock\<rparr>) (sem_trywait (finished s))"

definition try_begin :: "system \<Rightarrow> system" where
  "try_begin s = (if nr_running s = 0 then s else case wait_sem s of None \<Rightarrow> s | Some s' \<Rightarrow> s')"

definition wait_get :: "system \<Rightarrow> system" where
  "wait_get s = (case get_unb (finished s) of
     Inl e \<Rightarrow> abort s
   | Inr (w, q) \<Rightarrow> s\<lparr>finished := q, nr_running := nr_running s - 1, returned := returned s @ [w], owner := M_run\<rparr>)"

text \<open>\<open>work_queue_cleanup\<close>, and the steps of \<open>worker_pool_cleanup\<close>.\<close>

definition work_queue_cleanup :: "system \<Rightarrow> unit res" where
  "work_queue_cleanup s = ensure (nr_running s = 0) (raw_queue_cleanup (finished s))"

definition finish_work :: work where
  "finish_work = \<lparr>addr = 0, priority = 0, go = Worker_thread_signal_finish\<rparr>"

definition finish_put :: "nat \<Rightarrow> system \<Rightarrow> system" where
  "finish_put i s = (if i < num_threads s then s\<lparr>requests := put_unb finish_work (requests s), owner := M_finish_post i\<rparr>
     else s\<lparr>owner := M_join 0\<rparr>)"

definition join_step :: "nat \<Rightarrow> system \<Rightarrow> system option" where
  "join_step i s = (if i < num_threads s then (if workers s ! i = W_exited then Some (s\<lparr>owner := M_join (i + 1)\<rparr>) else None)
     else case raw_queue_cleanup (requests s) of Inl e \<Rightarrow> Some (abort s) | Inr _ \<Rightarrow> Some (s\<lparr>owner := M_done\<rparr>))"

text \<open>The owner: it creates the pool, obeys the script, and cleans up. \<open>Wait_all\<close> waits until \<open>work_wait\<close>
  returns the null pointer.\<close>

definition command_step :: "system \<Rightarrow> system" where
  "command_step s = (case script s of
     [] \<Rightarrow> (case work_queue_cleanup s of Inl e \<Rightarrow> abort s | Inr _ \<Rightarrow> s\<lparr>owner := M_finish 0\<rparr>)
   | Submit w # cs \<Rightarrow> s\<lparr>script := cs, owner := M_put w\<rparr>
   | Wait # cs \<Rightarrow> wait_begin (s\<lparr>script := cs\<rparr>)
   | Try_wait # cs \<Rightarrow> try_begin (s\<lparr>script := cs\<rparr>)
   | Wait_all # cs \<Rightarrow> (if nr_running s = 0 then s\<lparr>script := cs\<rparr> else wait_begin s))"

definition owner_step :: "system \<Rightarrow> system option" where
  "owner_step s = (case owner s of
     M_create i \<Rightarrow> Some (pool_init_step i s)
   | M_init_wait i \<Rightarrow> init_wait_step (M_create (i + 1)) s
   | M_run \<Rightarrow> Some (command_step s)
   | M_put w \<Rightarrow> Some (submit_put w s)
   | M_post \<Rightarrow> Some (submit_post s)
   | M_wait \<Rightarrow> wait_sem s
   | M_lock \<Rightarrow> Some (wait_get s)
   | M_finish i \<Rightarrow> Some (finish_put i s)
   | M_finish_post i \<Rightarrow> Some (s\<lparr>requests := post_unb (requests s), owner := M_finish_wait i\<rparr>)
   | M_finish_wait i \<Rightarrow> init_wait_step (M_finish (i + 1)) s
   | M_join i \<Rightarrow> join_step i s
   | M_done \<Rightarrow> None)"

inductive step :: "system \<Rightarrow> system \<Rightarrow> bool" where
  owner: "\<not> aborted s \<Longrightarrow> owner_step s = Some s' \<Longrightarrow> step s s'"
| worker: "\<not> aborted s \<Longrightarrow> t < length (workers s) \<Longrightarrow> worker_step t p s = Some s' \<Longrightarrow> step s s'"

inductive reachable :: "system \<Rightarrow> system \<Rightarrow> bool" for s where
  start: "reachable s s"
| more: "reachable s a \<Longrightarrow> step a b \<Longrightarrow> reachable s b"

section \<open>The invariant\<close>

text \<open>Counts of workers in a state, and the requests they hold.\<close>

abbreviation over_workers :: "(worker \<Rightarrow> 'a::comm_monoid_add) \<Rightarrow> system \<Rightarrow> 'a" where
  "over_workers f s \<equiv> sum_list (map f (workers s))"

definition is_w :: "worker \<Rightarrow> worker \<Rightarrow> nat" where
  "is_w x y = (if x = y then 1 else 0)"

definition user :: "work \<Rightarrow> bool" where
  "user w \<longleftrightarrow> go w = User_go"

primrec held :: "worker \<Rightarrow> work multiset" where
  "held W_init = {#}" | "held W_get = {#}" | "held W_lock = {#}" | "held (W_go w) = {#w#}" | "held (W_put w) = {#w#}"
| "held W_post = {#}" | "held W_exited = {#}"

text \<open>All requests between their submission and their return to the owner; those of the user and the others.\<close>

definition in_flight :: "system \<Rightarrow> work multiset" where
  "in_flight s = items (requests s) + over_workers held s + items (finished s)"

definition in_put :: "system \<Rightarrow> work multiset" where
  "in_put s = (case owner s of M_put w \<Rightarrow> {#w#} | _ \<Rightarrow> {#})"

fun submits :: "command list \<Rightarrow> work list" where
  "submits [] = []"
| "submits (Submit w # cs) = w # submits cs"
| "submits (_ # cs) = submits cs"

text \<open>How many threads the owner has created, for how many it has waited, how many it has asked to finish and
  for how many of these it has waited.\<close>

definition created :: "system \<Rightarrow> nat" where
  "created s = (case owner s of M_create i \<Rightarrow> i | M_init_wait i \<Rightarrow> i + 1 | _ \<Rightarrow> num_threads s)"

definition init_waited :: "system \<Rightarrow> nat" where
  "init_waited s = (case owner s of M_create i \<Rightarrow> i | M_init_wait i \<Rightarrow> i | _ \<Rightarrow> num_threads s)"

definition asked :: "system \<Rightarrow> nat" where
  "asked s = (case owner s of M_finish i \<Rightarrow> i | M_finish_post i \<Rightarrow> i + 1 | M_finish_wait i \<Rightarrow> i + 1
     | M_join i \<Rightarrow> num_threads s | M_done \<Rightarrow> num_threads s | _ \<Rightarrow> 0)"

definition finish_waited :: "system \<Rightarrow> nat" where
  "finish_waited s = (case owner s of M_finish i \<Rightarrow> i | M_finish_post i \<Rightarrow> i | M_finish_wait i \<Rightarrow> i
     | M_join i \<Rightarrow> num_threads s | M_done \<Rightarrow> num_threads s | _ \<Rightarrow> 0)"

definition unposted :: "system \<Rightarrow> nat" where
  "unposted s = (case owner s of M_post \<Rightarrow> 1 | M_finish_post i \<Rightarrow> 1 | _ \<Rightarrow> 0)"

definition uncounted :: "system \<Rightarrow> nat" where
  "uncounted s = (case owner s of M_post \<Rightarrow> 1 | _ \<Rightarrow> 0)"

definition in_lock :: "system \<Rightarrow> nat" where
  "in_lock s = (case owner s of M_lock \<Rightarrow> 1 | _ \<Rightarrow> 0)"

definition finishing :: "system \<Rightarrow> bool" where
  "finishing s = (case owner s of M_finish i \<Rightarrow> True | M_finish_post i \<Rightarrow> True | M_finish_wait i \<Rightarrow> True
     | M_join i \<Rightarrow> True | M_done \<Rightarrow> True | _ \<Rightarrow> False)"

definition bounded :: "system \<Rightarrow> bool" where
  "bounded s = (case owner s of M_create i \<Rightarrow> i \<le> num_threads s | M_init_wait i \<Rightarrow> i < num_threads s | M_finish i \<Rightarrow> i \<le> num_threads s
     | M_finish_post i \<Rightarrow> i < num_threads s | M_finish_wait i \<Rightarrow> i < num_threads s | M_join i \<Rightarrow> i \<le> num_threads s | _ \<Rightarrow> True)"

text \<open>The structure of the queues; the accounts of the three semaphores; the account of the requests.\<close>

definition queues_inv :: "system \<Rightarrow> bool" where
  "queues_inv s \<longleftrightarrow> queue_ok (requests s) \<and> queue_ok (finished s) \<and>
     (\<forall>w\<in>#items (finished s). user w) \<and> (\<forall>w. W_put w \<in> set (workers s) \<longrightarrow> user w) \<and>
     (\<forall>w\<in>#in_put s. user w) \<and> (\<forall>w\<in>set (submits (script s)). user w)"

definition sems_inv :: "system \<Rightarrow> bool" where
  "sems_inv s \<longleftrightarrow> size (items (requests s)) = queue_sem (requests s) + over_workers (is_w W_lock) s + unposted s \<and>
     size (items (finished s)) = queue_sem (finished s) + over_workers (is_w W_post) s + in_lock s"

definition threads_inv :: "system \<Rightarrow> bool" where
  "threads_inv s \<longleftrightarrow> bounded s \<and> length (workers s) = created s \<and>
     init_cleanup_sem s + init_waited s + finish_waited s + over_workers (is_w W_init) s = length (workers s) + over_workers (is_w W_exited) s \<and>
     size (filter_mset (\<lambda>w. \<not> user w) (in_flight s)) + over_workers (is_w W_exited) s = asked s"

definition account_inv :: "work list \<Rightarrow> system \<Rightarrow> bool" where
  "account_inv ws s \<longleftrightarrow> nr_running s + uncounted s = size (filter_mset user (in_flight s)) \<and> (finishing s \<longrightarrow> nr_running s = 0 \<and> script s = []) \<and>
     image_mset addr (filter_mset user (in_flight s) + in_put s + mset (submits (script s)) + mset (returned s)) = image_mset addr (mset ws)"

definition sys_inv :: "work list \<Rightarrow> system \<Rightarrow> bool" where
  "sys_inv ws s \<longleftrightarrow> queues_inv s \<and> sems_inv s \<and> threads_inv s \<and> account_inv ws s"

lemma sum_list_upd:
  "t < length ws \<Longrightarrow> sum_list (map f (ws[t := x])) + f (ws ! t) = sum_list (map f ws) + (f x :: 'a::comm_monoid_add)"
proof (induction ws arbitrary: t)
  case (Cons w ws)
  then show ?case by (cases t) (auto simp: ac_simps)
qed simp

text \<open>The effect of a change of one worker on the counts and on the requests in flight.\<close>

lemma set_worker_counts:
  assumes "t < length (workers s)" "workers s ! t = x"
  shows "over_workers f (set_worker t y s) + f x = over_workers f s + (f y :: 'a::comm_monoid_add)"
  using sum_list_upd [OF assms(1), of f y] assms(2) by (simp add: set_worker_def)

lemma set_worker_fields [simp]:
  "num_threads (set_worker t y s) = num_threads s" "requests (set_worker t y s) = requests s" "finished (set_worker t y s) = finished s"
  "nr_running (set_worker t y s) = nr_running s" "init_cleanup_sem (set_worker t y s) = init_cleanup_sem s"
  "length (workers (set_worker t y s)) = length (workers s)" "owner (set_worker t y s) = owner s" "script (set_worker t y s) = script s"
  "returned (set_worker t y s) = returned s" "aborted (set_worker t y s) = aborted s"
  by (simp_all add: set_worker_def)

lemmas owner_views = in_put_def created_def init_waited_def asked_def finish_waited_def unposted_def uncounted_def in_lock_def finishing_def bounded_def

lemma set_worker_views [simp]:
  "in_put (set_worker t y s) = in_put s" "created (set_worker t y s) = created s" "init_waited (set_worker t y s) = init_waited s"
  "asked (set_worker t y s) = asked s" "finish_waited (set_worker t y s) = finish_waited s" "unposted (set_worker t y s) = unposted s"
  "uncounted (set_worker t y s) = uncounted s" "in_lock (set_worker t y s) = in_lock s" "finishing (set_worker t y s) = finishing s"
  "bounded (set_worker t y s) = bounded s"
  by (simp_all add: owner_views cong: owner.case_cong)

lemma set_worker_put: "W_put w \<in> set (workers (set_worker t y s)) \<Longrightarrow> W_put w \<in> set (workers s) \<or> y = W_put w"
  using set_update_subset_insert [of "workers s" t y] by (auto simp: set_worker_def)

lemma add_eq_parts:
  assumes "A + a = B + (b :: work multiset)"
  shows "size (filter_mset P A) + size (filter_mset P a) = size (filter_mset P B) + size (filter_mset P b)"
    "image_mset addr (filter_mset P A) + image_mset addr (filter_mset P a) = image_mset addr (filter_mset P B) + image_mset addr (filter_mset P b)"
  using arg_cong [OF assms, of "\<lambda>M. size (filter_mset P M)"] arg_cong [OF assms, of "\<lambda>M. image_mset addr (filter_mset P M)"] by simp_all

text \<open>A step of a worker moves at most one request, which keeps its address and its kind.\<close>

lemma worker_inv:
  assumes "sys_inv ws s" "t < length (workers s)" "workers s ! t = x" "s' = set_worker t y a"
    "a = s\<lparr>requests := rq, finished := fq, init_cleanup_sem := i\<rparr>"
    "queue_ok rq" "queue_ok fq" "\<forall>w\<in>#items fq. user w" "\<And>w. y = W_put w \<Longrightarrow> user w"
    "size (items rq) + queue_sem (requests s) + is_w W_lock x = size (items (requests s)) + queue_sem rq + is_w W_lock y"
    "size (items fq) + queue_sem (finished s) + is_w W_post x = size (items (finished s)) + queue_sem fq + is_w W_post y"
    "i + is_w W_init y + is_w W_exited x = init_cleanup_sem s + is_w W_init x + is_w W_exited y"
    "size (filter_mset (\<lambda>w. \<not> user w) (items rq + held y + items fq)) + is_w W_exited y =
     size (filter_mset (\<lambda>w. \<not> user w) (items (requests s) + held x + items (finished s))) + is_w W_exited x"
    "image_mset addr (filter_mset user (items rq + held y + items fq)) = image_mset addr (filter_mset user (items (requests s) + held x + items (finished s)))"
  shows "sys_inv ws s'"
proof -
  have f: "num_threads a = num_threads s" "requests a = rq" "finished a = fq" "nr_running a = nr_running s" "init_cleanup_sem a = i"
      "workers a = workers s" "owner a = owner s" "script a = script s" "returned a = returned s"
    by (simp_all add: assms(5))
  have views: "in_put a = in_put s" "created a = created s" "init_waited a = init_waited s" "asked a = asked s" "finish_waited a = finish_waited s"
      "unposted a = unposted s" "uncounted a = uncounted s" "in_lock a = in_lock s" "finishing a = finishing s" "bounded a = bounded s"
    by (simp_all add: owner_views f cong: owner.case_cong)
  have c: "over_workers g s' + g x = over_workers g s + g y" for g :: "worker \<Rightarrow> 'b::comm_monoid_add"
    using set_worker_counts [of t a x g y] assms(2-4) f by simp
  have h: "in_flight s' + (items (requests s) + held x + items (finished s)) = in_flight s + (items rq + held y + items fq)"
    using c [of held] by (simp add: in_flight_def assms(4) f ac_simps)
  note hs = add_eq_parts [OF h]
  have sz: "size (filter_mset user (items rq + held y + items fq)) = size (filter_mset user (items (requests s) + held x + items (finished s)))"
    using arg_cong [OF assms(14), of size] by simp
  have "user w" if "W_put w \<in> set (workers s')" for w
    using set_worker_put [of w t y a] that assms(1,4,9) f unfolding sys_inv_def queues_inv_def by auto
  then have q: "queues_inv s'" using assms(1,6-8) unfolding sys_inv_def queues_inv_def by (simp add: assms(4) f views)
  have e: "sems_inv s'" using assms(1,10,11) c [of "is_w W_lock"] c [of "is_w W_post"] unfolding sys_inv_def sems_inv_def
    by (simp add: assms(4) f views)
  have t: "threads_inv s'" using assms(1,12,13) c [of "is_w W_init"] c [of "is_w W_exited"] hs(1) [of "\<lambda>w. \<not> user w"]
    unfolding sys_inv_def threads_inv_def by (simp add: assms(4) f views)
  have "image_mset addr (filter_mset user (in_flight s')) = image_mset addr (filter_mset user (in_flight s))"
    using hs(2) [of user] assms(14) by (metis add_right_cancel filter_union_mset image_mset_union)
  moreover have "size (filter_mset user (in_flight s')) = size (filter_mset user (in_flight s))" using hs(1) [of user] sz by linarith
  ultimately have "account_inv ws s'" using assms(1) unfolding sys_inv_def account_inv_def by (simp add: assms(4) f views)
  then show ?thesis using q e t by (simp add: sys_inv_def)
qed

lemma is_w_simps [simp]:
  "is_w x x = 1" "x \<noteq> y \<Longrightarrow> is_w x y = 0"
  by (simp_all add: is_w_def)

lemma count_pos: "x \<in> set (workers s) \<Longrightarrow> 0 < over_workers (is_w x) s"
  by (auto simp: member_le_sum_list intro!: Nat.gr0I dest!: sum_list_eq_0_iff [THEN iffD1] simp: is_w_def)

lemma sem_trywait_Some: "sem_trywait q = Some q' \<longleftrightarrow> 0 < queue_sem q \<and> q' = q\<lparr>queue_sem := queue_sem q - 1\<rparr>"
  by (auto simp: sem_trywait_def)

lemma queue_sem_update [simp]:
  "queue_ok (q\<lparr>queue_sem := n\<rparr>) = queue_ok q" "items (q\<lparr>queue_sem := n\<rparr>) = items q"
  "queue_ok (post_unb q) = queue_ok q" "items (post_unb q) = items q" "queue_sem (post_unb q) = queue_sem q + 1"
  by (simp_all add: queue_ok_def items_def post_unb_def)

lemma worker_step_inv:
  assumes "sys_inv ws s" "\<not> aborted s" "t < length (workers s)" "worker_step t p s = Some s'"
  shows "sys_inv ws s' \<and> \<not> aborted s'"
proof -
  let ?u = "\<lambda>rq fq i. s\<lparr>requests := rq, finished := fq, init_cleanup_sem := i\<rparr>"
  have q: "queue_ok (requests s)" "queue_ok (finished s)" "\<forall>w\<in>#items (finished s). user w" "\<And>w. W_put w \<in> set (workers s) \<Longrightarrow> user w"
    using assms(1) by (auto simp: sys_inv_def queues_inv_def)
  note wi = worker_inv [OF assms(1,3)]
  show ?thesis
  proof (cases "workers s ! t")
    case W_init
    show ?thesis using wi [OF W_init, where s' = s' and y = "W_get" and rq = "requests s" and fq = "finished s" and i = "init_cleanup_sem s + 1", OF _ refl]
      assms(2,4) W_init q by (auto simp: worker_step_def)
  next
    case W_get
    let ?q = "requests s\<lparr>queue_sem := queue_sem (requests s) - 1\<rparr>"
    show ?thesis using wi [OF W_get, where s' = s' and y = "W_lock" and rq = "?q" and fq = "finished s" and i = "init_cleanup_sem s", OF _ refl]
      assms(2,4) W_get q by (auto simp: worker_step_def sem_trywait_Some)
  next
    case W_lock
    have "0 < size (items (requests s))" using assms(1,3) W_lock count_pos [of W_lock s] nth_mem [OF assms(3)] by (simp add: sys_inv_def sems_inv_def)
    then obtain g where g: "get_unb (requests s) = Inr (next_request (requests s), g)" "queue_ok g"
        "items (requests s) = add_mset (next_request (requests s)) (items g)" "queue_sem g = queue_sem (requests s)"
      using do_get_ok [OF q(1)] by (metis nonempty_has_size)
    show ?thesis using wi [OF W_lock, where s' = s' and y = "W_go (next_request (requests s))" and rq = "g" and fq = "finished s" and i = "init_cleanup_sem s", OF _ refl]
      assms(2,4) W_lock q g by (auto simp: worker_step_def)
  next
    case (W_go w)
    show ?thesis
    proof (cases "go w")
      case User_go
      show ?thesis using wi [OF W_go, where s' = s' and y = "W_put (w\<lparr>priority := p\<rparr>)" and rq = "requests s" and fq = "finished s" and i = "init_cleanup_sem s", OF _ refl]
        assms(2,4) W_go User_go q by (auto simp: worker_step_def user_def)
    next
      case Worker_thread_signal_finish
      show ?thesis using wi [OF W_go, where s' = s' and y = "W_exited" and rq = "requests s" and fq = "finished s" and i = "init_cleanup_sem s + 1", OF _ refl]
        assms(2,4) W_go Worker_thread_signal_finish q by (auto simp: worker_step_def user_def)
    qed
  next
    case (W_put w)
    have u: "user w" using q(4) W_put assms(3) nth_mem by metis
    let ?q = "put_unb w (finished s)"
    show ?thesis using wi [OF W_put, where s' = s' and y = "W_post" and rq = "requests s" and fq = "?q" and i = "init_cleanup_sem s", OF _ refl]
      assms(2,4) W_put q u put_unb_ok [OF q(2), of w] by (auto simp: worker_step_def)
  next
    case W_post
    let ?q = "post_unb (finished s)"
    show ?thesis using wi [OF W_post, where s' = s' and y = "W_get" and rq = "requests s" and fq = "?q" and i = "init_cleanup_sem s", OF _ refl]
      assms(2,4) W_post q by (auto simp: worker_step_def)
  next
    case W_exited
    then show ?thesis using assms(4) by (simp add: worker_step_def)
  qed
qed

lemmas inv_defs = sys_inv_def queues_inv_def sems_inv_def threads_inv_def account_inv_def in_flight_def

lemma finished_empty:
  assumes "sys_inv ws s" "nr_running s = 0" "uncounted s = 0"
  shows "filter_mset user (in_flight s) = {#}" "items (finished s) = {#}"
proof -
  show u: "filter_mset user (in_flight s) = {#}" using assms by (simp add: sys_inv_def account_inv_def)
  show "items (finished s) = {#}"
  proof (rule ccontr)
    assume "items (finished s) \<noteq> {#}"
    then obtain w where "w \<in># items (finished s)" by blast
    then have "w \<in># filter_mset user (in_flight s)" using assms(1) by (simp add: sys_inv_def queues_inv_def in_flight_def)
    then show False using u by simp
  qed
qed

lemma cleanup_ok: "queue_ok q \<Longrightarrow> items q = {#} \<Longrightarrow> raw_queue_cleanup q = Inr ()"
  by (cases "heap_max q = 0") (auto simp: raw_queue_cleanup_def items_def queue_ok_def elems_def dest: arg_cong [of "tl _" "[]" length])

text \<open>When the owner joins the threads, all have exited and no request is left.\<close>

lemma count_le_length: "sum_list (map (is_w x) ws) \<le> length ws"
  by (induction ws) (auto simp: is_w_def)

lemma count_all: "sum_list (map (is_w x) ws) = length ws \<Longrightarrow> t < length ws \<Longrightarrow> ws ! t = x"
proof (induction ws arbitrary: t)
  case (Cons w ws)
  have "is_w x w = 1" "sum_list (map (is_w x) ws) = length ws"
    using Cons.prems(1) count_le_length [of x ws] by (cases "x = w"; simp)+
  then show ?case using Cons.IH Cons.prems(2) by (cases t; cases "x = w") auto
qed simp

lemma joining:
  assumes "sys_inv ws s" "owner s = M_join i \<or> owner s = M_done"
  shows "over_workers (is_w W_exited) s = length (workers s)" "length (workers s) = num_threads s" "in_flight s = {#}"
proof -
  have a: "init_cleanup_sem s + num_threads s + num_threads s + over_workers (is_w W_init) s = length (workers s) + over_workers (is_w W_exited) s"
      "size (filter_mset (\<lambda>w. \<not> user w) (in_flight s)) + over_workers (is_w W_exited) s = num_threads s"
    using assms by (auto simp: sys_inv_def threads_inv_def owner_views)
  show l: "length (workers s) = num_threads s" using assms by (auto simp: sys_inv_def threads_inv_def owner_views)
  show "over_workers (is_w W_exited) s = length (workers s)" using a l by linarith
  then have "size (filter_mset (\<lambda>w. \<not> user w) (in_flight s)) = 0" using a l by linarith
  then have "filter_mset (\<lambda>w. \<not> user w) (in_flight s) = {#}" by (simp only: size_eq_0_iff_empty)
  moreover have "filter_mset user (in_flight s) = {#}" using finished_empty(1) [OF assms(1)] assms by (auto simp: sys_inv_def account_inv_def owner_views)
  ultimately show "in_flight s = {#}" by (metis multiset_partition add_0)
qed

lemma inv_M_create:
  assumes "sys_inv ws s" "\<not> aborted s" "owner_step s = Some s'" "owner s = M_create i"
  shows "sys_inv ws s' \<and> \<not> aborted s'"
  using assms by (cases "i < num_threads s") (auto simp: owner_step_def pool_init_step_def inv_defs owner_views)

lemma inv_M_init_wait:
  assumes "sys_inv ws s" "\<not> aborted s" "owner_step s = Some s'" "owner s = M_init_wait i"
  shows "sys_inv ws s' \<and> \<not> aborted s'"
  using assms by (auto simp: owner_step_def init_wait_step_def inv_defs owner_views split: if_splits)

lemma inv_M_put:
  assumes "sys_inv ws s" "\<not> aborted s" "owner_step s = Some s'" "owner s = M_put w"
  shows "sys_inv ws s' \<and> \<not> aborted s'"
  using assms put_unb_ok [of "requests s" w] by (auto simp: owner_step_def submit_put_def inv_defs owner_views)

lemma inv_M_post:
  assumes "sys_inv ws s" "\<not> aborted s" "owner_step s = Some s'" "owner s = M_post"
  shows "sys_inv ws s' \<and> \<not> aborted s'"
  using assms by (auto simp: owner_step_def submit_post_def inv_defs owner_views)

lemma inv_M_wait:
  assumes "sys_inv ws s" "\<not> aborted s" "owner_step s = Some s'" "owner s = M_wait"
  shows "sys_inv ws s' \<and> \<not> aborted s'"
  using assms by (auto simp: owner_step_def wait_sem_def sem_trywait_Some inv_defs owner_views)

lemma inv_M_lock:
  assumes "sys_inv ws s" "\<not> aborted s" "owner_step s = Some s'" "owner s = M_lock"
  shows "sys_inv ws s' \<and> \<not> aborted s'"
proof -
  have "items (finished s) \<noteq> {#}" "queue_ok (finished s)" using assms(1,4) by (auto simp: inv_defs owner_views)
  then obtain w g where g: "get_unb (finished s) = Inr (w, g)" "queue_ok g" "items (finished s) = add_mset w (items g)"
      "queue_sem g = queue_sem (finished s)"
    using do_get_ok by metis
  then show ?thesis using assms by (auto simp: owner_step_def wait_get_def inv_defs owner_views)
qed

lemma inv_M_finish:
  assumes "sys_inv ws s" "\<not> aborted s" "owner_step s = Some s'" "owner s = M_finish i"
  shows "sys_inv ws s' \<and> \<not> aborted s'"
  using assms put_unb_ok [of "requests s" finish_work]
    by (auto simp: owner_step_def finish_put_def finish_work_def user_def inv_defs owner_views split: if_splits)

lemma inv_M_finish_post:
  assumes "sys_inv ws s" "\<not> aborted s" "owner_step s = Some s'" "owner s = M_finish_post i"
  shows "sys_inv ws s' \<and> \<not> aborted s'"
  using assms by (auto simp: owner_step_def inv_defs owner_views)

lemma inv_M_finish_wait:
  assumes "sys_inv ws s" "\<not> aborted s" "owner_step s = Some s'" "owner s = M_finish_wait i"
  shows "sys_inv ws s' \<and> \<not> aborted s'"
  using assms by (auto simp: owner_step_def init_wait_step_def inv_defs owner_views split: if_splits)

lemma inv_M_join:
  assumes "sys_inv ws s" "\<not> aborted s" "owner_step s = Some s'" "owner s = M_join i"
  shows "sys_inv ws s' \<and> \<not> aborted s'"
proof -
  have "raw_queue_cleanup (requests s) = Inr ()" using joining(3) [OF assms(1)] assms(1,4) cleanup_ok by (auto simp: in_flight_def sys_inv_def queues_inv_def)
  then show ?thesis using assms by (auto simp: owner_step_def join_step_def inv_defs owner_views split: if_splits)
qed

lemma inv_wait_begin:
  assumes "sys_inv ws s" "owner s = M_run"
  shows "sys_inv ws (wait_begin s) \<and> aborted (wait_begin s) = aborted s"
  using assms by (auto simp: wait_begin_def inv_defs owner_views)

lemma inv_try_begin:
  assumes "sys_inv ws s" "owner s = M_run"
  shows "sys_inv ws (try_begin s) \<and> aborted (try_begin s) = aborted s"
  using assms by (auto simp: try_begin_def wait_sem_def sem_trywait_Some inv_defs owner_views split: option.split)

lemma inv_script:
  assumes "sys_inv ws s" "owner s = M_run" "submits (script s) = submits cs"
  shows "sys_inv ws (s\<lparr>script := cs\<rparr>)"
  using assms by (auto simp: inv_defs owner_views)

lemma inv_M_run:
  assumes "sys_inv ws s" "\<not> aborted s" "owner_step s = Some s'" "owner s = M_run" "script s = [] \<Longrightarrow> nr_running s = 0"
  shows "sys_inv ws s' \<and> \<not> aborted s'"
proof -
  have s': "s' = command_step s" using assms(3,4) by (simp add: owner_step_def)
  show ?thesis
  proof (cases "script s")
    case Nil
    then have "work_queue_cleanup s = Inr ()" using finished_empty(2) [OF assms(1)] assms cleanup_ok
      by (auto simp: work_queue_cleanup_def uncounted_def sys_inv_def queues_inv_def)
    then show ?thesis using assms Nil by (auto simp: s' command_step_def inv_defs owner_views)
  next
    case (Cons c cs)
    show ?thesis
    proof (cases c)
      case (Submit w)
      then show ?thesis using assms Cons by (auto simp: s' command_step_def inv_defs owner_views)
    next
      case Wait
      then show ?thesis using inv_wait_begin [OF inv_script [OF assms(1,4)], of cs] assms(2,4) Cons by (simp add: s' command_step_def)
    next
      case Try_wait
      then show ?thesis using inv_try_begin [OF inv_script [OF assms(1,4)], of cs] assms(2,4) Cons by (simp add: s' command_step_def)
    next
      case Wait_all
      then show ?thesis using inv_wait_begin [OF assms(1,4)] inv_script [OF assms(1,4), of cs] assms(2) Cons by (simp add: s' command_step_def)
    qed
  qed
qed

lemma owner_step_inv:
  assumes "sys_inv ws s" "\<not> aborted s" "owner_step s = Some s'" "owner s = M_run \<Longrightarrow> script s = [] \<Longrightarrow> nr_running s = 0"
  shows "sys_inv ws s' \<and> \<not> aborted s'"
  using assms inv_M_create [OF assms(1-3)] inv_M_init_wait [OF assms(1-3)] inv_M_run [OF assms(1-3)] inv_M_put [OF assms(1-3)] inv_M_post [OF assms(1-3)]
    inv_M_wait [OF assms(1-3)] inv_M_lock [OF assms(1-3)] inv_M_finish [OF assms(1-3)] inv_M_finish_post [OF assms(1-3)]
    inv_M_finish_wait [OF assms(1-3)] inv_M_join [OF assms(1-3)]
  by (cases "owner s") (auto simp: owner_step_def)

lemma inv_start:
  assumes "\<forall>w\<in>set (submits cs). user w"
  shows "sys_inv (submits cs) (start n cs)"
  using assms by (auto simp: start_def inv_defs owner_views queue_ok_init)

section \<open>Progress\<close>

text \<open>A script that ends by waiting for all requests reaches its end with none running; the owner waits only
  when there is something to wait for.\<close>

definition protocol :: "system \<Rightarrow> bool" where
  "protocol s \<longleftrightarrow> (if script s = [] then nr_running s = 0 \<and> (owner s = M_run \<or> finishing s) else last (script s) = Wait_all \<and> \<not> finishing s) \<and>
     (owner s = M_wait \<longrightarrow> nr_running s \<noteq> 0)"

lemma protocol_worker: "protocol s \<Longrightarrow> worker_step t p s = Some s' \<Longrightarrow> protocol s'"
  by (auto simp: protocol_def worker_step_def abort_def finishing_def split: worker.splits sum.splits go_fn.splits cong: owner.case_cong)

lemma protocol_command:
  assumes "protocol s" "sys_inv ws s" "owner s = M_run"
  shows "protocol (command_step s)"
proof (cases "script s")
  case Nil
  then have "work_queue_cleanup s = Inr ()" using finished_empty(2) [OF assms(2)] assms cleanup_ok
    by (auto simp: work_queue_cleanup_def uncounted_def sys_inv_def queues_inv_def protocol_def)
  then show ?thesis using assms Nil by (auto simp: command_step_def protocol_def finishing_def)
next
  case (Cons c cs)
  then show ?thesis using assms
    by (cases c) (auto simp: command_step_def protocol_def finishing_def wait_begin_def try_begin_def wait_sem_def split: option.split)
qed

lemma protocol_owner:
  assumes "protocol s" "sys_inv ws s" "owner_step s = Some s'"
  shows "protocol s'"
proof (cases "owner s = M_run")
  case True
  then show ?thesis using protocol_command [OF assms(1,2) True] assms(3) by (simp add: owner_step_def)
next
  case False
  then show ?thesis using assms(1,3)
    by (cases "owner s") (auto simp: owner_step_def protocol_def finishing_def pool_init_step_def init_wait_step_def submit_put_def submit_post_def wait_sem_def
      wait_get_def abort_def finish_put_def join_step_def split: if_splits sum.splits)
qed

lemma step_inv:
  assumes "step s s'" "sys_inv ws s" "protocol s"
  shows "sys_inv ws s' \<and> protocol s' \<and> \<not> aborted s'"
  using assms
proof (cases rule: step.cases)
  case owner
  then show ?thesis using owner_step_inv [OF assms(2)] protocol_owner [OF assms(3,2)] assms(3) by (auto simp: protocol_def)
next
  case (worker t p)
  then show ?thesis using worker_step_inv [OF assms(2)] protocol_worker [OF assms(3)] by blast
qed

lemma reachable_inv:
  assumes "reachable a s" "sys_inv ws a" "protocol a" "\<not> aborted a"
  shows "sys_inv ws s \<and> protocol s \<and> \<not> aborted s"
  using assms by (induction rule: reachable.induct) (auto dest: step_inv)

text \<open>When no worker can make a step, all have exited or wait for a request.\<close>

lemma worker_stuck:
  assumes "\<not> aborted s" "\<nexists>s'. step s s'" "x \<in> set (workers s)"
  shows "x = W_exited \<or> x = W_get \<and> queue_sem (requests s) = 0"
proof -
  obtain t where t: "t < length (workers s)" "workers s ! t = x" using assms(3) by (auto simp: in_set_conv_nth)
  have "worker_step t 0 s = None" using assms(1,2) t(1) step.worker [of s t 0] by (cases "worker_step t 0 s") auto
  then show ?thesis using t(2) by (auto simp: worker_step_def sem_trywait_def split: worker.splits sum.splits go_fn.splits if_splits)
qed

lemma count_absent: "x \<notin> set ws \<Longrightarrow> sum_list (map (is_w x) ws) = 0"
  by (induction ws) (auto simp: is_w_def)

lemma stuck_counts:
  assumes "\<forall>x\<in>set ws. x = W_exited \<or> x = W_get"
  shows "sum_list (map (is_w W_lock) ws) = 0" "sum_list (map (is_w W_post) ws) = 0" "sum_list (map (is_w W_init) ws) = 0"
  by (rule count_absent, use assms in auto)+

lemma stuck_held: "\<forall>x\<in>set ws. x = W_exited \<or> x = W_get \<Longrightarrow> sum_list (map held ws) = {#}"
  by (induction ws) auto

lemma all_exited: "\<forall>x\<in>set ws. x = W_exited \<Longrightarrow> sum_list (map (is_w W_exited) ws) = length ws"
  by (induction ws) auto

lemma stuck_inv:
  assumes "sys_inv ws s" "\<forall>x\<in>set (workers s). x = W_exited \<or> x = W_get \<and> queue_sem (requests s) = 0"
  shows "size (items (requests s)) = queue_sem (requests s) + unposted s" "size (items (finished s)) = queue_sem (finished s) + in_lock s"
    "init_cleanup_sem s + init_waited s + finish_waited s = length (workers s) + over_workers (is_w W_exited) s"
    "in_flight s = items (requests s) + items (finished s)"
    "queue_sem (requests s) \<noteq> 0 \<Longrightarrow> over_workers (is_w W_exited) s = length (workers s)"
proof -
  have a: "\<forall>x\<in>set (workers s). x = W_exited \<or> x = W_get" using assms(2) by blast
  have i: "sems_inv s" "threads_inv s" using assms(1) by (simp_all add: sys_inv_def)
  show "size (items (requests s)) = queue_sem (requests s) + unposted s" using i(1) stuck_counts(1) [OF a] unfolding sems_inv_def by linarith
  show "size (items (finished s)) = queue_sem (finished s) + in_lock s" using i(1) stuck_counts(2) [OF a] unfolding sems_inv_def by linarith
  show "init_cleanup_sem s + init_waited s + finish_waited s = length (workers s) + over_workers (is_w W_exited) s"
    using i(2) stuck_counts(3) [OF a] unfolding threads_inv_def by linarith
  show "in_flight s = items (requests s) + items (finished s)" using stuck_held [OF a] by (simp add: in_flight_def)
  show "over_workers (is_w W_exited) s = length (workers s)" if "queue_sem (requests s) \<noteq> 0"
  proof (rule all_exited)
    show "\<forall>x\<in>set (workers s). x = W_exited" using assms(2) that by (metis (no_types))
  qed
qed

lemma owner_blocked:
  assumes "owner_step s = None"
  shows "(\<exists>i. owner s = M_init_wait i \<and> init_cleanup_sem s = 0) \<or> owner s = M_wait \<and> queue_sem (finished s) = 0 \<or>
    (\<exists>i. owner s = M_finish_wait i \<and> init_cleanup_sem s = 0) \<or>
    (\<exists>i. owner s = M_join i \<and> i < num_threads s \<and> workers s ! i \<noteq> W_exited) \<or> owner s = M_done"
  using assms by (auto simp: owner_step_def init_wait_step_def wait_sem_def sem_trywait_def join_step_def split: owner.splits if_splits sum.splits)

lemma progress:
  assumes "sys_inv ws s" "protocol s" "\<not> aborted s" "owner s \<noteq> M_done" "1 \<le> num_threads s"
  shows "\<exists>s'. step s s'"
proof (rule ccontr)
  assume no: "\<nexists>s'. step s s'"
  have "\<forall>x\<in>set (workers s). x = W_exited \<or> x = W_get \<and> queue_sem (requests s) = 0" using worker_stuck [OF assms(3) no] by blast
  note st = stuck_inv [OF assms(1) this]
  have "owner_step s = None" using no assms(3) step.owner [of s] by (cases "owner_step s") auto
  then consider (init) i where "owner s = M_init_wait i" "init_cleanup_sem s = 0" | (wait) "owner s = M_wait" "queue_sem (finished s) = 0"
    | (fin) i where "owner s = M_finish_wait i" "init_cleanup_sem s = 0" | (join) i where "owner s = M_join i" "i < num_threads s" "workers s ! i \<noteq> W_exited"
    using owner_blocked [of s] assms(4) by metis
  then show False
  proof cases
    case init
    then show False using st assms(1) by (auto simp: sys_inv_def threads_inv_def owner_views)
  next
    case wait
    have "over_workers (is_w W_exited) s = 0" "length (workers s) = num_threads s" using wait assms(1) by (auto simp: sys_inv_def threads_inv_def owner_views)
    then have "queue_sem (requests s) = 0" using st(5) assms(5) by linarith
    then have "in_flight s = {#}" using st wait by (auto simp: owner_views)
    then have "nr_running s = 0" using assms(1) by (simp add: sys_inv_def account_inv_def)
    then show False using assms(2) wait by (simp add: protocol_def)
  next
    case fin
    have a: "over_workers (is_w W_exited) s = i" "length (workers s) = num_threads s" "i < num_threads s"
        "size (filter_mset (\<lambda>w. \<not> user w) (in_flight s)) = 1"
      using st fin assms(1) by (auto simp: sys_inv_def threads_inv_def owner_views)
    have "filter_mset (\<lambda>w. \<not> user w) (items (finished s)) = {#}" using assms(1) by (auto simp: sys_inv_def queues_inv_def)
    then have "size (filter_mset (\<lambda>w. \<not> user w) (items (requests s))) = 1" using a(4) unfolding st(4) by (simp only: filter_union_mset size_union size_empty add_0_right)
    then have "size (items (requests s)) \<noteq> 0" by auto
    then have "queue_sem (requests s) \<noteq> 0" using st fin by (auto simp: owner_views)
    then show False using st(5) a by linarith
  next
    case join
    then show False using joining [OF assms(1)] count_all [of W_exited "workers s" i] by auto
  qed
qed

section \<open>Termination\<close>

text \<open>A weight that every step decreases: each place a request or a thread can be in counts the steps ahead of it.\<close>

primrec worker_weight :: "worker \<Rightarrow> nat" where
  "worker_weight W_init = 2" | "worker_weight W_get = 0" | "worker_weight W_lock = 0" | "worker_weight (W_go w) = 6"
| "worker_weight (W_put w) = 5" | "worker_weight W_post = 2" | "worker_weight W_exited = 0"

primrec command_weight :: "command \<Rightarrow> nat" where
  "command_weight (Submit w) = 11" | "command_weight Wait = 1" | "command_weight Try_wait = 1" | "command_weight Wait_all = 1"

definition owner_weight :: "nat \<Rightarrow> owner \<Rightarrow> nat" where
  "owner_weight n m = (let f = n * 21 + 4 in case m of
     M_create i \<Rightarrow> f + 4 + (n - i) * 10 | M_init_wait i \<Rightarrow> f + 9 + (n - Suc i) * 10 | M_run \<Rightarrow> f + 3 | M_put w \<Rightarrow> f + 13 | M_post \<Rightarrow> f + 5
   | M_wait \<Rightarrow> f + 2 | M_lock \<Rightarrow> f + 2 | M_finish i \<Rightarrow> (n - i) * 20 + n + 3 | M_finish_post i \<Rightarrow> (n - Suc i) * 20 + n + 15
   | M_finish_wait i \<Rightarrow> (n - Suc i) * 20 + n + 12 | M_join i \<Rightarrow> n - i + 1 | M_done \<Rightarrow> 0)"

definition weight :: "system \<Rightarrow> nat" where
  "weight s = sum_list (map command_weight (script s)) + owner_weight (num_threads s) (owner s) + over_workers worker_weight s +
     7 * size (items (requests s)) + 2 * size (items (finished s)) + queue_sem (requests s) + queue_sem (finished s) + init_cleanup_sem s"

lemma worker_weight_decreases:
  assumes "sys_inv ws s" "\<not> aborted s" "t < length (workers s)" "worker_step t p s = Some s'"
  shows "weight s' < weight s"
proof -
  note c = set_worker_counts [where f = worker_weight, OF assms(3) refl]
  have q: "queue_ok (requests s)" "queue_ok (finished s)" using assms(1) by (auto simp: sys_inv_def queues_inv_def)
  show ?thesis
  proof (cases "workers s ! t")
    case W_lock
    have "0 < size (items (requests s))" using assms(1,3) W_lock count_pos [of W_lock s] nth_mem [OF assms(3)] by (simp add: sys_inv_def sems_inv_def)
    then obtain g where g: "get_unb (requests s) = Inr (next_request (requests s), g)"
        "items (requests s) = add_mset (next_request (requests s)) (items g)" "queue_sem g = queue_sem (requests s)"
      using do_get_ok [OF q(1)] by (metis nonempty_has_size)
    then show ?thesis using assms(4) W_lock set_worker_counts [of t "s\<lparr>requests := g\<rparr>" _ worker_weight] assms(3) by (auto simp: worker_step_def weight_def)
  next
    case W_init
    then show ?thesis using assms(3,4) set_worker_counts [of t "s\<lparr>init_cleanup_sem := init_cleanup_sem s + 1\<rparr>" _ worker_weight W_get]
      by (auto simp: worker_step_def weight_def)
  next
    case W_get
    then show ?thesis using assms(3,4) set_worker_counts [of t "s\<lparr>requests := requests s\<lparr>queue_sem := queue_sem (requests s) - 1\<rparr>\<rparr>" _ worker_weight W_lock]
      by (auto simp: worker_step_def weight_def sem_trywait_Some)
  next
    case (W_go w)
    then show ?thesis using assms(3,4) set_worker_counts [of t "s\<lparr>init_cleanup_sem := init_cleanup_sem s + 1\<rparr>" _ worker_weight W_exited]
        set_worker_counts [of t s _ worker_weight "W_put (w\<lparr>priority := p\<rparr>)"]
      by (auto simp: worker_step_def weight_def split: go_fn.splits)
  next
    case (W_put w)
    then show ?thesis using assms(3,4) set_worker_counts [of t "s\<lparr>finished := put_unb w (finished s)\<rparr>" _ worker_weight W_post] put_unb_ok [OF q(2), of w]
      by (auto simp: worker_step_def weight_def)
  next
    case W_post
    then show ?thesis using assms(3,4) set_worker_counts [of t "s\<lparr>finished := post_unb (finished s)\<rparr>" _ worker_weight W_get]
      by (auto simp: worker_step_def weight_def)
  next
    case W_exited
    then show ?thesis using assms(4) by (simp add: worker_step_def)
  qed
qed

lemma nat_minus_less: "i < n \<Longrightarrow> (n - i) * k = (n - Suc i) * k + (k :: nat)"
  by (metis Suc_diff_Suc add.commute mult_Suc)

lemma command_weight_decreases:
  assumes "sys_inv ws s" "protocol s" "owner s = M_run"
  shows "weight (command_step s) < weight s"
proof (cases "script s")
  case Nil
  then have "work_queue_cleanup s = Inr ()" using finished_empty(2) [OF assms(1)] assms cleanup_ok
    by (auto simp: work_queue_cleanup_def uncounted_def sys_inv_def queues_inv_def protocol_def)
  then show ?thesis using Nil assms(3) by (simp add: command_step_def weight_def owner_weight_def)
next
  case (Cons c cs)
  then show ?thesis using assms(3)
    by (cases c) (auto simp: command_step_def weight_def owner_weight_def wait_begin_def try_begin_def wait_sem_def sem_trywait_Some split: option.split)
qed

lemma owner_weight_decreases:
  assumes "sys_inv ws s" "protocol s" "owner_step s = Some s'"
  shows "weight s' < weight s"
proof (cases "owner s")
  case M_lock
  then have "items (finished s) \<noteq> {#}" "queue_ok (finished s)" using assms(1) by (auto simp: inv_defs owner_views)
  then obtain w g where g: "get_unb (finished s) = Inr (w, g)" "items (finished s) = add_mset w (items g)"
      "queue_sem g = queue_sem (finished s)"
    using do_get_ok by metis
  then show ?thesis using M_lock assms(3) by (auto simp: owner_step_def wait_get_def weight_def owner_weight_def)
next
  case (M_create i)
  then show ?thesis using assms nat_minus_less [of i "num_threads s" 10]
    by (cases "i < num_threads s") (auto simp: owner_step_def pool_init_step_def weight_def owner_weight_def)
next
  case (M_init_wait i)
  then show ?thesis using assms(3) by (auto simp: owner_step_def init_wait_step_def weight_def owner_weight_def split: if_splits)
next
  case M_run
  then show ?thesis using command_weight_decreases [OF assms(1,2)] assms(3) by (simp add: owner_step_def)
next
  case (M_put w)
  then show ?thesis using assms(1,3) put_unb_ok [of "requests s" w]
    by (auto simp: owner_step_def submit_put_def weight_def owner_weight_def sys_inv_def queues_inv_def)
next
  case M_post
  then show ?thesis using assms(3) by (auto simp: owner_step_def submit_post_def weight_def owner_weight_def)
next
  case M_wait
  then show ?thesis using assms(3) by (auto simp: owner_step_def wait_sem_def sem_trywait_Some weight_def owner_weight_def)
next
  case (M_finish i)
  then show ?thesis using assms(1,3) put_unb_ok [of "requests s" finish_work] nat_minus_less [of i "num_threads s" 20]
    by (cases "i < num_threads s") (auto simp: owner_step_def finish_put_def weight_def owner_weight_def sys_inv_def queues_inv_def)
next
  case (M_finish_post i)
  then show ?thesis using assms(3) by (auto simp: owner_step_def weight_def owner_weight_def)
next
  case (M_finish_wait i)
  then show ?thesis using assms(3) by (auto simp: owner_step_def init_wait_step_def weight_def owner_weight_def split: if_splits)
next
  case (M_join i)
  have "raw_queue_cleanup (requests s) = Inr ()" using joining(3) [OF assms(1)] assms(1) M_join cleanup_ok by (auto simp: in_flight_def sys_inv_def queues_inv_def)
  then show ?thesis using assms(3) M_join by (auto simp: owner_step_def join_step_def weight_def owner_weight_def split: if_splits)
next
  case M_done
  then show ?thesis using assms(3) by (simp add: owner_step_def)
qed

lemma step_decreases: "step s s' \<Longrightarrow> sys_inv ws s \<Longrightarrow> protocol s \<Longrightarrow> weight s' < weight s"
  by (erule step.cases) (auto intro: owner_weight_decreases worker_weight_decreases)

lemma step_num_threads: "step s s' \<Longrightarrow> num_threads s' = num_threads s"
  by (erule step.cases) (auto simp: owner_step_def worker_step_def command_step_def pool_init_step_def init_wait_step_def submit_put_def submit_post_def
    wait_begin_def try_begin_def wait_sem_def wait_get_def abort_def finish_put_def join_step_def
    split: owner.splits worker.splits command.splits list.splits sum.splits option.splits if_splits go_fn.splits)

lemma reachable_num_threads: "reachable a s \<Longrightarrow> num_threads s = num_threads a"
  by (induction rule: reachable.induct) (auto dest: step_num_threads)

section \<open>Properties\<close>

lemma done_returned:
  assumes "sys_inv ws s" "owner s = M_done"
  shows "image_mset addr (mset (returned s)) = image_mset addr (mset ws) \<and> list_all (\<lambda>x. x = W_exited) (workers s) \<and> length (workers s) = num_threads s"
proof -
  have "script s = []" "in_put s = {#}" using assms by (auto simp: sys_inv_def account_inv_def owner_views)
  then have "image_mset addr (mset (returned s)) = image_mset addr (mset ws)"
    using assms joining(3) [OF assms(1)] by (simp add: sys_inv_def account_inv_def)
  moreover have "list_all (\<lambda>x. x = W_exited) (workers s)"
    using joining(1) [OF assms(1)] assms(2) count_all [of W_exited "workers s"] by (auto simp: list_all_length)
  ultimately show ?thesis using joining(2) [OF assms(1)] assms(2) by simp
qed

lemma put_result:
  assumes "queue_fits q" "size (items q) < 2 ^ 30" "queue_sem q \<le> size (items q)"
  shows "queue_fits (raw_queue_put w q) \<and> items (raw_queue_put w q) = add_mset w (items q) \<and> queue_sem (raw_queue_put w q) = queue_sem q + 1 \<and>
    pri0_queue (raw_queue_put w q) = pri0_queue q @ (if priority w = 0 then [w] else [])"
proof -
  have ok: "queue_ok q" using assms(1) by (simp add: queue_fits_def)
  have "pri0_queue (locked_put w q) = pri0_queue q @ (if priority w = 0 then [w] else [])"
    using locked_put_unb [OF assms(1,2), of w] grow_unb_ok [OF ok, of w] by (simp add: put_unb_def Let_def split: prod.split)
  moreover have "queue_sem (locked_put w q) < sem_value_max" using fits_put [OF assms(1,2), of w] assms(2,3) by (simp add: sem_value_max_def)
  ultimately show ?thesis using fits_put [OF assms(1,2), of w]
    by (simp add: raw_queue_put_def sem_post_def queue_fits_def)
qed

lemma try_get_result:
  assumes "queue_fits q" "queue_sem q \<le> size (items q)"
  shows "case raw_queue_try_get q of None \<Rightarrow> queue_sem q = 0 | Some (Inl e) \<Rightarrow> False
     | Some (Inr (v, g)) \<Rightarrow> queue_fits g \<and> items q = add_mset v (items g) \<and> queue_sem q = queue_sem g + 1 \<and>
         (\<forall>x\<in>#items q. priority x \<le> priority v) \<and> pri0_queue q = (if priority v = 0 then [v] else []) @ pri0_queue g"
proof (cases "queue_sem q = 0")
  case True
  then show ?thesis by (simp add: raw_queue_try_get_def sem_trywait_def)
next
  case False
  let ?q = "q\<lparr>queue_sem := queue_sem q - 1\<rparr>"
  have ne: "items ?q \<noteq> {#}" "queue_fits ?q" using False assms by (auto simp: queue_fits_def)
  have ok: "queue_ok ?q" using ne(2) by (simp only: queue_fits_def)
  obtain g where g: "raw_queue_do_get ?q = Inr (next_request ?q, g)" "queue_fits g" "items ?q = add_mset (next_request ?q) (items g)"
      "queue_sem g = queue_sem ?q"
    using fits_get [OF ne(2,1)] by blast
  have p: "pri0_queue ?q = (if priority (next_request ?q) = 0 then [next_request ?q] else []) @ pri0_queue g"
    by (rule get_pri0 [OF ok]) (use g(1) do_get_unb [OF ne(2)] in simp)
  have m: "\<forall>x\<in>#items ?q. priority x \<le> priority (next_request ?q)" using next_request_max [OF ok ne(1)] by blast
  have "raw_queue_try_get q = Some (Inr (next_request ?q, g))" using False g(1) by (simp add: raw_queue_try_get_def sem_trywait_def)
  moreover have "items ?q = items q" "pri0_queue ?q = pri0_queue q" "queue_sem q = queue_sem g + 1" using False g(4) by simp_all
  ultimately show ?thesis using g(2,3) p m by simp
qed

text \<open>C40: A raw queue of less than \<open>2\<^sup>3\<^sup>0\<close> requests, whose heap has less than \<open>2\<^sup>3\<^sup>1\<close> cells, serves its requests in the order of their priorities and those of priority 0 first come,
  first served: adding a request keeps the queue valid, adds exactly the request and posts the semaphore; from
  a queue whose semaphore does not exceed the number of requests, \<open>raw_queue_try_get\<close> never fails, gives nothing exactly
  when the semaphore is zero, and otherwise removes a request of the highest priority, the first of the list if that
  priority is 0; removing all requests gives them sorted by priority.\<close>

theorem raw_queue_order:
  assumes "queue_ok q" "heap_max q < 2 ^ 31" "size (items q) < 2 ^ 30" "queue_sem q \<le> size (items q)"
  shows "queue_ok raw_queue_init \<and> items raw_queue_init = {#} \<and>
    (let g = raw_queue_put w q in queue_ok g \<and> heap_max g < 2 ^ 31 \<and> items g = add_mset w (items q) \<and> queue_sem g = queue_sem q + 1 \<and>
       pri0_queue g = pri0_queue q @ (if priority w = 0 then [w] else [])) \<and>
    (case raw_queue_try_get q of
       None \<Rightarrow> queue_sem q = 0
     | Some (Inl e) \<Rightarrow> False
     | Some (Inr (v, g)) \<Rightarrow> queue_ok g \<and> heap_max g < 2 ^ 31 \<and> items q = add_mset v (items g) \<and> queue_sem q = queue_sem g + 1 \<and>
         (\<forall>x\<in>#items q. priority x \<le> priority v) \<and> pri0_queue q = (if priority v = 0 then [v] else []) @ pri0_queue g) \<and>
    mset (drain next_request after_get (size (items q)) q) = items q \<and>
    sorted_wrt (\<lambda>v w. priority w \<le> priority v) (drain next_request after_get (size (items q)) q)"
proof -
  have fit: "queue_fits q" using assms(1,2) by (simp add: queue_fits_def)
  have get: "case raw_queue_try_get q of None \<Rightarrow> queue_sem q = 0 | Some (Inl e) \<Rightarrow> False
     | Some (Inr (v, g)) \<Rightarrow> queue_ok g \<and> heap_max g < 2 ^ 31 \<and> items q = add_mset v (items g) \<and> queue_sem q = queue_sem g + 1 \<and>
         (\<forall>x\<in>#items q. priority x \<le> priority v) \<and> pri0_queue q = (if priority v = 0 then [v] else []) @ pri0_queue g"
    using try_get_result [OF fit assms(4)] by (simp only: queue_fits_def conj_assoc)
  show ?thesis unfolding Let_def
    using queue_ok_init put_result [OF fit assms(3,4), of w] get rq.drain_sorts [OF fit refl] unfolding queue_fits_def by (intro conjI) simp_all
qed

lemma raw_queue_order_witness:
  "let a = \<lparr>addr = 1, priority = 0, go = User_go\<rparr>; b = \<lparr>addr = 2, priority = 7, go = User_go\<rparr>;
     q = raw_queue_put a raw_queue_init in
   queue_ok (raw_queue_put b q) \<and> items (raw_queue_put b q) = {#b, a#} \<and> (\<exists>g. raw_queue_try_get q = Some (Inr (a, g)))"
proof -
  let ?a = "\<lparr>addr = 1, priority = 0, go = User_go\<rparr>" and ?b = "\<lparr>addr = 2, priority = 7, go = User_go\<rparr>"
  let ?q = "raw_queue_put ?a raw_queue_init"
  have q: "queue_ok ?q" "heap_max ?q < 2 ^ 31" "items ?q = {#?a#}" "queue_sem ?q = 1"
    by (simp_all add: raw_queue_put_def sem_post_def sem_value_max_def locked_put_def raw_queue_init_def queue_ok_def items_def elems_def)
  have "\<exists>g. raw_queue_try_get ?q = Some (Inr (?a, g))"
    by (simp add: raw_queue_try_get_def raw_queue_put_def sem_post_def sem_value_max_def sem_trywait_def locked_put_def raw_queue_init_def raw_queue_do_get_def)
  then show ?thesis using raw_queue_order [OF q(1,2), of ?b] q by (simp add: Let_def)
qed

text \<open>C4: A worker pool with at least one thread, run by an owner that submits distinct requests and at last waits for
  all of them: whatever the order in which the threads make their steps and whatever priorities the callbacks
  set, no assertion fails, as long as the owner has not finished some thread can make a step, there is no infinite run,
  and when the owner has finished then every request was returned to it exactly once and all threads have exited.\<close>

theorem work_queue_liveness:
  assumes "1 \<le> n" "cs \<noteq> []" "last cs = Wait_all" "\<forall>w\<in>set (submits cs). go w = User_go" "distinct (map addr (submits cs))"
  shows "(\<forall>s. reachable (start n cs) s \<longrightarrow> \<not> aborted s \<and> (owner s \<noteq> M_done \<longrightarrow> (\<exists>s'. step s s')) \<and>
      (owner s = M_done \<longrightarrow> list_all (\<lambda>x. x = W_exited) (workers s) \<and> length (workers s) = n \<and>
        distinct (map addr (returned s)) \<and> addr ` set (returned s) = addr ` set (submits cs))) \<and>
    wf {(s', s). reachable (start n cs) s \<and> step s s'}"
proof -
  have i0: "sys_inv (submits cs) (start n cs)" using inv_start assms(4) by (simp add: user_def)
  have p0: "protocol (start n cs)" "\<not> aborted (start n cs)" using assms(2,3) by (auto simp: protocol_def start_def finishing_def)
  have r: "sys_inv (submits cs) s" "protocol s" "\<not> aborted s" "num_threads s = n" if "reachable (start n cs) s" for s
    using reachable_inv [OF that i0 p0] reachable_num_threads [OF that] by (auto simp: start_def)
  have d: "distinct (map addr (returned s)) \<and> addr ` set (returned s) = addr ` set (submits cs)"
    if "image_mset addr (mset (returned s)) = image_mset addr (mset (submits cs))" for s
  proof -
    have m: "mset (map addr (returned s)) = mset (map addr (submits cs))" using that by simp
    then show ?thesis using assms(5) mset_eq_imp_distinct_iff [OF m] mset_eq_setD [OF m] by simp
  qed
  have "weight s' < weight s" if "reachable (start n cs) s" "step s s'" for s s'
    by (rule step_decreases [OF that(2) r(1,2) [OF that(1)]])
  then have "wf {(s', s). reachable (start n cs) s \<and> step s s'}" by (intro wf_subset [OF wf_measure [of weight]]) auto
  moreover have "distinct (map addr (returned s)) \<and> addr ` set (returned s) = addr ` set (submits cs)" if "reachable (start n cs) s" "owner s = M_done" for s
    by (rule d) (use done_returned [OF r(1)] that in blast)
  ultimately show ?thesis using r progress [OF r(1,2,3)] done_returned [OF r(1)] assms(1) by simp
qed

text \<open>Two threads, three requests, one of them with a higher priority.\<close>

lemma work_queue_liveness_witness:
  "let cs = [Submit \<lparr>addr = 1, priority = 0, go = User_go\<rparr>, Submit \<lparr>addr = 2, priority = 5, go = User_go\<rparr>, Wait,
     Submit \<lparr>addr = 3, priority = 0, go = User_go\<rparr>, Try_wait, Wait_all] in
   wf {(s', s). reachable (start 2 cs) s \<and> step s s'} \<and> (\<exists>s'. step (start 2 cs) s') \<and>
   (\<forall>s. reachable (start 2 cs) s \<and> owner s = M_done \<longrightarrow> addr ` set (returned s) = {1, 2, 3})"
proof -
  let ?cs = "[Submit \<lparr>addr = 1, priority = 0, go = User_go\<rparr>, Submit \<lparr>addr = 2, priority = 5, go = User_go\<rparr>, Wait,
     Submit \<lparr>addr = 3, priority = 0, go = User_go\<rparr>, Try_wait, Wait_all]"
  have r: "reachable (start 2 ?cs) (start 2 ?cs)" "owner (start 2 ?cs) \<noteq> M_done" by (rule reachable.start) (simp add: start_def)
  have h: "1 \<le> (2 :: nat)" "?cs \<noteq> []" "last ?cs = Wait_all" "\<forall>w\<in>set (submits ?cs). go w = User_go" "distinct (map addr (submits ?cs))" by simp_all
  note t = work_queue_liveness [OF h]
  have "wf {(s', s). reachable (start 2 ?cs) s \<and> step s s'}" using t [THEN conjunct2] .
  moreover have "\<exists>s'. step (start 2 ?cs) s'" using t [THEN conjunct1, THEN spec, THEN mp, OF r(1)] r(2) by blast
  moreover have "addr ` set (returned s) = {1, 2, 3}" if "reachable (start 2 ?cs) s \<and> owner s = M_done" for s
    using t [THEN conjunct1, THEN spec, THEN mp, of s] that by auto
  ultimately show ?thesis by (simp add: Let_def)
qed

end
