(* ===== verification/Redblack.thy ===== *)
theory Redblack
  imports Ucw_Interfaces
begin

text \<open>
  \<open>ucw/redblack.h\<close>: the generator of red-black trees, with parent pointers (\<open>TREE_STORE_PARENT\<close>). A bucket with its descendants is a
  value of the type \<open>rbucket\<close>: its flag, its parent pointer, its sons, and its node, which is the address of the bucket and the contents. A
  pointer is an address, NULL is \<open>None\<close>; following a pointer is looking the address up in the tree, and following one that leads
  nowhere is a fault. The stack of the path from the root to a bucket is a list of frames, the innermost first: a frame is the
  bucket on the path without the son in whose direction the path goes on, so writing of a son through the stack is plugging of
  the bucket into its frames. Where the code builds the stack from parent pointers, or checks it, the stack is the list of its entries.
  Son 0 is \<open>False\<close>, son 1 is \<open>True\<close>. Keys, the comparison, the contents of a new node and the options are the record \<open>tree_params\<close>; the
  address of a new bucket, the result of \<open>alloc\<close>, is an argument.
\<close>

section \<open>Data\<close>

type_synonym 'n node = "nat \<times> 'n"

datatype 'n rbucket = Null | Bucket bool "nat option" "'n rbucket" "'n node" "'n rbucket"

record 'n rbtree =
  count :: nat
  height :: nat
  root :: "'n rbucket"

record 'n frame =
  f_red :: bool
  f_up :: "nat option"
  f_node :: "'n node"
  f_sib :: "'n rbucket"
  f_son :: bool

type_synonym stack_entry = "nat \<times> bool"

record ('k, 'n) tree_params =
  cmp :: "'k \<Rightarrow> 'k \<Rightarrow> int"
  key_of :: "'n \<Rightarrow> 'k"
  init_node :: "'k \<Rightarrow> 'n"
  duplicates :: bool
  max_depth :: nat

abbreviation nkey :: "('k, 'n) tree_params \<Rightarrow> 'n node \<Rightarrow> 'k" where
  "nkey P n \<equiv> key_of P (snd n)"

definition cmp_atomic :: "'a::linorder \<Rightarrow> 'a \<Rightarrow> int" where
  "cmp_atomic x y = (if x < y then - 1 else if x > y then 1 else 0)"

definition red_flag :: "'n rbucket \<Rightarrow> bool res" where
  "red_flag t = (case t of Null \<Rightarrow> Inl Out_of_bounds | Bucket c w l n r \<Rightarrow> Inr c)"

definition set_red_flag :: "bool \<Rightarrow> 'n rbucket \<Rightarrow> 'n rbucket res" where
  "set_red_flag c t = (case t of Null \<Rightarrow> Inl Out_of_bounds | Bucket c' w l n r \<Rightarrow> Inr (Bucket c w l n r))"

definition tree_son :: "bool \<Rightarrow> 'n rbucket \<Rightarrow> 'n rbucket res" where
  "tree_son s t = (case t of Null \<Rightarrow> Inl Out_of_bounds | Bucket c w l n r \<Rightarrow> Inr (if s then r else l))"

definition set_tree_son :: "bool \<Rightarrow> 'n rbucket \<Rightarrow> 'n rbucket \<Rightarrow> 'n rbucket res" where
  "set_tree_son s x t = (case t of Null \<Rightarrow> Inl Out_of_bounds | Bucket c w l n r \<Rightarrow> Inr (if s then Bucket c w l n x else Bucket c w x n r))"

text \<open>The pointer to a bucket and its parent pointer; a write of the parent pointer, and one under the test that the bucket exists; the
  bucket at an address in a tree, null if there is none.\<close>

definition ptr_to :: "'n rbucket \<Rightarrow> nat option" where
  "ptr_to t = (case t of Null \<Rightarrow> None | Bucket c w l n r \<Rightarrow> Some (fst n))"

definition up_of :: "'n rbucket \<Rightarrow> nat option res" where
  "up_of t = (case t of Null \<Rightarrow> Inl Out_of_bounds | Bucket c w l n r \<Rightarrow> Inr w)"

definition set_parent :: "nat option \<Rightarrow> 'n rbucket \<Rightarrow> 'n rbucket res" where
  "set_parent v t = (case t of Null \<Rightarrow> Inl Out_of_bounds | Bucket c w l n r \<Rightarrow> Inr (Bucket c v l n r))"

definition adopt :: "nat option \<Rightarrow> 'n rbucket \<Rightarrow> 'n rbucket" where
  "adopt v t = (case t of Null \<Rightarrow> Null | Bucket c w l n r \<Rightarrow> Bucket c v l n r)"

primrec bucket_at :: "'n rbucket \<Rightarrow> nat \<Rightarrow> 'n rbucket" where
  "bucket_at Null a = Null"
| "bucket_at (Bucket c w l n r) a = (if fst n = a then Bucket c w l n r else case bucket_at l a of Null \<Rightarrow> bucket_at r a | Bucket c' w' l' n' r' \<Rightarrow> Bucket c' w' l' n' r')"

text \<open>The test \<open>son ? red_flag(son) : 0\<close>; a change of the flag of a bucket below \<open>t\<close>.\<close>

definition is_red :: "'n rbucket \<Rightarrow> bool" where
  "is_red t = (case t of Null \<Rightarrow> False | Bucket c w l n r \<Rightarrow> c)"

fun paint_at :: "bool list \<Rightarrow> bool \<Rightarrow> 'n rbucket \<Rightarrow> 'n rbucket res" where
  "paint_at [] c t = set_red_flag c t"
| "paint_at (s # ds) c t = res_bind (tree_son s t) (\<lambda>u. res_bind (paint_at ds c u) (\<lambda>u. set_tree_son s u t))"

text \<open>A bucket made of a frame and the son it lacks; the whole tree; the pointer to the bucket of the innermost frame.\<close>

definition fill :: "'n frame \<Rightarrow> 'n rbucket \<Rightarrow> 'n rbucket" where
  "fill f t = (if f_son f then Bucket (f_red f) (f_up f) (f_sib f) (f_node f) t else Bucket (f_red f) (f_up f) t (f_node f) (f_sib f))"

primrec plug :: "'n frame list \<Rightarrow> 'n rbucket \<Rightarrow> 'n rbucket" where
  "plug [] t = t"
| "plug (f # p) t = plug p (fill f t)"

definition frame_of :: "bool \<Rightarrow> 'n rbucket \<Rightarrow> 'n frame res" where
  "frame_of s t = (case t of Null \<Rightarrow> Inl Out_of_bounds
     | Bucket c w l n r \<Rightarrow> Inr \<lparr>f_red = c, f_up = w, f_node = n, f_sib = (if s then l else r), f_son = s\<rparr>)"

definition top_of :: "'n frame list \<Rightarrow> nat option" where
  "top_of p = (case p of [] \<Rightarrow> None | f # p \<Rightarrow> Some (fst (f_node f)))"

section \<open>Searching\<close>

definition rb_init :: "'n rbtree" where
  "rb_init = \<lparr>count = 0, height = 0, root = Null\<rparr>"

fun cleanup_subtree :: "'n rbucket \<Rightarrow> nat \<Rightarrow> nat" where
  "cleanup_subtree Null cnt = cnt"
| "cleanup_subtree (Bucket c w l n r) cnt = U32 (cleanup_subtree r (cleanup_subtree l cnt) + (2 ^ 32 - 1))"

definition rb_cleanup :: "'n rbtree \<Rightarrow> unit res" where
  "rb_cleanup T = ensure (cleanup_subtree (root T) (count T) = 0) (Inr ())"

text \<open>\<open>d\<close> is the number of entries of the stack from the bucket \<open>t\<close> on.\<close>

fun fill_stack :: "('k, 'n) tree_params \<Rightarrow> nat \<Rightarrow> 'k \<Rightarrow> bool \<Rightarrow> 'n frame list \<Rightarrow> 'n rbucket \<Rightarrow> ('n frame list \<times> 'n rbucket) res" where
  "fill_stack P d k son_id p Null = (if d = 0 then Inl Out_of_bounds else Inr (p, Null))"
| "fill_stack P d k son_id p (Bucket c w l n r) =
    (if d = 0 then Inl Out_of_bounds
     else if cmp P k (nkey P n) = 0 then
       (if duplicates P then
          res_bind (if son_id then fill_stack P (d - 1) k son_id (\<lparr>f_red = c, f_up = w, f_node = n, f_sib = l, f_son = True\<rparr> # p) r
                    else fill_stack P (d - 1) k son_id (\<lparr>f_red = c, f_up = w, f_node = n, f_sib = r, f_son = False\<rparr> # p) l)
            (\<lambda>(p', u). if u \<noteq> Null then Inr (p', u) else Inr (p, Bucket c w l n r))
        else Inr (p, Bucket c w l n r))
     else ensure (1 < d)
       (if cmp P k (nkey P n) < 0 then fill_stack P (d - 1) k son_id (\<lparr>f_red = c, f_up = w, f_node = n, f_sib = r, f_son = False\<rparr> # p) l
        else fill_stack P (d - 1) k son_id (\<lparr>f_red = c, f_up = w, f_node = n, f_sib = l, f_son = True\<rparr> # p) r))"

definition rb_find :: "('k, 'n) tree_params \<Rightarrow> 'n rbtree \<Rightarrow> 'k \<Rightarrow> nat option res" where
  "rb_find P T k = res_bind (fill_stack P (max_depth P) k False [] (root T)) (\<lambda>(p, t). Inr (ptr_to t))"

definition rb_search :: "('k, 'n) tree_params \<Rightarrow> 'n rbtree \<Rightarrow> 'k \<Rightarrow> nat option res" where
  "rb_search P T k = res_bind (fill_stack P (max_depth P) k False [] (root T)) (\<lambda>(p, t).
     if t = Null then Inr (top_of p) else Inr (ptr_to t))"

fun search_down_loop :: "('k, 'n) tree_params \<Rightarrow> 'k \<Rightarrow> nat option \<Rightarrow> 'n rbucket \<Rightarrow> nat option" where
  "search_down_loop P k last_right Null = last_right"
| "search_down_loop P k last_right (Bucket c w l n r) =
    (let cm = cmp P k (nkey P n) in
     if cm = 0 then Some (fst n)
     else if cm < 0 then search_down_loop P k last_right l
     else search_down_loop P k (Some (fst n)) r)"

definition rb_search_down :: "('k, 'n) tree_params \<Rightarrow> 'n rbtree \<Rightarrow> 'k \<Rightarrow> nat option" where
  "rb_search_down P T k = search_down_loop P k None (root T)"

fun search_up_loop :: "('k, 'n) tree_params \<Rightarrow> 'k \<Rightarrow> nat option \<Rightarrow> 'n rbucket \<Rightarrow> nat option" where
  "search_up_loop P k last_left Null = last_left"
| "search_up_loop P k last_left (Bucket c w l n r) =
    (let cm = cmp P k (nkey P n) in
     if cm = 0 then Some (fst n)
     else if cm > 0 then search_up_loop P k last_left r
     else search_up_loop P k (Some (fst n)) l)"

definition rb_search_up :: "('k, 'n) tree_params \<Rightarrow> 'n rbtree \<Rightarrow> 'k \<Rightarrow> nat option" where
  "rb_search_up P T k = search_up_loop P k None (root T)"

text \<open>The descent in one direction, of \<open>boundary\<close> and \<open>adjacent\<close>.\<close>

fun descend :: "bool \<Rightarrow> 'n rbucket \<Rightarrow> 'n rbucket" where
  "descend s Null = Null"
| "descend s (Bucket c w l n r) =
    (if s then (if r = Null then Bucket c w l n r else descend s r) else (if l = Null then Bucket c w l n r else descend s l))"

definition rb_boundary :: "'n rbtree \<Rightarrow> bool \<Rightarrow> nat option" where
  "rb_boundary T direction = (if root T = Null then None else ptr_to (descend direction (root T)))"

text \<open>The ascent of \<open>adjacent\<close> along the parent pointers, with the pointers \<open>node\<close> and \<open>nx\<close> of the code, in the tree \<open>t\<close>; \<open>None\<close> stands for not
  returning.\<close>

partial_function (option) climb :: "'n rbucket \<Rightarrow> bool \<Rightarrow> nat \<Rightarrow> nat option \<Rightarrow> nat option res option" where
  "climb t direction node nx = (case nx of
     None \<Rightarrow> Some (Inr None)
   | Some b \<Rightarrow> (case (tree_son direction (bucket_at t b), tree_son (\<not> direction) (bucket_at t b), up_of (bucket_at t b)) of
       (Inr x, Inr y, Inr up) \<Rightarrow>
         if ptr_to x = Some node then climb t direction b up
         else Some (ensure (ptr_to y = Some node) (Inr (Some b)))
     | _ \<Rightarrow> Some (Inl Out_of_bounds)))"

definition adjacent :: "'n rbucket \<Rightarrow> bool \<Rightarrow> nat \<Rightarrow> nat option res option" where
  "adjacent t direction start = (case (tree_son direction (bucket_at t start), up_of (bucket_at t start)) of
     (Inr nx, Inr up) \<Rightarrow>
       if nx \<noteq> Null then Some (Inr (ptr_to (descend (\<not> direction) nx)))
       else climb t direction start up
   | _ \<Rightarrow> Some (Inl Out_of_bounds))"

text \<open>The key of the node at an address.\<close>

definition key_at :: "('k, 'n) tree_params \<Rightarrow> 'n rbucket \<Rightarrow> nat \<Rightarrow> 'k res" where
  "key_at P t a = (case bucket_at t a of Null \<Rightarrow> Inl Out_of_bounds | Bucket c w l n r \<Rightarrow> Inr (nkey P n))"

definition find_next :: "('k, 'n) tree_params \<Rightarrow> 'n rbucket \<Rightarrow> nat \<Rightarrow> nat option res option" where
  "find_next P t start = Option.bind (adjacent t True start) (\<lambda>x. Some (res_bind x (\<lambda>nx. case nx of
     None \<Rightarrow> Inr None
   | Some b \<Rightarrow> res_bind (key_at P t start) (\<lambda>k. res_bind (key_at P t b) (\<lambda>k'.
       Inr (if cmp P k k' = 0 then Some b else None))))))"

text \<open>The loop of \<open>TREE_FOR_ALL\<close>, as the list of the nodes it visits.\<close>

partial_function (option) for_all_loop :: "'n rbucket \<Rightarrow> nat option \<Rightarrow> nat list res option" where
  "for_all_loop t x = (case x of
     None \<Rightarrow> Some (Inr [])
   | Some a \<Rightarrow> (case adjacent t True a of
         None \<Rightarrow> None
       | Some (Inl e) \<Rightarrow> Some (Inl e)
       | Some (Inr z) \<Rightarrow> Option.bind (for_all_loop t z) (\<lambda>r. Some (res_bind r (\<lambda>ns. Inr (a # ns))))))"

fun first_loop :: "bool \<Rightarrow> nat option \<Rightarrow> 'n rbucket \<Rightarrow> nat option" where
  "first_loop s prev Null = prev"
| "first_loop s prev (Bucket c w l n r) = (if s then first_loop s (Some (fst n)) r else first_loop s (Some (fst n)) l)"

definition first_node :: "'n rbtree \<Rightarrow> bool \<Rightarrow> nat option" where
  "first_node T direction = first_loop direction None (root T)"

definition TREE_FOR_ALL :: "'n rbtree \<Rightarrow> nat list res option" where
  "TREE_FOR_ALL T = for_all_loop (root T) (first_node T False)"

section \<open>Insertion\<close>

text \<open>The pointers \<open>node\<close> and \<open>son\<close> of \<open>rotation\<close> are the addresses of the two buckets; the writes of sons and of parents are
  independent, and the parent of \<open>node\<close> is read before it is changed.\<close>

definition rotation :: "bool \<Rightarrow> 'n rbucket \<Rightarrow> 'n rbucket res" where
  "rotation son_id t = res_bind (tree_son son_id t) (\<lambda>son. res_bind (tree_son (\<not> son_id) son) (\<lambda>x.
     res_bind (set_tree_son son_id (adopt (ptr_to t) x) t) (\<lambda>node.
     res_bind (up_of node) (\<lambda>up. res_bind (set_parent up son) (\<lambda>son'.
     res_bind (set_parent (ptr_to son) node) (\<lambda>node. set_tree_son (\<not> son_id) node son'))))))"

text \<open>The rebalancing returns the root and the height. The two rotations for a black uncle:\<close>

definition insert_rotate :: "bool \<Rightarrow> bool \<Rightarrow> 'n rbucket \<Rightarrow> 'n rbucket res" where
  "insert_rotate s1 s2 grand =
    (if s1 = s2 then
       res_bind (rotation s2 grand) (\<lambda>node. res_bind (paint_at [] False node) (\<lambda>node. paint_at [\<not> s2] True node))
     else
       res_bind (tree_son s2 grand) (\<lambda>parent. res_bind (rotation s1 parent) (\<lambda>x.
       res_bind (set_tree_son s2 x grand) (\<lambda>grand. res_bind (rotation s2 grand) (\<lambda>node.
       res_bind (paint_at [\<not> s2] True node) (\<lambda>node. res_bind (paint_at [s2] True node) (\<lambda>node. paint_at [] False node)))))))"

fun rotate_after_insert :: "nat \<Rightarrow> 'n frame list \<Rightarrow> 'n rbucket \<Rightarrow> ('n rbucket \<times> nat) res" where
  "rotate_after_insert h [] node = res_bind (red_flag node) (\<lambda>c. ensure c (Inr (node, h)))"
| "rotate_after_insert h [parent] node = res_bind (red_flag node) (\<lambda>c. ensure c
    (if \<not> f_red parent then Inr (fill parent node, h) else Inr (fill (parent\<lparr>f_red := False\<rparr>) node, U32 (h + 1))))"
| "rotate_after_insert h (parent # grand # p) node = res_bind (red_flag node) (\<lambda>c. ensure c
    (if \<not> f_red parent then Inr (plug (parent # grand # p) node, h)
     else ensure (\<not> f_red grand)
       (if is_red (f_sib grand) then
          res_bind (set_red_flag False (f_sib grand)) (\<lambda>uncle.
            rotate_after_insert h p (fill (grand\<lparr>f_red := True, f_sib := uncle\<rparr>) (fill (parent\<lparr>f_red := False\<rparr>) node)))
        else res_bind (insert_rotate (f_son parent) (f_son grand) (fill grand (fill parent node))) (\<lambda>node. Inr (plug p node, h)))))"

text \<open>The walk to the neighbour in the direction \<open>s\<close>; the bucket at its end is null.\<close>

fun next_walk :: "nat \<Rightarrow> bool \<Rightarrow> 'n frame list \<Rightarrow> 'n rbucket \<Rightarrow> 'n frame list res" where
  "next_walk d s p Null = Inr p"
| "next_walk d s p (Bucket c w l n r) = ensure (1 < d)
    (if s then next_walk (d - 1) s (\<lparr>f_red = c, f_up = w, f_node = n, f_sib = l, f_son = True\<rparr> # p) r
     else next_walk (d - 1) s (\<lparr>f_red = c, f_up = w, f_node = n, f_sib = r, f_son = False\<rparr> # p) l)"

definition find_next_node :: "nat \<Rightarrow> bool \<Rightarrow> 'n frame list \<Rightarrow> 'n rbucket \<Rightarrow> 'n frame list res" where
  "find_next_node d s p t = (if t = Null then Inr p else ensure (1 < d)
     (res_bind (frame_of s t) (\<lambda>f. res_bind (tree_son s t) (\<lambda>u. next_walk (d - 1) (\<not> s) (f # p) u))))"

definition new_path :: "('k, 'n) tree_params \<Rightarrow> 'n rbtree \<Rightarrow> 'k \<Rightarrow> 'n frame list res" where
  "new_path P T k = res_bind (fill_stack P (max_depth P) k True [] (root T)) (\<lambda>(p, t).
     if duplicates P then find_next_node (max_depth P - length p) True p t else ensure (t = Null) (Inr p))"

text \<open>The new bucket is at the address \<open>added\<close>.\<close>

definition rb_new :: "('k, 'n) tree_params \<Rightarrow> nat \<Rightarrow> 'n rbtree \<Rightarrow> 'k \<Rightarrow> (nat \<times> 'n rbtree) res" where
  "rb_new P added T k = res_bind (new_path P T k) (\<lambda>p.
     res_bind (rotate_after_insert (height T) p (Bucket True (top_of p) Null (added, init_node P k) Null)) (\<lambda>(t, h).
       Inr (added, \<lparr>count = U32 (count T + 1), height = h, root = t\<rparr>)))"

definition rb_lookup :: "('k, 'n) tree_params \<Rightarrow> nat \<Rightarrow> 'n rbtree \<Rightarrow> 'k \<Rightarrow> (nat \<times> 'n rbtree) res" where
  "rb_lookup P added T k = res_bind (rb_find P T k) (\<lambda>x. case x of Some a \<Rightarrow> Inr (a, T) | None \<Rightarrow> rb_new P added T k)"

section \<open>Deletion\<close>

text \<open>The rotations below \<open>parent\<close>, whose son \<open>d\<close> lacks a black bucket, with a black and with a red sibling.\<close>

definition delete_rotate_black :: "bool \<Rightarrow> bool \<Rightarrow> bool \<Rightarrow> 'n rbucket \<Rightarrow> 'n rbucket res" where
  "delete_rotate_black d parent_red red_d parent =
    (if \<not> red_d then
       res_bind (rotation (\<not> d) parent) (\<lambda>instead. res_bind (paint_at [] parent_red instead) (\<lambda>instead.
       res_bind (paint_at [d] False instead) (\<lambda>instead. paint_at [\<not> d] False instead)))
     else
       res_bind (tree_son (\<not> d) parent) (\<lambda>sibling. res_bind (rotation d sibling) (\<lambda>x. res_bind (set_tree_son (\<not> d) x parent) (\<lambda>parent.
       res_bind (rotation (\<not> d) parent) (\<lambda>instead. res_bind (paint_at [] parent_red instead) (\<lambda>instead.
       res_bind (paint_at [d] False instead) (\<lambda>instead. paint_at [\<not> d] False instead)))))))"

definition delete_rotate_red :: "bool \<Rightarrow> bool \<Rightarrow> bool \<Rightarrow> 'n rbucket \<Rightarrow> 'n rbucket res" where
  "delete_rotate_red d red_d red_nd parent =
    (if \<not> red_d \<and> \<not> red_nd then
       res_bind (rotation (\<not> d) parent) (\<lambda>instead. res_bind (paint_at [] False instead) (\<lambda>instead.
       res_bind (paint_at [d] False instead) (\<lambda>instead. paint_at [d, \<not> d] True instead)))
     else
       res_bind (tree_son (\<not> d) parent) (\<lambda>sibling.
       res_bind (if red_d then res_bind (tree_son d sibling) (\<lambda>son. res_bind (rotation d son) (\<lambda>x. set_tree_son d x sibling)) else Inr sibling) (\<lambda>sibling.
       res_bind (rotation d sibling) (\<lambda>x. res_bind (set_tree_son (\<not> d) x parent) (\<lambda>parent.
       res_bind (rotation (\<not> d) parent) (\<lambda>instead. res_bind (paint_at [] False instead) (\<lambda>instead.
       res_bind (paint_at [d] False instead) (\<lambda>instead. res_bind (paint_at [\<not> d] True instead) (\<lambda>instead.
       paint_at [\<not> d, d] False instead)))))))))"

fun rotate_after_delete :: "nat \<Rightarrow> bool \<Rightarrow> 'n frame list \<Rightarrow> 'n rbucket \<Rightarrow> ('n rbucket \<times> nat) res" where
  "rotate_after_delete h first [] t = Inr (t, U32 (h + (2 ^ 32 - 1)))"
| "rotate_after_delete h first (parent # p) t =
    (let d = f_son parent; sibling = f_sib parent in
     ensure (first \<longrightarrow> t = Null) (ensure (sibling \<noteq> Null) (
     if \<not> is_red sibling then
       res_bind (tree_son False sibling) (\<lambda>son0. res_bind (tree_son True sibling) (\<lambda>son1.
       if \<not> is_red son0 \<and> \<not> is_red son1 then
         res_bind (set_red_flag True sibling) (\<lambda>sibling.
           let t = fill (parent\<lparr>f_red := False, f_sib := sibling\<rparr>) t in
           if f_red parent then Inr (plug p t, h) else rotate_after_delete h False p t)
       else res_bind (delete_rotate_black d (f_red parent) (is_red (if d then son1 else son0)) (fill parent t)) (\<lambda>instead. Inr (plug p instead, h))))
     else ensure (\<not> f_red parent) (
       res_bind (tree_son d sibling) (\<lambda>son. ensure (son \<noteq> Null \<and> \<not> is_red son) (
       res_bind (tree_son d son) (\<lambda>grand_d. res_bind (tree_son (\<not> d) son) (\<lambda>grand_nd.
       res_bind (delete_rotate_red d (is_red grand_d) (is_red grand_nd) (fill parent t)) (\<lambda>instead. Inr (plug p instead, h))))))))))"

text \<open>The loop of assertions on the path: the stack of pointers, from the root to the bucket to be removed, is turned into frames and that
  bucket, with the check that every entry is the son of the one before it. A stack that does not start in the root cannot be followed.\<close>

fun check_path :: "'n frame list \<Rightarrow> 'n rbucket \<Rightarrow> stack_entry list \<Rightarrow> ('n frame list \<times> 'n rbucket) res" where
  "check_path p t [] = Inl Out_of_bounds"
| "check_path p t [e] = (if ptr_to t = Some (fst e) then Inr (p, t) else Inl Out_of_bounds)"
| "check_path p t (e # e' # es) = (if ptr_to t = Some (fst e) then
     res_bind (frame_of (snd e) t) (\<lambda>f. res_bind (tree_son (snd e) t) (\<lambda>u.
     ensure (ptr_to u = Some (fst e')) (check_path (f # p) u (e' # es)))) else Inl Out_of_bounds)"

text \<open>The exchange of a bucket that has two sons with its successor: \<open>xchg\<close> takes the place of \<open>node\<close>, with its flag, and \<open>node\<close> becomes
  the last bucket of the path. In the list \<open>q\<close> of frames \<open>xchg\<close> is the first one, and the one at the index \<open>d - 1\<close> among the others the
  place of \<open>node\<close>. The left son of \<open>xchg\<close> and its right one, which is \<open>node\<close> itself if there is no frame between them, get it as their parent.\<close>

definition exchange_next :: "('k, 'n) tree_params \<Rightarrow> 'n frame list \<Rightarrow> 'n rbucket \<Rightarrow> ('n frame list \<times> 'n rbucket) res" where
  "exchange_next P p node = (case node of
     Null \<Rightarrow> Inl Out_of_bounds
   | Bucket c w l n r \<Rightarrow>
       if l \<noteq> Null \<and> r \<noteq> Null then
         res_bind (find_next_node (max_depth P - length p) True p node) (\<lambda>q.
           ensure (length q \<ge> length p + 2) (
           let xchg = hd q; rest = tl q; d = length q - length p - 1; at = rest ! (d - 1) in
           res_bind (tree_son False (fill xchg Null)) (\<lambda>x. ensure (x = Null) (
           res_bind (tree_son True (fill xchg Null)) (\<lambda>son.
           res_bind (set_parent (Some (fst (f_node xchg))) (f_sib at)) (\<lambda>l.
             let rest = rest[d - 1 := at\<lparr>f_node := f_node xchg, f_up := top_of p, f_sib := l\<rparr>];
               rest = (if d = 1 then rest else rest[d - 2 := (rest ! (d - 2))\<lparr>f_up := Some (fst (f_node xchg))\<rparr>])
             in Inr (rest, Bucket (f_red xchg) (top_of rest) Null n (adopt (Some (fst n)) son))))))))
       else Inr (p, node))"

text \<open>The last component of the result of \<open>remove_by_stack\<close> says whether the bucket was freed.\<close>

definition remove_by_stack :: "('k, 'n) tree_params \<Rightarrow> 'n rbtree \<Rightarrow> stack_entry list \<Rightarrow> ('n rbtree \<times> bool) res" where
  "remove_by_stack P T stack = res_bind (check_path [] (root T) stack) (\<lambda>(p, node).
     res_bind (exchange_next P p node) (\<lambda>(p, node).
     res_bind (tree_son False node) (\<lambda>son0. res_bind (tree_son True node) (\<lambda>son1. res_bind (red_flag node) (\<lambda>flag.
     let son = adopt (top_of p) (if son0 \<noteq> Null then son0 else son1); T = T\<lparr>count := U32 (count T + (2 ^ 32 - 1))\<rparr> in
     if flag then ensure (son = Null) (Inr (T\<lparr>root := plug p son\<rparr>, False))
     else if son \<noteq> Null then ensure (is_red son) (res_bind (set_red_flag False son) (\<lambda>son. Inr (T\<lparr>root := plug p son\<rparr>, True)))
     else res_bind (rotate_after_delete (height T) True p Null) (\<lambda>(t, h). Inr (T\<lparr>root := t, height := h\<rparr>, True)))))))"

text \<open>The stack of \<open>remove\<close>: the walk along the parent pointers, with \<open>d\<close> free entries, and the reversal. The last entry has the son 10 in the
  code, which is not read.\<close>

primrec parent_walk :: "nat \<Rightarrow> 'n rbucket \<Rightarrow> nat \<Rightarrow> stack_entry list \<Rightarrow> stack_entry list res" where
  "parent_walk 0 t node stack = res_bind (up_of (bucket_at t node)) (\<lambda>up. ensure (up = None) (Inr stack))"
| "parent_walk (Suc d) t node stack = res_bind (up_of (bucket_at t node)) (\<lambda>up. case up of
     None \<Rightarrow> Inr stack
   | Some b \<Rightarrow> res_bind (tree_son False (bucket_at t b)) (\<lambda>x. parent_walk d t b (stack @ [(b, ptr_to x \<noteq> Some node)])))"

definition reverse_stack :: "stack_entry list \<Rightarrow> stack_entry list" where
  "reverse_stack stack = (let depth = length stack - 1 in
     foldl (\<lambda>st i. let tmp = st ! i in (st[i := st ! (depth - i)])[depth - i := tmp]) stack [0..<(depth + 1) div 2])"

definition rb_remove :: "('k, 'n) tree_params \<Rightarrow> 'n rbtree \<Rightarrow> nat \<Rightarrow> ('n rbtree \<times> bool) res" where
  "rb_remove P T Node = res_bind (parent_walk (max_depth P - 1) (root T) Node [(Node, False)]) (\<lambda>stack. remove_by_stack P T (reverse_stack stack))"

text \<open>The entries of the stack that \<open>fill_stack\<close> leaves.\<close>

definition entries :: "'n frame list \<Rightarrow> 'n node \<Rightarrow> stack_entry list" where
  "entries p n = rev (map (\<lambda>f. (fst (f_node f), f_son f)) p) @ [(fst n, False)]"

definition rb_delete :: "('k, 'n) tree_params \<Rightarrow> 'n rbtree \<Rightarrow> 'k \<Rightarrow> (bool \<times> 'n rbtree) res" where
  "rb_delete P T k = res_bind (fill_stack P (max_depth P) k True [] (root T)) (\<lambda>(p, t). case t of
     Null \<Rightarrow> Inr (False, T)
   | Bucket c w l n r \<Rightarrow> res_bind (remove_by_stack P T (entries p n)) (\<lambda>(T, freed). Inr (True, T)))"

text \<open>The self-check of \<open>dump\<close>, without its output; \<open>par\<close> is the flag and the node of the parent.\<close>

fun dump_subtree :: "('k, 'n) tree_params \<Rightarrow> nat \<Rightarrow> 'n rbucket \<Rightarrow> (bool \<times> 'n node) option \<Rightarrow> int \<Rightarrow> nat \<Rightarrow> bool" where
  "dump_subtree P h Null par cmp_res black \<longleftrightarrow> black = h"
| "dump_subtree P h (Bucket c w l n r) par cmp_res black \<longleftrightarrow>
    w = map_option (fst \<circ> snd) par \<and>
    (case par of None \<Rightarrow> True | Some (pc, pn) \<Rightarrow> (\<not> c \<or> \<not> pc) \<and>
       (let x = cmp_res * cmp P (nkey P n) (nkey P pn) in if duplicates P then x \<ge> 0 else x > 0)) \<and>
    dump_subtree P h l (Some (c, n)) (- 1) (black + (if c then 0 else 1)) \<and>
    dump_subtree P h r (Some (c, n)) 1 (black + (if c then 0 else 1))"

definition rb_dump :: "('k, 'n) tree_params \<Rightarrow> 'n rbtree \<Rightarrow> unit res" where
  "rb_dump P T = ensure (dump_subtree P (height T) (root T) None 0 0) (Inr ())"

section \<open>The shape of the tree\<close>

lemma access_simps [simp]:
  "red_flag (Bucket c w l n r) = Inr c" "set_red_flag b (Bucket c w l n r) = Inr (Bucket b w l n r)"
  "tree_son s (Bucket c w l n r) = Inr (if s then r else l)"
  "set_tree_son s x (Bucket c w l n r) = Inr (if s then Bucket c w l n x else Bucket c w x n r)"
  "is_red Null = False" "is_red (Bucket c w l n r) = c"
  "frame_of s (Bucket c w l n r) = Inr \<lparr>f_red = c, f_up = w, f_node = n, f_sib = (if s then l else r), f_son = s\<rparr>"
  "ptr_to Null = None" "ptr_to (Bucket c w l n r) = Some (fst n)" "up_of (Bucket c w l n r) = Inr w"
  "set_parent v (Bucket c w l n r) = Inr (Bucket c v l n r)" "adopt v Null = Null" "adopt v (Bucket c w l n r) = Bucket c v l n r"
  "top_of [] = None" "top_of (f # p) = Some (fst (f_node f))"
  by (simp_all add: red_flag_def set_red_flag_def tree_son_def set_tree_son_def is_red_def frame_of_def ptr_to_def up_of_def set_parent_def adopt_def top_of_def)

text \<open>The nodes from left to right, the black height, and the rules of the colours.\<close>

primrec nodes :: "'n rbucket \<Rightarrow> 'n node list" where
  "nodes Null = []"
| "nodes (Bucket c w l n r) = nodes l @ n # nodes r"

primrec bh :: "'n rbucket \<Rightarrow> nat" where
  "bh Null = 0"
| "bh (Bucket c w l n r) = (if c then bh l else bh l + 1)"

primrec rb :: "'n rbucket \<Rightarrow> bool" where
  "rb Null \<longleftrightarrow> True"
| "rb (Bucket c w l n r) \<longleftrightarrow> rb l \<and> rb r \<and> bh l = bh r \<and> (c \<longrightarrow> \<not> is_red l \<and> \<not> is_red r)"

text \<open>Every bucket points to its parent.\<close>

primrec ups :: "nat option \<Rightarrow> 'n rbucket \<Rightarrow> bool" where
  "ups v Null \<longleftrightarrow> True"
| "ups v (Bucket c w l n r) \<longleftrightarrow> w = v \<and> ups (Some (fst n)) l \<and> ups (Some (fst n)) r"

lemma redE:
  assumes "is_red t"
  obtains w l n r where "t = Bucket True w l n r"
  using assms by (cases t) auto

lemma blackE:
  assumes "\<not> is_red t" "t \<noteq> Null"
  obtains w l n r where "t = Bucket False w l n r"
  using assms by (cases t) auto

text \<open>What a path contributes to these: the nodes on both sides, and what it demands from the bucket plugged in, namely the black
  height and a black root if the innermost frame is red.\<close>

primrec lefts :: "'n frame list \<Rightarrow> 'n node list" where
  "lefts [] = []"
| "lefts (f # p) = lefts p @ (if f_son f then nodes (f_sib f) @ [f_node f] else [])"

primrec rights :: "'n frame list \<Rightarrow> 'n node list" where
  "rights [] = []"
| "rights (f # p) = (if f_son f then [] else f_node f # nodes (f_sib f)) @ rights p"

definition head_red :: "'n frame list \<Rightarrow> bool" where
  "head_red p = (case p of [] \<Rightarrow> False | f # p \<Rightarrow> f_red f)"

lemma head_red_simps [simp]: "head_red [] = False" "head_red (f # p) = f_red f"
  by (simp_all add: head_red_def)

primrec ctx :: "'n frame list \<Rightarrow> nat \<Rightarrow> nat \<Rightarrow> bool" where
  "ctx [] h H \<longleftrightarrow> h = H"
| "ctx (f # p) h H \<longleftrightarrow> rb (f_sib f) \<and> bh (f_sib f) = h \<and> (f_red f \<longrightarrow> \<not> is_red (f_sib f) \<and> \<not> head_red p) \<and> ctx p (if f_red f then h else h + 1) H"

primrec path_ups :: "'n frame list \<Rightarrow> bool" where
  "path_ups [] \<longleftrightarrow> True"
| "path_ups (f # p) \<longleftrightarrow> f_up f = top_of p \<and> ups (Some (fst (f_node f))) (f_sib f) \<and> path_ups p"

lemma nodes_fill: "nodes (fill f t) = (if f_son f then nodes (f_sib f) @ f_node f # nodes t else nodes t @ f_node f # nodes (f_sib f))"
  by (simp add: fill_def)

lemma fill_shape: "is_red (fill f t) = f_red f" "fill f t \<noteq> Null"
  by (simp_all add: fill_def)

lemma rb_fill:
  "rb (fill f t) \<longleftrightarrow> rb t \<and> rb (f_sib f) \<and> bh t = bh (f_sib f) \<and> (f_red f \<longrightarrow> \<not> is_red t \<and> \<not> is_red (f_sib f))"
  by (auto simp: fill_def)

lemma bh_fill: "bh t = bh (f_sib f) \<Longrightarrow> bh (fill f t) = (if f_red f then bh t else bh t + 1)"
  by (simp add: fill_def)

lemma nodes_plug: "nodes (plug p t) = lefts p @ nodes t @ rights p"
  by (induction p arbitrary: t) (auto simp: nodes_fill)

lemma rb_plug: "rb (plug p t) \<and> bh (plug p t) = H \<longleftrightarrow> rb t \<and> ctx p (bh t) H \<and> \<not> (is_red t \<and> head_red p)"
proof (induction p arbitrary: t)
  case (Cons f p)
  show ?case
  proof (cases "bh t = bh (f_sib f)")
    case True
    then show ?thesis using Cons.IH [of "fill f t"] by (auto simp: rb_fill bh_fill fill_shape)
  next
    case False
    then show ?thesis using Cons.IH [of "fill f t"] by (auto simp: rb_fill)
  qed
qed auto

lemma ups_fill: "ups v (fill f t) \<longleftrightarrow> f_up f = v \<and> ups (Some (fst (f_node f))) (f_sib f) \<and> ups (Some (fst (f_node f))) t"
  by (auto simp: fill_def)

lemma ups_plug: "ups None (plug p t) \<longleftrightarrow> path_ups p \<and> ups (top_of p) t"
  by (induction p arbitrary: t) (auto simp: ups_fill)

lemma ups_adopt: "ups w t \<Longrightarrow> ups v (adopt v t)"
  by (cases t) auto

lemma adopt_simps [simp]:
  "rb (adopt v t) = rb t" "bh (adopt v t) = bh t" "nodes (adopt v t) = nodes t" "is_red (adopt v t) = is_red t" "adopt v t = Null \<longleftrightarrow> t = Null"
  by (cases t; simp)+

lemma plug_ok: "rb t \<Longrightarrow> ctx p (bh t) H \<Longrightarrow> \<not> (is_red t \<and> head_red p) \<Longrightarrow> rb (plug p t) \<and> bh (plug p t) = H"
  using rb_plug by blast

section \<open>Rebalancing\<close>

lemmas rotate_simps = insert_rotate_def delete_rotate_black_def delete_rotate_red_def rotation_def fill_def

lemma U32_pred: "0 < n \<Longrightarrow> n < 4294967296 \<Longrightarrow> U32 (n + 4294967295) = n - 1"
  by (cases n) (auto simp: U32_def)

lemma insert_rotate_ok:
  assumes "rb node" "is_red node" "f_red parent" "\<not> f_red grand" "\<not> is_red (f_sib grand)" "\<not> is_red (f_sib parent)"
    "rb (f_sib parent)" "bh (f_sib parent) = bh node" "rb (f_sib grand)" "bh (f_sib grand) = bh node"
  shows "\<exists>u. insert_rotate (f_son parent) (f_son grand) (fill grand (fill parent node)) = Inr u \<and> rb u \<and> \<not> is_red u \<and>
    bh u = bh node + 1 \<and> nodes u = nodes (fill grand (fill parent node)) \<and> (ups v (fill grand (fill parent node)) \<longrightarrow> ups v u)"
proof -
  obtain w l n r where node: "node = Bucket True w l n r" using assms(2) by (rule redE)
  show ?thesis using assms by (cases "f_son parent"; cases "f_son grand") (auto simp: node rotate_simps ups_adopt)
qed

lemma rotate_after_insert_ok:
  assumes "is_red node" "rb node" "ctx p (bh node) H" "H < 4294967295"
  shows "\<exists>u h. rotate_after_insert H p node = Inr (u, h) \<and> rb u \<and> bh u = h \<and> nodes u = nodes (plug p node) \<and> (ups None (plug p node) \<longrightarrow> ups None u)"
  using assms
proof (induction H p node rule: rotate_after_insert.induct)
  case (1 h node)
  then show ?case by (auto elim: redE)
next
  case (2 h parent node)
  then obtain w l n r where "node = Bucket True w l n r" by (auto elim: redE)
  then show ?case using 2 by (cases "f_red parent") (auto simp: rb_fill bh_fill nodes_fill ups_fill)
next
  case (3 h parent grand p node)
  obtain w l n r where node: "node = Bucket True w l n r" using 3(2) by (rule redE)
  show ?case
  proof (cases "f_red parent")
    case False
    have "rb (plug (parent # grand # p) node) \<and> bh (plug (parent # grand # p) node) = h"
      by (rule plug_ok) (use 3 False in auto)
    then show ?thesis using False node by simp
  next
    case True
    then have g: "\<not> f_red grand" "\<not> is_red (f_sib parent)" "rb (f_sib parent)" "bh (f_sib parent) = bh node" "rb (f_sib grand)" "bh (f_sib grand) = bh node"
        "ctx p (bh node + 1) h" using 3(4) by auto
    show ?thesis
    proof (cases "is_red (f_sib grand)")
      case red: True
      then obtain w' l' n' r' where u: "f_sib grand = Bucket True w' l' n' r'" by (rule redE)
      let ?x = "fill (grand\<lparr>f_red := True, f_sib := Bucket False w' l' n' r'\<rparr>) (fill (parent\<lparr>f_red := False\<rparr>) node)"
      have "rb ?x" "is_red ?x" "bh ?x = bh node + 1" "nodes ?x = nodes (fill grand (fill parent node))"
        using g 3(3) u by (auto simp: rb_fill bh_fill fill_shape nodes_fill)
      moreover have "ups None (plug (parent # grand # p) node) \<Longrightarrow> ups None (plug p ?x)" using u by (auto simp: ups_plug ups_fill)
      ultimately show ?thesis using 3(1) [of True "Bucket False w' l' n' r'"] 3(5) True g red u node by (auto simp: nodes_plug)
    next
      case False
      obtain u where u: "insert_rotate (f_son parent) (f_son grand) (fill grand (fill parent node)) = Inr u" "rb u" "\<not> is_red u"
          "bh u = bh node + 1" "nodes u = nodes (fill grand (fill parent node))" "ups (top_of p) (fill grand (fill parent node)) \<longrightarrow> ups (top_of p) u"
        using insert_rotate_ok [OF 3(3,2) True g(1) False g(2-6), of "top_of p"] by blast
      have "rb (plug p u) \<and> bh (plug p u) = h" by (rule plug_ok) (use u g(7) in auto)
      then show ?thesis using u True False g(1) node by (auto simp: nodes_plug ups_plug)
    qed
  qed
qed

lemma delete_rotate_black_ok:
  assumes "rb t" "f_sib f = Bucket False w l n r" "rb (f_sib f)" "bh (f_sib f) = bh t + 1" "is_red l \<or> is_red r"
  shows "\<exists>u. delete_rotate_black (f_son f) (f_red f) (is_red (if f_son f then r else l)) (fill f t) = Inr u \<and> rb u \<and> is_red u = f_red f \<and>
    bh u = (if f_red f then bh t + 1 else bh t + 2) \<and> nodes u = nodes (fill f t) \<and> (ups v (fill f t) \<longrightarrow> ups v u)"
  using assms by (cases "f_son f"; cases l; cases r) (auto simp: rotate_simps ups_adopt)

lemma delete_rotate_red_ok:
  assumes "rb t" "f_sib f = Bucket True w l n r" "rb (f_sib f)" "bh (f_sib f) = bh t + 1" "\<not> f_red f"
    "(if f_son f then r else l) = Bucket False w' x m y"
  shows "\<exists>u. delete_rotate_red (f_son f) (is_red (if f_son f then y else x)) (is_red (if f_son f then x else y)) (fill f t) = Inr u \<and> rb u \<and> \<not> is_red u \<and>
    bh u = bh t + 2 \<and> nodes u = nodes (fill f t) \<and> (ups v (fill f t) \<longrightarrow> ups v u)"
  using assms by (cases "f_son f"; cases x; cases y) (auto simp: rotate_simps ups_adopt split: if_splits)

lemma rotate_after_delete_ok:
  assumes "rb t" "\<not> is_red t" "first \<longrightarrow> t = Null" "ctx p (bh t + 1) H" "H < 4294967296"
  shows "\<exists>u h. rotate_after_delete H first p t = Inr (u, h) \<and> rb u \<and> bh u = h \<and> nodes u = nodes (plug p t) \<and> (ups None (plug p t) \<longrightarrow> ups None u)"
  using assms
proof (induction H first p t rule: rotate_after_delete.induct)
  case (1 h first t)
  then show ?case using U32_pred [of h] by auto
next
  case (2 h first f p t)
  have sib: "rb (f_sib f)" "bh (f_sib f) = bh t + 1" and c: "f_red f \<Longrightarrow> \<not> is_red (f_sib f) \<and> \<not> head_red p"
      "ctx p (if f_red f then bh t + 1 else bh t + 2) h" using 2(5) by auto
  obtain sc w l n r where sb: "f_sib f = Bucket sc w l n r" using sib by (cases "f_sib f") auto
  show ?case
  proof (cases sc)
    case False
    show ?thesis
    proof (cases "is_red l \<or> is_red r")
      case True
      have sib': "f_sib f = Bucket False w l n r" using sb False by simp
      obtain u where u: "delete_rotate_black (f_son f) (f_red f) (is_red (if f_son f then r else l)) (fill f t) = Inr u" "rb u" "is_red u = f_red f"
          "bh u = (if f_red f then bh t + 1 else bh t + 2)" "nodes u = nodes (fill f t)" "ups (top_of p) (fill f t) \<longrightarrow> ups (top_of p) u"
        using delete_rotate_black_ok [OF 2(2) sib' sib True, of "top_of p"] by blast
      have "rb (plug p u) \<and> bh (plug p u) = h" by (rule plug_ok) (use u c in auto)
      then show ?thesis using u True False sb 2(4) by (auto simp: Let_def nodes_plug ups_plug)
    next
      case black: False
      let ?x = "fill (f\<lparr>f_red := False, f_sib := Bucket True w l n r\<rparr>) t"
      have x: "rb ?x" "\<not> is_red ?x" "bh ?x = bh t + 1" "nodes ?x = nodes (fill f t)"
        using sib sb False black 2(2) by (auto simp: rb_fill bh_fill fill_shape nodes_fill)
      have xu: "ups None (plug (f # p) t) \<Longrightarrow> ups None (plug p ?x)" using sb by (auto simp: ups_plug ups_fill)
      show ?thesis
      proof (cases "f_red f")
        case True
        have "rb (plug p ?x) \<and> bh (plug p ?x) = h" by (rule plug_ok) (use x c True in auto)
        then show ?thesis using True False black sb 2(4) x xu by (auto simp: Let_def nodes_plug)
      next
        case nred: False
        have "\<exists>u h'. rotate_after_delete h False p ?x = Inr (u, h') \<and> rb u \<and> bh u = h' \<and> nodes u = nodes (plug p ?x) \<and>
            (ups None (plug p ?x) \<longrightarrow> ups None u)"
          using 2(1) [of "f_son f" "f_sib f" l r "Bucket True w l n r" ?x] x c nred False black sb 2(4,6) by (auto simp: Let_def)
        then show ?thesis using nred False black sb 2(4) x xu by (auto simp: Let_def nodes_plug)
      qed
    qed
  next
    case True
    have nf: "\<not> f_red f" using c(1) sb True by auto
    have s': "f_sib f = Bucket True w l n r" using sb True by simp
    obtain w' x m y where son: "(if f_son f then r else l) = Bucket False w' x m y"
      using sib sb True by (cases "f_son f"; cases l; cases r) auto
    obtain u where u: "delete_rotate_red (f_son f) (is_red (if f_son f then y else x)) (is_red (if f_son f then x else y)) (fill f t) = Inr u" "rb u" "\<not> is_red u"
        "bh u = bh t + 2" "nodes u = nodes (fill f t)" "ups (top_of p) (fill f t) \<longrightarrow> ups (top_of p) u"
      using delete_rotate_red_ok [OF 2(2) s' sib nf son, of "top_of p"] by blast
    have "rb (plug p u) \<and> bh (plug p u) = h" by (rule plug_ok) (use u c nf in auto)
    then show ?thesis using u nf True sb son 2(4) by (auto simp: Let_def nodes_plug ups_plug)
  qed
qed

section \<open>Depth\<close>

primrec depth :: "'n rbucket \<Rightarrow> nat" where
  "depth Null = 0"
| "depth (Bucket c w l n r) = max (depth l) (depth r) + 1"

lemma depth_bh: "rb t \<Longrightarrow> depth t \<le> 2 * bh t + (if is_red t then 1 else 0)"
  by (induction t) (auto split: if_splits)

lemma bh_nodes: "rb t \<Longrightarrow> 2 ^ bh t \<le> length (nodes t) + 1"
  by (induction t) (auto split: if_splits)

lemma depth_bound:
  assumes "rb t" "length (nodes t) + 1 < 2 ^ k"
  shows "depth t < 2 * k"
proof -
  have "(2::nat) ^ bh t < 2 ^ k" using bh_nodes [OF assms(1)] assms(2) by linarith
  then have "bh t < k" by simp
  then show ?thesis using depth_bh [OF assms(1)] by (auto split: if_splits)
qed

lemma bh_bound:
  assumes "rb t" "length (nodes t) + 1 < 2 ^ 32"
  shows "bh t < 32"
proof -
  have "(2::nat) ^ bh t < 2 ^ 32" using bh_nodes [OF assms(1)] assms(2) by linarith
  then show ?thesis by (rule power_less_imp_less_exp [of 2, rotated]) simp
qed

section \<open>The order of the nodes\<close>

text \<open>The contract of the comparison callback, and the default one for atomic keys.\<close>

locale comparison =
  fixes compare :: "'k \<Rightarrow> 'k \<Rightarrow> int"
  assumes sign: "compare x y < 0 \<longleftrightarrow> 0 < compare y x"
    and le_trans: "compare x y \<le> 0 \<Longrightarrow> compare y z \<le> 0 \<Longrightarrow> compare x z \<le> 0"
begin

lemma refl: "compare x x = 0"
  using sign [of x x] by linarith

lemma zero_sym: "compare x y = 0 \<Longrightarrow> compare y x = 0"
  using sign [of x y] sign [of y x] by linarith

lemma ge_iff: "0 \<le> compare x y \<longleftrightarrow> compare y x \<le> 0"
  using sign [of x y] by linarith

lemma less_le_trans: "compare x y < 0 \<Longrightarrow> compare y z \<le> 0 \<Longrightarrow> compare x z < 0"
  using le_trans [of y z x] le_trans [of x y z] sign [of x y] ge_iff [of x z] by linarith

lemma le_less_trans: "compare x y \<le> 0 \<Longrightarrow> compare y z < 0 \<Longrightarrow> compare x z < 0"
  using le_trans [of z x y] le_trans [of x y z] sign [of y z] ge_iff [of x z] by linarith

end

sublocale comparison \<subseteq> strict_weak_order "\<lambda>x y. compare x y < 0"
proof
  show "\<not> compare y x < 0" if "compare x y < 0" for x y using that sign [of x y] by linarith
  show "\<not> compare x z < 0" if "\<not> compare x y < 0" "\<not> compare y z < 0" for x y z
    using that ge_iff [of x y] ge_iff [of y z] ge_iff [of x z] le_trans [of z y x] by linarith
qed

interpretation atomic: comparison "cmp_atomic :: 'a::linorder \<Rightarrow> 'a \<Rightarrow> int"
  by unfold_locales (auto simp: cmp_atomic_def split: if_splits)

definition below :: "('k, 'n) tree_params \<Rightarrow> 'n node \<Rightarrow> 'n node \<Rightarrow> bool" where
  "below P a b = (let c = cmp P (nkey P a) (nkey P b) in if duplicates P then c \<le> 0 else c < 0)"

definition ordered :: "('k, 'n) tree_params \<Rightarrow> 'n node list \<Rightarrow> bool" where
  "ordered P ns = sorted_wrt (below P) ns"

abbreviation vs :: "('k, 'n) tree_params \<Rightarrow> 'k \<Rightarrow> 'n node \<Rightarrow> int" where
  "vs P k n \<equiv> cmp P k (nkey P n)"

text \<open>A valid tree: the rules of the colours, the height and the count, the order, the parent pointers, and different addresses.\<close>

definition rb_valid :: "('k, 'n) tree_params \<Rightarrow> 'n rbtree \<Rightarrow> bool" where
  "rb_valid P T \<longleftrightarrow> rb (root T) \<and> bh (root T) = height T \<and> count T = length (nodes (root T)) \<and> ordered P (nodes (root T)) \<and>
     ups None (root T) \<and> distinct (map fst (nodes (root T)))"

lemma ordered_append: "ordered P (xs @ ys) \<longleftrightarrow> ordered P xs \<and> ordered P ys \<and> (\<forall>x\<in>set xs. \<forall>y\<in>set ys. below P x y)"
  by (simp add: ordered_def sorted_wrt_append)

lemma ordered_Cons: "ordered P (x # ys) \<longleftrightarrow> (\<forall>y\<in>set ys. below P x y) \<and> ordered P ys"
  by (simp add: ordered_def)

lemma below_le: "below P a b \<Longrightarrow> cmp P (nkey P a) (nkey P b) \<le> 0"
  by (auto simp: below_def Let_def split: if_splits)

text \<open>Nodes to the left of one that is not greater are not greater, nodes to the right of one that is not lower are not lower.\<close>

lemma left_of:
  assumes "comparison (cmp P)" "below P a n"
  shows "0 < vs P k n \<Longrightarrow> 0 < vs P k a" "0 \<le> vs P k n \<Longrightarrow> 0 \<le> vs P k a" "\<not> duplicates P \<Longrightarrow> 0 \<le> vs P k n \<Longrightarrow> 0 < vs P k a"
proof -
  note c = comparison.sign [OF assms(1)] comparison.ge_iff [OF assms(1)]
  show "0 < vs P k a" if "0 < vs P k n"
    using comparison.le_less_trans [OF assms(1) below_le [OF assms(2)], of k] that c(1) by blast
  show "0 \<le> vs P k a" if "0 \<le> vs P k n"
    using comparison.le_trans [OF assms(1) below_le [OF assms(2)], of k] that c(2) by blast
  show "0 < vs P k a" if "\<not> duplicates P" "0 \<le> vs P k n"
    using comparison.less_le_trans [OF assms(1), of "nkey P a" "nkey P n" k] that c assms(2) by (auto simp: below_def)
qed

lemma right_of:
  assumes "comparison (cmp P)" "below P n b"
  shows "vs P k n < 0 \<Longrightarrow> vs P k b < 0" "vs P k n \<le> 0 \<Longrightarrow> vs P k b \<le> 0" "\<not> duplicates P \<Longrightarrow> vs P k n \<le> 0 \<Longrightarrow> vs P k b < 0"
proof -
  show "vs P k b < 0" if "vs P k n < 0" using comparison.less_le_trans [OF assms(1) that below_le [OF assms(2)]] .
  show "vs P k b \<le> 0" if "vs P k n \<le> 0" using comparison.le_trans [OF assms(1) that below_le [OF assms(2)]] .
  show "vs P k b < 0" if "\<not> duplicates P" "vs P k n \<le> 0"
    using comparison.le_less_trans [OF assms(1) that(2), of "nkey P b"] that(1) assms(2) by (auto simp: below_def)
qed

section \<open>Paths\<close>

text \<open>What a search for the key \<open>k\<close> leaves on both sides of the bucket \<open>u\<close> it stops at.\<close>

definition search_post :: "('k, 'n) tree_params \<Rightarrow> 'k \<Rightarrow> bool \<Rightarrow> 'n node list \<Rightarrow> 'n rbucket \<Rightarrow> 'n node list \<Rightarrow> bool" where
  "search_post P k sid A u B = (case u of
     Null \<Rightarrow> (\<forall>a\<in>set A. 0 < vs P k a) \<and> (\<forall>b\<in>set B. vs P k b < 0)
   | Bucket c w l n r \<Rightarrow> vs P k n = 0 \<and> (sid \<or> \<not> duplicates P \<longrightarrow> (\<forall>b\<in>set (nodes r @ B). vs P k b < 0)) \<and>
       (\<not> sid \<or> \<not> duplicates P \<longrightarrow> (\<forall>a\<in>set (A @ nodes l). 0 < vs P k a)))"

definition stops :: "('k, 'n) tree_params \<Rightarrow> 'k \<Rightarrow> bool \<Rightarrow> 'n frame list \<Rightarrow> 'n rbucket \<Rightarrow> ('n frame list \<times> 'n rbucket) res \<Rightarrow> bool" where
  "stops P k sid p t x \<longleftrightarrow> (\<exists>p' u A B. x = Inr (p', u) \<and> plug p' u = plug p t \<and> length p' + depth u \<le> length p + depth t \<and>
     lefts p' = lefts p @ A \<and> rights p' = B @ rights p \<and> nodes t = A @ nodes u @ B \<and> search_post P k sid A u B)"

lemma stops_left:
  assumes "stops P k sid (\<lparr>f_red = c, f_up = w, f_node = n, f_sib = r, f_son = False\<rparr> # p) l x" "\<forall>b\<in>set (n # nodes r). vs P k b < 0"
  shows "stops P k sid p (Bucket c w l n r) x"
proof -
  obtain p' u A B where x: "x = Inr (p', u)" "plug p' u = plug p (Bucket c w l n r)" "length p' + depth u \<le> length p + 1 + depth l"
      "lefts p' = lefts p @ A" "rights p' = B @ n # nodes r @ rights p" "nodes l = A @ nodes u @ B" "search_post P k sid A u B"
    using assms(1) by (auto simp: stops_def fill_def)
  have "search_post P k sid A u (B @ n # nodes r)" using x(7) assms(2) by (auto simp: search_post_def split: rbucket.splits)
  then show ?thesis unfolding stops_def using x by (intro exI [of _ p'] exI [of _ u] exI [of _ A] exI [of _ "B @ n # nodes r"]) auto
qed

lemma stops_right:
  assumes "stops P k sid (\<lparr>f_red = c, f_up = w, f_node = n, f_sib = l, f_son = True\<rparr> # p) r x" "\<forall>a\<in>set (nodes l @ [n]). 0 < vs P k a"
  shows "stops P k sid p (Bucket c w l n r) x"
proof -
  obtain p' u A B where x: "x = Inr (p', u)" "plug p' u = plug p (Bucket c w l n r)" "length p' + depth u \<le> length p + 1 + depth r"
      "lefts p' = lefts p @ nodes l @ n # A" "rights p' = B @ rights p" "nodes r = A @ nodes u @ B" "search_post P k sid A u B"
    using assms(1) by (auto simp: stops_def fill_def)
  have "search_post P k sid (nodes l @ n # A) u B" using x(7) assms(2) by (auto simp: search_post_def split: rbucket.splits)
  then show ?thesis unfolding stops_def using x by (intro exI [of _ p'] exI [of _ u] exI [of _ "nodes l @ n # A"] exI [of _ B]) auto
qed

text \<open>On a node with the key, the search goes on for the last (or first) such node.\<close>

lemma stops_here:
  assumes "vs P k n = 0" "sid \<or> \<not> duplicates P \<Longrightarrow> \<forall>b\<in>set (nodes r). vs P k b < 0" "\<not> sid \<or> \<not> duplicates P \<Longrightarrow> \<forall>a\<in>set (nodes l). 0 < vs P k a"
  shows "stops P k sid p (Bucket c w l n r) (Inr (p, Bucket c w l n r))"
  using assms by (auto simp: stops_def search_post_def)

lemma stops_again_right:
  assumes "stops P k True (\<lparr>f_red = c, f_up = w, f_node = n, f_sib = l, f_son = True\<rparr> # p) r x" "vs P k n = 0" "\<forall>b\<in>set (nodes r). vs P k b \<le> 0" "duplicates P"
  shows "stops P k True p (Bucket c w l n r) (res_bind x (\<lambda>(p', u). if u \<noteq> Null then Inr (p', u) else Inr (p, Bucket c w l n r)))"
proof -
  obtain p' u A B where x: "x = Inr (p', u)" "plug p' u = plug p (Bucket c w l n r)" "length p' + depth u \<le> length p + 1 + depth r"
      "lefts p' = lefts p @ nodes l @ n # A" "rights p' = B @ rights p" "nodes r = A @ nodes u @ B" "search_post P k True A u B"
    using assms(1) by (auto simp: stops_def fill_def)
  show ?thesis
  proof (cases u)
    case Null
    then have "\<forall>b\<in>set (nodes r). vs P k b < 0" using x(6,7) assms(3) by (auto simp: search_post_def not_less [symmetric])
    then show ?thesis using x(1) Null stops_here [OF assms(2), of True r l p c w] assms(4) by simp
  next
    case (Bucket c' w' l' n' r')
    have "search_post P k True (nodes l @ n # A) u B" using x(7) Bucket assms(4) by (auto simp: search_post_def)
    then have "stops P k True p (Bucket c w l n r) (Inr (p', u))" unfolding stops_def
      using x by (intro exI [of _ p'] exI [of _ u] exI [of _ "nodes l @ n # A"] exI [of _ B]) auto
    then show ?thesis using x(1) Bucket by simp
  qed
qed

lemma stops_again_left:
  assumes "stops P k False (\<lparr>f_red = c, f_up = w, f_node = n, f_sib = r, f_son = False\<rparr> # p) l x" "vs P k n = 0" "\<forall>a\<in>set (nodes l). 0 \<le> vs P k a" "duplicates P"
  shows "stops P k False p (Bucket c w l n r) (res_bind x (\<lambda>(p', u). if u \<noteq> Null then Inr (p', u) else Inr (p, Bucket c w l n r)))"
proof -
  obtain p' u A B where x: "x = Inr (p', u)" "plug p' u = plug p (Bucket c w l n r)" "length p' + depth u \<le> length p + 1 + depth l"
      "lefts p' = lefts p @ A" "rights p' = B @ n # nodes r @ rights p" "nodes l = A @ nodes u @ B" "search_post P k False A u B"
    using assms(1) by (auto simp: stops_def fill_def)
  show ?thesis
  proof (cases u)
    case Null
    then have "\<forall>a\<in>set (nodes l). 0 < vs P k a" using x(6,7) assms(3) by (auto simp: search_post_def not_less [symmetric])
    then show ?thesis using x(1) Null stops_here [OF assms(2), of False r l p c w] assms(4) by simp
  next
    case (Bucket c' w' l' n' r')
    have "search_post P k False A u (B @ n # nodes r)" using x(7) Bucket assms(4) by (auto simp: search_post_def)
    then have "stops P k False p (Bucket c w l n r) (Inr (p', u))" unfolding stops_def
      using x by (intro exI [of _ p'] exI [of _ u] exI [of _ A] exI [of _ "B @ n # nodes r"]) auto
    then show ?thesis using x(1) Bucket by simp
  qed
qed

lemma fill_stack_ok:
  assumes "comparison (cmp P)" "ordered P (nodes t)" "depth t < d"
  shows "stops P k sid p t (fill_stack P d k sid p t)"
  using assms
proof (induction P d k sid p t rule: fill_stack.induct)
  case (1 P d k sid p)
  then show ?case by (auto simp: stops_def search_post_def)
next
  case (2 P d k sid p c w l n r)
  have o: "ordered P (nodes l)" "ordered P (nodes r)" "\<forall>a\<in>set (nodes l). below P a n" "\<forall>b\<in>set (nodes r). below P n b"
    using 2(6) by (auto simp: ordered_append ordered_Cons)
  have d: "d \<noteq> 0" "1 < d" "depth l < d - 1" "depth r < d - 1" using 2(7) by auto
  note lo = left_of [OF 2(5)] and ro = right_of [OF 2(5)]
  consider "vs P k n = 0" | "vs P k n < 0" | "0 < vs P k n" by linarith
  then show ?case
  proof cases
    case 1
    have z: "vs P k n \<le> 0" "0 \<le> vs P k n" using 1 by simp_all
    have le: "\<forall>b\<in>set (nodes r). vs P k b \<le> 0" "\<forall>a\<in>set (nodes l). 0 \<le> vs P k a" using o(3,4) lo(2) ro(2) z by blast+
    show ?thesis
    proof (cases "duplicates P")
      case True
      show ?thesis
      proof (cases sid)
        case s: True
        have "stops P k True (\<lparr>f_red = c, f_up = w, f_node = n, f_sib = l, f_son = True\<rparr> # p) r (fill_stack P (d - 1) k True (\<lparr>f_red = c, f_up = w, f_node = n, f_sib = l, f_son = True\<rparr> # p) r)"
          using 2(1) [OF d(1) 1 True s 2(5) o(2) d(4)] s by simp
        then have "stops P k True p (Bucket c w l n r) (res_bind (fill_stack P (d - 1) k True (\<lparr>f_red = c, f_up = w, f_node = n, f_sib = l, f_son = True\<rparr> # p) r)
            (\<lambda>(p', u). if u \<noteq> Null then Inr (p', u) else Inr (p, Bucket c w l n r)))"
          using stops_again_right [of P k c w n l p r, OF _ 1 le(1) True] by blast
        then show ?thesis using d(1) 1 True s by simp
      next
        case s: False
        have "stops P k False (\<lparr>f_red = c, f_up = w, f_node = n, f_sib = r, f_son = False\<rparr> # p) l (fill_stack P (d - 1) k False (\<lparr>f_red = c, f_up = w, f_node = n, f_sib = r, f_son = False\<rparr> # p) l)"
          using 2(2) [OF d(1) 1 True s 2(5) o(1) d(3)] s by simp
        then have "stops P k False p (Bucket c w l n r) (res_bind (fill_stack P (d - 1) k False (\<lparr>f_red = c, f_up = w, f_node = n, f_sib = r, f_son = False\<rparr> # p) l)
            (\<lambda>(p', u). if u \<noteq> Null then Inr (p', u) else Inr (p, Bucket c w l n r)))"
          using stops_again_left [of P k c w n r p l, OF _ 1 le(2) True] by blast
        then show ?thesis using d(1) 1 True s by simp
      qed
    next
      case False
      have "stops P k sid p (Bucket c w l n r) (Inr (p, Bucket c w l n r))"
        using stops_here [OF 1, of sid r l p c w] False o(3,4) lo(3) ro(3) z by blast
      then show ?thesis using d(1) 1 False by simp
    qed
  next
    case 2
    have "stops P k sid p (Bucket c w l n r) (fill_stack P (d - 1) k sid (\<lparr>f_red = c, f_up = w, f_node = n, f_sib = r, f_son = False\<rparr> # p) l)"
    proof (rule stops_left)
      show "\<forall>b\<in>set (n # nodes r). vs P k b < 0" using 2 ro(1) o(4) by (metis set_ConsD)
    qed (use "2.IH"(3) [OF d(1) _ d(2) 2 "2.prems"(1) o(1) d(3)] 2 in simp)
    then show ?thesis using d(1,2) 2 by simp
  next
    case 3
    have "stops P k sid p (Bucket c w l n r) (fill_stack P (d - 1) k sid (\<lparr>f_red = c, f_up = w, f_node = n, f_sib = l, f_son = True\<rparr> # p) r)"
    proof (rule stops_right)
      show "\<forall>a\<in>set (nodes l @ [n]). 0 < vs P k a" using 3 lo(1) o(3) by (metis Un_iff set_append set_ConsD empty_iff list.set(1))
    qed (use "2.IH"(4) [OF d(1) _ d(2) _ "2.prems"(1) o(2) d(4)] 3 in simp)
    then show ?thesis using d(1,2) 3 by simp
  qed
qed

text \<open>The walk to the successor: its last frame, if there is one, and what is on both sides of its end.\<close>

lemma next_walk_ok:
  "depth t < d \<Longrightarrow> \<exists>q. next_walk d False p t = Inr (q @ p) \<and> plug (q @ p) Null = plug p t \<and> lefts (q @ p) = lefts p \<and> rights (q @ p) = nodes t @ rights p \<and>
     (t \<noteq> Null \<longrightarrow> (\<exists>f m. q = f # m \<and> \<not> f_son f))"
proof (induction t arbitrary: d p)
  case (Bucket c w l n r)
  let ?f = "\<lparr>f_red = c, f_up = w, f_node = n, f_sib = r, f_son = False\<rparr>"
  have d: "1 < d" "depth l < d - 1" using Bucket.prems by auto
  obtain q where q: "next_walk (d - 1) False (?f # p) l = Inr (q @ ?f # p)" "plug (q @ ?f # p) Null = plug (?f # p) l"
      "lefts (q @ ?f # p) = lefts (?f # p)" "rights (q @ ?f # p) = nodes l @ rights (?f # p)" "l \<noteq> Null \<longrightarrow> (\<exists>f m. q = f # m \<and> \<not> f_son f)"
    using Bucket.IH(1) [OF d(2), of "?f # p"] by blast
  have "\<exists>f m. q @ [?f] = f # m \<and> \<not> f_son f"
  proof (cases l)
    case Null
    then have "q = []" using q(1) by simp
    then show ?thesis by simp
  next
    case (Bucket c' w' l' n' r')
    then show ?thesis using q(5) by auto
  qed
  then show ?case using q d(1) by (intro exI [of _ "q @ [?f]"]) (auto simp: fill_def)
qed simp

lemma lefts_append: "lefts (q @ p) = lefts p @ lefts q"
  by (induction q) auto

lemma rights_append: "rights (q @ p) = rights q @ rights p"
  by (induction q) auto

lemma find_next_node_ok:
  assumes "depth (Bucket c w l n r) < d"
  shows "\<exists>q. find_next_node d True p (Bucket c w l n r) = Inr (q @ \<lparr>f_red = c, f_up = w, f_node = n, f_sib = l, f_son = True\<rparr> # p) \<and>
    plug (q @ \<lparr>f_red = c, f_up = w, f_node = n, f_sib = l, f_son = True\<rparr> # p) Null = plug p (Bucket c w l n r) \<and> lefts q = [] \<and> rights q = nodes r \<and>
    (r \<noteq> Null \<longrightarrow> (\<exists>f m. q = f # m \<and> \<not> f_son f))"
proof -
  let ?f = "\<lparr>f_red = c, f_up = w, f_node = n, f_sib = l, f_son = True\<rparr>"
  have d: "1 < d" "depth r < d - 1" using assms by auto
  obtain q where q: "next_walk (d - 1) False (?f # p) r = Inr (q @ ?f # p)" "plug (q @ ?f # p) Null = plug (?f # p) r"
      "lefts (q @ ?f # p) = lefts (?f # p)" "rights (q @ ?f # p) = nodes r @ rights (?f # p)" "r \<noteq> Null \<longrightarrow> (\<exists>f m. q = f # m \<and> \<not> f_son f)"
    using next_walk_ok [OF d(2), of "?f # p"] by blast
  then show ?thesis using d(1) by (intro exI [of _ q]) (simp add: find_next_node_def fill_def lefts_append rights_append)
qed

section \<open>Operations on valid trees\<close>

text \<open>A tree is shallow when the stack suffices for it; with the default of 64 entries every tree of less than \<open>2 ^ 32 - 1\<close> nodes is.\<close>

lemma shallow:
  assumes "rb_valid P T" "max_depth P = 64" "count T + 1 < 2 ^ 32"
  shows "depth (root T) < max_depth P"
  using depth_bound [of "root T" 32] assms by (simp add: rb_valid_def)

lemma fill_root:
  assumes "comparison (cmp P)" "rb_valid P T" "depth (root T) < max_depth P"
  obtains p u A B where "fill_stack P (max_depth P) k sid [] (root T) = Inr (p, u)" "plug p u = root T" "length p + depth u \<le> depth (root T)"
    "lefts p = A" "rights p = B" "nodes (root T) = A @ nodes u @ B" "search_post P k sid A u B"
proof -
  have "stops P k sid [] (root T) (fill_stack P (max_depth P) k sid [] (root T))"
    using fill_stack_ok [OF assms(1) _ assms(3)] assms(2) by (simp add: rb_valid_def)
  then show thesis unfolding stops_def by (elim exE conjE) (rule that, simp_all)
qed

lemma new_path_ok:
  assumes "comparison (cmp P)" "rb_valid P T" "depth (root T) < max_depth P" "duplicates P \<or> (\<forall>n\<in>set (nodes (root T)). vs P k n \<noteq> 0)"
  shows "\<exists>p. new_path P T k = Inr p \<and> plug p Null = root T \<and> (\<forall>a\<in>set (lefts p). 0 \<le> vs P k a) \<and> (\<forall>b\<in>set (rights p). vs P k b < 0)"
proof -
  obtain p u A B where f: "fill_stack P (max_depth P) k True [] (root T) = Inr (p, u)" "plug p u = root T" "length p + depth u \<le> depth (root T)"
      "lefts p = A" "rights p = B" "nodes (root T) = A @ nodes u @ B" "search_post P k True A u B"
    by (rule fill_root [OF assms(1-3), of k True])
  show ?thesis
  proof (cases u)
    case Null
    then have "\<forall>a\<in>set (lefts p). 0 < vs P k a" "\<forall>b\<in>set (rights p). vs P k b < 0" using f(4,5,7) by (simp_all add: search_post_def)
    then show ?thesis using f(1,2) Null by (intro exI [of _ p]) (simp add: new_path_def find_next_node_def less_imp_le)
  next
    case (Bucket c w l n r)
    have n: "vs P k n = 0" using f(7) Bucket by (simp add: search_post_def)
    then have dup: "duplicates P" using assms(4) unfolding f(6) Bucket by simp
    let ?f = "\<lparr>f_red = c, f_up = w, f_node = n, f_sib = l, f_son = True\<rparr>"
    have dd: "depth (Bucket c w l n r) < max_depth P - length p" using f(3) assms(3) unfolding Bucket by linarith
    obtain q where q: "find_next_node (max_depth P - length p) True p (Bucket c w l n r) = Inr (q @ ?f # p)"
        "plug (q @ ?f # p) Null = plug p (Bucket c w l n r)" "lefts q = []" "rights q = nodes r"
      using find_next_node_ok [OF dd, of p] by blast
    have "ordered P (A @ (nodes l @ n # nodes r) @ B)" using assms(2) f(6) Bucket by (simp add: rb_valid_def)
    then have "below P a n" if "a \<in> set (A @ nodes l)" for a using that by (auto simp: ordered_append ordered_Cons)
    then have "0 \<le> vs P k a" if "a \<in> set (A @ nodes l)" for a using left_of(2) [OF assms(1), of a n k] that n by simp
    then have "\<forall>a\<in>set (lefts (q @ ?f # p)). 0 \<le> vs P k a" using n q(3) f(4) by (auto simp: lefts_append)
    moreover have "\<forall>b\<in>set (nodes r @ B). vs P k b < 0" using f(7) Bucket by (simp add: search_post_def)
    then have "\<forall>b\<in>set (rights (q @ ?f # p)). vs P k b < 0" using q(4) f(5) by (simp add: rights_append)
    ultimately show ?thesis using f(1,2) Bucket q(1,2) dup by (intro exI [of _ "q @ ?f # p"]) (simp add: new_path_def)
  qed
qed

lemma ordered_insert:
  assumes "comparison (cmp P)" "ordered P (A @ B)" "\<forall>a\<in>set A. 0 \<le> vs P k a" "\<forall>b\<in>set B. vs P k b < 0" "nkey P n = k"
    "duplicates P \<or> (\<forall>a\<in>set A. vs P k a \<noteq> 0)"
  shows "ordered P (A @ n # B)"
proof -
  have "below P a n" if "a \<in> set A" for a
  proof -
    have "0 \<le> vs P k a" "duplicates P \<or> vs P k a \<noteq> 0" using assms(3,6) that by auto
    then have "cmp P (nkey P a) k \<le> 0" "duplicates P \<or> cmp P (nkey P a) k < 0"
      using comparison.ge_iff [OF assms(1), of k "nkey P a"] comparison.sign [OF assms(1), of "nkey P a" k] by (blast, linarith)
    then show ?thesis using assms(5) by (auto simp: below_def)
  qed
  moreover have "below P n b" if "b \<in> set B" for b using assms(4,5) that by (auto simp: below_def)
  ultimately show ?thesis using assms(2) by (auto simp: ordered_append ordered_Cons)
qed

lemma rb_new_ok:
  assumes "comparison (cmp P)" "rb_valid P T" "depth (root T) < max_depth P" "key_of P (init_node P k) = k"
    "duplicates P \<or> (\<forall>n\<in>set (nodes (root T)). vs P k n \<noteq> 0)" "a \<notin> fst ` set (nodes (root T))" "count T + 1 < 2 ^ 32"
  shows "\<exists>T' A B. rb_new P a T k = Inr (a, T') \<and> rb_valid P T' \<and> nodes (root T) = A @ B \<and> nodes (root T') = A @ (a, init_node P k) # B \<and>
    (\<forall>a\<in>set A. 0 \<le> vs P k a) \<and> (\<forall>b\<in>set B. vs P k b < 0)"
proof -
  obtain p where p: "new_path P T k = Inr p" "plug p Null = root T" "\<forall>a\<in>set (lefts p). 0 \<le> vs P k a" "\<forall>b\<in>set (rights p). vs P k b < 0"
    using new_path_ok [OF assms(1-3,5)] by blast
  let ?b = "Bucket True (top_of p) Null (a, init_node P k) Null"
  have v: "rb (plug p Null) \<and> bh (plug p Null) = height T" "nodes (root T) = lefts p @ rights p" "ordered P (lefts p @ rights p)" "ups None (plug p Null)"
    using assms(2) p(2) nodes_plug [of p Null] by (auto simp: rb_valid_def)
  have h: "height T < 32" using bh_bound [of "root T"] assms(2,7) by (simp add: rb_valid_def)
  have c: "ctx p 0 (height T)" using v(1) rb_plug [of p Null "height T"] by simp
  have "\<exists>u h. rotate_after_insert (height T) p ?b = Inr (u, h) \<and> rb u \<and> bh u = h \<and> nodes u = nodes (plug p ?b) \<and> (ups None (plug p ?b) \<longrightarrow> ups None u)"
    by (rule rotate_after_insert_ok) (use c h in auto)
  then obtain u h where u: "rotate_after_insert (height T) p ?b = Inr (u, h)" "rb u" "bh u = h" "nodes u = nodes (plug p ?b)"
      "ups None (plug p ?b) \<longrightarrow> ups None u" by blast
  have ns: "nodes u = lefts p @ (a, init_node P k) # rights p" using u(4) by (simp add: nodes_plug)
  have "ordered P (lefts p @ (a, init_node P k) # rights p)"
  proof (rule ordered_insert [OF assms(1) v(3) p(3,4)])
    show "duplicates P \<or> (\<forall>x\<in>set (lefts p). vs P k x \<noteq> 0)" using assms(5) v(2) by (metis Un_iff set_append)
  qed (use assms(4) in simp)
  moreover have "ups None u" using u(5) v(4) by (simp add: ups_plug)
  moreover have "distinct (map fst (lefts p @ rights p))" "a \<notin> fst ` set (lefts p @ rights p)" "count T = length (lefts p @ rights p)"
    using assms(2,6) v(2) unfolding rb_valid_def by simp_all
  ultimately have "rb_valid P \<lparr>count = U32 (count T + 1), height = h, root = u\<rparr>" using u(2,3) assms(7)
    unfolding rb_valid_def ns rbtree.simps by (simp add: ns image_Un)
  then show ?thesis using p u(1) v(2) ns
    by (intro exI [of _ "\<lparr>count = U32 (count T + 1), height = h, root = u\<rparr>"] exI [of _ "lefts p"] exI [of _ "rights p"]) (simp add: rb_new_def)
qed

text \<open>What a path demands depends on the flags of its frames and the shape of its siblings; its parent pointers, on the frame above.\<close>

definition shape :: "'n frame \<Rightarrow> bool \<times> bool \<times> nat \<times> bool" where
  "shape f = (f_red f, rb (f_sib f), bh (f_sib f), is_red (f_sib f))"

lemma ctx_shape: "map shape p = map shape q \<Longrightarrow> ctx p h H = ctx q h H \<and> head_red p = head_red q"
proof (induction p arbitrary: q h)
  case (Cons f p)
  then obtain g q' where q: "q = g # q'" "shape f = shape g" "map shape p = map shape q'" by (cases q) auto
  then show ?case using Cons.IH [OF q(3)] by (simp add: shape_def)
qed simp

lemma path_ups_drop: "path_ups (m @ p) \<Longrightarrow> path_ups p"
  by (induction m) auto

lemma path_ups_replace: "path_ups (m @ h # R) \<Longrightarrow> f_node h' = f_node h \<Longrightarrow> path_ups (h' # R') \<Longrightarrow> path_ups (m @ h' # R')"
proof (induction m)
  case (Cons f m)
  have "top_of (m @ h # R) = top_of (m @ h' # R')" using Cons.prems(2) by (cases m) auto
  then show ?case using Cons by simp
qed simp

text \<open>Removal: what the exchange with the successor leaves is a path and a bucket with at most one son, which has black height 0.\<close>

definition only_son :: "'n rbucket \<Rightarrow> 'n rbucket \<Rightarrow> 'n rbucket" where
  "only_son x y = (if x \<noteq> Null then x else y)"

lemma exchange_next_eq:
  assumes "l \<noteq> Null" "r \<noteq> Null"
    "find_next_node (max_depth P - length p) True p (Bucket c w l n r) = Inr (x # m @ \<lparr>f_red = c, f_up = w, f_node = n, f_sib = l, f_son = True\<rparr> # p)"
    "\<not> f_son x"
  shows "\<exists>m'. exchange_next P p (Bucket c w l n r) = Inr (m' @ \<lparr>f_red = c, f_up = top_of p, f_node = f_node x,
        f_sib = adopt (Some (fst (f_node x))) l, f_son = True\<rparr> # p,
      Bucket (f_red x) (top_of (m' @ \<lparr>f_red = c, f_up = top_of p, f_node = f_node x,
        f_sib = adopt (Some (fst (f_node x))) l, f_son = True\<rparr> # p)) Null n (adopt (Some (fst n)) (f_sib x))) \<and>
    (m' = m \<and> m = [] \<or> (\<exists>m'' h. m = m'' @ [h] \<and> m' = m'' @ [h\<lparr>f_up := Some (fst (f_node x))\<rparr>]))"
proof -
  obtain c' w' l' n' r' where l: "l = Bucket c' w' l' n' r'" using assms(1) by (cases l) auto
  show ?thesis
  proof (cases m rule: rev_cases)
    case Nil
    then show ?thesis using assms l by (auto simp: exchange_next_def Let_def fill_def)
  next
    case (snoc m'' h)
    then show ?thesis using assms l
      by (intro exI [of _ "m'' @ [h\<lparr>f_up := Some (fst (f_node x))\<rparr>]"]) (simp add: exchange_next_def Let_def fill_def nth_append list_update_append)
  qed
qed

lemma exchange_next_ok:
  assumes "rb (plug p (Bucket c w l n r))" "bh (plug p (Bucket c w l n r)) = H" "length p + depth (Bucket c w l n r) < max_depth P"
    "ups None (plug p (Bucket c w l n r))"
  shows "\<exists>q flag w' x y. exchange_next P p (Bucket c w l n r) = Inr (q, Bucket flag w' x n y) \<and> rb (only_son x y) \<and> bh (only_son x y) = 0 \<and>
    (flag \<longrightarrow> \<not> is_red (only_son x y)) \<and> ctx q (if flag then 0 else 1) H \<and>
    lefts q @ nodes (only_son x y) @ rights q = lefts p @ nodes l @ nodes r @ rights p \<and> path_ups q \<and> ups (Some (fst n)) (only_son x y)"
proof (cases "l \<noteq> Null \<and> r \<noteq> Null")
  case True
  let ?f = "\<lparr>f_red = c, f_up = w, f_node = n, f_sib = l, f_son = True\<rparr>"
  have d: "depth (Bucket c w l n r) < max_depth P - length p" using assms(3) by linarith
  obtain q where q: "find_next_node (max_depth P - length p) True p (Bucket c w l n r) = Inr (q @ ?f # p)"
      "plug (q @ ?f # p) Null = plug p (Bucket c w l n r)" "lefts q = []" "rights q = nodes r" "r \<noteq> Null \<longrightarrow> (\<exists>f m. q = f # m \<and> \<not> f_son f)"
    using find_next_node_ok [OF d, of p] by blast
  then obtain x m where x: "q = x # m" "\<not> f_son x" using True by blast
  let ?g = "\<lparr>f_red = c, f_up = top_of p, f_node = f_node x, f_sib = adopt (Some (fst (f_node x))) l, f_son = True\<rparr>"
  have "find_next_node (max_depth P - length p) True p (Bucket c w l n r) = Inr (x # m @ ?f # p)" using q(1) x(1) by simp
  then obtain m' where e: "exchange_next P p (Bucket c w l n r) = Inr (m' @ ?g # p, Bucket (f_red x) (top_of (m' @ ?g # p)) Null n (adopt (Some (fst n)) (f_sib x)))"
      "m' = m \<and> m = [] \<or> (\<exists>m'' h. m = m'' @ [h] \<and> m' = m'' @ [h\<lparr>f_up := Some (fst (f_node x))\<rparr>])"
    using exchange_next_eq [of l r P p c w n x m] True x(2) by blast
  have "ctx (q @ ?f # p) 0 H" "path_ups (x # m @ ?f # p)" using rb_plug [of "q @ ?f # p" Null H] q(2) assms(1,2,4) ups_plug [of "q @ ?f # p" Null] x(1) by simp_all
  then have c: "rb (f_sib x)" "bh (f_sib x) = 0" "f_red x \<longrightarrow> \<not> is_red (f_sib x)" "ctx (m @ ?f # p) (if f_red x then 0 else 1) H"
      and u: "ups (Some (fst (f_node x))) (f_sib x)" "path_ups (m @ ?f # p)"
    using x(1) by auto
  have r: "nodes r = f_node x # nodes (f_sib x) @ rights m" "lefts m = []" using q(3,4) x by auto
  have "map shape (m' @ ?g # p) = map shape (m @ ?f # p)" "lefts m' = lefts m" "rights m' = rights m"
    using e(2) by (auto simp: shape_def lefts_append rights_append)
  moreover have "path_ups (?f # p)" using path_ups_drop [OF u(2)] .
  then have g: "path_ups (?g # p)" using ups_adopt [of "Some (fst n)" l "Some (fst (f_node x))"] by simp
  have "path_ups (m' @ ?g # p)"
  proof (cases "m = []")
    case False
    then obtain m'' h where m: "m = m'' @ [h]" "m' = m'' @ [h\<lparr>f_up := Some (fst (f_node x))\<rparr>]" using e(2) by blast
    have h: "path_ups (m'' @ h # ?f # p)" using u(2) m(1) by simp
    then have "ups (Some (fst (f_node h))) (f_sib h)" using path_ups_drop [of m'' "h # ?f # p"] by simp
    then have "path_ups (m'' @ h\<lparr>f_up := Some (fst (f_node x))\<rparr> # ?g # p)" by (intro path_ups_replace [OF h]) (use g in auto)
    then show ?thesis using m(2) by simp
  qed (use e(2) g in simp)
  ultimately show ?thesis using e(1) c r ups_adopt [OF u(1), of "Some (fst n)"] ctx_shape [of "m' @ ?g # p" "m @ ?f # p"]
    by (intro exI [of _ "m' @ ?g # p"] exI [of _ "f_red x"] exI [of _ "top_of (m' @ ?g # p)"] exI [of _ Null] exI [of _ "adopt (Some (fst n)) (f_sib x)"])
      (simp add: lefts_append rights_append only_son_def)
next
  case False
  have v: "rb (Bucket c w l n r)" "ctx p (bh (Bucket c w l n r)) H" using rb_plug [of p "Bucket c w l n r" H] assms(1,2) by auto
  have z: "bh l = 0" "bh r = 0" using v(1) False by auto
  have u: "path_ups p" "ups (Some (fst n)) l" "ups (Some (fst n)) r" using assms(4) ups_plug [of p "Bucket c w l n r"] by auto
  show ?thesis using False v z u
    by (intro exI [of _ p] exI [of _ c] exI [of _ w] exI [of _ l] exI [of _ r]) (auto simp: exchange_next_def only_son_def)
qed

lemma fill_access: "frame_of (f_son f) (fill f t) = Inr f" "tree_son (f_son f) (fill f t) = Inr t" "ptr_to (fill f t) = Some (fst (f_node f))"
  by (cases f; simp add: fill_def)+

lemma plug_snoc: "plug (p @ [f]) t = fill f (plug p t)"
  by (induction p arbitrary: t) auto

lemma entries_snoc: "entries (p @ [f]) n = (fst (f_node f), f_son f) # entries p n"
  by (simp add: entries_def)

lemma entries_head: "\<exists>s es. entries p n = (the (ptr_to (plug p (Bucket c w l n r))), s) # es \<and> ptr_to (plug p (Bucket c w l n r)) \<noteq> None"
proof (cases p rule: rev_cases)
  case (snoc q f)
  then show ?thesis by (simp add: plug_snoc entries_snoc fill_access)
qed (auto simp: entries_def)

lemma check_path_ok: "check_path p' (plug p (Bucket c w l n r)) (entries p n) = Inr (p @ p', Bucket c w l n r)"
proof (induction p arbitrary: p' rule: rev_induct)
  case (snoc f p)
  obtain s es a where "entries p n = (a, s) # es" "ptr_to (plug p (Bucket c w l n r)) = Some a" using entries_head [of p n c w l r] by auto
  then show ?case using snoc [of "f # p'"] by (simp add: plug_snoc entries_snoc fill_access)
qed (simp add: entries_def)

lemma remove_by_stack_ok:
  assumes "rb_valid P T" "depth (root T) < max_depth P" "plug p (Bucket c w l n r) = root T" "length p + depth (Bucket c w l n r) \<le> depth (root T)"
    "count T + 1 < 2 ^ 32"
  shows "\<exists>T' freed. remove_by_stack P T (entries p n) = Inr (T', freed) \<and> rb_valid P T' \<and> nodes (root T') = lefts p @ nodes l @ nodes r @ rights p"
proof -
  have v: "rb (plug p (Bucket c w l n r))" "bh (plug p (Bucket c w l n r)) = height T" "length p + depth (Bucket c w l n r) < max_depth P"
      "ups None (plug p (Bucket c w l n r))"
    using assms by (auto simp: rb_valid_def)
  have ns: "nodes (root T) = lefts p @ nodes l @ n # nodes r @ rights p" using nodes_plug [of p "Bucket c w l n r"] assms(3) by simp
  have h: "height T < 32" using bh_bound [of "root T"] assms(1,5) by (simp add: rb_valid_def)
  have k: "check_path [] (root T) (entries p n) = Inr (p, Bucket c w l n r)" using check_path_ok [of "[]" p c w l n r] assms(3) by simp
  obtain q flag w' x y where e: "exchange_next P p (Bucket c w l n r) = Inr (q, Bucket flag w' x n y)" "rb (only_son x y)" "bh (only_son x y) = 0"
      "flag \<longrightarrow> \<not> is_red (only_son x y)" "ctx q (if flag then 0 else 1) (height T)"
      "lefts q @ nodes (only_son x y) @ rights q = lefts p @ nodes l @ nodes r @ rights p" "path_ups q" "ups (Some (fst n)) (only_son x y)"
    using exchange_next_ok [OF v] by blast
  let ?s = "adopt (top_of q) (only_son x y)"
  have ct: "U32 (count T + 4294967295) = length (lefts p @ nodes l @ nodes r @ rights p)"
    using U32_pred [of "count T"] assms(1,5) ns by (simp add: rb_valid_def)
  have ok: "rb_valid P (T\<lparr>count := U32 (count T + 4294967295), root := u, height := hh\<rparr>) \<and> nodes u = lefts p @ nodes l @ nodes r @ rights p"
    if "rb u" "bh u = hh" "nodes u = lefts q @ nodes ?s @ rights q" "ups None u" for u hh
    using that assms(1) e(6) ns ct by (auto simp: rb_valid_def ordered_append ordered_Cons)
  have us: "ups (top_of q) ?s" using ups_adopt [OF e(8)] .
  show ?thesis
  proof (cases flag)
    case True
    then have s: "only_son x y = Null" using e(3,4) by (cases "only_son x y") auto
    have "rb (plug q Null) \<and> bh (plug q Null) = height T" by (rule plug_ok) (use e(5) True in auto)
    then show ?thesis using ok [of "plug q Null" "height T"] k e(1,7) True s by (auto simp: remove_by_stack_def Let_def nodes_plug ups_plug only_son_def)
  next
    case False
    show ?thesis
    proof (cases ?s)
      case Null
      have "\<exists>u h. rotate_after_delete (height T) True q Null = Inr (u, h) \<and> rb u \<and> bh u = h \<and> nodes u = nodes (plug q Null) \<and> (ups None (plug q Null) \<longrightarrow> ups None u)"
        by (rule rotate_after_delete_ok) (use e(5) False h in auto)
      then obtain u h where "rotate_after_delete (height T) True q Null = Inr (u, h)" "rb u" "bh u = h" "nodes u = nodes (plug q Null)" "ups None u"
        using e(7) by (auto simp: ups_plug)
      then show ?thesis using ok [of u h] k e(1) False Null by (auto simp: remove_by_stack_def Let_def nodes_plug only_son_def)
    next
      case (Bucket c' w'' l' n' r')
      have s: "rb ?s" "bh ?s = 0" using e(2,3) by simp_all
      then have c: "c'" using Bucket by (auto split: if_splits)
      let ?b = "Bucket False w'' l' n' r'"
      have "rb (plug q ?b) \<and> bh (plug q ?b) = height T" by (rule plug_ok) (use s e(5) False Bucket c in auto)
      moreover have "ups None (plug q ?b)" using us e(7) Bucket by (simp add: ups_plug)
      moreover have "nodes (plug q ?b) = lefts q @ nodes ?s @ rights q" unfolding nodes_plug Bucket by simp
      ultimately have v: "rb_valid P (T\<lparr>count := U32 (count T + 4294967295), root := plug q ?b, height := height T\<rparr>)"
          "nodes (plug q ?b) = lefts p @ nodes l @ nodes r @ rights p"
        using ok [of "plug q ?b" "height T"] by blast+
      have "only_son x y \<noteq> Null" using Bucket by auto
      then show ?thesis using v k e(1) False Bucket c by (auto simp: remove_by_stack_def Let_def only_son_def [symmetric])
    qed
  qed
qed

lemma rb_delete_ok:
  assumes "comparison (cmp P)" "rb_valid P T" "depth (root T) < max_depth P" "count T + 1 < 2 ^ 32"
  shows "(\<forall>n\<in>set (nodes (root T)). vs P k n \<noteq> 0) \<and> rb_delete P T k = Inr (False, T) \<or>
    (\<exists>T' A n B. rb_delete P T k = Inr (True, T') \<and> rb_valid P T' \<and> nodes (root T) = A @ n # B \<and> nodes (root T') = A @ B \<and> vs P k n = 0 \<and>
      (\<forall>b\<in>set B. vs P k b < 0))"
proof -
  obtain p u A B where f: "fill_stack P (max_depth P) k True [] (root T) = Inr (p, u)" "plug p u = root T" "length p + depth u \<le> depth (root T)"
      "lefts p = A" "rights p = B" "nodes (root T) = A @ nodes u @ B" "search_post P k True A u B"
    by (rule fill_root [OF assms(1-3), of k True])
  show ?thesis
  proof (cases u)
    case Null
    then have "(\<forall>a\<in>set A. 0 < vs P k a) \<and> (\<forall>b\<in>set B. vs P k b < 0)" using f(7) by (simp add: search_post_def)
    then have "\<forall>n\<in>set (nodes (root T)). vs P k n \<noteq> 0" unfolding f(6) Null by (metis Un_iff append_Nil less_irrefl nodes.simps(1) set_append)
    then show ?thesis using f(1) Null by (simp add: rb_delete_def)
  next
    case (Bucket c w l n r)
    obtain T' fr where t: "remove_by_stack P T (entries p n) = Inr (T', fr)" "rb_valid P T'" "nodes (root T') = lefts p @ nodes l @ nodes r @ rights p"
      using remove_by_stack_ok [OF assms(2,3), of p c w l n r] f(2,3) assms(4) Bucket by auto
    have "vs P k n = 0" "\<forall>b\<in>set (nodes r @ B). vs P k b < 0" using f(7) Bucket by (simp_all add: search_post_def)
    then show ?thesis using t f(1,4-6) Bucket
      by (intro disjI2 exI [of _ T'] exI [of _ "A @ nodes l"] exI [of _ n] exI [of _ "nodes r @ B"]) (simp add: rb_delete_def)
  qed
qed

lemma rb_find_ok:
  assumes "comparison (cmp P)" "rb_valid P T" "depth (root T) < max_depth P"
  shows "rb_find P T k = Inr None \<and> (\<forall>n\<in>set (nodes (root T)). vs P k n \<noteq> 0) \<or>
    (\<exists>A n B. nodes (root T) = A @ n # B \<and> rb_find P T k = Inr (Some (fst n)) \<and> vs P k n = 0 \<and> (\<forall>a\<in>set A. 0 < vs P k a))"
proof -
  obtain p u A B where f: "fill_stack P (max_depth P) k False [] (root T) = Inr (p, u)" "plug p u = root T" "length p + depth u \<le> depth (root T)"
      "lefts p = A" "rights p = B" "nodes (root T) = A @ nodes u @ B" "search_post P k False A u B"
    by (rule fill_root [OF assms(1-3), of k False])
  show ?thesis
  proof (cases u)
    case Null
    then have "(\<forall>a\<in>set A. 0 < vs P k a) \<and> (\<forall>b\<in>set B. vs P k b < 0)" using f(7) by (simp add: search_post_def)
    then have "\<forall>n\<in>set (nodes (root T)). vs P k n \<noteq> 0" unfolding f(6) Null by (metis Un_iff append_Nil less_irrefl nodes.simps(1) set_append)
    then show ?thesis using f(1) Null by (simp add: rb_find_def)
  next
    case (Bucket c w l n r)
    then have "vs P k n = 0" "\<forall>a\<in>set (A @ nodes l). 0 < vs P k a" using f(7) by (simp_all add: search_post_def)
    then show ?thesis using f(1,6) Bucket
      by (intro disjI2 exI [of _ "A @ nodes l"] exI [of _ n] exI [of _ "nodes r @ B"]) (simp add: rb_find_def)
  qed
qed

section \<open>Iteration and neighbours\<close>

text \<open>A node of the tree is at the end of a path; the nodes before and behind it.\<close>

lemma node_path:
  assumes "nodes t = xs @ n # ys" "plug p t = z"
  shows "\<exists>q c w l r. plug q (Bucket c w l n r) = z \<and> lefts p @ xs = lefts q @ nodes l \<and> ys @ rights p = nodes r @ rights q"
  using assms
proof (induction t arbitrary: p xs ys)
  case (Bucket c w l m r)
  from Bucket.prems(1) have "nodes l @ m # nodes r = xs @ n # ys" by simp
  then consider zs where "nodes l = xs @ n # zs" "ys = zs @ m # nodes r" | "xs = nodes l" "m = n" "ys = nodes r"
    | zs where "nodes r = zs @ n # ys" "xs = nodes l @ m # zs"
    by (auto simp: append_eq_append_conv2 append_eq_Cons_conv Cons_eq_append_conv)
  then show ?case
  proof cases
    case 1
    let ?f = "\<lparr>f_red = c, f_up = w, f_node = m, f_sib = r, f_son = False\<rparr>"
    have "plug (?f # p) l = z" using Bucket.prems(2) by (simp add: fill_def)
    then show ?thesis using Bucket.IH(1) [OF 1(1), of "?f # p"] 1(2) by simp
  next
    case 2
    then show ?thesis using Bucket.prems(2) by blast
  next
    case 3
    let ?f = "\<lparr>f_red = c, f_up = w, f_node = m, f_sib = l, f_son = True\<rparr>"
    have "plug (?f # p) r = z" using Bucket.prems(2) by (simp add: fill_def)
    then show ?thesis using Bucket.IH(2) [OF 3(1), of "?f # p"] 3(2) by simp
  qed
qed simp

abbreviation addrs :: "'n rbucket \<Rightarrow> nat list" where
  "addrs t \<equiv> map fst (nodes t)"

lemma bucket_at_None: "a \<notin> set (addrs t) \<Longrightarrow> bucket_at t a = Null"
  by (induction t) auto

lemma bucket_at_fill: "distinct (addrs (fill f t)) \<Longrightarrow> a \<in> set (addrs t) \<Longrightarrow> bucket_at (fill f t) a = bucket_at t a"
proof -
  assume d: "distinct (addrs (fill f t))" and a: "a \<in> set (addrs t)"
  have "fst (f_node f) \<noteq> a" "a \<notin> set (addrs (f_sib f))" using d a by (auto simp: nodes_fill split: if_splits)
  then show ?thesis using bucket_at_None [of a "f_sib f"] by (auto simp: fill_def split: rbucket.split)
qed

lemma bucket_at_plug: "distinct (addrs (plug p t)) \<Longrightarrow> a \<in> set (addrs t) \<Longrightarrow> bucket_at (plug p t) a = bucket_at t a"
proof (induction p arbitrary: t)
  case (Cons f p)
  have d: "distinct (addrs (fill f t))" using Cons.prems(1) by (simp add: nodes_plug)
  have "a \<in> set (addrs (fill f t))" using Cons.prems(2) by (auto simp: nodes_fill)
  then show ?case using Cons.IH [of "fill f t"] Cons.prems bucket_at_fill [OF d] by simp
qed simp

lemma bucket_at_bucket: "distinct (addrs (plug p (Bucket c w l n r))) \<Longrightarrow> bucket_at (plug p (Bucket c w l n r)) (fst n) = Bucket c w l n r"
  by (simp add: bucket_at_plug)

lemma bucket_at_frame: "distinct (addrs (plug (f # p) t)) \<Longrightarrow> bucket_at (plug (f # p) t) (fst (f_node f)) = fill f t"
  using bucket_at_plug [of p "fill f t" "fst (f_node f)"] by (simp add: nodes_fill) (simp add: fill_def)

lemma nodes_Nil [simp]: "nodes t = [] \<longleftrightarrow> t = Null"
  by (cases t) auto

lemma descend_ok: "t \<noteq> Null \<Longrightarrow> ptr_to (descend s t) = Some (fst (if s then last (nodes t) else hd (nodes t)))"
  by (induction t) (auto simp: hd_append last_append split: if_splits)

text \<open>The ascent finds the first node behind (or the last one before) the subtree.\<close>

lemma sib_ptr:
  assumes "distinct (addrs (fill f t))" "ptr_to t = Some a"
  shows "ptr_to (f_sib f) \<noteq> Some a"
  using assms by (cases t; cases "f_sib f") (auto simp: nodes_fill split: if_splits)

lemma climb_ok:
  assumes "distinct (addrs (plug p t))" "ups None (plug p t)" "ptr_to t = Some a"
  shows "climb (plug p t) s a (top_of p) =
    Some (Inr (let ns = (if s then rights p else lefts p) in if ns = [] then None else Some (fst (if s then hd ns else last ns))))"
  using assms
proof (induction p arbitrary: t a)
  case Nil
  then show ?case by (simp add: climb.simps)
next
  case (Cons f p)
  have fr: "bucket_at (plug p (fill f t)) (fst (f_node f)) = fill f t" using bucket_at_frame [OF Cons.prems(1)] by simp
  have d: "distinct (addrs (fill f t))" using Cons.prems(1) by (simp add: nodes_plug)
  have up: "f_up f = top_of p" using Cons.prems(2) by (simp add: ups_plug ups_fill)
  have sib: "ptr_to (f_sib f) \<noteq> Some a" using sib_ptr [OF d Cons.prems(3)] .
  have sons: "tree_son b (fill f t) = Inr (if b = f_son f then t else f_sib f)" "up_of (fill f t) = Inr (f_up f)" for b
    by (simp_all add: fill_def)
  show ?case
  proof (cases "f_son f = s")
    case True
    have "climb (plug p (fill f t)) s a (Some (fst (f_node f))) = climb (plug p (fill f t)) s (fst (f_node f)) (top_of p)"
      using fr sons True Cons.prems(3) up by (subst climb.simps) simp
    also have "\<dots> = Some (Inr (let ns = (if s then rights p else lefts p) in if ns = [] then None else Some (fst (if s then hd ns else last ns))))"
      using Cons.IH [of "fill f t" "fst (f_node f)"] Cons.prems fill_access(3) [of f t] by simp
    finally show ?thesis using True by simp
  next
    case False
    then show ?thesis using fr sons sib Cons.prems(3) by (subst plug.simps, subst climb.simps) (auto simp: Let_def)
  qed
qed

lemma adjacent_ok:
  assumes "rb_valid P T" "nodes (root T) = xs @ n # ys"
  shows "adjacent (root T) True (fst n) = Some (Inr (case ys of [] \<Rightarrow> None | m # zs \<Rightarrow> Some (fst m)))"
    "adjacent (root T) False (fst n) = Some (Inr (if xs = [] then None else Some (fst (last xs))))"
proof -
  have v: "distinct (addrs (root T))" "ups None (root T)" using assms(1) by (auto simp: rb_valid_def)
  obtain q c w l r where q: "plug q (Bucket c w l n r) = root T" "xs = lefts q @ nodes l" "ys = nodes r @ rights q"
    using node_path [OF assms(2), of "[]" "root T"] by (auto simp del: plug.simps simp: plug.simps(1))
  have d: "bucket_at (root T) (fst n) = Bucket c w l n r" "w = top_of q" using bucket_at_bucket [of q c w l n r] v q(1) ups_plug [of q "Bucket c w l n r"] by auto
  have "climb (root T) s (fst n) (top_of q) = Some (Inr (let ns = (if s then rights q else lefts q) in if ns = [] then None else Some (fst (if s then hd ns else last ns))))" for s
    using climb_ok [of q "Bucket c w l n r" "fst n" s] v q(1) by simp
  then show "adjacent (root T) True (fst n) = Some (Inr (case ys of [] \<Rightarrow> None | m # zs \<Rightarrow> Some (fst m)))"
    "adjacent (root T) False (fst n) = Some (Inr (if xs = [] then None else Some (fst (last xs))))"
    using d q(2,3) descend_ok [of r False] descend_ok [of l True] by (auto simp: adjacent_def Let_def hd_append last_append split: list.split) 
qed

lemma find_next_ok:
  assumes "rb_valid P T" "nodes (root T) = xs @ n # ys"
  shows "find_next P (root T) (fst n) = Some (Inr (case ys of [] \<Rightarrow> None | m # zs \<Rightarrow> if vs P (nkey P n) m = 0 then Some (fst m) else None))"
proof (cases ys)
  case Nil
  then show ?thesis using adjacent_ok(1) [OF assms] by (simp add: find_next_def)
next
  case (Cons m zs)
  have k: "key_at P (root T) (fst x) = Inr (nkey P x)" if q: "nodes (root T) = us @ x # vs" for us x vs
  proof -
    obtain q c w l r where "plug q (Bucket c w l x r) = root T" using node_path [OF q, of "[]" "root T"] by auto
    then show ?thesis using bucket_at_bucket [of q c w l x r] assms(1) by (simp add: key_at_def rb_valid_def)
  qed
  show ?thesis using adjacent_ok(1) [OF assms] k [OF assms(2)] k [of "xs @ [n]" m zs] assms(2) Cons by (simp add: find_next_def)
qed

lemma for_all_ok:
  assumes "rb_valid P T"
  shows "nodes (root T) = xs @ n # ys \<Longrightarrow> for_all_loop (root T) (Some (fst n)) = Some (Inr (map fst (n # ys)))"
proof (induction ys arbitrary: xs n)
  case Nil
  then show ?case using adjacent_ok(1) [OF assms Nil] by (simp add: for_all_loop.simps)
next
  case (Cons m ys)
  then show ?case using Cons.IH [of "xs @ [n]" m] adjacent_ok(1) [OF assms Cons.prems] by (subst for_all_loop.simps) simp
qed

lemma boundary_ok: "rb_boundary T d = (if nodes (root T) = [] then None else Some (fst (if d then last (nodes (root T)) else hd (nodes (root T)))))"
  using descend_ok [of "root T" d] by (simp add: rb_boundary_def)

lemma first_loop_descend: "first_loop s prev t = (if t = Null then prev else ptr_to (descend s t))"
  by (induction t arbitrary: prev) auto

lemma TREE_FOR_ALL_ok:
  assumes "rb_valid P T"
  shows "TREE_FOR_ALL T = Some (Inr (addrs (root T)))"
proof (cases "nodes (root T)")
  case Nil
  then show ?thesis by (simp add: TREE_FOR_ALL_def first_node_def first_loop_descend for_all_loop.simps)
next
  case (Cons n ns)
  then have "first_node T False = Some (fst n)" using descend_ok [of "root T" False] by (auto simp: first_node_def first_loop_descend)
  then show ?thesis using for_all_ok [OF assms, of "[]" n ns] Cons by (simp add: TREE_FOR_ALL_def)
qed

text \<open>The stack that \<open>remove\<close> builds is the one of the path to the node.\<close>

lemma plug_depth: "length p + depth t \<le> depth (plug p t)"
proof (induction p arbitrary: t)
  case (Cons f p)
  have "Suc (depth t) \<le> depth (fill f t)" by (simp add: fill_def)
  then show ?case using Cons.IH [of "fill f t"] by simp
qed simp

lemma parent_walk_ok:
  assumes "distinct (addrs (plug p t))" "ups None (plug p t)" "ptr_to t = Some a" "length p \<le> d"
  shows "parent_walk d (plug p t) a st = Inr (st @ map (\<lambda>f. (fst (f_node f), f_son f)) p)"
  using assms
proof (induction p arbitrary: t a d st)
  case Nil
  then show ?case by (cases t; cases d) auto
next
  case (Cons f p)
  obtain d' where d: "d = Suc d'" using Cons.prems(4) by (cases d) auto
  have fr: "bucket_at (plug p (fill f t)) (fst (f_node f)) = fill f t" using bucket_at_frame [OF Cons.prems(1)] by simp
  have df: "distinct (addrs (fill f t))" using Cons.prems(1) by (simp add: nodes_plug)
  have "bucket_at (plug (f # p) t) a = t" using bucket_at_plug [OF Cons.prems(1), of a] Cons.prems(3) by (cases t) auto
  moreover have "up_of t = Inr (Some (fst (f_node f)))" using Cons.prems(2,3) by (cases t) (auto simp: ups_plug ups_fill)
  moreover have "tree_son False (fill f t) = Inr (if f_son f then f_sib f else t)" by (simp add: fill_def)
  ultimately have "parent_walk d (plug (f # p) t) a st = parent_walk d' (plug p (fill f t)) (fst (f_node f)) (st @ [(fst (f_node f), f_son f)])"
    using d fr sib_ptr [OF df Cons.prems(3)] Cons.prems(3) by simp
  then show ?case using Cons.IH [of "fill f t" "fst (f_node f)" d'] Cons.prems d fill_access(3) [of f t] by simp
qed

definition swap_entries :: "nat \<Rightarrow> 'a list \<Rightarrow> nat \<Rightarrow> 'a list" where
  "swap_entries dp st i = (st[i := st ! (dp - i)])[dp - i := st ! i]"

lemma swap_entries_ok:
  assumes "length xs = Suc dp" "k \<le> (dp + 1) div 2"
  shows "length (foldl (swap_entries dp) xs [0..<k]) = Suc dp \<and>
    (\<forall>j \<le> dp. foldl (swap_entries dp) xs [0..<k] ! j = (if j < k \<or> dp < j + k then xs ! (dp - j) else xs ! j))"
  using assms(2)
proof (induction k)
  case 0
  then show ?case using assms(1) by simp
next
  case (Suc k)
  then have "k < dp - k" "k \<le> dp" by auto
  then show ?case using Suc by (auto simp: swap_entries_def nth_list_update)
qed

lemma reverse_stack_rev: "xs \<noteq> [] \<Longrightarrow> reverse_stack xs = rev xs"
proof -
  assume "xs \<noteq> []"
  then obtain dp where l: "length xs = Suc dp" by (cases xs) auto
  let ?k = "(dp + 1) div 2"
  have r: "reverse_stack xs = foldl (swap_entries dp) xs [0..<?k]" using l by (simp add: reverse_stack_def swap_entries_def [abs_def] Let_def)
  have "reverse_stack xs ! j = rev xs ! j" if "j \<le> dp" for j
  proof -
    have "reverse_stack xs ! j = (if j < ?k \<or> dp < j + ?k then xs ! (dp - j) else xs ! j)"
      using swap_entries_ok [OF l, of ?k] that unfolding r by blast
    moreover have "dp - j = j" if "\<not> (j < ?k \<or> dp < j + ?k)" using that by linarith
    ultimately show ?thesis using that l by (simp add: rev_nth)
  qed
  then show ?thesis using swap_entries_ok [OF l, of ?k] l unfolding r by (intro nth_equalityI) auto
qed

lemma rb_remove_ok:
  assumes "rb_valid P T" "depth (root T) < max_depth P" "nodes (root T) = xs @ n # ys" "count T + 1 < 2 ^ 32"
  shows "\<exists>T' freed. rb_remove P T (fst n) = Inr (T', freed) \<and> rb_valid P T' \<and> nodes (root T') = xs @ ys"
proof -
  obtain p c w l r where p: "plug p (Bucket c w l n r) = root T" "xs = lefts p @ nodes l" "ys = nodes r @ rights p"
    using node_path [OF assms(3), of "[]" "root T"] by auto
  have d: "length p + depth (Bucket c w l n r) \<le> depth (root T)" using plug_depth [of p "Bucket c w l n r"] p(1) by simp
  have "parent_walk (max_depth P - 1) (root T) (fst n) [(fst n, False)] = Inr ((fst n, False) # map (\<lambda>f. (fst (f_node f), f_son f)) p)"
    using parent_walk_ok [of p "Bucket c w l n r" "fst n" "max_depth P - 1"] assms(1,2) d p(1) by (simp add: rb_valid_def)
  then have "rb_remove P T (fst n) = remove_by_stack P T (entries p n)" by (simp add: rb_remove_def reverse_stack_rev entries_def)
  then show ?thesis using remove_by_stack_ok [OF assms(1,2) p(1) d assms(4)] p(2,3) by simp
qed

lemma rb_lookup_ok:
  assumes "comparison (cmp P)" "rb_valid P T" "depth (root T) < max_depth P" "key_of P (init_node P k) = k" "a \<notin> fst ` set (nodes (root T))" "count T + 1 < 2 ^ 32"
  shows "\<exists>n T'. rb_lookup P a T k = Inr (fst n, T') \<and> rb_valid P T' \<and> vs P k n = 0 \<and> n \<in> set (nodes (root T')) \<and>
    (if \<exists>n\<in>set (nodes (root T)). vs P k n = 0 then T' = T else \<exists>A B. nodes (root T) = A @ B \<and> nodes (root T') = A @ n # B \<and> n = (a, init_node P k))"
  using rb_find_ok [OF assms(1-3), of k]
proof
  assume f: "rb_find P T k = Inr None \<and> (\<forall>n\<in>set (nodes (root T)). vs P k n \<noteq> 0)"
  then obtain T' A B where t: "rb_new P a T k = Inr (a, T')" "rb_valid P T'" "nodes (root T) = A @ B" "nodes (root T') = A @ (a, init_node P k) # B"
    using rb_new_ok [OF assms(1-4) _ assms(5,6)] by blast
  have "\<not> (\<exists>n\<in>set (nodes (root T)). vs P k n = 0)" using f by blast
  then show ?thesis using t f comparison.refl [OF assms(1), of k] assms(4)
    by (intro exI [of _ "(a, init_node P k)"] exI [of _ T']) (simp add: rb_lookup_def, blast)
next
  assume "\<exists>A n B. nodes (root T) = A @ n # B \<and> rb_find P T k = Inr (Some (fst n)) \<and> vs P k n = 0 \<and> (\<forall>a\<in>set A. 0 < vs P k a)"
  then obtain A n B where f: "nodes (root T) = A @ n # B" "rb_find P T k = Inr (Some (fst n))" "vs P k n = 0" by blast
  then have "n \<in> set (nodes (root T))" by simp
  then show ?thesis using f assms(2) by (intro exI [of _ n] exI [of _ T]) (auto simp: rb_lookup_def)
qed

lemma rb_search_ok:
  assumes "comparison (cmp P)" "rb_valid P T" "depth (root T) < max_depth P"
  shows "nodes (root T) = [] \<and> rb_search P T k = Inr None \<or> (\<exists>n\<in>set (nodes (root T)). rb_search P T k = Inr (Some (fst n)) \<and>
    ((\<exists>n\<in>set (nodes (root T)). vs P k n = 0) \<longrightarrow> vs P k n = 0))"
proof -
  obtain p u A B where f: "fill_stack P (max_depth P) k False [] (root T) = Inr (p, u)" "plug p u = root T" "length p + depth u \<le> depth (root T)"
      "lefts p = A" "rights p = B" "nodes (root T) = A @ nodes u @ B" "search_post P k False A u B"
    by (rule fill_root [OF assms(1-3), of k False])
  show ?thesis
  proof (cases u)
    case Null
    then have "(\<forall>a\<in>set A. 0 < vs P k a) \<and> (\<forall>b\<in>set B. vs P k b < 0)" using f(7) by (simp add: search_post_def)
    then have ne: "\<not> (\<exists>n\<in>set (nodes (root T)). vs P k n = 0)" unfolding f(6) Null by (metis Un_iff append_Nil less_irrefl nodes.simps(1) set_append)
    show ?thesis
    proof (cases p)
      case Nil
      then show ?thesis using f(1,2) Null by (simp add: rb_search_def)
    next
      case (Cons g q)
      then have "f_node g \<in> set (nodes (root T))" using f(4-6) by (auto split: if_splits)
      moreover have "rb_search P T k = Inr (Some (fst (f_node g)))" using f(1) Null Cons by (simp add: rb_search_def)
      ultimately show ?thesis using ne by blast
    qed
  next
    case (Bucket c w l n r)
    then have "n \<in> set (nodes (root T))" "vs P k n = 0" "rb_search P T k = Inr (Some (fst n))" using f(1,6,7) by (simp_all add: rb_search_def search_post_def)
    then show ?thesis by blast
  qed
qed

section \<open>Nearest nodes, and the self-check\<close>

lemma search_down_ok:
  assumes "comparison (cmp P)" "ordered P (nodes t)"
  shows "(\<exists>n\<in>set (nodes t). vs P k n = 0 \<and> search_down_loop P k z t = Some (fst n)) \<or>
    (\<forall>n\<in>set (nodes t). vs P k n \<noteq> 0) \<and> search_down_loop P k z t = (let xs = filter (\<lambda>n. 0 < vs P k n) (nodes t) in if xs = [] then z else Some (fst (last xs)))"
  using assms(2)
proof (induction t arbitrary: z)
  case (Bucket c w l n r)
  have o: "ordered P (nodes l)" "ordered P (nodes r)" "\<forall>a\<in>set (nodes l). below P a n" "\<forall>b\<in>set (nodes r). below P n b"
    using Bucket.prems by (auto simp: ordered_append ordered_Cons)
  consider "vs P k n = 0" | "vs P k n < 0" | "0 < vs P k n" by linarith
  then show ?case
  proof cases
    case 2
    then have b: "\<forall>b\<in>set (nodes r). vs P k b < 0" using o(4) right_of(1) [OF assms(1)] by blast
    then have "filter (\<lambda>n. 0 < vs P k n) (nodes r) = []" by (auto simp: filter_empty_conv)
    moreover have "\<forall>b\<in>set (nodes r). vs P k b \<noteq> 0" using b by auto
    ultimately show ?thesis using Bucket.IH(1) [OF o(1), of z] 2 by (auto simp: Let_def)
  next
    case 3
    then have "\<forall>a\<in>set (nodes l). 0 < vs P k a" using o(3) left_of(1) [OF assms(1)] by blast
    then have "\<forall>a\<in>set (nodes l). vs P k a \<noteq> 0" by auto
    then show ?thesis using Bucket.IH(2) [OF o(2), of "Some (fst n)"] 3 by (auto simp: Let_def)
  qed (simp add: Let_def)
qed simp

lemma search_up_ok:
  assumes "comparison (cmp P)" "ordered P (nodes t)"
  shows "(\<exists>n\<in>set (nodes t). vs P k n = 0 \<and> search_up_loop P k z t = Some (fst n)) \<or>
    (\<forall>n\<in>set (nodes t). vs P k n \<noteq> 0) \<and> search_up_loop P k z t = (let xs = filter (\<lambda>n. vs P k n < 0) (nodes t) in if xs = [] then z else Some (fst (hd xs)))"
  using assms(2)
proof (induction t arbitrary: z)
  case (Bucket c w l n r)
  have o: "ordered P (nodes l)" "ordered P (nodes r)" "\<forall>a\<in>set (nodes l). below P a n" "\<forall>b\<in>set (nodes r). below P n b"
    using Bucket.prems by (auto simp: ordered_append ordered_Cons)
  consider "vs P k n = 0" | "vs P k n < 0" | "0 < vs P k n" by linarith
  then show ?case
  proof cases
    case 2
    then have "\<forall>b\<in>set (nodes r). vs P k b < 0" using o(4) right_of(1) [OF assms(1)] by blast
    then have "\<forall>b\<in>set (nodes r). vs P k b \<noteq> 0" by auto
    then show ?thesis using Bucket.IH(1) [OF o(1), of "Some (fst n)"] 2 by (auto simp: Let_def hd_append)
  next
    case 3
    then have a: "\<forall>a\<in>set (nodes l). 0 < vs P k a" using o(3) left_of(1) [OF assms(1)] by blast
    then have "filter (\<lambda>n. vs P k n < 0) (nodes l) = []" by (auto simp: filter_empty_conv)
    moreover have "\<forall>a\<in>set (nodes l). vs P k a \<noteq> 0" using a by auto
    ultimately show ?thesis using Bucket.IH(2) [OF o(2), of z] 3 by (auto simp: Let_def)
  qed (simp add: Let_def)
qed simp

lemma dump_ok:
  assumes "comparison (cmp P)"
  shows "rb t \<Longrightarrow> ordered P (nodes t) \<Longrightarrow> black + bh t = h \<Longrightarrow> ups (map_option (fst \<circ> snd) par) t \<Longrightarrow>
    (\<And>pc pn. par = Some (pc, pn) \<Longrightarrow> (is_red t \<longrightarrow> \<not> pc) \<and> (cr = - 1 \<and> (\<forall>m\<in>set (nodes t). below P m pn) \<or> cr = 1 \<and> (\<forall>m\<in>set (nodes t). below P pn m))) \<Longrightarrow>
    dump_subtree P h t par cr black"
proof (induction t arbitrary: par cr black)
  case (Bucket c w l n r)
  have o: "ordered P (nodes l)" "ordered P (nodes r)" "\<forall>a\<in>set (nodes l). below P a n" "\<forall>b\<in>set (nodes r). below P n b"
    using Bucket.prems(2) by (auto simp: ordered_append ordered_Cons)
  have "dump_subtree P h l (Some (c, n)) (- 1) (black + (if c then 0 else 1))"
    by (rule Bucket.IH(1)) (use Bucket.prems(1,3,4) o in auto)
  moreover have "dump_subtree P h r (Some (c, n)) 1 (black + (if c then 0 else 1))"
    by (rule Bucket.IH(2)) (use Bucket.prems(1,3,4) o in auto)
  moreover have "(\<not> c \<or> \<not> pc) \<and> (let x = cr * cmp P (nkey P n) (nkey P pn) in if duplicates P then x \<ge> 0 else x > 0)" if "par = Some (pc, pn)" for pc pn
    using Bucket.prems(5) [OF that] comparison.sign [OF assms, of "nkey P pn" "nkey P n"] comparison.ge_iff [OF assms, of "nkey P n" "nkey P pn"]
    by (auto simp: below_def Let_def split: if_splits)
  ultimately show ?case using Bucket.prems(4) by (cases par) (auto simp: Let_def)
qed simp

lemma cleanup_subtree_ok: "length (nodes t) + k < 4294967296 \<Longrightarrow> cleanup_subtree t (length (nodes t) + k) = k"
proof (induction t arbitrary: k)
  case (Bucket c w l n r)
  have "cleanup_subtree l (length (nodes l) + (length (nodes r) + (k + 1))) = length (nodes r) + (k + 1)" by (rule Bucket.IH(1)) (use Bucket.prems in simp)
  moreover have "cleanup_subtree r (length (nodes r) + (k + 1)) = k + 1" by (rule Bucket.IH(2)) (use Bucket.prems in simp)
  ultimately show ?case using U32_pred [of "k + 1"] Bucket.prems by (simp add: ac_simps)
qed simp

section \<open>Properties\<close>

text \<open>A removed bucket that is red is not freed: \<open>remove_by_stack\<close> returns before the call of \<open>free\<close>.\<close>

lemma red_leaf_not_freed:
  assumes "root T = plug p (Bucket True w Null n Null)"
  shows "remove_by_stack P T (entries p n) = Inr (T\<lparr>count := U32 (count T + 4294967295), root := plug p Null\<rparr>, False)"
  using check_path_ok [of "[]" p True w Null n Null] assms by (simp add: remove_by_stack_def exchange_next_def Let_def)

text \<open>C7: The operations of red-black trees keep the trees well-formed (sons of red buckets are black, all paths have the same number of black
  buckets, which is the height, the count is right, the nodes are in the order of their keys, every bucket points to its parent, and the
  addresses are different), with and without duplicate keys, and none of their assertions fails: for a comparison that is an order and trees of less than
  \<open>2 ^ 32 - 1\<close> nodes the stack of 64 entries is never exceeded, \<open>new\<close> (without duplicates on a key that is not in the
  tree), \<open>lookup\<close>, \<open>delete\<close>, \<open>remove\<close> of any node, which finds its path by the parent pointers and checks it, \<open>cleanup\<close> and the self-check of \<open>dump\<close>,
  which compares the parent pointers too, succeed. The address \<open>a\<close> of a new bucket is not one of a bucket in the tree.\<close>

theorem rb_trees_well_formed:
  assumes "comparison (cmp P)" "max_depth P = 64" "rb_valid P T" "count T + 1 < 2 ^ 32" "key_of P (init_node P k) = k" "a \<notin> fst ` set (nodes (root T))"
  shows "rb_valid P rb_init \<and>
    (duplicates P \<or> (\<forall>n\<in>set (nodes (root T)). vs P k n \<noteq> 0) \<longrightarrow> (\<exists>T'. rb_new P a T k = Inr (a, T') \<and> rb_valid P T' \<and> count T' = count T + 1)) \<and>
    (\<exists>b T'. rb_lookup P a T k = Inr (b, T') \<and> rb_valid P T') \<and>
    (\<exists>b T'. rb_delete P T k = Inr (b, T') \<and> rb_valid P T') \<and>
    (\<forall>n\<in>set (nodes (root T)). \<exists>T' freed. rb_remove P T (fst n) = Inr (T', freed) \<and> rb_valid P T' \<and> count T' + 1 = count T) \<and>
    rb_cleanup T = Inr () \<and> rb_dump P T = Inr ()"
proof -
  note d = shallow [OF assms(3,2,4)]
  have "rb_valid P rb_init" by (simp add: rb_valid_def rb_init_def ordered_def)
  moreover have "\<exists>T'. rb_new P a T k = Inr (a, T') \<and> rb_valid P T' \<and> count T' = count T + 1" if q: "duplicates P \<or> (\<forall>n\<in>set (nodes (root T)). vs P k n \<noteq> 0)"
    using rb_new_ok [OF assms(1,3) d assms(5) q assms(6,4)] assms(3) by (auto simp: rb_valid_def)
  moreover have "\<exists>b T'. rb_lookup P a T k = Inr (b, T') \<and> rb_valid P T'" using rb_lookup_ok [OF assms(1,3) d assms(5,6,4)] by blast
  moreover have "\<exists>b T'. rb_delete P T k = Inr (b, T') \<and> rb_valid P T'" using rb_delete_ok [OF assms(1,3) d assms(4), of k] assms(3) by blast
  moreover have "\<exists>T' freed. rb_remove P T (fst n) = Inr (T', freed) \<and> rb_valid P T' \<and> count T' + 1 = count T" if q: "n \<in> set (nodes (root T))" for n
  proof -
    obtain xs ys where n: "nodes (root T) = xs @ n # ys" using split_list [OF q] by blast
    obtain T' freed where t: "rb_remove P T (fst n) = Inr (T', freed)" "rb_valid P T'" "nodes (root T') = xs @ ys"
      using rb_remove_ok [OF assms(3) d n assms(4)] by blast
    then show ?thesis using n assms(3) by (simp add: rb_valid_def)
  qed
  moreover have "rb_cleanup T = Inr ()" using cleanup_subtree_ok [of "root T" 0] assms(3,4) by (simp add: rb_cleanup_def rb_valid_def)
  moreover have "rb_dump P T = Inr ()" using dump_ok [OF assms(1), of "root T" 0 "height T" None 0] assms(3) by (simp add: rb_dump_def rb_valid_def)
  ultimately show ?thesis by blast
qed

text \<open>C3: A red-black tree implements a sequence of nodes sorted by their keys: \<open>new\<close> inserts the node behind all nodes that are not
  greater, \<open>lookup\<close> gives a node with the key, \<open>delete\<close> removes the last node with the key and reports whether there was one, \<open>remove\<close> removes exactly the given
  node, \<open>find\<close> gives the first node with the key and \<open>find_next\<close> the next one with the same key, \<open>search\<close>, \<open>search_down\<close> and \<open>search_up\<close> a node
  with the key, the last two otherwise the nearest lower or greater one, \<open>boundary\<close> the node at either end, \<open>adjacent\<close> the neighbour on either side, found along the parent
  pointers, and \<open>TREE_FOR_ALL\<close> ends after visiting all nodes in their order.\<close>

theorem rb_trees_implement_sorted_sequences:
  assumes "comparison (cmp P)" "max_depth P = 64" "rb_valid P T" "count T + 1 < 2 ^ 32" "key_of P (init_node P k) = k" "a \<notin> fst ` set (nodes (root T))"
  shows "(duplicates P \<or> (\<forall>n\<in>set (nodes (root T)). vs P k n \<noteq> 0) \<longrightarrow>
      (\<exists>T' A B. rb_new P a T k = Inr (a, T') \<and> nodes (root T) = A @ B \<and> nodes (root T') = A @ (a, init_node P k) # B \<and>
        (\<forall>a\<in>set A. 0 \<le> vs P k a) \<and> (\<forall>b\<in>set B. vs P k b < 0))) \<and>
    (\<exists>n T'. rb_lookup P a T k = Inr (fst n, T') \<and> vs P k n = 0 \<and> n \<in> set (nodes (root T')) \<and>
      (if \<exists>n\<in>set (nodes (root T)). vs P k n = 0 then T' = T else \<exists>A B. nodes (root T) = A @ B \<and> nodes (root T') = A @ n # B \<and> n = (a, init_node P k))) \<and>
    ((\<forall>n\<in>set (nodes (root T)). vs P k n \<noteq> 0) \<and> rb_delete P T k = Inr (False, T) \<or>
      (\<exists>T' A n B. rb_delete P T k = Inr (True, T') \<and> nodes (root T) = A @ n # B \<and> nodes (root T') = A @ B \<and> vs P k n = 0 \<and> (\<forall>b\<in>set B. vs P k b < 0))) \<and>
    (rb_find P T k = Inr None \<and> (\<forall>n\<in>set (nodes (root T)). vs P k n \<noteq> 0) \<or>
      (\<exists>A n B. nodes (root T) = A @ n # B \<and> rb_find P T k = Inr (Some (fst n)) \<and> vs P k n = 0 \<and> (\<forall>a\<in>set A. 0 < vs P k a))) \<and>
    (nodes (root T) = [] \<and> rb_search P T k = Inr None \<or> (\<exists>n\<in>set (nodes (root T)). rb_search P T k = Inr (Some (fst n)) \<and>
      ((\<exists>n\<in>set (nodes (root T)). vs P k n = 0) \<longrightarrow> vs P k n = 0))) \<and>
    ((\<exists>n\<in>set (nodes (root T)). vs P k n = 0 \<and> rb_search_down P T k = Some (fst n)) \<or> (\<forall>n\<in>set (nodes (root T)). vs P k n \<noteq> 0) \<and>
      rb_search_down P T k = (let xs = filter (\<lambda>n. 0 < vs P k n) (nodes (root T)) in if xs = [] then None else Some (fst (last xs)))) \<and>
    ((\<exists>n\<in>set (nodes (root T)). vs P k n = 0 \<and> rb_search_up P T k = Some (fst n)) \<or> (\<forall>n\<in>set (nodes (root T)). vs P k n \<noteq> 0) \<and>
      rb_search_up P T k = (let xs = filter (\<lambda>n. vs P k n < 0) (nodes (root T)) in if xs = [] then None else Some (fst (hd xs)))) \<and>
    (\<forall>xs n ys. nodes (root T) = xs @ n # ys \<longrightarrow>
      (\<exists>T' freed. rb_remove P T (fst n) = Inr (T', freed) \<and> nodes (root T') = xs @ ys) \<and>
      adjacent (root T) True (fst n) = Some (Inr (case ys of [] \<Rightarrow> None | m # zs \<Rightarrow> Some (fst m))) \<and>
      adjacent (root T) False (fst n) = Some (Inr (if xs = [] then None else Some (fst (last xs)))) \<and>
      find_next P (root T) (fst n) = Some (Inr (case ys of [] \<Rightarrow> None | m # zs \<Rightarrow> if vs P (nkey P n) m = 0 then Some (fst m) else None))) \<and>
    rb_boundary T False = (if nodes (root T) = [] then None else Some (fst (hd (nodes (root T))))) \<and>
    rb_boundary T True = (if nodes (root T) = [] then None else Some (fst (last (nodes (root T))))) \<and>
    TREE_FOR_ALL T = Some (Inr (map fst (nodes (root T))))"
proof -
  note d = shallow [OF assms(3,2,4)]
  have o: "ordered P (nodes (root T))" using assms(3) by (simp add: rb_valid_def)
  have "(\<exists>T' freed. rb_remove P T (fst n) = Inr (T', freed) \<and> nodes (root T') = xs @ ys) \<and>
      adjacent (root T) True (fst n) = Some (Inr (case ys of [] \<Rightarrow> None | m # zs \<Rightarrow> Some (fst m))) \<and>
      adjacent (root T) False (fst n) = Some (Inr (if xs = [] then None else Some (fst (last xs)))) \<and>
      find_next P (root T) (fst n) = Some (Inr (case ys of [] \<Rightarrow> None | m # zs \<Rightarrow> if vs P (nkey P n) m = 0 then Some (fst m) else None))"
    if q: "nodes (root T) = xs @ n # ys" for xs n ys
    using rb_remove_ok [OF assms(3) d q assms(4)] by (intro conjI adjacent_ok [OF assms(3) q] find_next_ok [OF assms(3) q]) blast
  moreover have "duplicates P \<or> (\<forall>n\<in>set (nodes (root T)). vs P k n \<noteq> 0) \<longrightarrow>
      (\<exists>T' A B. rb_new P a T k = Inr (a, T') \<and> nodes (root T) = A @ B \<and> nodes (root T') = A @ (a, init_node P k) # B \<and>
        (\<forall>a\<in>set A. 0 \<le> vs P k a) \<and> (\<forall>b\<in>set B. vs P k b < 0))"
    using rb_new_ok [OF assms(1,3) d assms(5) _ assms(6,4)] by blast
  moreover have "\<exists>n T'. rb_lookup P a T k = Inr (fst n, T') \<and> vs P k n = 0 \<and> n \<in> set (nodes (root T')) \<and>
      (if \<exists>n\<in>set (nodes (root T)). vs P k n = 0 then T' = T else \<exists>A B. nodes (root T) = A @ B \<and> nodes (root T') = A @ n # B \<and> n = (a, init_node P k))"
    using rb_lookup_ok [OF assms(1,3) d assms(5,6,4)] by blast
  moreover have "(\<forall>n\<in>set (nodes (root T)). vs P k n \<noteq> 0) \<and> rb_delete P T k = Inr (False, T) \<or>
      (\<exists>T' A n B. rb_delete P T k = Inr (True, T') \<and> nodes (root T) = A @ n # B \<and> nodes (root T') = A @ B \<and> vs P k n = 0 \<and> (\<forall>b\<in>set B. vs P k b < 0))"
    using rb_delete_ok [OF assms(1,3) d assms(4), of k] by blast
  moreover note rb_find_ok [OF assms(1,3) d, of k] rb_search_ok [OF assms(1,3) d, of k]
    search_down_ok [OF assms(1) o, of k None, folded rb_search_down_def] search_up_ok [OF assms(1) o, of k None, folded rb_search_up_def]
    boundary_ok [of T False, unfolded if_False] boundary_ok [of T True, unfolded if_True] TREE_FOR_ALL_ok [OF assms(3)]
  ultimately show ?thesis by (intro conjI allI impI) (assumption | blast)+
qed

definition int_params :: "(int, int \<times> nat) tree_params" where
  "int_params = \<lparr>cmp = cmp_atomic, key_of = fst, init_node = (\<lambda>k. (k, 0)), duplicates = True, max_depth = 64\<rparr>"

definition int_tree :: "(int \<times> nat) rbtree" where
  "int_tree = \<lparr>count = 3, height = 1,
    root = Bucket False None (Bucket True (Some 20) Null (10, 1, 7) Null) (20, 2, 7) (Bucket True (Some 20) Null (30, 2, 8) Null)\<rparr>"

lemma int_tree_ok:
  "comparison (cmp int_params)" "max_depth int_params = 64" "rb_valid int_params int_tree" "count int_tree + 1 < 2 ^ 32"
  "key_of int_params (init_node int_params 2) = 2" "40 \<notin> fst ` set (nodes (root int_tree))"
  using atomic.comparison_axioms [where 'a = int]
  by (simp_all add: int_params_def int_tree_def rb_valid_def ordered_def below_def cmp_atomic_def)

lemma rb_trees_well_formed_witness:
  "(\<exists>T. rb_new int_params 40 int_tree 2 = Inr (40, T) \<and> rb_valid int_params T \<and> count T = count int_tree + 1) \<and>
   (\<exists>b T. rb_delete int_params int_tree 2 = Inr (b, T) \<and> rb_valid int_params T) \<and>
   (\<exists>T freed. rb_remove int_params int_tree 20 = Inr (T, freed) \<and> rb_valid int_params T \<and> count T + 1 = count int_tree)"
proof -
  have "duplicates int_params" "(20, 2, 7) \<in> set (nodes (root int_tree))" by (simp_all add: int_params_def int_tree_def)
  then show ?thesis using rb_trees_well_formed [OF int_tree_ok] by (metis fst_conv)
qed

lemma rb_trees_implement_sorted_sequences_witness:
  "TREE_FOR_ALL int_tree = Some (Inr [10, 20, 30]) \<and> adjacent (root int_tree) False 20 = Some (Inr (Some 10)) \<and> rb_boundary int_tree True = Some 30"
proof -
  note th = rb_trees_implement_sorted_sequences [OF int_tree_ok]
  have n: "nodes (root int_tree) = [(10, 1, 7)] @ (20, 2, 7) # [(30, 2, 8)]" by (simp add: int_tree_def)
  have "adjacent (root int_tree) False 20 = Some (Inr (Some 10))"
    using th [THEN conjunct2, THEN conjunct2, THEN conjunct2, THEN conjunct2, THEN conjunct2, THEN conjunct2, THEN conjunct2, THEN conjunct1,
      THEN spec [of _ "[(10, 1, 7)]"], THEN spec [of _ "(20, 2, 7)"], THEN spec [of _ "[(30, 2, 8)]"], THEN mp, OF n] by simp
  moreover have "TREE_FOR_ALL int_tree = Some (Inr (map fst (nodes (root int_tree))))" using th by blast
  moreover have "rb_boundary int_tree True = (if nodes (root int_tree) = [] then None else Some (fst (last (nodes (root int_tree)))))" using th by blast
  ultimately show ?thesis by (simp add: int_tree_def)
qed

end
