(* ===== verification/Binheap.thy ===== *)
theory Binheap
  imports Heap
begin

text \<open>
  \<open>ucw/binheap.h\<close> and \<open>ucw/binheap-node.h\<close>: the generator of binomial heaps. A node with its descendants is a value of the
  type \<open>bh_node\<close>, the list of the sons (from \<open>first_son\<close> to \<open>last_son\<close>, linked by \<open>next_sibling\<close>) is a list of nodes, and so is
  the heap, the sons of its root. The pointer \<open>pp\<close> to a link in a list is the list of the nodes before it (in the reverse order)
  and the list behind it. The contents of the node are of any type, \<open>lt\<close> is their comparison \<open>less\<close>; the order is a byte.
\<close>

section \<open>Operations\<close>

datatype 'a bh_node = BH (bh_order: nat) (bh_key: 'a) (bh_sons: "'a bh_node list")

text \<open>The part of the loop of \<open>merge\<close> that hangs \<open>r\<close> below \<open>s\<close>; the loop.\<close>

definition hang :: "'a bh_node \<Rightarrow> 'a bh_node \<Rightarrow> 'a bh_node" where
  "hang r s = BH ((bh_order s + 1) mod 256) (bh_key s) (bh_sons s @ [r])"

definition link :: "('a \<Rightarrow> 'a \<Rightarrow> bool) \<Rightarrow> 'a bh_node \<Rightarrow> 'a bh_node \<Rightarrow> 'a bh_node" where
  "link lt p q = (if lt (bh_key p) (bh_key q) then hang q p else hang p q)"

function merge_loop :: "('a \<Rightarrow> 'a \<Rightarrow> bool) \<Rightarrow> 'a bh_node list \<Rightarrow> 'a bh_node list \<Rightarrow> 'a bh_node list \<Rightarrow> 'a bh_node list" where
  "merge_loop lt pre [] qs = rev pre @ qs"
| "merge_loop lt pre (p # ps) [] = rev pre @ p # ps"
| "merge_loop lt pre (p # ps) (q # qs) =
    (if bh_order p < bh_order q then merge_loop lt (p # pre) ps (q # qs)
     else if bh_order p > bh_order q then merge_loop lt (q # pre) (p # ps) qs
     else let s = link lt p q in
       if qs = [] \<or> bh_order (hd qs) > bh_order s then merge_loop lt pre ps (s # qs)
       else if ps \<noteq> [] \<and> bh_order (hd ps) = bh_order s then merge_loop lt (s # pre) ps qs
       else merge_loop lt pre (s # ps) qs)"
  by pat_completeness auto
termination
  by (relation "measure (\<lambda>(lt, pre, ps, qs). length ps + length qs)") auto

definition bh_merge :: "('a \<Rightarrow> 'a \<Rightarrow> bool) \<Rightarrow> 'a bh_node list \<Rightarrow> 'a bh_node list \<Rightarrow> 'a bh_node list" where
  "bh_merge lt a b = merge_loop lt [] a b"

definition bh_init :: "'a bh_node list" where
  "bh_init = []"

definition bh_insert :: "('a \<Rightarrow> 'a \<Rightarrow> bool) \<Rightarrow> 'a \<Rightarrow> 'a bh_node list \<Rightarrow> 'a bh_node list" where
  "bh_insert lt x heap = bh_merge lt heap [BH 0 x []]"

text \<open>The search for the root with the least key: \<open>best\<close> is the nodes before it, the node and the nodes behind it.\<close>

fun best_loop :: "('a \<Rightarrow> 'a \<Rightarrow> bool) \<Rightarrow> ('a bh_node list \<times> 'a bh_node \<times> 'a bh_node list) option \<Rightarrow> 'a bh_node list \<Rightarrow> 'a bh_node list \<Rightarrow>
    ('a bh_node list \<times> 'a bh_node \<times> 'a bh_node list) option" where
  "best_loop lt best pre [] = best"
| "best_loop lt best pre (p # ps) =
    best_loop lt (case best of None \<Rightarrow> Some (pre, p, ps)
      | Some (u, b, v) \<Rightarrow> if lt (bh_key p) (bh_key b) then Some (pre, p, ps) else best) (pre @ [p]) ps"

fun findmin_loop :: "('a \<Rightarrow> 'a \<Rightarrow> bool) \<Rightarrow> 'a bh_node option \<Rightarrow> 'a bh_node list \<Rightarrow> 'a bh_node option" where
  "findmin_loop lt best [] = best"
| "findmin_loop lt best (p # ps) =
    findmin_loop lt (case best of None \<Rightarrow> Some p | Some b \<Rightarrow> if lt (bh_key p) (bh_key b) then Some p else best) ps"

definition bh_findmin :: "('a \<Rightarrow> 'a \<Rightarrow> bool) \<Rightarrow> 'a bh_node list \<Rightarrow> 'a bh_node option" where
  "bh_findmin lt heap = findmin_loop lt None heap"

definition bh_deletemin :: "('a \<Rightarrow> 'a \<Rightarrow> bool) \<Rightarrow> 'a bh_node list \<Rightarrow> ('a bh_node \<times> 'a bh_node list) option" where
  "bh_deletemin lt heap = (case best_loop lt None [] heap of
     None \<Rightarrow> None
   | Some (u, p, v) \<Rightarrow> Some (p, bh_merge lt (u @ v) (bh_sons p)))"

text \<open>\<open>BH_FOR_ALL\<close>, as the list of the nodes it visits. A pointer on the stack of 32 entries is the list of the node and its further siblings.\<close>

fun bh_size :: "'a bh_node \<Rightarrow> nat" where
  "bh_size (BH k x sons) = Suc (sum_list (map bh_size sons))"

definition push :: "'a bh_node list \<Rightarrow> 'a bh_node list list \<Rightarrow> 'a bh_node list list res" where
  "push ts st = (if ts = [] then Inr st else if length st < 32 then Inr (ts # st) else Inl Out_of_bounds)"

lemma push_size: "push ts st = Inr st' \<Longrightarrow> sum_list (map (sum_list \<circ> map bh_size) st') = sum_list (map bh_size ts) + sum_list (map (sum_list \<circ> map bh_size) st)"
  by (auto simp: push_def split: if_splits)

lemma bh_size_sons: "bh_size x = Suc (sum_list (map bh_size (bh_sons x)))"
  by (cases x) simp

function for_all_nodes :: "'a bh_node list list \<Rightarrow> 'a list res" where
  "for_all_nodes [] = Inr []"
| "for_all_nodes ([] # st) = Inl Out_of_bounds"
| "for_all_nodes ((x # rest) # st) = res_bind (push rest st) (\<lambda>st. res_bind (push (bh_sons x) st) (\<lambda>st.
     res_bind (for_all_nodes st) (\<lambda>r. Inr (bh_key x # r))))"
  by pat_completeness auto
termination
  by (relation "measure (\<lambda>st. sum_list (map (sum_list \<circ> map bh_size) st))") (auto simp: push_size bh_size_sons)

definition BH_FOR_ALL :: "'a bh_node list \<Rightarrow> 'a list res" where
  "BH_FOR_ALL heap = res_bind (push heap []) for_all_nodes"

section \<open>Binomial heaps\<close>

text \<open>The keys of a list of trees, the shape of a tree, and the heap order.\<close>

primrec keys_of :: "'a bh_node \<Rightarrow> 'a multiset" where
  "keys_of (BH k x sons) = add_mset x (sum_list (map keys_of sons))"

abbreviation keys_in :: "'a bh_node list \<Rightarrow> 'a multiset" where
  "keys_in ts \<equiv> sum_list (map keys_of ts)"

fun binomial :: "'a bh_node \<Rightarrow> bool" where
  "binomial (BH k x sons) \<longleftrightarrow> map bh_order sons = [0..<k] \<and> (\<forall>t\<in>set sons. binomial t)"

fun heap_tree :: "('a \<Rightarrow> 'a \<Rightarrow> bool) \<Rightarrow> 'a bh_node \<Rightarrow> bool" where
  "heap_tree lt (BH k x sons) \<longleftrightarrow> (\<forall>t\<in>set sons. heap_tree lt t \<and> (\<forall>y\<in>#keys_of t. \<not> lt y x))"

definition tree_ok :: "('a \<Rightarrow> 'a \<Rightarrow> bool) \<Rightarrow> 'a bh_node \<Rightarrow> bool" where
  "tree_ok lt t \<longleftrightarrow> binomial t \<and> heap_tree lt t"

definition bheap_ok :: "('a \<Rightarrow> 'a \<Rightarrow> bool) \<Rightarrow> 'a bh_node list \<Rightarrow> bool" where
  "bheap_ok lt ts \<longleftrightarrow> (\<forall>t\<in>set ts. tree_ok lt t) \<and> sorted_wrt (<) (map bh_order ts)"

lemma keys_of_sons: "keys_of t = add_mset (bh_key t) (keys_in (bh_sons t))"
  by (cases t) simp

lemma size_keys: "binomial t \<Longrightarrow> size (keys_of t) = 2 ^ bh_order t"
proof (induction t)
  case (BH k x sons)
  have "size (keys_in ts) = (\<Sum>t\<leftarrow>ts. size (keys_of t))" for ts :: "'a bh_node list" by (induction ts) auto
  moreover have "(\<Sum>t\<leftarrow>sons. size (keys_of t)) = (\<Sum>t\<leftarrow>sons. 2 ^ bh_order t)" using BH by (intro arg_cong [of _ _ sum_list] map_cong) auto
  moreover have "(\<Sum>t\<leftarrow>sons. 2 ^ bh_order t) = (\<Sum>k\<leftarrow>map bh_order sons. 2 ^ k :: nat)" by (simp add: comp_def)
  moreover have "(\<Sum>k\<leftarrow>[0..<k]. 2 ^ k) = (2 ^ k - 1 :: nat)" by (induction k) auto
  moreover have "map bh_order sons = [0..<k]" using BH.prems by simp
  ultimately show ?case by simp
qed

lemma bheap_ok_sons: "tree_ok lt t \<Longrightarrow> bheap_ok lt (bh_sons t)"
  by (cases t) (auto simp: tree_ok_def bheap_ok_def sorted_wrt_upt)

text \<open>The lists during a merge: all sorted by the orders, and the orders of the finished part lower than the others, except after a
  collision of three trees.\<close>

definition above :: "'a bh_node list \<Rightarrow> nat \<Rightarrow> bool" where
  "above ts k \<longleftrightarrow> (\<forall>t\<in>set ts. k < bh_order t)"

definition upto :: "'a bh_node list \<Rightarrow> nat \<Rightarrow> bool" where
  "upto ts k \<longleftrightarrow> (\<forall>t\<in>set ts. bh_order t < k)"

definition apart :: "'a bh_node list \<Rightarrow> 'a bh_node list \<Rightarrow> 'a bh_node list \<Rightarrow> bool" where
  "apart pre ps qs \<longleftrightarrow> (\<forall>x\<in>set pre. above ps (bh_order x) \<and> above qs (bh_order x)) \<or>
     (ps \<noteq> [] \<and> qs \<noteq> [] \<and> bh_order (hd ps) = bh_order (hd qs) \<and> upto pre (bh_order (hd ps) + 1))"

lemma sorted_Cons_above: "sorted_wrt (<) (map bh_order (p # ps)) \<longleftrightarrow> above ps (bh_order p) \<and> sorted_wrt (<) (map bh_order ps)"
  by (auto simp: above_def)

lemma bheap_ok_Cons: "bheap_ok less' (p # ps) \<longleftrightarrow> tree_ok less' p \<and> above ps (bh_order p) \<and> bheap_ok less' ps"
  by (auto simp: bheap_ok_def above_def)

lemma bheap_ok_snoc: "bheap_ok less' (ps @ [p]) \<longleftrightarrow> tree_ok less' p \<and> upto ps (bh_order p) \<and> bheap_ok less' ps"
  by (auto simp: bheap_ok_def upto_def sorted_wrt_append)

lemma above_mono: "above ts k \<Longrightarrow> j \<le> k \<Longrightarrow> above ts j"
  by (auto simp: above_def)

lemma above_Cons: "above (t # ts) k \<longleftrightarrow> k < bh_order t \<and> above ts k"
  by (simp add: above_def)

lemma bheap_above: "bheap_ok less' ts \<Longrightarrow> ts = [] \<or> k < bh_order (hd ts) \<Longrightarrow> above ts k"
  by (cases ts) (auto simp: bheap_ok_Cons above_Cons intro: above_mono, simp add: above_def)

lemma apart_equal:
  assumes "apart pre (p # ps) (q # qs)" "bh_order p = bh_order q"
  shows "upto pre (bh_order q + 1)"
  using assms by (auto simp: apart_def above_def upto_def)

lemma apart_next:
  assumes "upto pre k" "above ps j" "above qs j" "k \<le> j + 1"
  shows "apart pre ps qs"
  using assms by (force simp: apart_def above_def upto_def)

text \<open>Linking of two trees of the same order, which must fit into the byte.\<close>

context strict_weak_order
begin

lemma root_least: "heap_tree lt t \<Longrightarrow> y \<in># keys_of t \<Longrightarrow> \<not> lt y (bh_key t)"
  using leq_refl by (cases t) (auto simp: leq_def)

lemma hang_ok:
  assumes "tree_ok lt r" "tree_ok lt s" "bh_order r = bh_order s" "bh_order s + 1 < 256" "\<not> lt (bh_key r) (bh_key s)"
  shows "tree_ok lt (hang r s)"
proof -
  obtain k x sons where s: "s = BH k x sons" by (cases s)
  have "\<not> lt y x" if "y \<in># keys_of r" for y
    using root_least [of r y] that assms(1,5) s neg_trans [of y "bh_key r" x] by (auto simp: tree_ok_def)
  then show ?thesis using assms s by (auto simp: hang_def tree_ok_def)
qed

lemma link_ok:
  assumes "tree_ok lt p" "tree_ok lt q" "bh_order p = bh_order q" "bh_order q + 1 < 256"
  shows "tree_ok lt (link lt p q) \<and> bh_order (link lt p q) = bh_order q + 1 \<and> keys_of (link lt p q) = keys_of p + keys_of q"
  using hang_ok [OF assms(1,2)] hang_ok [OF assms(2,1)] assms(3,4) asym
  by (auto simp: link_def) (auto simp: hang_def keys_of_sons [of p] keys_of_sons [of q])

lemma merge_step:
  assumes "bheap_ok lt (rev pre)" "bheap_ok lt (p # ps)" "bheap_ok lt (q # qs)" "apart pre (p # ps) (q # qs)" "bh_order p < bh_order q"
  shows "bheap_ok lt (rev (p # pre)) \<and> apart (p # pre) ps (q # qs)"
proof -
  have "upto pre (bh_order p)" using assms(4,5) by (auto simp: apart_def above_Cons upto_def)
  moreover from this have "upto (p # pre) (bh_order p + 1)" by (auto simp: upto_def)
  moreover have "above (q # qs) (bh_order p)" using assms(3,5) by (auto simp: bheap_ok_Cons above_Cons intro: above_mono)
  ultimately show ?thesis using assms(1,2) apart_next [of "p # pre" "bh_order p + 1" ps "bh_order p" "q # qs"] by (simp add: bheap_ok_Cons bheap_ok_snoc upto_def)
qed

lemma apart_sym: "apart pre ps qs \<longleftrightarrow> apart pre qs ps"
  by (auto simp: apart_def)

lemma size_tree_le: "tree_ok lt t \<Longrightarrow> 2 ^ bh_order t = size (keys_of t)"
  by (simp add: tree_ok_def size_keys)

lemma merge_link:
  assumes "bheap_ok lt (p # ps)" "bheap_ok lt (q # qs)" "bh_order p = bh_order q" "size (keys_of p + keys_of q) < 2 ^ 256"
  shows "tree_ok lt (link lt p q) \<and> bh_order (link lt p q) = bh_order q + 1 \<and> keys_of (link lt p q) = keys_of p + keys_of q"
proof -
  have t: "tree_ok lt p" "tree_ok lt q" using assms(1,2) by (auto simp: bheap_ok_Cons)
  have "(2 :: nat) ^ (bh_order q + 1) = size (keys_of p + keys_of q)" using size_tree_le [OF t(1)] size_tree_le [OF t(2)] assms(3) by simp
  then have "(2 :: nat) ^ (bh_order q + 1) < 2 ^ 256" using assms(4) by simp
  then have "bh_order q + 1 < 256" by (rule power_less_imp_less_exp [rotated]) simp
  then show ?thesis by (rule link_ok [OF t assms(3)])
qed

text \<open>One pass of the loop.\<close>

definition merge_inv :: "'a bh_node list \<times> 'a bh_node list \<times> 'a bh_node list \<Rightarrow> bool" where
  "merge_inv x = (case x of (pre, ps, qs) \<Rightarrow> bheap_ok lt (rev pre) \<and> bheap_ok lt ps \<and> bheap_ok lt qs \<and> apart pre ps qs)"

definition merge_keys :: "'a bh_node list \<times> 'a bh_node list \<times> 'a bh_node list \<Rightarrow> 'a multiset" where
  "merge_keys x = (case x of (pre, ps, qs) \<Rightarrow> keys_in pre + keys_in ps + keys_in qs)"

lemma merge_equal:
  assumes "merge_inv (pre, p # ps, q # qs)" "size (merge_keys (pre, p # ps, q # qs)) < 2 ^ 256" "bh_order p = bh_order q"
  shows "\<exists>x. (case x of (a, b, c) \<Rightarrow> merge_loop lt pre (p # ps) (q # qs) = merge_loop lt a b c \<and> length b + length c < length ps + length qs + 2) \<and>
    merge_inv x \<and> merge_keys x = merge_keys (pre, p # ps, q # qs)"
proof -
  let ?s = "link lt p q" and ?k = "bh_order q"
  have v: "bheap_ok lt (rev pre)" "bheap_ok lt (p # ps)" "bheap_ok lt (q # qs)" "apart pre (p # ps) (q # qs)" using assms(1) by (auto simp: merge_inv_def)
  have sub: "bheap_ok lt ps" "bheap_ok lt qs" "above ps ?k" "above qs ?k" using v(2,3) assms(3) by (auto simp: bheap_ok_Cons)
  have "size (keys_of p + keys_of q) < 2 ^ 256" using assms(2) by (simp add: merge_keys_def)
  then have s: "tree_ok lt ?s" "bh_order ?s = ?k + 1" "keys_of ?s = keys_of p + keys_of q" using merge_link [OF v(2,3) assms(3)] by auto
  have up: "upto pre (?k + 1)" by (rule apart_equal [OF v(4) assms(3)])
  consider (b) "qs = [] \<or> bh_order (hd qs) > ?k + 1" | (three) "\<not> (qs = [] \<or> bh_order (hd qs) > ?k + 1)" "ps \<noteq> [] \<and> bh_order (hd ps) = ?k + 1"
    | (a) "\<not> (qs = [] \<or> bh_order (hd qs) > ?k + 1)" "\<not> (ps \<noteq> [] \<and> bh_order (hd ps) = ?k + 1)" by blast
  then show ?thesis
  proof cases
    case b
    have "apart pre ps (?s # qs)" by (rule apart_next [OF up, of _ ?k]) (use sub s(2) in \<open>auto simp: above_Cons\<close>)
    then show ?thesis using b assms(3) s sub v(1) bheap_above [OF sub(2) b]
      by (intro exI [of _ "(pre, ps, ?s # qs)"]) (auto simp: merge_inv_def merge_keys_def bheap_ok_Cons Let_def ac_simps)
  next
    case three
    then have "bh_order (hd qs) = ?k + 1" using sub(4) by (cases qs) (auto simp: above_Cons)
    then have "apart (?s # pre) ps qs" using three up s(2) by (auto simp: apart_def upto_def)
    then show ?thesis using three assms(3) s sub v(1) up
      by (intro exI [of _ "(?s # pre, ps, qs)"]) (auto simp: merge_inv_def merge_keys_def bheap_ok_snoc upto_def Let_def ac_simps)
  next
    case a
    have "ps = [] \<or> ?k + 1 < bh_order (hd ps)" using a sub(3) by (cases ps) (auto simp: above_Cons)
    then have "above ps (?k + 1)" by (rule bheap_above [OF sub(1)])
    moreover have "apart pre (?s # ps) qs" by (rule apart_next [OF up, of _ ?k]) (use sub s(2) in \<open>auto simp: above_Cons\<close>)
    ultimately show ?thesis using a assms(3) s sub v(1)
      by (intro exI [of _ "(pre, ?s # ps, qs)"]) (auto simp: merge_inv_def merge_keys_def bheap_ok_Cons Let_def ac_simps)
  qed
qed

lemma merge_pass:
  assumes "merge_inv (pre, p # ps, q # qs)" "size (merge_keys (pre, p # ps, q # qs)) < 2 ^ 256"
  shows "\<exists>x. (case x of (a, b, c) \<Rightarrow> merge_loop lt pre (p # ps) (q # qs) = merge_loop lt a b c \<and> length b + length c < length ps + length qs + 2) \<and>
    merge_inv x \<and> merge_keys x = merge_keys (pre, p # ps, q # qs)"
proof -
  have v: "bheap_ok lt (rev pre)" "bheap_ok lt (p # ps)" "bheap_ok lt (q # qs)" "apart pre (p # ps) (q # qs)" using assms(1) by (auto simp: merge_inv_def)
  consider "bh_order p < bh_order q" | "bh_order p > bh_order q" | "bh_order p = bh_order q" by linarith
  then show ?thesis
  proof cases
    case 1
    then show ?thesis using merge_step [OF v 1] v
      by (intro exI [of _ "(p # pre, ps, q # qs)"]) (auto simp: merge_inv_def merge_keys_def bheap_ok_Cons ac_simps)
  next
    case 2
    have "apart pre (q # qs) (p # ps)" using v(4) apart_sym by blast
    then show ?thesis using merge_step [OF v(1,3,2) _ 2] v apart_sym [of "q # pre"] 2
      by (intro exI [of _ "(q # pre, p # ps, qs)"]) (auto simp: merge_inv_def merge_keys_def bheap_ok_Cons ac_simps)
  next
    case 3
    then show ?thesis by (rule merge_equal [OF assms])
  qed
qed

lemma merge_done:
  assumes "bheap_ok lt (rev pre)" "bheap_ok lt ts" "\<forall>x\<in>set pre. above ts (bh_order x)"
  shows "bheap_ok lt (rev pre @ ts) \<and> keys_in (rev pre @ ts) = keys_in pre + keys_in ts"
  using assms by (auto simp: bheap_ok_def sorted_wrt_append above_def rev_map [symmetric] sum_list_rev)

lemma merge_loop_ok:
  assumes "merge_inv (pre, ps, qs)" "size (merge_keys (pre, ps, qs)) < 2 ^ 256"
  shows "bheap_ok lt (merge_loop lt pre ps qs) \<and> keys_in (merge_loop lt pre ps qs) = merge_keys (pre, ps, qs)"
  using assms
proof (induction "length ps + length qs" arbitrary: pre ps qs rule: less_induct)
  case less
  consider "ps = []" | p ps' where "ps = p # ps'" "qs = []" | p ps' q qs' where "ps = p # ps'" "qs = q # qs'" by (cases ps; cases qs) auto
  then show ?case
  proof cases
    case 1
    then show ?thesis using merge_done [of pre qs] less.prems(1) by (auto simp: merge_inv_def merge_keys_def apart_def)
  next
    case 2
    then show ?thesis using merge_done [of pre ps] less.prems(1) by (auto simp: merge_inv_def merge_keys_def apart_def)
  next
    case 3
    obtain a b c where x: "merge_loop lt pre ps qs = merge_loop lt a b c" "length b + length c < length ps + length qs" "merge_inv (a, b, c)"
        "merge_keys (a, b, c) = merge_keys (pre, ps, qs)"
      using merge_pass [of pre p ps' q qs'] less.prems 3 by auto
    then show ?thesis using less.hyps [of b c a] less.prems(2) by simp
  qed
qed

section \<open>Binomial heaps are priority queues\<close>

lemma bh_merge_ok:
  assumes "bheap_ok lt a" "bheap_ok lt b" "size (keys_in a + keys_in b) < 2 ^ 256"
  shows "bheap_ok lt (bh_merge lt a b) \<and> keys_in (bh_merge lt a b) = keys_in a + keys_in b"
  using merge_loop_ok [of "[]" a b] assms by (simp add: bh_merge_def merge_inv_def merge_keys_def apart_def bheap_ok_def)

lemma bh_insert_ok:
  assumes "bheap_ok lt a" "size (keys_in a) + 1 < 2 ^ 256"
  shows "bheap_ok lt (bh_insert lt x a) \<and> keys_in (bh_insert lt x a) = add_mset x (keys_in a)"
  using bh_merge_ok [OF assms(1), of "[BH 0 x []]"] assms(2) by (simp add: bh_insert_def bheap_ok_def tree_ok_def)

text \<open>The search of \<open>deletemin\<close> splits the heap at a root that is least; \<open>findmin\<close> finds the same one.\<close>

definition best_of :: "'a bh_node list \<Rightarrow> ('a bh_node list \<times> 'a bh_node \<times> 'a bh_node list) option \<Rightarrow> 'a bh_node list \<Rightarrow> bool" where
  "best_of pre best ps = (case best of None \<Rightarrow> pre = []
     | Some (u, b, v) \<Rightarrow> pre @ ps = u @ b # v \<and> (\<forall>t\<in>set pre. \<not> lt (bh_key t) (bh_key b)))"

lemma best_loop_ok: "best_of pre best ps \<Longrightarrow> best_of (pre @ ps) (best_loop lt best pre ps) []"
proof (induction ps arbitrary: pre best)
  case (Cons p ps)
  let ?b = "case best of None \<Rightarrow> Some (pre, p, ps) | Some (u, b, v) \<Rightarrow> if lt (bh_key p) (bh_key b) then Some (pre, p, ps) else best"
  have "best_of (pre @ [p]) ?b ps"
  proof (cases best)
    case None
    then show ?thesis using Cons.prems leq_refl [of "bh_key p"] by (auto simp: best_of_def leq_def)
  next
    case (Some x)
    obtain u b v where b: "x = (u, b, v)" by (cases x)
    have "\<not> lt (bh_key t) (bh_key p)" if "lt (bh_key p) (bh_key b)" "t \<in> set (pre @ [p])" for t
    proof (cases "t = p")
      case True
      then show ?thesis using leq_refl [of "bh_key p"] by (simp add: leq_def)
    next
      case False
      then have "\<not> lt (bh_key t) (bh_key b)" using Cons.prems Some b that(2) by (auto simp: best_of_def)
      then show ?thesis using that(1) asym neg_trans by blast
    qed
    then show ?thesis using Cons.prems Some b by (auto simp: best_of_def)
  qed
  then show ?case using Cons.IH [of "pre @ [p]" ?b] by simp
qed simp

lemma findmin_best: "findmin_loop lt (map_option (\<lambda>x. fst (snd x)) best) ps = map_option (\<lambda>x. fst (snd x)) (best_loop lt best pre ps)"
proof (induction ps arbitrary: best pre)
  case (Cons p ps)
  let ?b = "case best of None \<Rightarrow> Some (pre, p, ps) | Some (u, b, v) \<Rightarrow> if lt (bh_key p) (bh_key b) then Some (pre, p, ps) else best"
  have "(case map_option (\<lambda>x. fst (snd x)) best of None \<Rightarrow> Some p | Some b \<Rightarrow> if lt (bh_key p) (bh_key b) then Some p else map_option (\<lambda>x. fst (snd x)) best) =
      map_option (\<lambda>x. fst (snd x)) ?b"
    by (cases best) auto
  then show ?case using Cons.IH [of ?b "pre @ [p]"] by simp
qed simp

lemma best_loop_None: "best_loop lt best pre ps = None \<longleftrightarrow> best = None \<and> ps = []"
  by (induction ps arbitrary: best pre) (auto split: option.split)

lemma heap_split:
  assumes "heap \<noteq> []"
  obtains u b v where "best_loop lt None [] heap = Some (u, b, v)" "heap = u @ b # v" "\<forall>t\<in>set heap. \<not> lt (bh_key t) (bh_key b)" "bh_findmin lt heap = Some b"
proof -
  obtain x where x: "best_loop lt None [] heap = Some x" using best_loop_None [of None "[]" heap] assms by auto
  obtain u b v where b: "x = (u, b, v)" by (cases x)
  have "best_of heap (Some (u, b, v)) []" using best_loop_ok [of "[]" None heap] x b by (simp add: best_of_def)
  moreover have "bh_findmin lt heap = Some b" using findmin_best [of None heap "[]"] x b by (simp add: bh_findmin_def)
  ultimately show thesis using that x b by (auto simp: best_of_def)
qed

lemma keys_least:
  assumes "bheap_ok lt heap" "\<forall>t\<in>set heap. \<not> lt (bh_key t) (bh_key b)" "y \<in># keys_in heap"
  shows "\<not> lt y (bh_key b)"
proof -
  obtain t where t: "t \<in> set heap" "y \<in># keys_of t" using assms(3) by (induction heap) auto
  then have "\<not> lt y (bh_key t)" using root_least assms(1) by (auto simp: bheap_ok_def tree_ok_def)
  then show ?thesis using assms(2) t(1) neg_trans by blast
qed

lemma bh_deletemin_ok:
  assumes "bheap_ok lt heap" "heap \<noteq> []" "size (keys_in heap) < 2 ^ 256"
  shows "\<exists>p g. bh_findmin lt heap = Some p \<and> bh_deletemin lt heap = Some (p, g) \<and> bheap_ok lt g \<and> keys_in heap = add_mset (bh_key p) (keys_in g) \<and>
    (\<forall>y\<in>#keys_in heap. \<not> lt y (bh_key p))"
proof -
  obtain u b v where s: "best_loop lt None [] heap = Some (u, b, v)" "heap = u @ b # v" "\<forall>t\<in>set heap. \<not> lt (bh_key t) (bh_key b)" "bh_findmin lt heap = Some b"
    using heap_split [OF assms(2)] .
  have uv: "bheap_ok lt (u @ v)" "tree_ok lt b" using assms(1) s(2) by (auto simp: bheap_ok_def sorted_wrt_append)
  have k: "keys_in heap = add_mset (bh_key b) (keys_in (u @ v) + keys_in (bh_sons b))" using s(2) by (simp add: keys_of_sons [of b] ac_simps)
  have "bheap_ok lt (bh_merge lt (u @ v) (bh_sons b)) \<and> keys_in (bh_merge lt (u @ v) (bh_sons b)) = keys_in (u @ v) + keys_in (bh_sons b)"
    by (rule bh_merge_ok [OF uv(1) bheap_ok_sons [OF uv(2)]]) (use assms(3) k in simp)
  then show ?thesis using s(1,4) k keys_least [OF assms(1) s(3)] by (simp add: bh_deletemin_def)
qed

end

text \<open>The interface of the priority queues: the key of the node that is found, the heap without it.\<close>

definition bh_ready :: "('a \<Rightarrow> 'a \<Rightarrow> bool) \<Rightarrow> 'a bh_node list \<Rightarrow> bool" where
  "bh_ready lt h \<longleftrightarrow> bheap_ok lt h \<and> size (keys_in h) < 2 ^ 256"

definition bh_room :: "'a bh_node list \<Rightarrow> bool" where
  "bh_room h \<longleftrightarrow> size (keys_in h) + 1 < 2 ^ 256"

definition bh_min :: "('a \<Rightarrow> 'a \<Rightarrow> bool) \<Rightarrow> 'a bh_node list \<Rightarrow> 'a" where
  "bh_min lt h = bh_key (the (bh_findmin lt h))"

definition bh_rest :: "('a \<Rightarrow> 'a \<Rightarrow> bool) \<Rightarrow> 'a bh_node list \<Rightarrow> 'a bh_node list" where
  "bh_rest lt h = snd (the (bh_deletemin lt h))"

lemma keys_in_empty: "keys_in h = {#} \<longleftrightarrow> h = []"
  by (cases h) (auto simp: keys_of_sons)

sublocale strict_weak_order \<subseteq> bhq: priority_queue "bh_ready lt" keys_in bh_room "bh_min lt" "bh_rest lt" "bh_insert lt" "\<lambda>x y. \<not> lt y x"
proof
  fix q :: "'a bh_node list" and x
  show "bh_min lt q \<in># keys_in q \<and> (\<forall>y\<in>#keys_in q. \<not> lt y (bh_min lt q))" if "bh_ready lt q" "keys_in q \<noteq> {#}"
  proof -
    have "bheap_ok lt q" "q \<noteq> []" "size (keys_in q) < 2 ^ 256" using that by (auto simp: bh_ready_def)
    then obtain p g where "bh_findmin lt q = Some p" "keys_in q = add_mset (bh_key p) (keys_in g)" "\<forall>y\<in>#keys_in q. \<not> lt y (bh_key p)"
      using bh_deletemin_ok [of q] by blast
    then show ?thesis by (simp add: bh_min_def)
  qed
  show "bh_ready lt (bh_rest lt q) \<and> keys_in (bh_rest lt q) = keys_in q - {#bh_min lt q#}" if "bh_ready lt q" "keys_in q \<noteq> {#}"
    using bh_deletemin_ok [of q] that by (auto simp: bh_ready_def keys_in_empty bh_min_def bh_rest_def)
  show "bh_ready lt (bh_insert lt x q) \<and> keys_in (bh_insert lt x q) = add_mset x (keys_in q)" if "bh_ready lt q" "bh_room q"
    using bh_insert_ok [of q x] that by (auto simp: bh_ready_def bh_room_def)
qed

section \<open>The iterator\<close>

text \<open>The entries of the stack that a list of trees needs.\<close>

function need :: "'a bh_node list \<Rightarrow> nat" where
  "need [] = 0"
| "need (x # rest) = max 1 (max ((if rest = [] then 0 else 1) + need (bh_sons x)) (need rest))"
  by pat_completeness auto
termination
  by (relation "measure (\<lambda>ts. sum_list (map bh_size ts))") (auto simp: bh_size_sons)

lemma need_bound: "bheap_ok lt ts \<Longrightarrow> \<forall>t\<in>set ts. bh_order t \<le> k \<Longrightarrow> need ts \<le> max 1 k"
proof (induction ts arbitrary: k rule: need.induct)
  case (2 x rest)
  have x: "tree_ok lt x" "bheap_ok lt rest" "above rest (bh_order x)" using 2(3) by (auto simp: bheap_ok_Cons)
  have "need rest \<le> max 1 k" using 2(2) [OF x(2)] 2(4) by simp
  moreover have "(if rest = [] then 0 else 1) + bh_order x \<le> k" using x(3) 2(4) by (cases rest) (auto simp: above_Cons)
  moreover have "need (bh_sons x) \<le> bh_order x"
  proof (cases "bh_order x")
    case 0
    then show ?thesis using x(1) by (cases x) (simp add: tree_ok_def)
  next
    case (Suc j)
    have "map bh_order (bh_sons x) = [0..<Suc j]" using x(1) Suc by (cases x) (simp add: tree_ok_def)
    then have "bh_order t \<in> {0..<Suc j}" if "t \<in> set (bh_sons x)" for t using that by (metis atLeastLessThan_upt image_eqI list.set_map)
    then have "need (bh_sons x) \<le> max 1 j" using 2(1) [OF bheap_ok_sons [OF x(1)], of j] by (simp add: less_Suc_eq_le)
    then show ?thesis using Suc by simp
  qed
  ultimately show ?case by (simp split: if_splits)
qed simp

fun fits :: "'a bh_node list list \<Rightarrow> bool" where
  "fits [] = True"
| "fits (ts # st) \<longleftrightarrow> ts \<noteq> [] \<and> need ts + length st \<le> 32 \<and> fits st"

lemma need_pos: "ts \<noteq> [] \<Longrightarrow> 1 \<le> need ts"
  by (cases ts) auto

lemma push_fits:
  assumes "fits st" "need ts + length st \<le> 32"
  shows "\<exists>st'. push ts st = Inr st' \<and> fits st' \<and> length st' = (if ts = [] then 0 else 1) + length st \<and>
    sum_list (map keys_in st') = keys_in ts + sum_list (map keys_in st)"
  using assms by (cases "ts = []") (use need_pos [of ts] in \<open>auto simp: push_def\<close>)

lemma for_all_nodes_ok: "fits st \<Longrightarrow> \<exists>vs. for_all_nodes st = Inr vs \<and> mset vs = sum_list (map keys_in st)"
proof (induction st rule: for_all_nodes.induct)
  case (3 x rest st)
  have n: "need rest + length st \<le> 32" "(if rest = [] then 0 else 1) + need (bh_sons x) + length st \<le> 32" "fits st" using 3(2) by (auto split: if_splits)
  obtain s1 where s1: "push rest st = Inr s1" "fits s1" "length s1 = (if rest = [] then 0 else 1) + length st"
    "sum_list (map keys_in s1) = keys_in rest + sum_list (map keys_in st)" using push_fits [OF n(3,1)] by blast
  have "need (bh_sons x) + length s1 \<le> 32" using n(2) s1(3) by simp
  then obtain s2 where s2: "push (bh_sons x) s1 = Inr s2" "fits s2" "sum_list (map keys_in s2) = keys_in (bh_sons x) + sum_list (map keys_in s1)"
    using push_fits [OF s1(2)] by blast
  obtain vs where "for_all_nodes s2 = Inr vs" "mset vs = sum_list (map keys_in s2)" using 3(1) [OF s1(1) s2(1,2)] by blast
  then show ?case using s1 s2 by (simp add: keys_of_sons [of x])
qed auto

lemma size_in_heap: "t \<in> set ts \<Longrightarrow> size (keys_of t) \<le> size (keys_in ts)"
  by (induction ts) auto

lemma BH_FOR_ALL_ok:
  assumes "bheap_ok lt h" "size (keys_in h) < 2 ^ 32"
  shows "\<exists>vs. BH_FOR_ALL h = Inr vs \<and> mset vs = keys_in h"
proof -
  have "bh_order t \<le> 31" if "t \<in> set h" for t
  proof -
    have "(2 :: nat) ^ bh_order t = size (keys_of t)" using size_keys [of t] assms(1) that by (simp add: bheap_ok_def tree_ok_def)
    then have "(2 :: nat) ^ bh_order t < 2 ^ 32" using size_in_heap [OF that] assms(2) by simp
    then have "bh_order t < 32" by (rule power_less_imp_less_exp [rotated]) simp
    then show ?thesis by simp
  qed
  then have "need h \<le> 31" using need_bound [OF assms(1), of 31] by simp
  then obtain st where "push h [] = Inr st" "fits st" "sum_list (map keys_in st) = keys_in h" using push_fits [of "[]" h] by auto
  then show ?thesis using for_all_nodes_ok [of st] by (simp add: BH_FOR_ALL_def)
qed

section \<open>Properties\<close>

context strict_weak_order
begin

lemma bh_drain:
  assumes "bheap_ok lt h" "size (keys_in h) < 2 ^ 256"
  shows "mset (drain (bh_min lt) (bh_rest lt) (size (keys_in h)) h) = keys_in h \<and>
    sorted_wrt (\<lambda>x y. \<not> lt y x) (drain (bh_min lt) (bh_rest lt) (size (keys_in h)) h)"
  using bhq.drain_sorts [of h] assms by (simp add: bh_ready_def)

end

text \<open>C16: A binomial heap over any strict weak order implements a mergeable priority queue, as long as the orders fit into their byte
  (\<open>2 ^ 256\<close> elements): the trees of a valid heap are binomial trees of different orders in the heap order; the empty heap is valid;
  merging two valid heaps gives a valid heap of the elements of both, insertion adds exactly the element; \<open>deletemin\<close> of a non-empty
  heap returns the node that \<open>findmin\<close> finds, whose key no key is lower than, and leaves a valid heap without exactly that key;
  deleting the minima one after another yields the elements sorted; and in a heap of less than \<open>2 ^ 32\<close> elements the stack of 32
  entries is enough for \<open>BH_FOR_ALL\<close>, which visits each element exactly once.\<close>

theorem binheap_implements_priority_queue:
  assumes "strict_weak_order lt" "bheap_ok lt a" "bheap_ok lt b" "size (keys_in a + keys_in b) + 1 < 2 ^ 256"
  shows "bheap_ok lt bh_init \<and> keys_in bh_init = ({#} :: 'a multiset) \<and>
    bheap_ok lt (bh_merge lt a b) \<and> keys_in (bh_merge lt a b) = keys_in a + keys_in b \<and>
    bheap_ok lt (bh_insert lt x a) \<and> keys_in (bh_insert lt x a) = add_mset x (keys_in a) \<and>
    (a = [] \<longrightarrow> bh_findmin lt a = None \<and> bh_deletemin lt a = None) \<and>
    (a \<noteq> [] \<longrightarrow> (\<exists>p g. bh_findmin lt a = Some p \<and> bh_deletemin lt a = Some (p, g) \<and> bheap_ok lt g \<and>
      keys_in a = add_mset (bh_key p) (keys_in g) \<and> (\<forall>y\<in>#keys_in a. \<not> lt y (bh_key p)))) \<and>
    mset (drain (bh_min lt) (bh_rest lt) (size (keys_in a)) a) = keys_in a \<and>
    sorted_wrt (\<lambda>x y. \<not> lt y x) (drain (bh_min lt) (bh_rest lt) (size (keys_in a)) a) \<and>
    (size (keys_in a) < 2 ^ 32 \<longrightarrow> (\<exists>vs. BH_FOR_ALL a = Inr vs \<and> mset vs = keys_in a))"
proof -
  have n: "size (keys_in a + keys_in b) < 2 ^ 256" "size (keys_in a) + 1 < 2 ^ 256" "size (keys_in a) < 2 ^ 256" using assms(4) by simp_all
  show ?thesis
    using strict_weak_order.bh_merge_ok [OF assms(1-3) n(1)] strict_weak_order.bh_insert_ok [OF assms(1,2) n(2), of x]
      strict_weak_order.bh_deletemin_ok [OF assms(1,2) _ n(3)] strict_weak_order.bh_drain [OF assms(1,2) n(3)] BH_FOR_ALL_ok [OF assms(2)]
    by (intro conjI impI) (simp_all add: bh_init_def bheap_ok_def bh_findmin_def bh_deletemin_def)
qed

lemma binheap_implements_priority_queue_witness:
  "bh_merge (<) [BH 0 5 [], BH 1 2 [BH 0 7 []]] [BH 0 3 [], BH 1 1 [BH 0 (4 :: nat) []]] = [BH 1 3 [BH 0 5 []], BH 2 1 [BH 0 4 [], BH 1 2 [BH 0 7 []]]] \<and>
   keys_in (bh_merge (<) [BH 0 5 [], BH 1 2 [BH 0 7 []]] [BH 0 3 [], BH 1 1 [BH 0 (4 :: nat) []]]) = {#1, 2, 3, 4, 5, 7#}"
proof -
  let ?a = "[BH 0 (5 :: nat) [], BH 1 2 [BH 0 7 []]]" and ?b = "[BH 0 3 [], BH 1 1 [BH 0 (4 :: nat) []]]"
  have ok: "bheap_ok (<) ?a" "bheap_ok (<) ?b" by (simp_all add: bheap_ok_def tree_ok_def upt_rec)
  have "keys_in (bh_merge (<) ?a ?b) = keys_in ?a + keys_in ?b"
    using binheap_implements_priority_queue [OF linord.strict_weak_order_axioms ok, THEN conjunct2, THEN conjunct2, THEN conjunct2, THEN conjunct1] by simp
  then show ?thesis by (simp add: bh_merge_def link_def hang_def)
qed

end
