(* ===== verification/Lizard.thy ===== *)
theory Lizard
  imports Ucw_Prelude
begin

text \<open>
  \<open>ucw/lizard.c\<close>: the LiZaRd compression. The text is a list of bytes that also holds the characters behind its end, pointers
  into it are positions. The hash table and the array of its records are functions on indices, with every index checked; the
  records are not initialised, so their contents at the start are an argument. The values of the type \<open>hash_ptr_t\<close> are naturals
  cut to 16 bits. The output is the list of the bytes before the pointer \<open>out\<close>, in a buffer of the size \<open>cap\<close>. The argument \<open>una\<close>
  says whether the processor allows unaligned access (\<open>CPU_ALLOW_UNALIGNED\<close>), when up to 3 characters are copied as 4 bytes.
\<close>

section \<open>The hash table\<close>

definition char_at :: "byte list \<Rightarrow> nat \<Rightarrow> byte res" where
  "char_at t i = (if i < length t then Inr (t ! i) else Inl Out_of_bounds)"

record hash_record =
  hr_next :: nat
  hr_prev :: nat

record lz_hash =
  hash_tab :: "nat \<Rightarrow> nat"
  hash_rec :: "nat \<Rightarrow> hash_record"
  lz_head :: nat
  to_delete :: bool

definition HASH_SIZE :: nat where "HASH_SIZE = 16384"
definition HASH_RECORDS :: nat where "HASH_RECORDS = 32768"
definition CHAIN_MAX_TESTS :: nat where "CHAIN_MAX_TESTS = 8"
definition CHAIN_GOOD_MATCH :: nat where "CHAIN_GOOD_MATCH = 32"

definition hashf :: "byte list \<Rightarrow> nat \<Rightarrow> nat res" where
  "hashf t i = res_bind (char_at t i) (\<lambda>a. res_bind (char_at t (i + 1)) (\<lambda>b. res_bind (char_at t (i + 2)) (\<lambda>c.
     Inr (unat a XOR push_bit 3 (unat b) XOR push_bit 6 (unat c)))))"

definition locate_string :: "nat \<Rightarrow> nat \<Rightarrow> nat \<Rightarrow> nat res" where
  "locate_string string record_id head =
    (let p = int string + (int record_id - int head) - (if record_id \<ge> head then int HASH_RECORDS - 1 else 0) in
     if p < 0 then Inl Out_of_bounds else Inr (nat p))"

text \<open>The comparisons of \<open>find_match\<close>: of one character, of up to \<open>n\<close> characters, and to the end of the text. The result is the
  position behind the last compared character of the record.\<close>

definition same_char :: "byte list \<Rightarrow> nat \<Rightarrow> nat \<Rightarrow> bool res" where
  "same_char t c s = res_bind (char_at t c) (\<lambda>a. res_bind (char_at t s) (\<lambda>b. Inr (a = b)))"

primrec cmp_chars :: "byte list \<Rightarrow> nat \<Rightarrow> nat \<Rightarrow> nat \<Rightarrow> (nat \<times> bool) res" where
  "cmp_chars t c s 0 = Inr (c, True)"
| "cmp_chars t c s (Suc n) = res_bind (same_char t c s) (\<lambda>e. if e then cmp_chars t (c + 1) (s + 1) n else Inr (c + 1, False))"

function cmp_rest :: "byte list \<Rightarrow> nat \<Rightarrow> nat \<Rightarrow> nat \<Rightarrow> nat res" where
  "cmp_rest t c s string_end =
    (if s \<le> string_end then res_bind (same_char t c s) (\<lambda>e. if e then cmp_rest t (c + 1) (s + 1) string_end else Inr (c + 1)) else Inr c)"
  by pat_completeness auto
termination
  by (relation "measure (\<lambda>(t, c, s, string_end). Suc string_end - s)") auto

text \<open>The length of the match with one record, if the first and the third character match.\<close>

definition match_len :: "byte list \<Rightarrow> nat \<Rightarrow> nat \<Rightarrow> nat \<Rightarrow> nat option res" where
  "match_len t record_string string string_end =
    res_bind (same_char t record_string string) (\<lambda>e0.
    res_bind (if e0 then same_char t (record_string + 2) (string + 2) else Inr False) (\<lambda>e2.
    if e2 then
      res_bind (same_char t (record_string + 3) (string + 3)) (\<lambda>e3.
      res_bind (if e3 then res_bind (cmp_chars t (record_string + 4) (string + 4) 4) (\<lambda>(cmp, e).
          if e then cmp_rest t cmp (string + 8) string_end else Inr cmp) else Inr (record_string + 4)) (\<lambda>cmp.
      Inr (Some (cmp - record_string - 1))))
    else Inr None))"

primrec find_loop :: "byte list \<Rightarrow> lz_hash \<Rightarrow> nat \<Rightarrow> nat \<Rightarrow> nat \<Rightarrow> nat \<Rightarrow> nat \<times> nat option \<Rightarrow> (nat \<times> nat option) res" where
  "find_loop t H string string_end 0 record_id best = Inr best"
| "find_loop t H string string_end (Suc count) record_id best = (if record_id = 0 then Inr best else
    res_bind (locate_string string record_id (lz_head H)) (\<lambda>record_string.
    res_bind (match_len t record_string string string_end) (\<lambda>m.
    let go_on = (\<lambda>best. if record_id < HASH_RECORDS then find_loop t H string string_end count (hr_next (hash_rec H record_id)) best
        else Inl Out_of_bounds) in
    case m of None \<Rightarrow> go_on best
    | Some len \<Rightarrow> if len > fst best then
        (if len \<ge> CHAIN_GOOD_MATCH then Inr (len, Some record_string) else go_on (len, Some record_string))
      else go_on best)))"

definition find_match :: "byte list \<Rightarrow> lz_hash \<Rightarrow> nat \<Rightarrow> nat \<Rightarrow> nat \<Rightarrow> (nat \<times> nat option) res" where
  "find_match t H record_id string string_end = find_loop t H string string_end CHAIN_MAX_TESTS record_id (0, None)"

text \<open>The unlinking of the record that is reused; the addition of a record.\<close>

definition unlink_record :: "lz_hash \<Rightarrow> lz_hash" where
  "unlink_record H = (if to_delete H then
     let prev = hr_prev (hash_rec H (lz_head H)); prev_id = take_bit 15 prev in
     if bit prev 15 then H\<lparr>hash_tab := (hash_tab H)(prev_id := 0)\<rparr>
     else H\<lparr>hash_rec := (hash_rec H)(prev_id := (hash_rec H prev_id)\<lparr>hr_next := 0\<rparr>)\<rparr>
   else H)"

definition hash_string :: "nat \<Rightarrow> lz_hash \<Rightarrow> lz_hash res" where
  "hash_string hash H =
    (if lz_head H < HASH_RECORDS \<and> hash < HASH_SIZE \<and>
        (to_delete H \<longrightarrow> bit (hr_prev (hash_rec H (lz_head H))) 15 \<longrightarrow> take_bit 15 (hr_prev (hash_rec H (lz_head H))) < HASH_SIZE) then
     let head = lz_head H; H = unlink_record H; nxt = hash_tab H hash in
     if nxt < HASH_RECORDS then
       let recs = (hash_rec H)(head := \<lparr>hr_next = nxt, hr_prev = take_bit 16 (set_bit 15 hash)\<rparr>);
         recs = recs(nxt := (recs nxt)\<lparr>hr_prev := take_bit 16 head\<rparr>);
         H = H\<lparr>hash_rec := recs, hash_tab := (hash_tab H)(hash := take_bit 16 head)\<rparr> in
       if head + 1 \<ge> HASH_RECORDS then Inr (H\<lparr>lz_head := 1, to_delete := True\<rparr>) else Inr (H\<lparr>lz_head := head + 1\<rparr>)
     else Inl Out_of_bounds
   else Inl Out_of_bounds)"

primrec hash_strings :: "byte list \<Rightarrow> nat \<Rightarrow> nat \<Rightarrow> lz_hash \<Rightarrow> lz_hash res" where
  "hash_strings t i 0 H = Inr H"
| "hash_strings t i (Suc n) H = res_bind (hashf t i) (\<lambda>hash. res_bind (hash_string hash H) (hash_strings t (i + 1) n))"

section \<open>Compression\<close>

definition LIZARD_MAX_LEN :: "nat \<Rightarrow> nat" where
  "LIZARD_MAX_LEN n = n * 23 div 22 + 4"

definition emit :: "nat \<Rightarrow> byte list \<Rightarrow> byte list \<Rightarrow> byte list res" where
  "emit cap bs out = (if length out + length bs \<le> cap then Inr (out @ bs) else Inl Out_of_bounds)"

definition emit_from :: "nat \<Rightarrow> byte list \<Rightarrow> nat \<Rightarrow> nat \<Rightarrow> byte list \<Rightarrow> byte list res" where
  "emit_from cap t start len out = (if start + len \<le> length t then emit cap (take len (drop start t)) out else Inl Out_of_bounds)"

text \<open>The copy of 4 bytes from \<open>start\<close>, of which \<open>len\<close> are kept: the others are overwritten later.\<close>

definition emit_u32 :: "nat \<Rightarrow> byte list \<Rightarrow> nat \<Rightarrow> nat \<Rightarrow> byte list \<Rightarrow> byte list res" where
  "emit_u32 cap t start len out = (if start + 4 \<le> length t \<and> length out + 4 \<le> cap then Inr (out @ take len (drop start t)) else Inl Out_of_bounds)"

function dump_unary_value :: "nat \<Rightarrow> byte list" where
  "dump_unary_value l = (if l > 255 then 0 # dump_unary_value (l - 255) else [of_nat l])"
  by pat_completeness auto
termination
  by (relation "measure id") auto

definition flush_copy_command :: "bool \<Rightarrow> nat \<Rightarrow> byte list \<Rightarrow> bool \<Rightarrow> byte list \<Rightarrow> nat \<Rightarrow> nat \<Rightarrow> byte list res" where
  "flush_copy_command una cap t bof out start len =
    (if bof \<and> len \<le> 238 then res_bind (emit cap [of_nat (len + 17)] out) (emit_from cap t start len)
     else if len < 4 then
       (if length out < 2 then Inl Out_of_bounds else
        let out = out[length out - 2 := out ! (length out - 2) OR of_nat len] in
        if una then emit_u32 cap t start len out else emit_from cap t start len out)
     else if len \<le> 18 then res_bind (emit cap [of_nat (len - 3)] out) (emit_from cap t start len)
     else res_bind (emit cap (0 # dump_unary_value (len - 18)) out) (emit_from cap t start len))"

text \<open>The last two bytes of a match, and the bytes before them of a long one.\<close>

definition shift_bytes :: "uint \<Rightarrow> byte list" where
  "shift_bytes shift = [ucast (drop_bit 6 shift AND NOT 3), ucast (shift AND 0xff)]"

definition len_bytes :: "uint \<Rightarrow> nat \<Rightarrow> byte list" where
  "len_bytes shift len = (if shift < 2 ^ 14 then
      (if len \<le> 33 then [2 ^ 5 OR of_nat (len - 2)] else 2 ^ 5 # dump_unary_value (len - 33))
    else let pos_bit = ucast ((drop_bit 11 (shift + 1) AND 2 ^ 3) OR 2 ^ 4) in
      (if len \<le> 9 then [pos_bit OR of_nat (len - 2)] else pos_bit # dump_unary_value (len - 9)))"

text \<open>The record of a match of \<open>len\<close> characters at \<open>best\<close>; \<open>None\<close> is the jump to the label \<open>literal\<close>.\<close>

definition record_match :: "bool \<Rightarrow> nat \<Rightarrow> byte list \<Rightarrow> bool \<Rightarrow> byte list \<Rightarrow> nat \<Rightarrow> nat \<Rightarrow> nat \<Rightarrow> nat \<Rightarrow> byte list option res" where
  "record_match una cap t bof out copy_start i len best =
    (let copy_len = i - copy_start; is_in_copy_mode = (bof \<or> copy_len \<ge> 4); shift = (of_nat (i - best - 1) :: uint);
         flush = (if copy_len \<noteq> 0 then flush_copy_command una cap t bof out copy_start copy_len else Inr out);
         dump_2sequence = (\<lambda>shift. res_bind flush (\<lambda>out. res_bind (emit cap (shift_bytes shift) out) (\<lambda>out. Inr (Some out)))) in
     if shift < 2 ^ 11 \<and> len \<le> 8 then dump_2sequence (shift OR push_bit 11 (of_nat (len - 3 + 2)))
     else if len = 3 \<and> is_in_copy_mode then
       (if shift < 2 ^ 11 + 2 ^ 10 then dump_2sequence (shift - 2 ^ 11) else Inr None)
     else res_bind flush (\<lambda>out. res_bind (emit cap (len_bytes shift len) out) (\<lambda>out.
       res_bind (emit cap (shift_bytes (if shift < 2 ^ 14 then shift else shift + 1)) out) (\<lambda>out. Inr (Some out)))))"

text \<open>The decision between a literal (\<open>None\<close>) and a match, cropped to the end of the text.\<close>

definition take_match :: "bool \<Rightarrow> nat \<Rightarrow> byte list \<Rightarrow> nat \<Rightarrow> bool \<Rightarrow> byte list \<Rightarrow> nat \<Rightarrow> nat \<Rightarrow> nat \<times> nat option \<Rightarrow> (nat \<times> byte list) option res" where
  "take_match una cap t in_len bof out copy_start i m =
    (let len = (if i + fst m > in_len then in_len - i else fst m) in
     if fst m < 3 \<or> len < 3 then Inr None
     else case snd m of None \<Rightarrow> Inl Out_of_bounds
       | Some best \<Rightarrow> res_bind (record_match una cap t bof out copy_start i len best) (\<lambda>r. Inr (map_option (Pair len) r)))"

lemma take_match_len: "take_match una cap t in_len bof out copy_start i m = Inr (Some (len, out')) \<Longrightarrow> 3 \<le> len"
  by (auto simp: take_match_def Let_def res_bind_Inr split: if_splits option.splits)

definition finish :: "bool \<Rightarrow> nat \<Rightarrow> byte list \<Rightarrow> bool \<Rightarrow> byte list \<Rightarrow> nat \<Rightarrow> nat \<Rightarrow> byte list res" where
  "finish una cap t bof out copy_start i =
    res_bind (if i - copy_start \<noteq> 0 then flush_copy_command una cap t bof out copy_start (i - copy_start) else Inr out) (emit cap [17, 0, 0])"

function compress_loop :: "bool \<Rightarrow> nat \<Rightarrow> byte list \<Rightarrow> nat \<Rightarrow> lz_hash \<Rightarrow> bool \<Rightarrow> byte list \<Rightarrow> nat \<Rightarrow> nat \<Rightarrow> byte list res" where
  "compress_loop una cap t in_len H bof out copy_start i =
    (if i < in_len then
       res_bind (hashf t i) (\<lambda>hash.
       res_bind (if hash < HASH_SIZE then find_match t H (hash_tab H hash) i in_len else Inl Out_of_bounds) (\<lambda>m.
       res_bind (take_match una cap t in_len bof out copy_start i m) (\<lambda>r.
       case r of
         None \<Rightarrow> res_bind (hash_string hash H) (\<lambda>H. compress_loop una cap t in_len H bof out copy_start (i + 1))
       | Some (len, out) \<Rightarrow> res_bind (hash_string hash H) (\<lambda>H. res_bind (hash_strings t (i + 1) (len - 1) H) (\<lambda>H.
           compress_loop una cap t in_len H False out (i + len) (i + len))))))
     else finish una cap t bof out copy_start i)"
  by pat_completeness auto
termination
  by (relation "measure (\<lambda>(una, cap, t, in_len, H, bof, out, copy_start, i). in_len - i)") (auto dest: take_match_len)

definition lizard_compress :: "bool \<Rightarrow> nat \<Rightarrow> (nat \<Rightarrow> hash_record) \<Rightarrow> byte list \<Rightarrow> nat \<Rightarrow> byte list res" where
  "lizard_compress una cap junk t in_len =
    compress_loop una cap t in_len \<lparr>hash_tab = \<lambda>_. 0, hash_rec = junk, lz_head = 1, to_delete = False\<rparr> True [] 0 0"

section \<open>Decompression\<close>

lemma char_at_Inr: "char_at t i = Inr x \<longleftrightarrow> i < length t \<and> x = t ! i"
  by (auto simp: char_at_def)

function read_unary_value :: "byte list \<Rightarrow> nat \<Rightarrow> uint \<Rightarrow> (nat \<times> uint) res" where
  "read_unary_value inp i l = res_bind (char_at inp i) (\<lambda>b. if b = 0 then read_unary_value inp (i + 1) (l + 255) else Inr (i + 1, l + ucast b))"
  by pat_completeness auto
termination
  by (relation "measure (\<lambda>(inp, i, l). length inp - i)") (auto simp: char_at_Inr)

declare read_unary_value.simps [simp del] dump_unary_value.simps [simp del] compress_loop.simps [simp del] cmp_rest.simps [simp del]

text \<open>A command: a copy of \<open>len\<close> characters of the input, of \<open>len\<close> characters at the distance \<open>pos\<close> in the output, or the end.\<close>

datatype lz_command = Copy_command uint | Window uint uint | Eof

definition lz_len :: "byte list \<Rightarrow> nat \<Rightarrow> uint \<Rightarrow> uint \<Rightarrow> (nat \<times> uint) res" where
  "lz_len inp i len base = (if len = 0 then res_bind (read_unary_value inp i 0) (\<lambda>(i, l). Inr (i, l + base)) else Inr (i, len + 2))"

definition lz_command_at :: "byte list \<Rightarrow> nat \<Rightarrow> nat \<Rightarrow> (nat \<times> lz_command) res" where
  "lz_command_at inp expect_copy_command i = res_bind (char_at inp i) (\<lambda>b. let c = (ucast b :: uint); i = i + 1 in
    if c < 0x10 then
      if expect_copy_command = 1 then
        (if c = 0 then res_bind (read_unary_value inp i 0) (\<lambda>(i, len). Inr (i, Copy_command (len + 18))) else Inr (i, Copy_command (c + 3)))
      else res_bind (char_at inp i) (\<lambda>b. let pos = push_bit 6 (c AND 0xc) OR ucast b in
        if expect_copy_command = 2 then Inr (i + 1, Window (pos + 2 ^ 11 + 1) 3) else Inr (i + 1, Window (pos + 1) 2))
    else if c < 0x20 then
      res_bind (lz_len inp i (c AND 0x7) 9) (\<lambda>(i, len). res_bind (char_at inp i) (\<lambda>b. res_bind (char_at inp (i + 1)) (\<lambda>b'.
      let pos = push_bit 11 (c AND 0x8) OR push_bit 6 (ucast b AND 0xfc) OR ucast b' in
      if pos = 0 then Inr (i + 2, Eof) else Inr (i + 2, Window pos len))))
    else if c < 0x40 then
      res_bind (lz_len inp i (c AND 0x1f) 33) (\<lambda>(i, len). res_bind (char_at inp i) (\<lambda>b. res_bind (char_at inp (i + 1)) (\<lambda>b'.
      Inr (i + 2, Window ((push_bit 6 (ucast b AND 0xfc) OR ucast b') + 1) len))))
    else res_bind (char_at inp i) (\<lambda>b. Inr (i + 1, Window ((push_bit 6 (c AND 0x1c) OR ucast b) + 1) (drop_bit 5 (c AND 0xe0) - 2 + 3))))"

text \<open>The copy from the sliding window.\<close>

primrec copy_overlapping :: "nat \<Rightarrow> nat \<Rightarrow> nat \<Rightarrow> byte list \<Rightarrow> byte list res" where
  "copy_overlapping cap pos 0 out = Inr out"
| "copy_overlapping cap pos (Suc len) out = (if 1 \<le> pos \<and> pos \<le> length out then
     res_bind (emit cap [out ! (length out - pos)] out) (copy_overlapping cap pos len) else Inl Out_of_bounds)"

definition copy_window :: "nat \<Rightarrow> nat \<Rightarrow> nat \<Rightarrow> byte list \<Rightarrow> byte list res" where
  "copy_window cap pos len out = (if len \<le> pos then
      (if pos \<le> length out then emit cap (take len (drop (length out - pos) out)) out else Inl Out_of_bounds)
    else copy_overlapping cap pos len out)"

text \<open>The copy-bits behind a match, with the state that follows.\<close>

definition copy_bits :: "bool \<Rightarrow> nat \<Rightarrow> byte list \<Rightarrow> nat \<Rightarrow> byte list \<Rightarrow> (nat \<times> byte list \<times> nat) res" where
  "copy_bits una cap inp i out = res_bind (char_at inp (i - 2)) (\<lambda>b. let len = unat (b AND 3) in
     if len \<noteq> 0 then res_bind (if una then emit_u32 cap inp i len out else emit_from cap inp i len out) (\<lambda>out. Inr (i + len, out, 0))
     else Inr (i, out, 1))"

lemma read_unary_value_less: "read_unary_value inp i l = Inr (j, v) \<Longrightarrow> i < j"
proof (induction inp i l rule: read_unary_value.induct)
  case (1 inp i l)
  then show ?case using read_unary_value.simps [of inp i l] by (cases "char_at inp i") (auto split: if_splits)
qed

lemma lz_command_less: "lz_command_at inp e i = Inr (j, c) \<Longrightarrow> i < j \<and> i < length inp"
  by (auto simp: lz_command_at_def lz_len_def res_bind_Inr char_at_Inr Let_def dest!: read_unary_value_less split: if_splits)

lemma copy_bits_le: "copy_bits una cap inp i out = Inr (j, out', e) \<Longrightarrow> i \<le> j"
  by (auto simp: copy_bits_def res_bind_Inr Let_def split: if_splits)

function decompress_loop :: "bool \<Rightarrow> nat \<Rightarrow> byte list \<Rightarrow> nat \<Rightarrow> nat \<Rightarrow> byte list \<Rightarrow> byte list res" where
  "decompress_loop una cap inp expect_copy_command i out =
    res_bind (lz_command_at inp expect_copy_command i) (\<lambda>(i, c). case c of
      Eof \<Rightarrow> Inr out
    | Copy_command len \<Rightarrow> res_bind (emit_from cap inp i (unat len) out) (decompress_loop una cap inp 2 (i + unat len))
    | Window pos len \<Rightarrow> res_bind (copy_window cap (unat pos) (unat len) out) (\<lambda>out.
        res_bind (copy_bits una cap inp i out) (\<lambda>(i, out, e). decompress_loop una cap inp e i out)))"
  by pat_completeness auto
termination
  by (relation "measure (\<lambda>(una, cap, inp, e, i, out). length inp - i)") (auto dest!: lz_command_less copy_bits_le)

declare decompress_loop.simps [simp del]

definition lizard_decompress :: "bool \<Rightarrow> nat \<Rightarrow> byte list \<Rightarrow> byte list res" where
  "lizard_decompress una cap inp = res_bind (char_at inp 0) (\<lambda>b.
     if b > 17 then res_bind (emit_from cap inp 1 (unat b - 17) []) (decompress_loop una cap inp 2 (1 + (unat b - 17)))
     else decompress_loop una cap inp 1 0 [])"

end
