(* ===== verification/Lizard_Hash.thy ===== *)
theory Lizard_Hash
  imports Lizard
begin

text \<open>
  The hash table of \<open>lizard_compress\<close>: each collision chain holds the recorded positions with its hash value, ordered by age, and
  \<open>find_match\<close> returns matches only.
\<close>

section \<open>The hash function\<close>

definition hash_at :: "byte list \<Rightarrow> nat \<Rightarrow> nat" where
  "hash_at t p = unat (t ! p) XOR push_bit 3 (unat (t ! (p + 1))) XOR push_bit 6 (unat (t ! (p + 2)))"

lemma hashf_at: "p + 2 < length t \<Longrightarrow> hashf t p = Inr (hash_at t p)"
  by (simp add: hashf_def hash_at_def char_at_def)

lemma hash_at_less: "hash_at t p < HASH_SIZE"
proof -
  have "take_bit 14 (unat a) = unat a \<and> take_bit 14 (push_bit 3 (unat a)) = push_bit 3 (unat a) \<and> take_bit 14 (push_bit 6 (unat a)) = push_bit 6 (unat a)"
    for a :: byte using unat_less_256 [of a] by (simp add: take_bit_nat_eq_self_iff push_bit_eq_mult)
  then have "take_bit 14 (hash_at t p) = hash_at t p" by (simp add: hash_at_def take_bit_xor)
  then show ?thesis by (simp add: take_bit_nat_eq_self_iff HASH_SIZE_def)
qed

lemma hash_at_inj:
  assumes "hash_at t p = hash_at t q" "t ! p = t ! q" "t ! (p + 2) = t ! (q + 2)"
  shows "t ! (p + 1) = t ! (q + 1)"
proof -
  have c: "x XOR y XOR z = x XOR y' XOR z \<longleftrightarrow> y = y'" for x y y' z :: nat
    by (metis xor.assoc xor.commute xor_self_eq xor.left_neutral)
  have "push_bit 3 (unat (t ! (p + 1))) = push_bit 3 (unat (t ! (q + 1)))" using assms by (simp add: hash_at_def c)
  then have "drop_bit 3 (push_bit 3 (unat (t ! (p + 1)))) = drop_bit 3 (push_bit 3 (unat (t ! (q + 1))))" by simp
  then have "unat (t ! (p + 1)) = unat (t ! (q + 1))" by (simp add: drop_bit_push_bit)
  then show ?thesis by (simp add: word_unat_eq_iff)
qed

section \<open>The chains\<close>

text \<open>The record of a position; the last position below \<open>k\<close> and not below \<open>lo\<close> with a hash value.\<close>

definition record_of :: "nat \<Rightarrow> nat" where
  "record_of p = p mod 32767 + 1"

primrec last_hash :: "(nat \<Rightarrow> nat) \<Rightarrow> nat \<Rightarrow> nat \<Rightarrow> nat \<Rightarrow> nat option" where
  "last_hash F h lo 0 = None"
| "last_hash F h lo (Suc k) = (if k < lo then None else if F k = h then Some k else last_hash F h lo k)"

definition record_opt :: "nat option \<Rightarrow> nat" where
  "record_opt x = (case x of None \<Rightarrow> 0 | Some p \<Rightarrow> record_of p)"

text \<open>The hash table with the positions from \<open>lo\<close> up to \<open>n\<close>.\<close>

definition prev_ok :: "(nat \<Rightarrow> nat) \<Rightarrow> nat \<Rightarrow> nat \<Rightarrow> nat \<Rightarrow> bool" where
  "prev_ok F n p v \<longleftrightarrow> last_hash F (F p) p n = Some p \<and> v = set_bit 15 (F p) \<or>
     (\<exists>q. p < q \<and> q < n \<and> F q = F p \<and> last_hash F (F p) p q = Some p \<and> v = record_of q)"

definition chains :: "(nat \<Rightarrow> nat) \<Rightarrow> nat \<Rightarrow> nat \<Rightarrow> lz_hash \<Rightarrow> bool" where
  "chains F lo n H \<longleftrightarrow> (\<forall>h. hash_tab H h = record_opt (last_hash F h lo n)) \<and>
     (\<forall>p. lo \<le> p \<and> p < n \<longrightarrow> hr_next (hash_rec H (record_of p)) = record_opt (last_hash F (F p) lo p)) \<and>
     (\<forall>p. lo \<le> p \<and> p < n \<longrightarrow> prev_ok F n p (hr_prev (hash_rec H (record_of p))))"

definition hash_inv :: "(nat \<Rightarrow> nat) \<Rightarrow> nat \<Rightarrow> lz_hash \<Rightarrow> bool" where
  "hash_inv F n H \<longleftrightarrow> lz_head H = record_of n \<and> (to_delete H \<longleftrightarrow> 32767 \<le> n) \<and> chains F (n - 32767) n H"

lemma last_hash_Some: "last_hash F h lo n = Some p \<Longrightarrow> lo \<le> p \<and> p < n \<and> F p = h"
  by (induction n) (auto split: if_splits)

lemma last_hash_empty: "n \<le> lo \<Longrightarrow> last_hash F h lo n = None"
  by (cases n) auto

lemma last_hash_next: "last_hash F h (Suc lo) n = (if last_hash F h lo n = Some lo then None else last_hash F h lo n)"
proof (induction n)
  case (Suc n)
  then show ?case using last_hash_empty [of n lo F h] by auto
qed simp

lemma last_hash_higher: "last_hash F h lo n = Some p \<Longrightarrow> lo \<le> q \<Longrightarrow> q \<le> p \<Longrightarrow> last_hash F h q n = Some p"
  by (induction n) (auto split: if_splits dest: last_hash_Some)

lemma last_hash_lower: "last_hash F h p q = Some p \<Longrightarrow> lo \<le> p \<Longrightarrow> last_hash F h lo q = Some p"
  by (induction q) (auto split: if_splits)

lemma record_of_range: "0 < record_of p" "record_of p < HASH_RECORDS"
  by (simp_all add: record_of_def HASH_RECORDS_def)

lemma record_of_inj: "record_of p = record_of q \<Longrightarrow> p \<le> q \<Longrightarrow> q < p + 32767 \<Longrightarrow> p = q"
proof -
  assume a: "record_of p = record_of q" "p \<le> q" "q < p + 32767"
  then have "q mod 32767 = p mod 32767" by (simp add: record_of_def)
  then have "32767 dvd q - p" using mod_eq_dvd_iff_nat [OF a(2)] by simp
  then show "p = q" using a(2,3) dvd_imp_le [of 32767 "q - p"] by (cases "q - p = 0") auto
qed

lemma record_opt_0: "record_opt x = 0 \<longleftrightarrow> x = None"
  by (simp add: record_opt_def record_of_def split: option.split)

lemma set_bit_15: "h < HASH_SIZE \<Longrightarrow> take_bit 15 (set_bit 15 h) = h \<and> bit (set_bit 15 h) 15 \<and> take_bit 16 (set_bit 15 h) = set_bit 15 h" for h :: nat
proof -
  assume "h < HASH_SIZE"
  then have h: "take_bit 15 h = h" by (simp add: take_bit_nat_eq_self_iff HASH_SIZE_def)
  have "take_bit 16 h = h" using \<open>h < HASH_SIZE\<close> by (simp add: take_bit_nat_eq_self_iff HASH_SIZE_def)
  then show ?thesis using h by (simp add: take_bit_set_bit_eq bit_set_bit_iff)
qed

lemma record_of_bits: "take_bit 15 (record_of p) = record_of p \<and> \<not> bit (record_of p) 15 \<and> take_bit 16 (record_of p) = record_of p"
proof -
  have r: "record_of p < 32768" using record_of_range(2) [of p] by (simp add: HASH_RECORDS_def)
  then have "take_bit 15 (record_of p) = record_of p" by (simp add: take_bit_nat_eq_self_iff)
  moreover from this have "\<not> bit (record_of p) 15" by (metis bit_take_bit_iff less_irrefl)
  ultimately show ?thesis using r by (simp add: take_bit_nat_eq_self_iff)
qed

lemma last_hash_greatest: "last_hash F h lo n = Some p \<Longrightarrow> p < q \<Longrightarrow> q < n \<Longrightarrow> F q \<noteq> h"
  by (induction n) (auto split: if_splits simp: less_Suc_eq)

lemma chainsD:
  assumes "chains F lo n H"
  shows "hash_tab H h = record_opt (last_hash F h lo n)"
    and "lo \<le> p \<Longrightarrow> p < n \<Longrightarrow> hr_next (hash_rec H (record_of p)) = record_opt (last_hash F (F p) lo p)"
    and "lo \<le> p \<Longrightarrow> p < n \<Longrightarrow> prev_ok F n p (hr_prev (hash_rec H (record_of p)))"
  using assms by (simp_all add: chains_def)

lemma live_distinct: "lo \<le> p \<Longrightarrow> p < n \<Longrightarrow> lo \<le> q \<Longrightarrow> q < n \<Longrightarrow> n \<le> lo + 32767 \<Longrightarrow> record_of p = record_of q \<longleftrightarrow> p = q"
  using record_of_inj [of p q] record_of_inj [of q p] by (cases "p \<le> q") auto

text \<open>The record that is reused is the oldest one, so it is the last of its chain.\<close>

lemma unlink_head:
  assumes "chains F lo n H" "lo < n" "last_hash F (F lo) lo n = Some lo"
  shows "chains F (Suc lo) n (H\<lparr>hash_tab := (hash_tab H)(F lo := 0)\<rparr>)"
proof -
  have "last_hash F h lo n \<noteq> Some lo" if "h \<noteq> F lo" for h using that last_hash_Some [of F h lo n lo] by auto
  moreover have "last_hash F (F p) lo p \<noteq> Some lo" if "lo < p" "p < n" for p
    using that last_hash_Some [of F "F p" lo p lo] last_hash_greatest [OF assms(3) that] by auto
  ultimately show ?thesis using assms(3) chainsD [OF assms(1)] by (auto simp: chains_def last_hash_next record_opt_0 Suc_le_eq)
qed

lemma unlink_tail:
  assumes "chains F lo n H" "lo < q" "q < n" "n \<le> lo + 32767" "F q = F lo" "last_hash F (F lo) lo q = Some lo"
  shows "chains F (Suc lo) n (H\<lparr>hash_rec := (hash_rec H)(record_of q := (hash_rec H (record_of q))\<lparr>hr_next := 0\<rparr>)\<rparr>)"
proof -
  have "last_hash F h lo n \<noteq> Some lo" for h
    using last_hash_Some [of F h lo n lo] last_hash_greatest [of F h lo n lo q] assms(2,3,5) by auto
  moreover have "last_hash F (F p) lo p \<noteq> Some lo" if "lo < p" "p < n" "p \<noteq> q" for p
    using that last_hash_Some [of F "F p" lo p lo] last_hash_greatest [OF assms(6), of p] last_hash_greatest [of F "F p" lo p lo q] assms(2,5) by (cases "p < q") auto
  moreover have "record_of p = record_of q \<longleftrightarrow> p = q" if "lo < p" "p < n" for p
    using live_distinct [of lo p n q] that assms(2-4) by auto
  ultimately show ?thesis using assms(5,6) chainsD [OF assms(1)] by (auto simp: chains_def last_hash_next record_opt_0 Suc_le_eq)
qed

lemma unlink_record_ok:
  assumes "hash_inv F n H" "\<And>p. F p < HASH_SIZE"
  shows "chains F (n - 32766) n (unlink_record H) \<and> lz_head (unlink_record H) = record_of n \<and> to_delete (unlink_record H) = to_delete H \<and>
    (to_delete H \<longrightarrow> bit (hr_prev (hash_rec H (lz_head H))) 15 \<longrightarrow> take_bit 15 (hr_prev (hash_rec H (lz_head H))) < HASH_SIZE)"
proof (cases "32767 \<le> n")
  case False
  then have "n - 32767 = n - 32766" by simp
  then show ?thesis using assms(1) False by (simp add: hash_inv_def unlink_record_def)
next
  case True
  define lo where "lo = n - 32767"
  have lo: "lo < n" "n = lo + 32767" "n - 32766 = Suc lo" using True by (auto simp: lo_def)
  have r: "record_of n = record_of lo" by (simp add: record_of_def lo(2))
  have c: "chains F lo n H" "lz_head H = record_of lo" "to_delete H" using assms(1) True r by (simp_all add: hash_inv_def lo_def)
  have "prev_ok F n lo (hr_prev (hash_rec H (record_of lo)))" using chainsD(3) [OF c(1), of lo] lo(1) by simp
  then show ?thesis unfolding prev_ok_def
  proof (elim disjE exE conjE)
    assume h: "last_hash F (F lo) lo n = Some lo" "hr_prev (hash_rec H (record_of lo)) = set_bit 15 (F lo)"
    then show ?thesis using unlink_head [OF c(1) lo(1) h(1)] c(2,3) lo(3) set_bit_15 [OF assms(2), of lo] assms(2) r
      by (simp add: unlink_record_def Let_def)
  next
    fix q assume q: "lo < q" "q < n" "F q = F lo" "last_hash F (F lo) lo q = Some lo" "hr_prev (hash_rec H (record_of lo)) = record_of q"
    then show ?thesis using unlink_tail [OF c(1) q(1,2) _ q(3,4)] c(2,3) lo(2,3) record_of_bits [of q] r
      by (simp add: unlink_record_def Let_def)
  qed
qed

text \<open>The new record becomes the first of its chain.\<close>

lemma add_ok:
  assumes "chains F lo n H" "lo \<le> n" "n < lo + 32767"
    and recs: "recs = (hash_rec H)(record_of n := \<lparr>hr_next = hash_tab H (F n), hr_prev = set_bit 15 (F n)\<rparr>)"
    and recs': "recs' = recs(hash_tab H (F n) := (recs (hash_tab H (F n)))\<lparr>hr_prev := record_of n\<rparr>)"
  shows "chains F lo (Suc n) (H\<lparr>hash_rec := recs', hash_tab := (hash_tab H)(F n := record_of n)\<rparr>)"
proof -
  note c = chainsD [OF assms(1)]
  have d: "record_of p = record_of q \<longleftrightarrow> p = q" if "lo \<le> p" "p \<le> n" "lo \<le> q" "q \<le> n" for p q
    using live_distinct [of lo p "Suc n" q] that assms(3) by simp
  have new: "record_of p = hash_tab H (F n) \<longleftrightarrow> last_hash F (F n) lo n = Some p" if "lo \<le> p" "p \<le> n" for p
  proof (cases "last_hash F (F n) lo n")
    case None
    then show ?thesis using record_of_range(1) [of p] by (simp add: c(1) record_opt_def)
  next
    case (Some x)
    then show ?thesis using d [of p x] that last_hash_Some [OF Some] by (auto simp: c(1) record_opt_def)
  qed
  have "record_of n \<noteq> hash_tab H (F n)" using new [of n] last_hash_Some [of F "F n" lo n n] assms(2) by auto
  then have n: "hr_next (recs' (record_of n)) = hash_tab H (F n)" "hr_prev (recs' (record_of n)) = set_bit 15 (F n)"
    by (simp_all add: recs recs')
  have old: "hr_next (recs' (record_of p)) = hr_next (hash_rec H (record_of p))" if "lo \<le> p" "p < n" for p
    using d [of p n] that assms(2) by (auto simp: recs recs')
  have prev: "hr_prev (recs' (record_of p)) = (if last_hash F (F n) lo n = Some p then record_of n else hr_prev (hash_rec H (record_of p)))"
    if "lo \<le> p" "p < n" for p
    using d [of p n] new [of p] that assms(2) by (auto simp: recs recs')
  have "prev_ok F (Suc n) p (hr_prev (recs' (record_of p)))" if p: "lo \<le> p" "p < n" for p
  proof (cases "last_hash F (F n) lo n = Some p")
    case True
    then have "F p = F n" "last_hash F (F p) p n = Some p" using last_hash_Some [OF True] last_hash_higher [OF True p(1)] by auto
    then show ?thesis using True prev [OF p] p(2) by (auto simp: prev_ok_def)
  next
    case False
    from c(3) [OF p, unfolded prev_ok_def] show ?thesis
    proof (elim disjE exE conjE)
      assume h: "last_hash F (F p) p n = Some p" "hr_prev (hash_rec H (record_of p)) = set_bit 15 (F p)"
      then have "F p \<noteq> F n" using False last_hash_lower [OF h(1) p(1)] by auto
      then show ?thesis using h False prev [OF p] p(2) by (auto simp: prev_ok_def)
    next
      fix q assume "p < q" "q < n" "F q = F p" "last_hash F (F p) p q = Some p" "hr_prev (hash_rec H (record_of p)) = record_of q"
      then show ?thesis using False prev [OF p] by (auto simp: prev_ok_def)
    qed
  qed
  moreover have "prev_ok F (Suc n) n (set_bit 15 (F n))" by (simp add: prev_ok_def)
  ultimately show ?thesis using c(1,2) n old assms(2) by (auto simp: chains_def less_Suc_eq record_opt_def)
qed

lemma chains_head [simp]: "chains F lo n (H\<lparr>lz_head := a\<rparr>) = chains F lo n H" "chains F lo n (H\<lparr>lz_head := a, to_delete := b\<rparr>) = chains F lo n H"
  by (simp_all add: chains_def)

lemma record_of_Suc: "record_of (Suc n) = (if record_of n + 1 \<ge> HASH_RECORDS then 1 else record_of n + 1)"
  using mod_less_divisor [of 32767 n] by (auto simp: record_of_def HASH_RECORDS_def mod_Suc)

lemma hash_string_ok:
  assumes "hash_inv F n H" "\<And>p. F p < HASH_SIZE"
  shows "\<exists>H'. hash_string (F n) H = Inr H' \<and> hash_inv F (Suc n) H'"
proof -
  let ?U = "unlink_record H"
  let ?R = "(hash_rec ?U)(record_of n := \<lparr>hr_next = hash_tab ?U (F n), hr_prev = set_bit 15 (F n)\<rparr>)"
  let ?A = "?U\<lparr>hash_rec := ?R(hash_tab ?U (F n) := (?R (hash_tab ?U (F n)))\<lparr>hr_prev := record_of n\<rparr>), hash_tab := (hash_tab ?U)(F n := record_of n)\<rparr>"
  note u = unlink_record_ok [OF assms]
  have head: "lz_head H = record_of n" "to_delete H \<longleftrightarrow> 32767 \<le> n" using assms(1) by (simp_all add: hash_inv_def)
  have "hash_tab ?U (F n) < HASH_RECORDS"
    using chainsD(1) [OF u [THEN conjunct1]] record_of_range(2) by (simp add: record_opt_def HASH_RECORDS_def split: option.split)
  then have eq: "hash_string (F n) H = (if record_of n + 1 \<ge> HASH_RECORDS then Inr (?A\<lparr>lz_head := 1, to_delete := True\<rparr>) else Inr (?A\<lparr>lz_head := record_of n + 1\<rparr>))"
    using u head record_of_range(2) [of n] assms(2) [of n] set_bit_15 [OF assms(2), of n] record_of_bits [of n] by (simp add: hash_string_def Let_def)
  have A: "chains F (Suc n - 32767) (Suc n) ?A" using add_ok [OF u [THEN conjunct1] _ _ refl refl] by simp
  show ?thesis
  proof (cases "record_of n + 1 \<ge> HASH_RECORDS")
    case True
    then have "32766 \<le> n" by (cases "n < 32766") (auto simp: record_of_def HASH_RECORDS_def)
    then show ?thesis unfolding eq using True A record_of_Suc [of n] by (simp only: hash_inv_def if_True chains_head) simp
  next
    case False
    then have "n \<noteq> 32766" by (auto simp: record_of_def HASH_RECORDS_def)
    then show ?thesis unfolding eq using False A u head record_of_Suc [of n] by (simp only: hash_inv_def if_False chains_head) auto
  qed
qed

lemma hash_strings_ok:
  "hash_inv (hash_at t) i H \<Longrightarrow> i + n + 1 < length t \<Longrightarrow> \<exists>H'. hash_strings t i n H = Inr H' \<and> hash_inv (hash_at t) (i + n) H'"
proof (induction n arbitrary: i H)
  case (Suc n)
  obtain H' where H': "hash_string (hash_at t i) H = Inr H'" "hash_inv (hash_at t) (Suc i) H'"
    using hash_string_ok [OF Suc.prems(1) hash_at_less] by blast
  then show ?case using Suc.IH [OF H'(2)] Suc.prems(2) by (simp add: hashf_at)
qed simp

lemma hash_inv_init: "hash_inv F 0 \<lparr>hash_tab = \<lambda>_. 0, hash_rec = junk, lz_head = 1, to_delete = False\<rparr>"
  by (simp add: hash_inv_def chains_def record_of_def record_opt_def)

section \<open>Matches\<close>

definition agree :: "byte list \<Rightarrow> nat \<Rightarrow> nat \<Rightarrow> nat \<Rightarrow> bool" where
  "agree t b i len \<longleftrightarrow> (\<forall>j<len. t ! (b + j) = t ! (i + j))"

lemma agree_Suc: "agree t b i (Suc n) \<longleftrightarrow> agree t b i n \<and> t ! (b + n) = t ! (i + n)"
  by (auto simp: agree_def less_Suc_eq)

lemma agree_le: "agree t b i n \<Longrightarrow> m \<le> n \<Longrightarrow> agree t b i m"
  by (auto simp: agree_def)

lemma same_char_at: "c < length t \<Longrightarrow> s < length t \<Longrightarrow> same_char t c s = Inr (t ! c = t ! s)"
  by (simp add: same_char_def char_at_def)

lemma cmp_chars_ok:
  assumes "agree t b i k" "i + k + n \<le> length t" "b < i"
  shows "\<exists>m e. cmp_chars t (b + k) (i + k) n = Inr (b + m, e) \<and> k \<le> m \<and> (if e then m = k + n \<and> agree t b i m else agree t b i (m - 1))"
  using assms
proof (induction n arbitrary: k)
  case (Suc n)
  show ?case
  proof (cases "t ! (b + k) = t ! (i + k)")
    case True
    then obtain m e where "cmp_chars t (b + Suc k) (i + Suc k) n = Inr (b + m, e) \<and> Suc k \<le> m \<and> (if e then m = Suc k + n \<and> agree t b i m else agree t b i (m - 1))"
      using Suc.IH [of "Suc k"] Suc.prems by (auto simp: agree_Suc)
    then show ?thesis using True Suc.prems by (intro exI [of _ m] exI [of _ e]) (auto simp: same_char_at)
  next
    case False
    then show ?thesis using Suc.prems by (intro exI [of _ "Suc k"] exI [of _ False]) (simp add: same_char_at)
  qed
qed (auto intro!: exI [of _ k])

lemma cmp_rest_ok:
  assumes "agree t b i k" "e < length t" "b < i"
  shows "\<exists>m. cmp_rest t (b + k) (i + k) e = Inr (b + m) \<and> k \<le> m \<and> agree t b i (m - 1)"
  using assms
proof (induction "Suc e - (i + k)" arbitrary: k)
  case 0
  then show ?case using agree_le [OF 0(2), of "k - 1"] by (intro exI [of _ k]) (simp add: cmp_rest.simps [of t "b + k"])
next
  case (Suc x)
  then have le: "i + k \<le> e" by simp
  show ?case
  proof (cases "t ! (b + k) = t ! (i + k)")
    case True
    have "x = Suc e - (i + Suc k)" using Suc.hyps(2) by simp
    then obtain m where "cmp_rest t (b + Suc k) (i + Suc k) e = Inr (b + m)" "Suc k \<le> m" "agree t b i (m - 1)"
      using Suc.hyps(1) [of "Suc k"] Suc.prems True by (auto simp: agree_Suc)
    then show ?thesis using True Suc.prems le by (intro exI [of _ m]) (simp add: same_char_at cmp_rest.simps [of t "b + k"])
  next
    case False
    then show ?thesis using Suc.prems le by (intro exI [of _ "Suc k"]) (simp add: same_char_at cmp_rest.simps [of t "b + k"])
  qed
qed

lemma agree_3:
  assumes "hash_at t b = hash_at t i" "t ! b = t ! i" "t ! (b + 2) = t ! (i + 2)"
  shows "agree t b i 3"
  using assms hash_at_inj [OF assms] by (auto simp: agree_def less_Suc_eq numeral_3_eq_3 numeral_2_eq_2)

lemma match_len_ok:
  assumes "hash_at t b = hash_at t i" "b < i" "i + 7 < length t" "e < length t"
  shows "\<exists>m. match_len t b i e = Inr m \<and> (\<forall>len. m = Some len \<longrightarrow> agree t b i len)"
proof (cases "t ! b = t ! i \<and> t ! (b + 2) = t ! (i + 2)")
  case True
  then have a3: "agree t b i 3" using agree_3 [OF assms(1)] by simp
  have "\<exists>m. (if t ! (b + 3) = t ! (i + 3) then res_bind (cmp_chars t (b + 4) (i + 4) 4) (\<lambda>(cmp, q). if q then cmp_rest t cmp (i + 8) e else Inr cmp)
      else Inr (b + 4)) = Inr (b + m) \<and> agree t b i (m - 1)"
  proof (cases "t ! (b + 3) = t ! (i + 3)")
    case True
    then have "agree t b i 4" using a3 agree_Suc [of t b i 3] by simp
    then obtain m q where m: "cmp_chars t (b + 4) (i + 4) 4 = Inr (b + m, q)" "if q then m = 8 \<and> agree t b i m else agree t b i (m - 1)"
      using cmp_chars_ok [of t b i 4 4] assms(2,3) by (auto split: if_splits)
    then show ?thesis using True cmp_rest_ok [of t b i 8 e] assms(2,4) by (cases q) auto
  next
    case False
    then show ?thesis using a3 by (intro exI [of _ 4]) simp
  qed
  then obtain m where m: "(if t ! (b + 3) = t ! (i + 3) then res_bind (cmp_chars t (b + 4) (i + 4) 4) (\<lambda>(cmp, q). if q then cmp_rest t cmp (i + 8) e else Inr cmp)
      else Inr (b + 4)) = Inr (b + m)" "agree t b i (m - 1)" by blast
  have "match_len t b i e = Inr (Some (m - 1))" using True assms(2,3) m(1) by (simp add: match_len_def same_char_at)
  then show ?thesis using m(2) by simp
next
  case False
  then show ?thesis using assms(2,3) by (auto simp: match_len_def same_char_at)
qed

lemma locate_record:
  assumes "p < n" "n \<le> p + 32767"
  shows "locate_string n (record_of p) (record_of n) = Inr p"
proof -
  obtain d where d: "n = p + d" "0 < d" "d \<le> 32767" using assms by (metis add.commute le_add_diff_inverse less_imp_le_nat nat_add_left_cancel_le zero_less_diff)
  have p: "p mod 32767 < 32767" by simp
  have "n mod 32767 = (if p mod 32767 + d < 32767 then p mod 32767 + d else p mod 32767 + d - 32767)"
  proof -
    have "n mod 32767 = (p mod 32767 + d) mod 32767" by (simp add: d(1) mod_simps)
    moreover have "(p mod 32767 + d) mod 32767 = p mod 32767 + d - 32767" if "\<not> p mod 32767 + d < 32767"
      using that p d(3) by (subst le_mod_geq) auto
    ultimately show ?thesis by simp
  qed
  then show ?thesis using p d by (auto simp: locate_string_def record_of_def HASH_RECORDS_def Let_def split: if_splits)
qed

definition good_match :: "byte list \<Rightarrow> nat \<Rightarrow> nat \<times> nat option \<Rightarrow> bool" where
  "good_match t i m \<longleftrightarrow> fst m = 0 \<or> (\<exists>b. snd m = Some b \<and> b < i \<and> i \<le> b + 32767 \<and> agree t b i (fst m))"

lemma find_loop_ok:
  assumes "hash_inv (hash_at t) i H" "i + 7 < length t" "e < length t"
  shows "good_match t i m \<Longrightarrow> k \<le> i \<Longrightarrow>
    \<exists>m'. find_loop t H i e count (record_opt (last_hash (hash_at t) (hash_at t i) (i - 32767) k)) m = Inr m' \<and> good_match t i m'"
proof (induction count arbitrary: k m)
  case (Suc count)
  let ?F = "hash_at t" and ?lo = "i - 32767"
  show ?case
  proof (cases "last_hash ?F (?F i) ?lo k")
    case None
    then show ?thesis using Suc.prems(1) by (simp add: record_opt_def)
  next
    case (Some p)
    then have p: "?lo \<le> p" "p < k" "?F p = ?F i" using last_hash_Some by auto
    then have pi: "p < i" "i \<le> p + 32767" using Suc.prems(2) by auto
    have loc: "locate_string i (record_of p) (lz_head H) = Inr p" using locate_record [OF pi] assms(1) by (simp add: hash_inv_def)
    obtain q where q: "match_len t p i e = Inr q" "\<forall>len. q = Some len \<longrightarrow> agree t p i len"
      using match_len_ok [OF p(3) pi(1) assms(2,3)] by blast
    have "hr_next (hash_rec H (record_of p)) = record_opt (last_hash ?F (?F i) ?lo p)"
      using chainsD(2) [of ?F ?lo i H p] assms(1) p pi by (simp add: hash_inv_def)
    moreover have "good_match t i (len, Some p)" if "q = Some len" for len using that q(2) pi by (auto simp: good_match_def)
    ultimately show ?thesis
      using Some loc q(1) Suc.IH [OF _ less_imp_le [OF pi(1)]] Suc.prems(1) record_of_range [of p]
      by (cases q) (auto simp: record_opt_def Let_def)
  qed
qed simp

lemma find_match_ok:
  assumes "hash_inv (hash_at t) i H" "i + 7 < length t" "e < length t"
  shows "\<exists>m. find_match t H (hash_tab H (hash_at t i)) i e = Inr m \<and> good_match t i m"
  using find_loop_ok [OF assms, of "(0, None)" i CHAIN_MAX_TESTS] assms(1) chainsD(1) [of "hash_at t" "i - 32767" i H]
  by (simp add: find_match_def good_match_def hash_inv_def)

end
