(* ===== verification/Lizard_Codec.thy ===== *)
theory Lizard_Codec
  imports Lizard
begin

text \<open>
  The commands of the LiZaRd format: the decompressor reads back each command that the compressor writes, with any copy-bits.
\<close>

section \<open>Bits\<close>

lemma mask_forms:
  "(0xfc :: uint) = push_bit 2 (mask 6)" "(0x1c :: uint) = push_bit 2 (mask 3)" "(0xe0 :: uint) = push_bit 5 (mask 3)"
  "(0xc :: uint) = push_bit 2 (mask 2)" "(0xff :: uint) = mask 8" "(3 :: uint) = mask 2"
  by (simp_all add: mask_eq_exp_minus_1)

definition pos_hi :: "uint \<Rightarrow> byte" where "pos_hi w = ucast (drop_bit 6 w AND NOT 3)"
definition pos_lo :: "uint \<Rightarrow> byte" where "pos_lo w = ucast (w AND 0xff)"

lemma shift_bytes_eq: "shift_bytes w = [pos_hi w, pos_lo w]"
  by (simp add: shift_bytes_def pos_hi_def pos_lo_def)

lemma bit_cc: "cc < 4 \<Longrightarrow> bit cc n \<Longrightarrow> n < 2" for cc :: byte
  using bit_less_exp [of cc 2 n] by simp

lemma pos_bits:
  fixes cc :: byte and w :: uint
  assumes "cc < 4"
  defines "c \<equiv> (ucast (pos_hi w OR cc) :: uint)"
  shows "push_bit 6 (c AND 0xfc) OR ucast (pos_lo w) = take_bit 14 w"
    and "push_bit 6 (c AND 0x1c) OR ucast (pos_lo w) = take_bit 11 w"
    and "push_bit 6 (c AND 0xc) OR ucast (pos_lo w) = take_bit 10 w"
    and "drop_bit 5 (c AND 0xe0) = take_bit 3 (drop_bit 11 w)"
    and "drop_bit 2 c = take_bit 6 (drop_bit 8 w)"
  unfolding c_def mask_forms pos_hi_def pos_lo_def
  by (rule bit_word_eqI, use bit_cc [OF assms(1)] in \<open>fastforce simp: bit_simps\<close>)+

lemma copy_bits_of: "cc < 4 \<Longrightarrow> (pos_hi w OR cc) AND 3 = cc"
proof -
  assume "cc < 4"
  have m: "(3 :: byte) = mask 2" by (simp add: mask_eq_exp_minus_1)
  show ?thesis unfolding pos_hi_def mask_forms m
    by (intro bit_word_eqI) (use bit_cc [OF \<open>cc < 4\<close>] in \<open>auto simp: bit_simps\<close>)
qed

section \<open>Reading\<close>

lemma char_at_drop: "drop i inp = x # xs \<Longrightarrow> char_at inp i = Inr x \<and> drop (Suc i) inp = xs"
  using Cons_nth_drop_Suc [of i inp] by (cases "i < length inp") (auto simp: char_at_def)

lemma read_unary_dump:
  "drop i inp = dump_unary_value n @ rest \<Longrightarrow> 1 \<le> n \<Longrightarrow>
   read_unary_value inp i l = Inr (i + length (dump_unary_value n), l + of_nat n) \<and> drop (i + length (dump_unary_value n)) inp = rest"
proof (induction n arbitrary: i l rule: dump_unary_value.induct)
  case (1 n)
  show ?case
  proof (cases "n > 255")
    case True
    then have d: "dump_unary_value n = 0 # dump_unary_value (n - 255)" by (simp add: dump_unary_value.simps)
    then have c: "char_at inp i = Inr 0" "drop (Suc i) inp = dump_unary_value (n - 255) @ rest" using char_at_drop [of i inp] 1(2) by auto
    have "l + 255 + of_nat (n - 255) = l + of_nat n" using True by (simp add: of_nat_diff)
    then show ?thesis using 1(1) [OF True c(2), of "l + 255"] True c(1) d read_unary_value.simps [of inp i l] by simp
  next
    case False
    then have d: "dump_unary_value n = [of_nat n]" by (simp add: dump_unary_value.simps)
    have n: "unat (of_nat n :: byte) = n" using False by (simp add: unat_of_nat)
    then have "(of_nat n :: byte) \<noteq> 0" using 1(3) by auto
    moreover have "(ucast (of_nat n :: byte) :: uint) = of_nat n" using n False unat_ucast_byte_uint [of "of_nat n"] by (simp add: word_unat_eq_iff unat_of_nat)
    ultimately show ?thesis using d char_at_drop [of i inp "of_nat n" rest] 1(2) read_unary_value.simps [of inp i l] by simp
  qed
qed

section \<open>Commands\<close>

lemma unat_div: "unat (drop_bit k w) = unat w div 2 ^ k" for w :: "'a::len word"
  unfolding unat_drop_bit_eq by (simp add: drop_bit_eq_div)

lemma pos_class:
  assumes "cc < 4"
  shows "unat (ucast (pos_hi w OR cc) :: uint) div 4 = unat w div 256 mod 64"
proof -
  have "unat (ucast (pos_hi w OR cc) :: uint) div 4 = unat (drop_bit 2 (ucast (pos_hi w OR cc) :: uint))" by (simp only: unat_div) simp
  also have "\<dots> = unat (take_bit 6 (drop_bit 8 w))" by (simp only: pos_bits(5) [OF assms])
  also have "\<dots> = unat w div 256 mod 64" by (simp only: unat_take_bit unat_div) simp
  finally show ?thesis .
qed

lemma unat_of_nat_small: "n < 256 \<Longrightarrow> unat (of_nat n :: byte) = n" "n < 2 ^ 32 \<Longrightarrow> unat (of_nat n :: uint) = n"
  by (simp_all add: unat_of_nat)

lemma ucast_of_nat_byte: "n < 256 \<Longrightarrow> (ucast (of_nat n :: byte) :: uint) = of_nat n"
  using unat_ucast_byte_uint [of "of_nat n"] by (simp add: word_unat_eq_iff unat_of_nat)

lemma command_2sequence:
  assumes "cc < 4" "shift < 2 ^ 11" "3 \<le> len" "len \<le> 8"
    and w: "w = shift OR push_bit 11 (of_nat (len - 3 + 2))"
    and inp: "drop i inp = (pos_hi w OR cc) # pos_lo w # rest"
  shows "lz_command_at inp e i = Inr (i + 2, Window (shift + 1) (of_nat len))"
proof -
  let ?c = "ucast (pos_hi w OR cc) :: uint"
  have l2: "unat (of_nat (len - 3 + 2) :: uint) = len - 3 + 2" by (rule unat_of_nat_small) (use assms(3,4) in simp)
  have "unat (of_nat (len - 3 + 2) :: uint) < 2 ^ 3" unfolding l2 using assms(3,4) by simp
  then have l: "(of_nat (len - 3 + 2) :: uint) < 2 ^ 3" by (rule less_exp_unat) simp
  have t: "take_bit 11 w = shift" "take_bit 3 (drop_bit 11 w) = of_nat (len - 3 + 2)"
    unfolding w by (rule bit_word_eqI, use bit_less_exp [OF assms(2)] bit_less_exp [OF l] in \<open>fastforce simp: bit_simps\<close>)+
  have "unat (take_bit 3 (drop_bit 11 w)) = unat w div 2048 mod 8" by (simp only: unat_take_bit unat_div) simp
  then have "2 \<le> unat w div 2048 mod 8" unfolding t(2) l2 using assms(3) by linarith
  moreover have "unat w div 256 mod 64 div 8 = unat w div 2048 mod 8"
    using div_mult2_eq [of "unat w" 256 8] mod_mult2_eq [of "unat w div 256" 8 8] by simp
  ultimately have "\<not> unat w div 256 mod 64 < 16" by linarith
  then have "\<not> unat ?c < 0x40" using pos_class [OF assms(1), of w] by linarith
  then have c: "\<not> ?c < 0x10" "\<not> ?c < 0x20" "\<not> ?c < 0x40" by (simp_all add: word_less_nat_alt)
  have "drop_bit 5 (?c AND 0xe0) - 2 + 3 = (of_nat len :: uint)"
    using assms(3) pos_bits(4) [OF assms(1), of w] t(2) by (simp add: of_nat_diff)
  then show ?thesis
    using char_at_drop [OF inp] char_at_drop [of "Suc i" inp "pos_lo w" rest] c pos_bits(2) [OF assms(1), of w] t(1)
    by (simp add: lz_command_at_def Let_def)
qed

lemma command_2copy:
  assumes "cc < 4" "w < 2 ^ 10" "drop i inp = (pos_hi w OR cc) # pos_lo w # rest"
  shows "lz_command_at inp 2 i = Inr (i + 2, Window (w + 2 ^ 11 + 1) 3)"
proof -
  let ?c = "ucast (pos_hi w OR cc) :: uint"
  have "unat w < 1024" using unat_less_exp [OF assms(2)] by simp
  then have "unat w div 256 mod 64 < 4" by linarith
  then have "unat ?c < 0x10" using pos_class [OF assms(1), of w] by linarith
  then have "?c < 0x10" by (simp add: word_less_nat_alt)
  then show ?thesis
    using char_at_drop [OF assms(3)] char_at_drop [of "Suc i" inp "pos_lo w" rest] pos_bits(3) [OF assms(1), of w] take_bit_small [OF assms(2)]
    by (simp add: lz_command_at_def Let_def)
qed

lemma command_eof: "drop i inp = [17, 0, 0] \<Longrightarrow> lz_command_at inp e i = Inr (i + 3, Eof)"
  using char_at_drop [of i inp 17 "[0, 0]"] char_at_drop [of "Suc i" inp 0 "[0]"] char_at_drop [of "Suc (Suc i)" inp 0 "[]"]
  by (simp add: lz_command_at_def lz_len_def Let_def)

lemma command_copy:
  assumes "4 \<le> len" "drop i inp = (if len \<le> 18 then [of_nat (len - 3)] else 0 # dump_unary_value (len - 18)) @ rest"
  shows "\<exists>j. lz_command_at inp 1 i = Inr (j, Copy_command (of_nat len)) \<and> drop j inp = rest"
proof (cases "len \<le> 18")
  case True
  obtain k where k: "len = k + 3" "1 \<le> k" "k \<le> 15" using that [of "len - 3"] True assms(1) by auto
  have "(of_nat k :: uint) < 0x10" "(of_nat k :: uint) \<noteq> 0" using k unat_of_nat_small(2) [of k] by (auto simp: word_less_nat_alt)
  then show ?thesis using char_at_drop [of i inp "of_nat k" rest] assms(2) True k ucast_of_nat_byte [of k] by (simp add: lz_command_at_def Let_def add.commute)
next
  case False
  then have c: "char_at inp i = Inr 0" "drop (Suc i) inp = dump_unary_value (len - 18) @ rest" using char_at_drop [of i inp 0] assms(2) by auto
  have "of_nat (len - 18) + 18 = (of_nat len :: uint)" using False by (simp add: of_nat_diff)
  then show ?thesis using read_unary_dump [OF c(2), of 0] c(1) False by (simp add: lz_command_at_def Let_def)
qed

text \<open>The length of a long match, with the low bits of the first byte or behind it.\<close>

lemma lz_len_ok:
  assumes "3 \<le> len" "2 \<le> base" "v = of_nat (if len \<le> base then len - 2 else 0)" "base < 256"
    "drop i inp = (if len \<le> base then [] else dump_unary_value (len - base)) @ rest"
  shows "\<exists>j. lz_len inp i v (of_nat base) = Inr (j, of_nat len) \<and> drop j inp = rest"
proof (cases "len \<le> base")
  case True
  obtain k where k: "len = k + 2" "1 \<le> k" "k < 2 ^ 32" using that [of "len - 2"] True assms(1,4) by auto
  then have "(of_nat k :: uint) \<noteq> 0" using unat_of_nat_small(2) [of k] by auto
  then show ?thesis using assms(3,5) True k by (simp add: lz_len_def add.commute)
next
  case False
  then have "of_nat (len - base) + of_nat base = (of_nat len :: uint)" by (simp flip: of_nat_add)
  then show ?thesis using read_unary_dump [of i inp "len - base" rest 0] assms(3,5) False by (simp add: lz_len_def)
qed

lemma bit_8: "bit (8 :: uint) n \<longleftrightarrow> n = 3" "bit (8 :: byte) n \<longleftrightarrow> n = 3" "bit (8 :: int) n \<longleftrightarrow> n = 3"
  using bit_exp_iff [where 'a = "32 word", of 3 n] bit_exp_iff [where 'a = "8 word", of 3 n] bit_exp_iff [where 'a = int, of 3 n] by auto

lemma near_byte:
  fixes b :: byte
  assumes "b < 2 ^ 5"
  defines "c \<equiv> (ucast (2 ^ 5 OR b) :: uint)"
  shows "c AND 0x1f = ucast b" "\<not> c < 0x10" "\<not> c < 0x20" "c < 0x40"
proof -
  have m: "(0x1f :: uint) = mask 5" "2 ^ 5 OR b = set_bit 5 b" by (simp_all add: mask_eq_exp_minus_1 set_bit_eq_or or.commute)
  show "c AND 0x1f = ucast b" unfolding c_def m
    by (rule bit_word_eqI) (use bit_less_exp [OF assms(1)] in \<open>fastforce simp: bit_simps\<close>)
  have "drop_bit 5 c = 1" unfolding c_def m
    by (rule bit_word_eqI) (use bit_less_exp [OF assms(1)] in \<open>fastforce simp: bit_simps bit_1_iff\<close>)
  then have "unat c div 32 = 1" using unat_div [of 5 c] by simp
  then show "\<not> c < 0x10" "\<not> c < 0x20" "c < 0x40" by (auto simp: word_less_nat_alt)
qed

lemma far_byte:
  fixes b :: byte and w :: uint
  assumes "b < 2 ^ 3" "w < 2 ^ 15"
  defines "c \<equiv> (ucast (ucast ((drop_bit 11 w AND 2 ^ 3) OR 2 ^ 4) OR b) :: uint)"
  shows "c AND 0x7 = ucast b" "\<not> c < 0x10" "c < 0x20" "push_bit 11 (c AND 0x8) = push_bit 14 (drop_bit 14 w)"
proof -
  have m: "(0x7 :: uint) = mask 3" "(drop_bit 11 w AND 2 ^ 3) OR 2 ^ 4 = set_bit 4 (drop_bit 11 w AND 8)"
    by (simp_all add: mask_eq_exp_minus_1 set_bit_eq_or)
  have b: "bit b n \<Longrightarrow> n < 3" "bit w n \<Longrightarrow> n < 15" for n using bit_less_exp [OF assms(1)] bit_less_exp [OF assms(2)] by auto
  have w: "n = 14" if "bit w n" "14 \<le> n" for n using b(2) [OF that(1)] that(2) by simp
  show "c AND 0x7 = ucast b" unfolding c_def m
    by (intro bit_word_eqI) (use b in \<open>auto simp: bit_simps bit_8\<close>)
  have "c AND 0x8 = push_bit 3 (drop_bit 14 w)" unfolding c_def m
    by (intro bit_word_eqI) (use b(1) [of 3] b(2) w in \<open>fastforce simp: bit_simps bit_8\<close>)
  then show "push_bit 11 (c AND 0x8) = push_bit 14 (drop_bit 14 w)" by simp
  have "drop_bit 4 c = 1" unfolding c_def m
    by (rule bit_word_eqI) (use b in \<open>fastforce simp: bit_simps bit_8 bit_1_iff\<close>)
  then have "unat c div 16 = 1" using unat_div [of 4 c] by simp
  then show "\<not> c < 0x10" "c < 0x20" by (auto simp: word_less_nat_alt)
qed

lemma of_nat_byte_less: "v < 2 ^ k \<Longrightarrow> k < 8 \<Longrightarrow> (of_nat v :: byte) < 2 ^ k"
  using unat_of_nat_small(1) [of v] power_strict_increasing [of k 8 "2 :: nat"] by (intro less_exp_unat) auto

lemma command_near:
  assumes "cc < 4" "shift < 2 ^ 14" "3 \<le> len" "drop i inp = len_bytes shift len @ (pos_hi shift OR cc) # pos_lo shift # rest"
  shows "\<exists>j. lz_command_at inp e i = Inr (j, Window (shift + 1) (of_nat len)) \<and> drop (j - 2) inp = (pos_hi shift OR cc) # pos_lo shift # rest \<and> 2 \<le> j"
proof -
  define v where "v = (if len \<le> 33 then len - 2 else 0)"
  let ?b = "2 ^ 5 OR of_nat v :: byte"
  have v: "(of_nat v :: byte) < 2 ^ 5" "v < 256" by (rule of_nat_byte_less) (auto simp: v_def)
  have d: "drop i inp = ?b # (if len \<le> 33 then [] else dump_unary_value (len - 33)) @ (pos_hi shift OR cc) # pos_lo shift # rest"
    using assms(2,4) by (simp add: len_bytes_def v_def)
  note c = char_at_drop [OF d]
  have "\<exists>j. lz_len inp (Suc i) (of_nat v) (of_nat 33) = Inr (j, of_nat len) \<and> drop j inp = (pos_hi shift OR cc) # pos_lo shift # rest"
    by (rule lz_len_ok) (use assms(3) c v_def in auto)
  then obtain j where j: "lz_len inp (Suc i) (of_nat v) 33 = Inr (j, of_nat len)" "drop j inp = (pos_hi shift OR cc) # pos_lo shift # rest" by auto
  note p = char_at_drop [OF j(2)]
  have q: "char_at inp (Suc j) = Inr (pos_lo shift)" using char_at_drop [of "Suc j" inp] p by blast
  show ?thesis
    using c near_byte [OF v(1)] ucast_of_nat_byte [OF v(2)] j p q pos_bits(1) [OF assms(1), of shift] take_bit_small [OF assms(2)]
    by (simp add: lz_command_at_def Let_def)
qed

lemma command_far:
  assumes "cc < 4" "\<not> shift < 2 ^ 14" "shift + 1 < 2 ^ 15" "shift + 1 \<noteq> 0" "3 \<le> len"
    "drop i inp = len_bytes shift len @ (pos_hi (shift + 1) OR cc) # pos_lo (shift + 1) # rest"
  shows "\<exists>j. lz_command_at inp e i = Inr (j, Window (shift + 1) (of_nat len)) \<and> drop (j - 2) inp = (pos_hi (shift + 1) OR cc) # pos_lo (shift + 1) # rest \<and> 2 \<le> j"
proof -
  define v where "v = (if len \<le> 9 then len - 2 else 0)"
  let ?w = "shift + 1"
  let ?b = "ucast ((drop_bit 11 ?w AND 2 ^ 3) OR 2 ^ 4) OR of_nat v :: byte"
  have v: "(of_nat v :: byte) < 2 ^ 3" "v < 256" by (rule of_nat_byte_less) (auto simp: v_def)
  have d: "drop i inp = ?b # (if len \<le> 9 then [] else dump_unary_value (len - 9)) @ (pos_hi ?w OR cc) # pos_lo ?w # rest"
    using assms(2,6) by (simp add: len_bytes_def v_def Let_def)
  note c = char_at_drop [OF d]
  have "\<exists>j. lz_len inp (Suc i) (of_nat v) (of_nat 9) = Inr (j, of_nat len) \<and> drop j inp = (pos_hi ?w OR cc) # pos_lo ?w # rest"
    by (rule lz_len_ok) (use assms(5) c v_def in auto)
  then obtain j where j: "lz_len inp (Suc i) (of_nat v) 9 = Inr (j, of_nat len)" "drop j inp = (pos_hi ?w OR cc) # pos_lo ?w # rest" by auto
  note p = char_at_drop [OF j(2)]
  have q: "char_at inp (Suc j) = Inr (pos_lo ?w)" using char_at_drop [of "Suc j" inp] p by blast
  have "push_bit 14 (drop_bit 14 x) OR take_bit 14 x = x" for x :: uint
    by (rule bit_word_eqI) (auto simp: bit_simps)
  then show ?thesis
    using c far_byte [OF v(1) assms(3)] ucast_of_nat_byte [OF v(2)] j p q pos_bits(1) [OF assms(1), of ?w] assms(4)
    by (simp add: lz_command_at_def Let_def)
qed

end
