(* ===== verification/Lizard_Roundtrip.thy ===== *)
theory Lizard_Roundtrip
  imports Lizard_Hash Lizard_Codec
begin

text \<open>
  The compressor and the decompressor of LiZaRd together: what the decompressor does on the output of each pass of the compressor,
  the size of the output, and the round trip.
\<close>

section \<open>Steps of the decompressor\<close>

definition after_match :: "bool \<Rightarrow> nat \<Rightarrow> byte list \<Rightarrow> nat \<Rightarrow> byte list \<Rightarrow> byte list res" where
  "after_match una cap inp i out = res_bind (copy_bits una cap inp i out) (\<lambda>(i, out, e). decompress_loop una cap inp e i out)"

lemma emit_take: "k + n \<le> cap \<Longrightarrow> k + n \<le> length t \<Longrightarrow> emit cap (take n (drop k t)) (take k t) = Inr (take (k + n) t)"
  by (simp add: emit_def take_add)

lemma emit_from_drop:
  "drop i inp = xs @ rest \<Longrightarrow> length xs = n \<Longrightarrow> i \<le> length inp \<Longrightarrow> emit_from cap inp i n out = emit cap xs out"
proof -
  assume a: "drop i inp = xs @ rest" "length xs = n" "i \<le> length inp"
  have "length (drop i inp) = n + length rest" using a(1,2) by simp
  then have "i + n \<le> length inp" using a(3) by simp
  then show ?thesis using a(1,2) by (simp add: emit_from_def)
qed

lemma agree_nth: "agree t b k (Suc len) \<Longrightarrow> t ! b = t ! k"
  using agree_def [of t b k "Suc len"] by (metis add_0_right zero_less_Suc)

lemma agree_tl: "agree t b k (Suc len) \<Longrightarrow> agree t (Suc b) (Suc k) len"
  by (auto simp: agree_def dest: spec [of _ "Suc _"])

lemma copy_overlapping_ok:
  "b < k \<Longrightarrow> agree t b k len \<Longrightarrow> k + len \<le> cap \<Longrightarrow> k + len \<le> length t \<Longrightarrow>
   copy_overlapping cap (k - b) len (take k t) = Inr (take (k + len) t)"
proof (induction len arbitrary: b k)
  case (Suc len)
  have "take k t ! (length (take k t) - (k - b)) = t ! k" using Suc.prems agree_nth [OF Suc.prems(2)] by simp
  moreover have "emit cap [t ! k] (take k t) = Inr (take (Suc k) t)" using Suc.prems by (simp add: emit_def take_Suc_conv_app_nth)
  ultimately show ?case using Suc.IH [of "Suc b" "Suc k"] agree_tl [OF Suc.prems(2)] Suc.prems by simp
qed simp

lemma copy_window_ok:
  assumes "b < k" "agree t b k len" "k + len \<le> cap" "k + len \<le> length t"
  shows "copy_window cap (k - b) len (take k t) = Inr (take (k + len) t)"
proof (cases "len \<le> k - b")
  case True
  have "take len (drop b (take k t)) = take len (drop k t)"
    using True assms by (intro nth_equalityI) (auto simp: agree_def)
  then show ?thesis using True assms emit_take [of k len cap t] by (simp add: copy_window_def)
next
  case False
  then show ?thesis using copy_overlapping_ok [OF assms] by (simp add: copy_window_def)
qed

lemma step_window:
  assumes "lz_command_at inp e i = Inr (j, Window (of_nat (k - b)) (of_nat len))"
    and "b < k" "k \<le> b + 32767" "agree t b k len" "k + len \<le> cap" "k + len \<le> length t" "len < 2 ^ 32"
  shows "decompress_loop una cap inp e i (take k t) = after_match una cap inp j (take (k + len) t)"
proof -
  have "unat (of_nat (k - b) :: uint) = k - b" by (rule unat_of_nat_small) (use assms(3) in simp)
  moreover have "unat (of_nat len :: uint) = len" by (rule unat_of_nat_small) (rule assms(7))
  ultimately show ?thesis using assms(1) copy_window_ok [OF assms(2,4-6)]
    by (simp add: after_match_def decompress_loop.simps [of una cap inp e i])
qed

lemma step_copy:
  assumes "4 \<le> n" "n < 2 ^ 32" "k + n \<le> cap" "k + n \<le> length t"
    and inp: "drop i inp = (if n \<le> 18 then [of_nat (n - 3)] else 0 # dump_unary_value (n - 18)) @ take n (drop k t) @ rest" "rest \<noteq> []"
  shows "decompress_loop una cap inp 1 i (take k t) = decompress_loop una cap inp 2 (length inp - length rest) (take (k + n) t)"
proof -
  obtain j where j: "lz_command_at inp 1 i = Inr (j, Copy_command (of_nat n))" "drop j inp = take n (drop k t) @ rest"
    using command_copy [OF assms(1) inp(1)] by blast
  have l: "length (take n (drop k t)) = n" using assms(4) by simp
  have "length (drop j inp) = n + length rest" using j(2) l by simp
  then have "j + n = length inp - length rest" "j \<le> length inp" using inp(2) by (auto simp: neq_Nil_conv)
  moreover have "unat (of_nat n :: uint) = n" by (rule unat_of_nat_small) (rule assms(2))
  ultimately show ?thesis using j(1) emit_from_drop [OF j(2) l] emit_take [OF assms(3,4)]
    by (simp add: decompress_loop.simps [of una cap inp 1 i] del: One_nat_def)
qed

section \<open>The output so far\<close>

text \<open>\<open>ready_for\<close>: on the output with any continuation the decompressor arrives behind the output in the given state, with the first
  \<open>k\<close> characters of the text. \<open>matched\<close>: the output ends with a match, and with any copy-bits in it the decompressor arrives
  behind the match.\<close>

definition ready_for :: "bool \<Rightarrow> nat \<Rightarrow> byte list \<Rightarrow> nat \<Rightarrow> nat \<Rightarrow> byte list \<Rightarrow> bool" where
  "ready_for una cap t k e out \<longleftrightarrow> (\<forall>rest. 3 \<le> length rest \<longrightarrow>
     lizard_decompress una cap (out @ rest) = decompress_loop una cap (out @ rest) e (length out) (take k t))"

definition matched_by :: "bool \<Rightarrow> nat \<Rightarrow> byte list \<Rightarrow> nat \<Rightarrow> byte list \<Rightarrow> uint \<Rightarrow> bool" where
  "matched_by una cap t k pre w \<longleftrightarrow> (\<forall>cc rest. cc < 4 \<longrightarrow> 3 \<le> length rest \<longrightarrow>
     (let inp = pre @ [pos_hi w OR cc, pos_lo w] @ rest in lizard_decompress una cap inp = after_match una cap inp (length pre + 2) (take k t)))"

definition matched :: "bool \<Rightarrow> nat \<Rightarrow> byte list \<Rightarrow> nat \<Rightarrow> byte list \<Rightarrow> bool" where
  "matched una cap t k out \<longleftrightarrow> (\<exists>pre w. out = pre @ shift_bytes w \<and> matched_by una cap t k pre w)"

lemma matched_byD:
  "matched_by una cap t k pre w \<Longrightarrow> cc < 4 \<Longrightarrow> 3 \<le> length rest \<Longrightarrow>
   lizard_decompress una cap (pre @ [pos_hi w OR cc, pos_lo w] @ rest) = after_match una cap (pre @ [pos_hi w OR cc, pos_lo w] @ rest) (length pre + 2) (take k t)"
  by (simp add: matched_by_def Let_def)

lemma copy_bits_at: "cc < 4 \<Longrightarrow> copy_bits una cap (pre @ [pos_hi w OR cc, pos_lo w] @ rest) (length pre + 2) out =
    (if cc \<noteq> 0 then res_bind (if una then emit_u32 cap (pre @ [pos_hi w OR cc, pos_lo w] @ rest) (length pre + 2) (unat cc) out
       else emit_from cap (pre @ [pos_hi w OR cc, pos_lo w] @ rest) (length pre + 2) (unat cc) out) (\<lambda>out. Inr (length pre + 2 + unat cc, out, 0))
     else Inr (length pre + 2, out, 1))"
  using copy_bits_of [of cc w] by (simp add: copy_bits_def char_at_def Let_def unat_eq_0)

lemma matched_ready: "matched una cap t k out \<Longrightarrow> ready_for una cap t k 1 out"
proof -
  assume "matched una cap t k out"
  then obtain pre w where m: "out = pre @ shift_bytes w" "matched_by una cap t k pre w" by (auto simp: matched_def)
  show ?thesis unfolding ready_for_def
  proof (intro allI impI)
    fix rest :: "byte list" assume r: "3 \<le> length rest"
    let ?inp = "pre @ [pos_hi w OR 0, pos_lo w] @ rest"
    have "lizard_decompress una cap ?inp = after_match una cap ?inp (length pre + 2) (take k t)"
      by (rule matched_byD [OF m(2) _ r]) simp
    also have "\<dots> = decompress_loop una cap ?inp 1 (length pre + 2) (take k t)" using copy_bits_at [of 0 una cap pre w rest] by (simp add: after_match_def)
    finally show "lizard_decompress una cap (out @ rest) = decompress_loop una cap (out @ rest) 1 (length out) (take k t)" by (simp add: m(1) shift_bytes_eq)
  qed
qed

lemma matched_literals:
  assumes "matched_by una cap t k pre w" "0 < n" "n < 4" "k + n \<le> length t" "k + n + (if una then 3 else 0) \<le> cap"
  shows "ready_for una cap t (k + n) 0 (pre @ [pos_hi w OR of_nat n, pos_lo w] @ take n (drop k t))"
  unfolding ready_for_def
proof (intro allI impI)
  fix rest :: "byte list" assume r: "3 \<le> length rest"
  let ?cc = "of_nat n :: byte" and ?lits = "take n (drop k t)"
  let ?inp = "pre @ [pos_hi w OR ?cc, pos_lo w] @ ?lits @ rest"
  have n: "unat ?cc = n" by (rule unat_of_nat_small) (use assms(3) in simp)
  then have cc: "?cc < 4" "?cc \<noteq> 0" using assms(2,3) by (auto simp: word_less_nat_alt)
  have l: "length ?lits = n" using assms(4) by simp
  have "drop (length pre + 2) ?inp = ?lits @ rest" by simp
  then have "emit_from cap ?inp (length pre + 2) n (take k t) = Inr (take (k + n) t)"
    using emit_from_drop [of "length pre + 2" ?inp ?lits rest n] l emit_take [of k n cap t] assms(4,5) by (simp split: if_splits)
  moreover have "emit_u32 cap ?inp (length pre + 2) n (take k t) = Inr (take (k + n) t)" if una
    using that assms(2,4,5) l r by (simp add: emit_u32_def take_add)
  ultimately have "copy_bits una cap ?inp (length pre + 2) (take k t) = Inr (length pre + 2 + n, take (k + n) t, 0)"
    using copy_bits_at [OF cc(1), of una cap pre w "?lits @ rest"] cc(2) n by simp
  then have "after_match una cap ?inp (length pre + 2) (take k t) = decompress_loop una cap ?inp 0 (length pre + 2 + n) (take (k + n) t)"
    by (simp add: after_match_def)
  moreover have "lizard_decompress una cap ?inp = after_match una cap ?inp (length pre + 2) (take k t)"
    by (rule matched_byD [OF assms(1) cc(1)]) (use r in simp)
  ultimately show "lizard_decompress una cap ((pre @ [pos_hi w OR ?cc, pos_lo w] @ ?lits) @ rest) =
      decompress_loop una cap ((pre @ [pos_hi w OR ?cc, pos_lo w] @ ?lits) @ rest) 0 (length (pre @ [pos_hi w OR ?cc, pos_lo w] @ ?lits)) (take (k + n) t)"
    using l by (simp add: add.commute)
qed

abbreviation copy_header :: "nat \<Rightarrow> byte list" where
  "copy_header n \<equiv> if n \<le> 18 then [of_nat (n - 3)] else 0 # dump_unary_value (n - 18)"

lemma ready_copy:
  assumes "ready_for una cap t k 1 out" "4 \<le> n" "n < 2 ^ 32" "k + n \<le> cap" "k + n \<le> length t"
  shows "ready_for una cap t (k + n) 2 (out @ copy_header n @ take n (drop k t))"
  unfolding ready_for_def
proof (intro allI impI)
  fix rest :: "byte list" assume r: "3 \<le> length rest"
  let ?inp = "out @ copy_header n @ take n (drop k t) @ rest"
  have "lizard_decompress una cap ?inp = decompress_loop una cap ?inp 1 (length out) (take k t)" using assms(1) r by (simp add: ready_for_def)
  also have "\<dots> = decompress_loop una cap ?inp 2 (length ?inp - length rest) (take (k + n) t)"
    by (rule step_copy [OF assms(2-5), where rest = rest]) (use r in auto)
  finally show "lizard_decompress una cap ((out @ copy_header n @ take n (drop k t)) @ rest) = 
    decompress_loop una cap ((out @ copy_header n @ take n (drop k t)) @ rest) 2 (length (out @ copy_header n @ take n (drop k t))) (take (k + n) t)"
    by simp
qed

lemma bof_copy:
  assumes "0 < n" "n < 2 ^ 32" "n \<le> cap" "n \<le> length t"
  shows "ready_for una cap t n 2 ((if n \<le> 238 then [of_nat (n + 17)] else copy_header n) @ take n t)"
  unfolding ready_for_def
proof (intro allI impI)
  fix rest :: "byte list" assume r: "3 \<le> length rest"
  show "lizard_decompress una cap (((if n \<le> 238 then [of_nat (n + 17)] else copy_header n) @ take n t) @ rest) =
    decompress_loop una cap (((if n \<le> 238 then [of_nat (n + 17)] else copy_header n) @ take n t) @ rest) 2
      (length ((if n \<le> 238 then [of_nat (n + 17)] else copy_header n) @ take n t)) (take n t)"
  proof (cases "n \<le> 238")
    case True
    let ?b = "of_nat (n + 17) :: byte" and ?inp = "of_nat (n + 17) # take n t @ rest"
    have b: "unat ?b = n + 17" by (rule unat_of_nat_small) (use True in simp)
    then have "17 < ?b" using assms(1) by (simp add: word_less_nat_alt)
    moreover have "emit_from cap ?inp 1 n [] = Inr (take n t)"
      using emit_from_drop [of 1 ?inp "take n t" rest n cap "[]"] assms(3,4) by (simp add: emit_def)
    ultimately show ?thesis using True b assms(4) by (simp add: lizard_decompress_def char_at_def)
  next
    case False
    let ?inp = "copy_header n @ take n t @ rest"
    have "decompress_loop una cap ?inp 1 0 (take 0 t) = decompress_loop una cap ?inp 2 (length ?inp - length rest) (take (0 + n) t)"
      by (rule step_copy) (use r False assms in auto)
    moreover have "lizard_decompress una cap ?inp = decompress_loop una cap ?inp 1 0 []" using False by (simp add: lizard_decompress_def char_at_def)
    ultimately show ?thesis using False by simp
  qed
qed

text \<open>A match behind the output.\<close>

lemma ready_match:
  assumes "ready_for una cap t k e out" "b < k" "k \<le> b + 32767" "agree t b k len" "k + len \<le> cap" "k + len \<le> length t" "len < 2 ^ 32"
    and cmd: "\<And>cc i inp rest. cc < 4 \<Longrightarrow> drop i inp = hdr @ (pos_hi w OR cc) # pos_lo w # rest \<Longrightarrow>
      \<exists>j. lz_command_at inp e i = Inr (j, Window (of_nat (k - b)) (of_nat len)) \<and> drop (j - 2) inp = (pos_hi w OR cc) # pos_lo w # rest \<and> 2 \<le> j"
  shows "matched una cap t (k + len) (out @ hdr @ shift_bytes w)"
proof -
  have "matched_by una cap t (k + len) (out @ hdr) w" unfolding matched_by_def Let_def
  proof (intro allI impI)
    fix cc :: byte and rest :: "byte list" assume c: "cc < 4" "3 \<le> length rest"
    let ?inp = "(out @ hdr) @ [pos_hi w OR cc, pos_lo w] @ rest"
    have "drop (length out) ?inp = hdr @ (pos_hi w OR cc) # pos_lo w # rest" by simp
    from cmd [OF c(1) this] obtain j where j: "lz_command_at ?inp e (length out) = Inr (j, Window (of_nat (k - b)) (of_nat len))"
      "drop (j - 2) ?inp = (pos_hi w OR cc) # pos_lo w # rest" "2 \<le> j" by blast
    have "length (drop (j - 2) ?inp) = length rest + 2" using j(2) by simp
    then have "length ?inp - (j - 2) = length rest + 2" by (simp only: length_drop)
    then have "j = length (out @ hdr) + 2" using j(3) by simp
    then show "lizard_decompress una cap ?inp = after_match una cap ?inp (length (out @ hdr) + 2) (take (k + len) t)"
      using step_window [OF j(1) assms(2-7), of una] assms(1) c(2) by (simp add: ready_for_def)
  qed
  then show ?thesis unfolding matched_def by (intro exI [of _ "out @ hdr"] exI [of _ w]) simp
qed

section \<open>Passes of the compressor\<close>

definition enc_inv :: "bool \<Rightarrow> nat \<Rightarrow> byte list \<Rightarrow> bool \<Rightarrow> byte list \<Rightarrow> nat \<Rightarrow> bool" where
  "enc_inv una dcap t bof out cs \<longleftrightarrow> (if bof then cs = 0 \<and> out = [] else matched una dcap t cs out \<and> 22 * length out + 3 \<le> 23 * cs)"

text \<open>The state of the decompressor behind \<open>n\<close> literals, and the length of their header.\<close>

definition copy_mode :: "bool \<Rightarrow> nat \<Rightarrow> nat" where
  "copy_mode bof n = (if bof \<or> 4 \<le> n then 2 else if n = 0 then 1 else 0)"

definition header_len :: "bool \<Rightarrow> nat \<Rightarrow> nat" where
  "header_len bof n = (if bof \<and> n \<le> 238 then 1 else if n < 4 then 0 else length (copy_header n))"

definition buffers_ok :: "bool \<Rightarrow> nat \<Rightarrow> byte list \<Rightarrow> nat \<Rightarrow> bool" where
  "buffers_ok una dcap t n \<longleftrightarrow> n + 8 \<le> length t \<and> n < 2 ^ 32 \<and> n + (if una then 3 else 0) \<le> dcap"

lemma flush_literals:
  assumes "matched una dcap t cs out" "0 < n" "n < 4" "cs + n \<le> N" "buffers_ok una dcap t N" "length out + n + 3 \<le> cap"
  shows "\<exists>out'. flush_copy_command una cap t False out cs n = Inr out' \<and> ready_for una dcap t (cs + n) 0 out' \<and> length out' = length out + n"
proof -
  obtain pre w where m: "out = pre @ shift_bytes w" "matched_by una dcap t cs pre w" using assms(1) by (auto simp: matched_def)
  let ?out = "pre @ [pos_hi w OR of_nat n, pos_lo w]"
  have o: "out = pre @ [pos_hi w, pos_lo w]" by (simp add: m(1) shift_bytes_eq)
  then have upd: "out[length out - 2 := out ! (length out - 2) OR of_nat n] = ?out" by (simp add: list_update_append nth_append)
  have "emit_u32 cap t cs n ?out = Inr (?out @ take n (drop cs t))" "emit_from cap t cs n ?out = Inr (?out @ take n (drop cs t))"
    using assms(2-6) by (simp_all add: emit_u32_def emit_from_def emit_def buffers_ok_def o)
  then have "flush_copy_command una cap t False out cs n = Inr (?out @ take n (drop cs t))"
    using upd assms(3) by (simp add: flush_copy_command_def o Let_def)
  moreover have "ready_for una dcap t (cs + n) 0 (pre @ [pos_hi w OR of_nat n, pos_lo w] @ take n (drop cs t))"
    by (rule matched_literals [OF m(2) assms(2,3)]) (use assms(4,5) in \<open>auto simp: buffers_ok_def\<close>)
  moreover have "cs + n \<le> length t" using assms(4,5) by (simp add: buffers_ok_def)
  ultimately show ?thesis by (simp add: o)
qed

lemma emit_header: "length out + length hdr + n \<le> cap \<Longrightarrow> start + n \<le> length t \<Longrightarrow>
   res_bind (emit cap hdr out) (emit_from cap t start n) = Inr (out @ hdr @ take n (drop start t))"
  by (simp add: emit_def emit_from_def)

lemma flush_ok:
  assumes "enc_inv una dcap t bof out cs" "bof \<longrightarrow> 0 < n" "cs + n \<le> N" "buffers_ok una dcap t N" "length out + n + header_len bof n + 3 \<le> cap"
  shows "\<exists>out'. (if n \<noteq> 0 then flush_copy_command una cap t bof out cs n else Inr out) = Inr out' \<and> ready_for una dcap t (cs + n) (copy_mode bof n) out' \<and>
    length out' = length out + n + header_len bof n"
proof -
  have b: "n < 2 ^ 32" "cs + n \<le> dcap" "cs + n \<le> length t" using assms(3,4) by (auto simp: buffers_ok_def)
  consider "bof" | "\<not> bof" "n = 0" | "\<not> bof" "0 < n" "n < 4" | "\<not> bof" "4 \<le> n" by linarith
  then show ?thesis
  proof cases
    case 1
    then have z: "out = []" "cs = 0" "0 < n" using assms(1,2) by (auto simp: enc_inv_def)
    let ?h = "if n \<le> 238 then [of_nat (n + 17)] else copy_header n"
    have h: "length ?h = header_len True n" by (auto simp: header_len_def)
    have "flush_copy_command una cap t bof out cs n = Inr (?h @ take n t)"
      using 1 z emit_header [of out ?h n cap cs t] assms(5) b(3) h by (cases "n \<le> 238") (simp_all add: flush_copy_command_def)
    then show ?thesis using bof_copy [of n dcap t una] z b 1 h by (simp add: copy_mode_def)
  next
    case 2
    then show ?thesis using assms(1) matched_ready by (simp add: enc_inv_def copy_mode_def header_len_def)
  next
    case 3
    then show ?thesis using flush_literals [of una dcap t cs out n N cap] assms by (simp add: enc_inv_def copy_mode_def header_len_def)
  next
    case 4
    have "flush_copy_command una cap t bof out cs n = Inr (out @ copy_header n @ take n (drop cs t))"
      using 4 emit_header [of out "copy_header n" n cap cs t] assms(5) b(3) by (cases "n \<le> 18") (simp_all add: flush_copy_command_def header_len_def)
    moreover have "ready_for una dcap t (cs + n) 2 (out @ copy_header n @ take n (drop cs t))"
      using ready_copy [OF matched_ready _ b(1) b(2,3)] assms(1) 4 by (simp add: enc_inv_def)
    ultimately show ?thesis using 4 b(3) by (simp add: copy_mode_def header_len_def)
  qed
qed

text \<open>The size of a command.\<close>

lemma dump_length: "0 < l \<Longrightarrow> 255 * length (dump_unary_value l) \<le> l + 254 \<and> 0 < length (dump_unary_value l)"
proof (induction l rule: dump_unary_value.induct)
  case (1 l)
  then show ?case by (cases "l > 255") (auto simp: dump_unary_value.simps [of l])
qed

lemma header_bound: "22 * header_len bof n \<le> n + 25" "bof \<Longrightarrow> 22 * header_len bof n \<le> n + 22"
  using dump_length [of "n - 18"] by (auto simp: header_len_def)

lemma len_bytes_length: "3 \<le> len \<Longrightarrow> length (len_bytes shift len) + 2 \<le> (if len = 3 then 3 else len - 1)"
  using dump_length [of "len - 33"] dump_length [of "len - 9"] by (auto simp: len_bytes_def Let_def)

lemma size_step:
  assumes "enc_inv una dcap t bof out cs" "bof \<longrightarrow> 0 < n" "3 \<le> len"
    and "c \<le> (if copy_mode bof n = 2 then len - 1 else len)"
  shows "22 * (length out + n + header_len bof n + c) + 3 \<le> 23 * (cs + n + len)"
proof (cases bof)
  case True
  then show ?thesis using assms header_bound(2) [of bof n] by (simp add: enc_inv_def copy_mode_def)
next
  case False
  show ?thesis
  proof (cases "n < 4")
    case True
    then show ?thesis using False assms by (simp add: enc_inv_def copy_mode_def header_len_def split: if_splits)
  next
    case False
    then have "c + 1 \<le> len" "22 * length out + 3 \<le> 23 * cs" using \<open>\<not> bof\<close> assms by (auto simp: enc_inv_def copy_mode_def)
    then show ?thesis using assms(3) header_bound(1) [of bof n] by simp
  qed
qed

lemma max_len: "22 * m \<le> 23 * n + 88 \<longleftrightarrow> m \<le> LIZARD_MAX_LEN n"
  by (simp add: LIZARD_MAX_LEN_def) linarith

lemma emit_ok: "length out + length bs \<le> cap \<Longrightarrow> emit cap bs out = Inr (out @ bs)"
  by (simp add: emit_def)

text \<open>The record of a match, with the bytes that \<open>hdr\<close> and \<open>w\<close> give.\<close>

lemma record_ok:
  assumes "enc_inv una dcap t bof out cs" "buffers_ok una dcap t N" "LIZARD_MAX_LEN N \<le> cap" "cs \<le> i" "i + len \<le> N"
    and "b < i" "i \<le> b + 32767" "agree t b i len" "3 \<le> len" "length hdr + 2 \<le> (if copy_mode bof (i - cs) = 2 then len - 1 else len)"
    and cmd: "\<And>cc j inp rest. cc < 4 \<Longrightarrow> drop j inp = hdr @ (pos_hi w OR cc) # pos_lo w # rest \<Longrightarrow>
      \<exists>j'. lz_command_at inp (copy_mode bof (i - cs)) j = Inr (j', Window (of_nat (i - b)) (of_nat len)) \<and> drop (j' - 2) inp = (pos_hi w OR cc) # pos_lo w # rest \<and> 2 \<le> j'"
  shows "\<exists>out'. res_bind (if i - cs \<noteq> 0 then flush_copy_command una cap t bof out cs (i - cs) else Inr out) (\<lambda>out.
      res_bind (emit cap hdr out) (emit cap (shift_bytes w))) = Inr out' \<and> enc_inv una dcap t False out' (i + len)"
proof -
  let ?n = "i - cs"
  have n: "bof \<longrightarrow> 0 < ?n" "cs + ?n = i" using assms(1,4,6) by (auto simp: enc_inv_def)
  have sz: "22 * (length out + ?n + header_len bof ?n + (length hdr + 2)) + 3 \<le> 23 * (i + len)"
    using size_step [OF assms(1) n(1) assms(9,10)] n(2) by simp
  then have "22 * (length out + ?n + header_len bof ?n + (length hdr + 2) + 3) \<le> 23 * N + 88" using assms(5) by simp
  then have fit: "length out + ?n + header_len bof ?n + (length hdr + 2) + 3 \<le> cap" using max_len assms(3) le_trans by blast
  have f: "cs + ?n \<le> N" "length out + ?n + header_len bof ?n + 3 \<le> cap" using n(2) assms(5) fit by linarith+
  obtain out' where o: "(if ?n \<noteq> 0 then flush_copy_command una cap t bof out cs ?n else Inr out) = Inr out'"
    "ready_for una dcap t i (copy_mode bof ?n) out'" "length out' = length out + ?n + header_len bof ?n"
    using flush_ok [OF assms(1) n(1) f(1) assms(2) f(2)] unfolding n(2) by blast
  have "matched una dcap t (i + len) (out' @ hdr @ shift_bytes w)"
    by (rule ready_match [OF o(2) assms(6-8) _ _ _ cmd]) (use assms(2,5) in \<open>auto simp: buffers_ok_def\<close>)
  moreover have "length (shift_bytes w) = 2" by (simp add: shift_bytes_def)
  moreover have "res_bind (emit cap hdr out') (emit cap (shift_bytes w)) = Inr (out' @ hdr @ shift_bytes w)"
    using fit o(3) \<open>length (shift_bytes w) = 2\<close> by (simp add: emit_ok)
  ultimately show ?thesis using o(1,3) sz by (simp add: enc_inv_def)
qed

lemma record_match_ok:
  assumes "enc_inv una dcap t bof out cs" "buffers_ok una dcap t N" "LIZARD_MAX_LEN N \<le> cap" "cs \<le> i" "i + len \<le> N"
    and "b < i" "i \<le> b + 32767" "agree t b i len" "3 \<le> len"
  shows "record_match una cap t bof out cs i len b = Inr None \<or>
    (\<exists>out'. record_match una cap t bof out cs i len b = Inr (Some out') \<and> enc_inv una dcap t False out' (i + len))"
proof -
  let ?s = "i - b - 1" and ?m = "copy_mode bof (i - cs)"
  let ?w = "of_nat ?s :: uint" and ?f = "if i - cs \<noteq> 0 then flush_copy_command una cap t bof out cs (i - cs) else Inr out"
  note rec = record_ok [OF assms]
  have s: "unat ?w = ?s" by (rule unat_of_nat_small) (use assms(7) in simp)
  have w1: "?w + 1 = of_nat (i - b)" using assms(6) by (metis Suc_diff_Suc Suc_eq_plus1 diff_Suc_1 diff_commute of_nat_Suc add.commute One_nat_def diff_Suc_eq_diff_pred)
  consider (near) "?w < 2 ^ 11 \<and> len \<le> 8" | (copy) "\<not> (?w < 2 ^ 11 \<and> len \<le> 8)" "len = 3 \<and> ?m = 2" | (long) "\<not> (?w < 2 ^ 11 \<and> len \<le> 8)" "\<not> (len = 3 \<and> ?m = 2)" by blast
  then show ?thesis
  proof cases
    case near
    let ?v = "?w OR push_bit 11 (of_nat (len - 3 + 2))"
    have "\<exists>out'. res_bind ?f (\<lambda>out. res_bind (emit cap [] out) (emit cap (shift_bytes ?v))) = Inr out' \<and> enc_inv una dcap t False out' (i + len)"
    proof (rule rec)
      show "length [] + 2 \<le> (if ?m = 2 then len - 1 else len)" using assms(9) by auto
      show "\<exists>j'. lz_command_at inp ?m j = Inr (j', Window (of_nat (i - b)) (of_nat len)) \<and> drop (j' - 2) inp = (pos_hi ?v OR cc) # pos_lo ?v # rest \<and> 2 \<le> j'"
        if "cc < 4" "drop j inp = [] @ (pos_hi ?v OR cc) # pos_lo ?v # rest" for cc j inp rest
        using command_2sequence [OF that(1) _ assms(9) _ refl, of ?w] near that(2) w1 by simp
    qed
    then show ?thesis using near by (auto simp: record_match_def Let_def res_bind_Inr emit_def split: if_splits)
  next
    case copy
    show ?thesis
    proof (cases "?w < 2 ^ 11 + 2 ^ 10")
      case True
      have "\<not> ?w < 2 ^ 11" using copy by auto
      then have "unat (?w - 2 ^ 11) = ?s - 2048" using s by (subst unat_sub) (auto simp: word_le_nat_alt word_less_nat_alt)
      moreover have "?s < 3072" using True s by (simp add: word_less_nat_alt)
      ultimately have v: "?w - 2 ^ 11 < 2 ^ 10" by (intro less_exp_unat) auto
      have "\<exists>out'. res_bind ?f (\<lambda>out. res_bind (emit cap [] out) (emit cap (shift_bytes (?w - 2 ^ 11)))) = Inr out' \<and> enc_inv una dcap t False out' (i + len)"
      proof (rule rec)
        show "length [] + 2 \<le> (if ?m = 2 then len - 1 else len)" using assms(9) by auto
        show "\<exists>j'. lz_command_at inp ?m j = Inr (j', Window (of_nat (i - b)) (of_nat len)) \<and> drop (j' - 2) inp = (pos_hi (?w - 2 ^ 11) OR cc) # pos_lo (?w - 2 ^ 11) # rest \<and> 2 \<le> j'"
          if "cc < 4" "drop j inp = [] @ (pos_hi (?w - 2 ^ 11) OR cc) # pos_lo (?w - 2 ^ 11) # rest" for cc j inp rest
          using command_2copy [OF that(1) v, of j inp rest] copy that(2) w1 by simp
      qed
      moreover have "bof \<or> 4 \<le> i - cs" using copy(2) by (auto simp: copy_mode_def split: if_splits)
      ultimately show ?thesis using copy True by (auto simp: record_match_def Let_def res_bind_Inr emit_def split: if_splits)
    next
      case False
      moreover have "bof \<or> 4 \<le> i - cs" using copy(2) by (auto simp: copy_mode_def split: if_splits)
      ultimately show ?thesis using copy by (auto simp: record_match_def Let_def)
    qed
  next
    case long
    let ?v = "if ?w < 2 ^ 14 then ?w else ?w + 1"
    have "unat (?w + 1) = i - b" unfolding w1 by (rule unat_of_nat_small) (use assms(7) in simp)
    then have far: "?w + 1 < 2 ^ 15" "?w + 1 \<noteq> 0" using assms(6,7) less_exp_unat [of "?w + 1" 15] by auto
    have "\<exists>out'. res_bind ?f (\<lambda>out. res_bind (emit cap (len_bytes ?w len) out) (emit cap (shift_bytes ?v))) = Inr out' \<and> enc_inv una dcap t False out' (i + len)"
    proof (rule rec)
      show "length (len_bytes ?w len) + 2 \<le> (if ?m = 2 then len - 1 else len)" using len_bytes_length [OF assms(9), of ?w] long(2) by (auto split: if_splits)
      show "\<exists>j'. lz_command_at inp ?m j = Inr (j', Window (of_nat (i - b)) (of_nat len)) \<and> drop (j' - 2) inp = (pos_hi ?v OR cc) # pos_lo ?v # rest \<and> 2 \<le> j'"
        if "cc < 4" "drop j inp = len_bytes ?w len @ (pos_hi ?v OR cc) # pos_lo ?v # rest" for cc j inp rest
        using command_near [OF that(1) _ assms(9), of ?w j inp rest ?m] command_far [OF that(1) _ far assms(9), of j inp rest ?m] that(2) w1
        by (cases "?w < 2 ^ 14") simp_all
    qed
    moreover have "\<not> (len = 3 \<and> (bof \<or> 4 \<le> i - cs))" using long(2) by (auto simp: copy_mode_def)
    ultimately show ?thesis using long by (auto simp: record_match_def Let_def res_bind_Inr split: if_splits)
  qed
qed

lemma take_match_ok:
  assumes "enc_inv una dcap t bof out cs" "buffers_ok una dcap t N" "LIZARD_MAX_LEN N \<le> cap" "cs \<le> i" "i < N" "good_match t i m"
  shows "take_match una cap t N bof out cs i m = Inr None \<or>
    (\<exists>len out'. take_match una cap t N bof out cs i m = Inr (Some (len, out')) \<and> 3 \<le> len \<and> i + len \<le> N \<and> enc_inv una dcap t False out' (i + len))"
proof -
  let ?len = "if i + fst m > N then N - i else fst m"
  show ?thesis
  proof (cases "fst m < 3 \<or> ?len < 3")
    case True
    then show ?thesis by (simp add: take_match_def Let_def)
  next
    case False
    then obtain b where b: "snd m = Some b" "b < i" "i \<le> b + 32767" "agree t b i (fst m)" using assms(6) by (auto simp: good_match_def)
    have "agree t b i ?len" "i + ?len \<le> N" "3 \<le> ?len" using agree_le [OF b(4), of ?len] False assms(5) by auto
    then show ?thesis using record_match_ok [OF assms(1-4), of ?len b] b False by (auto simp: take_match_def Let_def)
  qed
qed

lemma loop_eof: "drop i inp = [17, 0, 0] \<Longrightarrow> decompress_loop una cap inp e i out = Inr out"
  using command_eof [of i inp e] by (subst decompress_loop.simps) simp

lemma lz_finish_ok:
  assumes "enc_inv una dcap t bof out cs" "buffers_ok una dcap t N" "LIZARD_MAX_LEN N \<le> cap" "cs \<le> N"
  shows "\<exists>z. finish una cap t bof out cs N = Inr z \<and> lizard_decompress una dcap z = Inr (take N t) \<and> length z \<le> LIZARD_MAX_LEN N"
proof (cases "bof \<and> N = 0")
  case True
  then have "out = []" "cs = 0" using assms(1) by (auto simp: enc_inv_def)
  then have "finish una cap t bof out cs N = Inr [17, 0, 0]" using True assms(3) by (simp add: finish_def emit_def LIZARD_MAX_LEN_def)
  moreover have "lizard_decompress una dcap [17, 0, 0] = Inr []"
    using loop_eof [of 0 "[17, 0, 0]"] by (simp add: lizard_decompress_def char_at_def)
  ultimately show ?thesis using True by (simp add: LIZARD_MAX_LEN_def)
next
  case False
  let ?n = "N - cs"
  have n: "bof \<longrightarrow> 0 < ?n" "cs + ?n = N" "cs + ?n \<le> N" using False assms(1,4) by (auto simp: enc_inv_def)
  have "22 * (length out + ?n + header_len bof ?n + 3) \<le> 23 * N + 88"
    using header_bound(1) [of bof ?n] header_bound(2) [of bof ?n] assms(1,4) by (cases bof) (auto simp: enc_inv_def)
  then have sz: "length out + ?n + header_len bof ?n + 3 \<le> LIZARD_MAX_LEN N" using max_len by blast
  then obtain out' where o: "(if ?n \<noteq> 0 then flush_copy_command una cap t bof out cs ?n else Inr out) = Inr out'"
    "ready_for una dcap t N (copy_mode bof ?n) out'" "length out' = length out + ?n + header_len bof ?n"
    using flush_ok [OF assms(1) n(1,3) assms(2) le_trans [OF sz assms(3)]] unfolding n(2) by blast
  have "finish una cap t bof out cs N = Inr (out' @ [17, 0, 0])" unfolding finish_def o(1) using o(3) sz assms(3) by (simp add: emit_ok)
  moreover have "lizard_decompress una dcap (out' @ [17, 0, 0]) = decompress_loop una dcap (out' @ [17, 0, 0]) (copy_mode bof ?n) (length out') (take N t)"
    using o(2) by (simp add: ready_for_def)
  moreover have "decompress_loop una dcap (out' @ [17, 0, 0]) (copy_mode bof ?n) (length out') (take N t) = Inr (take N t)"
    by (rule loop_eof) simp
  ultimately show ?thesis using o(3) sz by simp
qed

lemma compress_loop_ok:
  assumes "buffers_ok una dcap t N" "LIZARD_MAX_LEN N \<le> cap"
  shows "enc_inv una dcap t bof out cs \<Longrightarrow> hash_inv (hash_at t) i H \<Longrightarrow> cs \<le> i \<Longrightarrow> i \<le> N \<Longrightarrow>
    \<exists>z. compress_loop una cap t N H bof out cs i = Inr z \<and> lizard_decompress una dcap z = Inr (take N t) \<and> length z \<le> LIZARD_MAX_LEN N"
proof (induction "N - i" arbitrary: bof out cs i H rule: less_induct)
  case less
  show ?case
  proof (cases "i < N")
    case False
    then have "compress_loop una cap t N H bof out cs i = finish una cap t bof out cs i" "i = N"
      using less.prems(4) compress_loop.simps [of una cap t N H bof out cs i] by (simp_all only: if_False)
    then show ?thesis using lz_finish_ok [OF less.prems(1) assms] less.prems(3) by simp
  next
    case True
    have len: "i + 7 < length t" "i + 2 < length t" "N < length t" using True assms(1) by (auto simp: buffers_ok_def)
    obtain m where m: "find_match t H (hash_tab H (hash_at t i)) i N = Inr m" "good_match t i m"
      using find_match_ok [OF less.prems(2) len(1,3)] by blast
    obtain H1 where H1: "hash_string (hash_at t i) H = Inr H1" "hash_inv (hash_at t) (Suc i) H1"
      using hash_string_ok [OF less.prems(2) hash_at_less] by blast
    note step = hashf_at [OF len(2)] m(1) H1(1) hash_at_less [of t i] True
    from take_match_ok [OF less.prems(1) assms less.prems(3) True m(2)] show ?thesis
    proof (elim disjE exE conjE)
      assume "take_match una cap t N bof out cs i m = Inr None"
      then have "compress_loop una cap t N H bof out cs i = compress_loop una cap t N H1 bof out cs (Suc i)"
        by (subst compress_loop.simps) (simp add: step)
      then show ?thesis using less.hyps [of "Suc i" bof out cs H1] less.prems H1(2) True by simp
    next
      fix l out' assume l: "take_match una cap t N bof out cs i m = Inr (Some (l, out'))" "3 \<le> l" "i + l \<le> N" "enc_inv una dcap t False out' (i + l)"
      have "Suc i + (l - 1) + 1 < length t" "Suc i + (l - 1) = i + l" using l(2,3) assms(1) by (auto simp: buffers_ok_def)
      then obtain H2 where H2: "hash_strings t (i + 1) (l - 1) H1 = Inr H2" "hash_inv (hash_at t) (i + l) H2"
        using hash_strings_ok [OF H1(2), of "l - 1"] by auto
      have "compress_loop una cap t N H bof out cs i = compress_loop una cap t N H2 False out' (i + l) (i + l)"
        using l(1) H2(1) by (subst compress_loop.simps) (simp add: step)
      then show ?thesis using less.hyps [of "i + l" False out' "i + l" H2] l H2(2) True by simp
    qed
  qed
qed

section \<open>Properties\<close>

text \<open>C1: LiZaRd compression is lossless and bounded: for every text of \<open>N\<close> characters with 8 more behind them, every contents of the
  uninitialised hash records, and an output buffer of at least \<open>LIZARD_MAX_LEN N\<close> bytes, \<open>lizard_compress\<close> never accesses memory
  outside its arrays and returns at most \<open>LIZARD_MAX_LEN N\<close> bytes, from which \<open>lizard_decompress\<close> restores exactly the text without
  leaving an output buffer of \<open>N\<close> bytes, or of \<open>N + 3\<close> bytes when it copies short literals by unaligned accesses.\<close>

theorem lizard_roundtrip:
  assumes "N + 8 \<le> length t" "N < 2 ^ 32" "LIZARD_MAX_LEN N \<le> cap" "N + (if una then 3 else 0) \<le> dcap"
  shows "\<exists>z. lizard_compress una cap junk t N = Inr z \<and> length z \<le> LIZARD_MAX_LEN N \<and> lizard_decompress una dcap z = Inr (take N t)"
  using compress_loop_ok [of una dcap t N cap True "[]" 0 0, OF _ assms(3) _ hash_inv_init] assms(1,2,4)
  by (auto simp: lizard_compress_def buffers_ok_def enc_inv_def)

lemma lizard_roundtrip_witness:
  "\<exists>z. lizard_compress False 11 (\<lambda>_. \<lparr>hr_next = 5, hr_prev = 0\<rparr>) ([7, 7, 7, 7, 7, 7, 9] @ replicate 8 0) 7 = Inr z \<and> length z \<le> 11 \<and>
     lizard_decompress False 7 z = Inr [7, 7, 7, 7, 7, 7, 9]"
proof -
  let ?t = "[7, 7, 7, 7, 7, 7, 9] @ replicate 8 (0 :: byte)" and ?junk = "\<lambda>_ :: nat. \<lparr>hr_next = 5, hr_prev = 0\<rparr>"
  have "take 7 ?t = [7, 7, 7, 7, 7, 7, 9]" "LIZARD_MAX_LEN 7 = 11" by (simp_all add: LIZARD_MAX_LEN_def)
  then show ?thesis using lizard_roundtrip [of 7 ?t 11 False 7 ?junk] by simp
qed

text \<open>The decompressor with unaligned access writes up to 3 bytes behind the decompressed data, here behind 7 characters.\<close>

lemma unaligned_copy_overruns:
  "lizard_decompress una 7 [18, 7, 129, 0, 9, 17, 0, 0] = (if una then Inl Out_of_bounds else Inr [7, 7, 7, 7, 7, 7, 9])"
proof -
  let ?inp = "[18, 7, 129, 0, 9, 17, 0, 0] :: byte list"
  have c: "lz_command_at ?inp 2 2 = Inr (4, Window 1 5)" by (simp add: lz_command_at_def char_at_def Let_def)
  have w: "copy_window 7 1 5 [7] = Inr [7, 7, 7, 7, 7, 7]" by (simp add: copy_window_def emit_def eval_nat_numeral)
  have b: "copy_bits una 7 ?inp 4 [7, 7, 7, 7, 7, 7] = (if una then Inl Out_of_bounds else Inr (5, [7, 7, 7, 7, 7, 7, 9], 0))"
    by (simp add: copy_bits_def char_at_def emit_u32_def emit_from_def emit_def)
  have "decompress_loop una 7 ?inp 2 2 [7] = (if una then Inl Out_of_bounds else Inr [7, 7, 7, 7, 7, 7, 9])"
    using loop_eof [of 5 ?inp False 7 0] b w by (subst decompress_loop.simps) (simp add: c)
  moreover have "emit_from 7 ?inp 1 1 [] = Inr [7]" by (simp add: emit_from_def emit_def)
  moreover have "unat (18 :: byte) - 17 = 1" "(1 :: nat) + 1 = 2" "(18 :: byte) > 17" "char_at ?inp 0 = Inr 18" by (simp_all add: char_at_def)
  ultimately show ?thesis by (simp only: lizard_decompress_def res_bind_simps if_True)
qed

end
