(* ===== verification/Kmp.thy ===== *)
theory Kmp
  imports Hashtable
begin

text \<open>
  \<open>ucw/kmp.h\<close> and \<open>ucw/kmp-search.h\<close>: the search for a set of strings by an automaton (Knuth, Morris and Pratt; Aho and Corasick),
  whose transitions are kept in a hash table of \<open>ucw/hashtable.h\<close> with the key of the previous state and the character. A state
  is known by its address: 0 is the null state inside of \<open>struct kmp\<close>, the others come from the pool one after another. The source
  of characters is the list that \<open>get_char\<close> reads, after any conversion, up to the character 0 at its end. The macros of the user
  are not called; the search returns the states for which \<open>KMPS_FOUND\<close> is called, step by step.
\<close>

section \<open>Operations\<close>

record kmp_state =
  ks_from :: "nat option"
  ks_back :: "nat option"
  ks_next :: "nat option"
  ks_len :: nat
  ks_c :: nat

type_synonym kmp_params = "(nat \<times> nat, unit) hash_params"

record kmp =
  kmp_hash :: "(nat \<times> nat, unit) table"
  kmp_states :: "nat \<Rightarrow> kmp_state"

definition null_state :: kmp_state where
  "null_state = \<lparr>ks_from = None, ks_back = None, ks_next = None, ks_len = 0, ks_c = 0\<rparr>"

text \<open>The default hash function of the transitions, on 32-bit values.\<close>

definition kmp_hash_hash :: "nat \<times> nat \<Rightarrow> nat" where
  "kmp_hash_hash k = U32 (U32 (push_bit 16 (snd k)) + U32 (fst k))"

definition kmp_get_char :: "nat list \<Rightarrow> (bool \<times> nat \<times> nat list) res" where
  "kmp_get_char src = (case src of [] \<Rightarrow> Inl Out_of_bounds | cc # src \<Rightarrow> Inr (cc \<noteq> 0, cc, src))"

lemma kmp_get_char_less: "kmp_get_char src = Inr (b, c, src') \<Longrightarrow> length src' < length src"
  by (auto simp: kmp_get_char_def split: list.splits)

definition kmp_init :: "kmp_params \<Rightarrow> kmp res" where
  "kmp_init P = res_bind (ht_init P) (\<lambda>T. Inr \<lparr>kmp_hash = T, kmp_states = \<lambda>_. null_state\<rparr>)"

text \<open>A new state with its initialisation by \<open>hash_init_key\<close>; until \<open>build\<close> the fields \<open>back\<close> and \<open>next\<close> hold the list of sons.\<close>

definition kmp_hash_init_key :: "nat \<Rightarrow> nat \<Rightarrow> nat \<Rightarrow> (nat \<Rightarrow> kmp_state) \<Rightarrow> nat \<Rightarrow> kmp_state" where
  "kmp_hash_init_key s f c st = (let st = st(s := null_state\<lparr>ks_from := Some f, ks_c := c, ks_next := ks_back (st f)\<rparr>) in
     st(f := (st f)\<lparr>ks_back := Some s\<rparr>))"

definition kmp_hash_new :: "kmp_params \<Rightarrow> nat \<Rightarrow> nat \<Rightarrow> kmp \<Rightarrow> (nat \<times> kmp) res" where
  "kmp_hash_new P f c K = res_bind (ht_new P (hash_count (kmp_hash K) + 1) (f, c) (kmp_hash K)) (\<lambda>(s, T).
     Inr (s, \<lparr>kmp_hash = T, kmp_states = kmp_hash_init_key s f c (kmp_states K)\<rparr>))"

definition set_len :: "nat \<Rightarrow> nat \<Rightarrow> kmp \<Rightarrow> kmp" where
  "set_len s len K = K\<lparr>kmp_states := (kmp_states K)(s := (kmp_states K s)\<lparr>ks_len := len\<rparr>)\<rparr>"

text \<open>The inner loop of \<open>add\<close>, which creates states, and the outer one, which follows the states that exist.\<close>

function add_new :: "kmp_params \<Rightarrow> nat \<Rightarrow> nat \<Rightarrow> nat list \<Rightarrow> nat \<Rightarrow> kmp \<Rightarrow> (nat option \<times> kmp) res" where
  "add_new P p c src len K = res_bind (kmp_hash_new P p c K) (\<lambda>(s, K). res_bind (kmp_get_char src) (\<lambda>(ok, c, src).
     if ok then add_new P s c src (U32 (len + 1)) K else Inr (Some s, set_len s (U32 (len + 1)) K)))"
  by pat_completeness auto
termination
  by (relation "measure (\<lambda>(P, p, c, src, len, K). length src)") (auto dest: kmp_get_char_less)

function add_loop :: "kmp_params \<Rightarrow> nat \<Rightarrow> nat \<Rightarrow> nat list \<Rightarrow> nat \<Rightarrow> kmp \<Rightarrow> (nat option \<times> kmp) res" where
  "add_loop P p c src len K = res_bind (ht_find P (p, c) (kmp_hash K)) (\<lambda>r. case r of
     None \<Rightarrow> add_new P p c src len K
   | Some s \<Rightarrow> res_bind (kmp_get_char src) (\<lambda>(ok, c, src).
       if ok then add_loop P s c src (U32 (len + 1)) K
       else if ks_len (kmp_states K s) \<noteq> 0 then Inr (Some s, K)
       else Inr (Some s, set_len s (U32 (len + 1)) K)))"
  by pat_completeness auto
termination
  by (relation "measure (\<lambda>(P, p, c, src, len, K). length src)") (auto dest: kmp_get_char_less)

declare add_new.simps [simp del] add_loop.simps [simp del]

definition kmp_add :: "kmp_params \<Rightarrow> nat list \<Rightarrow> kmp \<Rightarrow> (nat option \<times> kmp) res" where
  "kmp_add P src K = res_bind (kmp_get_char src) (\<lambda>(ok, c, src). if ok then add_loop P 0 c src 0 K else Inr (None, K))"

definition kmp_empty :: "kmp \<Rightarrow> bool" where
  "kmp_empty K \<longleftrightarrow> hash_count (kmp_hash K) = 0"

definition chain_start :: "(nat \<Rightarrow> kmp_state) \<Rightarrow> nat \<Rightarrow> nat option" where
  "chain_start st s = (if ks_len (st s) \<noteq> 0 then Some s else ks_next (st s))"

text \<open>The sons of a state are stored to the queue, an array of \<open>cap\<close> entries.\<close>

function push_sons :: "nat \<Rightarrow> (nat \<Rightarrow> kmp_state) \<Rightarrow> nat option \<Rightarrow> nat list \<Rightarrow> nat list res" where
  "push_sons cap st t fifo = (case t of None \<Rightarrow> Inr fifo
     | Some s \<Rightarrow> if length fifo < cap then push_sons cap st (ks_next (st s)) (fifo @ [s]) else Inl Out_of_bounds)"
  by pat_completeness auto
termination
  by (relation "measure (\<lambda>(cap, st, t, fifo). cap - length fifo)") auto

text \<open>The loop along the backwards edges for a transition by the character \<open>c\<close>, in \<open>build\<close> and in \<open>search\<close>. At most
  \<open>n\<close> passes; the number of states is enough when the edges are right.\<close>

primrec back_loop :: "kmp_params \<Rightarrow> kmp \<Rightarrow> nat \<Rightarrow> nat \<Rightarrow> nat option \<Rightarrow> nat option res" where
  "back_loop P K c 0 t = Inl Diverges"
| "back_loop P K c (Suc n) t = (case t of None \<Rightarrow> Inr None
     | Some s \<Rightarrow> res_bind (ht_find P (s, c) (kmp_hash K)) (\<lambda>r. case r of
         None \<Rightarrow> back_loop P K c n (ks_back (kmp_states K s))
       | Some u \<Rightarrow> Inr (Some u)))"

definition kmp_fuel :: "kmp \<Rightarrow> nat" where
  "kmp_fuel K = hash_count (kmp_hash K) + 2"

definition build_state :: "kmp_params \<Rightarrow> nat \<Rightarrow> kmp \<Rightarrow> kmp res" where
  "build_state P s K = (let st = kmp_states K in case ks_from (st s) of None \<Rightarrow> Inl Out_of_bounds
     | Some f \<Rightarrow> res_bind (back_loop P K (ks_c (st s)) (kmp_fuel K) (ks_back (st f))) (\<lambda>r.
         let e = (case r of None \<Rightarrow> (Some 0, None) | Some b \<Rightarrow> (Some b, chain_start st b)) in
         Inr (K\<lparr>kmp_states := st(s := (st s)\<lparr>ks_back := fst e, ks_next := snd e\<rparr>)\<rparr>)))"

function build_loop :: "kmp_params \<Rightarrow> nat \<Rightarrow> nat list \<Rightarrow> nat \<Rightarrow> kmp \<Rightarrow> kmp res" where
  "build_loop P cap fifo rd K = (if rd \<noteq> length fifo then
     (if rd < length fifo \<and> rd < cap then
        res_bind (push_sons cap (kmp_states K) (ks_back (kmp_states K (fifo ! rd))) fifo) (\<lambda>fifo'.
        res_bind (build_state P (fifo ! rd) K) (\<lambda>K. build_loop P cap fifo' (rd + 1) K))
      else Inl Out_of_bounds)
    else Inr K)"
  by pat_completeness auto
termination
  by (relation "measure (\<lambda>(P, cap, fifo, rd, K). cap - rd)") auto

declare push_sons.simps [simp del] build_loop.simps [simp del]

definition kmp_build :: "kmp_params \<Rightarrow> kmp \<Rightarrow> kmp res" where
  "kmp_build P K = (if kmp_empty K then Inr K else
     let st = kmp_states K; cap = hash_count (kmp_hash K) in
     res_bind (push_sons cap st (ks_back (st 0)) []) (\<lambda>fifo.
     build_loop P cap fifo 0 (K\<lparr>kmp_states := st(0 := (st 0)\<lparr>ks_back := None\<rparr>)\<rparr>)))"

section \<open>Search\<close>

text \<open>The options \<open>KMPS_ADD_CONTROLS\<close> and \<open>KMPS_MERGE_CONTROLS\<close> and the control character.\<close>

record kmps_params =
  add_controls :: bool
  merge_controls :: bool
  control :: nat

text \<open>The next character with the flag \<open>eof\<close>, or \<open>None\<close> at the exit. \<open>get_char\<close> stores the character 0 at the end, too.\<close>

function next_char :: "kmps_params \<Rightarrow> nat \<Rightarrow> nat list \<Rightarrow> (nat \<times> bool \<times> nat list) option res" where
  "next_char opt last_c src = res_bind (kmp_get_char src) (\<lambda>(ok, c, src).
     if \<not> ok then (if add_controls opt \<and> c \<noteq> control opt then Inr (Some (control opt, True, src)) else Inr None)
     else if merge_controls opt \<and> last_c = control opt \<and> c = control opt then next_char opt last_c src
     else Inr (Some (c, False, src)))"
  by pat_completeness auto
termination
  by (relation "measure (\<lambda>(opt, last_c, src). length src)") (auto dest: kmp_get_char_less)

declare next_char.simps [simp del]

lemma next_char_Nil: "next_char opt l [] = Inl Out_of_bounds"
  by (simp add: next_char.simps kmp_get_char_def)

lemma next_char_Cons: "next_char opt l (c # src) =
  (if c = 0 then (if add_controls opt \<and> c \<noteq> control opt then Inr (Some (control opt, True, src)) else Inr None)
   else if merge_controls opt \<and> l = control opt \<and> c = control opt then next_char opt l src
   else Inr (Some (c, False, src)))"
  by (subst next_char.simps) (simp add: kmp_get_char_def)

lemma next_char_less: "next_char opt l src = Inr (Some (c, e, src')) \<Longrightarrow> length src' < length src"
  by (induction src) (auto simp: next_char_Nil next_char_Cons split: if_splits intro: less_SucI)

text \<open>The states of the list of matches from \<open>out\<close>.\<close>

primrec found_chain :: "(nat \<Rightarrow> kmp_state) \<Rightarrow> nat \<Rightarrow> nat option \<Rightarrow> nat list res" where
  "found_chain st 0 out = Inl Diverges"
| "found_chain st (Suc n) out = (case out of None \<Rightarrow> Inr []
     | Some s \<Rightarrow> res_bind (found_chain st n (ks_next (st s))) (\<lambda>l. Inr (s # l)))"

text \<open>One step on the character \<open>c\<close>: the new state, the best match and the states found.\<close>

definition search_step :: "kmp_params \<Rightarrow> kmp \<Rightarrow> nat \<Rightarrow> nat \<times> nat \<Rightarrow> ((nat \<times> nat) \<times> nat list) res" where
  "search_step P K c sb = res_bind (back_loop P K c (kmp_fuel K) (Some (fst sb))) (\<lambda>r.
     let s = (case r of None \<Rightarrow> 0 | Some u \<Rightarrow> u); st = kmp_states K; out = chain_start st s;
       best = (case out of None \<Rightarrow> snd sb | Some u \<Rightarrow> if ks_len (st u) > ks_len (st (snd sb)) then u else snd sb) in
     res_bind (found_chain st (kmp_fuel K) out) (\<lambda>l. Inr ((s, best), l)))"

function search_loop :: "kmp_params \<Rightarrow> kmps_params \<Rightarrow> kmp \<Rightarrow> nat \<Rightarrow> bool \<Rightarrow> nat list \<Rightarrow> nat \<times> nat \<Rightarrow> (nat list list \<times> nat) res" where
  "search_loop P opt K c eof src sb = res_bind (search_step P K c sb) (\<lambda>(sb, l).
     if add_controls opt \<and> eof then Inr ([l], snd sb)
     else res_bind (next_char opt c src) (\<lambda>r. case r of
       None \<Rightarrow> Inr ([l], snd sb)
     | Some (c, eof, src) \<Rightarrow> res_bind (search_loop P opt K c eof src sb) (\<lambda>(ls, best). Inr (l # ls, best))))"
  by pat_completeness auto
termination
  by (relation "measure (\<lambda>(P, opt, K, c, eof, src, sb). length src)") (auto dest: next_char_less)

declare search_loop.simps [simp del]

definition kmp_search :: "kmp_params \<Rightarrow> kmps_params \<Rightarrow> kmp \<Rightarrow> nat list \<Rightarrow> (nat list list \<times> nat) res" where
  "kmp_search P opt K src = (if add_controls opt then search_loop P opt K (control opt) False src (0, 0)
     else res_bind (next_char opt 0 src) (\<lambda>r. case r of None \<Rightarrow> Inr ([], 0)
       | Some (c, eof, src) \<Rightarrow> search_loop P opt K c eof src (0, 0)))"

text \<open>The addition of several strings.\<close>

primrec kmp_add_all :: "kmp_params \<Rightarrow> nat list list \<Rightarrow> kmp \<Rightarrow> kmp res" where
  "kmp_add_all P [] K = Inr K"
| "kmp_add_all P (w # ws) K = res_bind (kmp_add P (w @ [0]) K) (\<lambda>(r, K). kmp_add_all P ws K)"

end
