(* ===== verification/Kmp_Trie.thy ===== *)
theory Kmp_Trie
  imports Kmp "HOL-Library.Sublist"
begin

text \<open>
  The construction of the tree of states by \<open>add\<close>. The strings that the states represent are the list \<open>S\<close>, indexed by the
  addresses of the states; the tree holds a set \<open>W\<close> of key strings.
\<close>

section \<open>Trees of states\<close>

fun son_links :: "(nat \<Rightarrow> kmp_state) \<Rightarrow> nat option \<Rightarrow> nat list \<Rightarrow> bool" where
  "son_links st t [] \<longleftrightarrow> t = None"
| "son_links st t (a # l) \<longleftrightarrow> t = Some a \<and> son_links st (ks_next (st a)) l"

definition sons :: "nat list list \<Rightarrow> nat \<Rightarrow> nat set" where
  "sons S p = {a. 0 < a \<and> a < length S \<and> butlast (S ! a) = S ! p}"

definition kmp_params_ok :: "kmp_params \<Rightarrow> bool" where
  "kmp_params_ok P \<longleftrightarrow> params_ok P \<and> eqfn P = (=)"

definition trie_table :: "kmp_params \<Rightarrow> nat list list \<Rightarrow> (nat \<times> nat, unit) table \<Rightarrow> bool" where
  "trie_table P S T \<longleftrightarrow> table_ok P T \<and> keys_unique P T \<and> size (buckets T) + 1 = length S \<and> addr ` set_mset (buckets T) \<subseteq> {0<..<length S} \<and>
     (\<forall>p c a. ht_dict P T (p, c) = Some a \<longleftrightarrow> p < length S \<and> a < length S \<and> S ! a = S ! p @ [c])"

definition trie_strings :: "nat list list \<Rightarrow> nat list set \<Rightarrow> (nat \<Rightarrow> kmp_state) \<Rightarrow> bool" where
  "trie_strings S W st \<longleftrightarrow> S \<noteq> [] \<and> S ! 0 = [] \<and> distinct S \<and> W \<subseteq> set S \<and> [] \<notin> W \<and>
     (\<forall>a. 0 < a \<and> a < length S \<longrightarrow> (\<exists>p<length S. ks_from (st a) = Some p \<and> S ! a = S ! p @ [ks_c (st a)])) \<and>
     (\<forall>a<length S. ks_len (st a) = (if S ! a \<in> W then length (S ! a) else 0))"

definition trie_sons :: "nat list list \<Rightarrow> (nat \<Rightarrow> kmp_state) \<Rightarrow> bool" where
  "trie_sons S st \<longleftrightarrow> ks_next (st 0) = None \<and> (\<forall>p<length S. \<exists>l. son_links st (ks_back (st p)) l \<and> distinct l \<and> set l = sons S p)"

definition trie_ok :: "kmp_params \<Rightarrow> nat list list \<Rightarrow> nat list set \<Rightarrow> kmp \<Rightarrow> bool" where
  "trie_ok P S W K \<longleftrightarrow> trie_table P S (kmp_hash K) \<and> trie_strings S W (kmp_states K) \<and> trie_sons S (kmp_states K)"

lemma son_links_cong: "\<forall>a\<in>set l. ks_next (st a) = ks_next (st' a) \<Longrightarrow> son_links st t l = son_links st' t l"
  by (induction l arbitrary: t) auto

lemma trie_find:
  assumes "kmp_params_ok P" "trie_table P S T"
  shows "ht_find P k T = Inr (ht_dict P T k)"
  using hasht.find_dict [of P T k] assms by (simp add: hasht_dict kmp_params_ok_def trie_table_def)

lemma trie_count: "trie_table P S T \<Longrightarrow> hash_count T + 1 = length S"
  by (simp add: trie_table_def table_ok_def)

lemma trie_closed: "trie_strings S W st \<Longrightarrow> u @ [c] \<in> set S \<Longrightarrow> u \<in> set S"
proof -
  assume a: "trie_strings S W st" "u @ [c] \<in> set S"
  then obtain i where i: "i < length S" "S ! i = u @ [c]" by (auto simp: in_set_conv_nth)
  then have "0 < i" using a(1) by (cases i) (auto simp: trie_strings_def)
  then obtain p where "p < length S" "S ! i = S ! p @ [ks_c (st i)]" using a(1) i(1) by (auto simp: trie_strings_def)
  then show ?thesis using i(2) by auto
qed

section \<open>Addition of a state\<close>

lemma new_table:
  assumes "kmp_params_ok P" "trie_table P S T" "trie_strings S W st" "p < length S" "S ! p @ [c] \<notin> set S" "length S < 4294967295"
  shows "\<exists>T'. ht_new P (length S) (p, c) T = Inr (length S, T') \<and> trie_table P (S @ [S ! p @ [c]]) T'"
proof -
  have P: "params_ok P" "eqfn P = (=)" using assms(1) by (auto simp: kmp_params_ok_def)
  have T: "table_ok P T" "keys_unique P T" "size (buckets T) + 1 = length S" "addr ` set_mset (buckets T) \<subseteq> {0<..<length S}"
    "\<And>p c a. ht_dict P T (p, c) = Some a \<longleftrightarrow> p < length S \<and> a < length S \<and> S ! a = S ! p @ [c]"
    using assms(2) by (auto simp: trie_table_def)
  have f: "length S \<notin> addr ` set_mset (buckets T)" "size (buckets T) < 4294967294" using T(3,4) assms(6) by auto
  have n: "ht_dict P T (p, c) = None"
  proof (cases "ht_dict P T (p, c)")
    case (Some a)
    then have "a < length S" "S ! a = S ! p @ [c]" using T(5) by auto
    then show ?thesis using assms(5) nth_mem by metis
  qed
  have new: "S ! a \<noteq> S ! p @ [c]" if "a < length S" for a using assms(5) nth_mem [OF that] by auto
  have u: "hasht.unique P T" using hasht_unique [OF P(1)] T(1,2) by blast
  from hasht.lookup_dict [OF u f, of "(p, c)", unfolded hasht_dict, OF n]
  obtain T' where T': "ht_new P (length S) (p, c) T = Inr (length S, T')" "hasht.unique P T'"
    "\<forall>k. ht_dict P T' k = (if (p, c) = k then Some (length S) else ht_dict P T k)" by (auto simp: P(2))
  have t: "table_ok P T'" "keys_unique P T'" using T'(2) hasht_unique [OF P(1)] by auto
  have b: "buckets T' = add_mset (new_bucket P (length S) (p, c)) (buckets T)"
    using ht_new_ok [OF P(1) T(1) f, of "(p, c)"] T'(1) by auto
  have "ht_dict P T' (q, d) = Some a \<longleftrightarrow> q < length (S @ [S ! p @ [c]]) \<and> a < length (S @ [S ! p @ [c]]) \<and> (S @ [S ! p @ [c]]) ! a = (S @ [S ! p @ [c]]) ! q @ [d]" for q d a
  proof (cases "(q, d) = (p, c)")
    case True
    then show ?thesis using T'(3) assms(4) new by (auto simp: nth_append less_Suc_eq)
  next
    case False
    have "distinct S" using assms(3) by (simp add: trie_strings_def)
    then have "q < length S \<and> S ! p @ [c] = S ! q @ [d] \<Longrightarrow> False" using False assms(4) by (auto simp: nth_eq_iff_index_eq)
    moreover have "S ! a = (S ! p @ [c]) @ [d] \<Longrightarrow> a < length S \<Longrightarrow> False"
      using trie_closed [OF assms(3), of "S ! p @ [c]" d] assms(5) nth_mem [of a S] by auto
    ultimately show ?thesis using T'(3) T(5) [of q d a] False by (auto simp: nth_append less_Suc_eq)
  qed
  then show ?thesis using T'(1) t b T(3,4) by (auto simp: trie_table_def new_bucket_def)
qed

lemma new_states:
  assumes "trie_strings S W st" "p < length S" "S ! p @ [c] \<notin> set S"
  shows "trie_strings (S @ [S ! p @ [c]]) W (kmp_hash_init_key (length S) p c st)"
proof -
  let ?st = "kmp_hash_init_key (length S) p c st"
  have k: "?st (length S) = null_state\<lparr>ks_from := Some p, ks_c := c, ks_next := ks_back (st p)\<rparr>"
    "ks_from (?st a) = ks_from (st a) \<and> ks_c (?st a) = ks_c (st a) \<and> ks_len (?st a) = ks_len (st a)" if "a < length S" for a
    using that assms(2) by (auto simp: kmp_hash_init_key_def Let_def)
  have s: "S \<noteq> []" "S ! 0 = []" "distinct S" "W \<subseteq> set S" "[] \<notin> W"
    "\<And>a. 0 < a \<Longrightarrow> a < length S \<Longrightarrow> \<exists>p<length S. ks_from (st a) = Some p \<and> S ! a = S ! p @ [ks_c (st a)]"
    "\<And>a. a < length S \<Longrightarrow> ks_len (st a) = (if S ! a \<in> W then length (S ! a) else 0)"
    using assms(1) by (auto simp: trie_strings_def)
  have "\<exists>q<length (S @ [S ! p @ [c]]). ks_from (?st a) = Some q \<and> (S @ [S ! p @ [c]]) ! a = (S @ [S ! p @ [c]]) ! q @ [ks_c (?st a)]"
    if a: "0 < a" "a < length (S @ [S ! p @ [c]])" for a
  proof (cases "a = length S")
    case True
    then show ?thesis using k(1) [of 0] assms(2) s(1) by (intro exI [of _ p]) (simp add: nth_append)
  next
    case False
    then have "a < length S" using a(2) by simp
    then obtain q where "q < length S" "ks_from (st a) = Some q" "S ! a = S ! q @ [ks_c (st a)]" using s(6) [OF a(1)] by blast
    then show ?thesis using k(2) [OF \<open>a < length S\<close>] \<open>a < length S\<close> by (intro exI [of _ q]) (simp add: nth_append)
  qed
  moreover have "ks_len (?st a) = (if (S @ [S ! p @ [c]]) ! a \<in> W then length ((S @ [S ! p @ [c]]) ! a) else 0)" if "a < length (S @ [S ! p @ [c]])" for a
    using that s(4,7) k(1) [of 0] k(2) [of a] s(1) assms(3) by (cases "a = length S") (auto simp: nth_append null_state_def)
  moreover have "(S @ [S ! p @ [c]]) ! 0 = []" using s(1,2) by (simp add: nth_append)
  ultimately show ?thesis using s(1-5) assms(3) unfolding trie_strings_def by auto
qed

lemma sons_new:
  assumes "trie_strings S W st" "p < length S" "S ! p @ [c] \<notin> set S" "q < length S"
  shows "sons (S @ [S ! p @ [c]]) q = (if q = p then insert (length S) (sons S q) else sons S q)"
proof -
  have "S \<noteq> []" "distinct S" using assms(1) by (auto simp: trie_strings_def)
  then have "S ! p = S ! q \<longleftrightarrow> p = q" using assms(2,4) by (simp add: nth_eq_iff_index_eq)
  then show ?thesis using assms(4) \<open>S \<noteq> []\<close> by (auto simp: sons_def nth_append less_Suc_eq)
qed

lemma new_sons:
  assumes "trie_strings S W st" "trie_sons S st" "p < length S" "S ! p @ [c] \<notin> set S"
  shows "trie_sons (S @ [S ! p @ [c]]) (kmp_hash_init_key (length S) p c st)"
  unfolding trie_sons_def
proof (intro conjI allI impI)
  let ?st = "kmp_hash_init_key (length S) p c st" and ?S = "S @ [S ! p @ [c]]"
  have k: "ks_back (?st (length S)) = None" "ks_next (?st (length S)) = ks_back (st p)" "ks_back (?st p) = Some (length S)"
    "ks_next (?st a) = ks_next (st a)" "a \<noteq> p \<Longrightarrow> ks_back (?st a) = ks_back (st a)" if "a < length S" for a
    using that assms(3) by (auto simp: kmp_hash_init_key_def Let_def null_state_def)
  have "ks_next (st 0) = None" "0 < length S" using assms(2,3) by (auto simp: trie_sons_def)
  then show "ks_next (?st 0) = None" using k(4) by simp
  fix q assume q: "q < length ?S"
  show "\<exists>l. son_links ?st (ks_back (?st q)) l \<and> distinct l \<and> set l = sons ?S q"
  proof (cases "q = length S")
    case True
    have "sons ?S q = {}"
    proof (rule ccontr)
      assume "sons ?S q \<noteq> {}"
      then obtain a where a: "0 < a" "a < length ?S" "butlast (?S ! a) = S ! p @ [c]" using True by (auto simp: sons_def)
      then have "a < length S" by (auto simp: nth_append less_Suc_eq)
      moreover have "S ! a \<noteq> []" using a \<open>a < length S\<close> by (auto simp: nth_append)
      ultimately have "(S ! p @ [c]) @ [last (S ! a)] \<in> set S" using a(3) append_butlast_last_id [of "S ! a"] nth_mem [of a S] by (simp add: nth_append)
      then show False using trie_closed [OF assms(1)] assms(4) by blast
    qed
    then show ?thesis using True k(1) [OF assms(3)] by (intro exI [of _ "[]"]) simp
  next
    case False
    then have q': "q < length S" using q by simp
    obtain l where l: "son_links st (ks_back (st q)) l" "distinct l" "set l = sons S q" using assms(2) q' by (auto simp: trie_sons_def)
    have "son_links ?st (ks_back (st q)) l" using l(1) son_links_cong [of l st ?st] k(4) l(3) by (auto simp: sons_def)
    moreover have "length S \<notin> sons S q" by (simp add: sons_def)
    ultimately show ?thesis
    proof (cases "q = p")
      case True
      have "son_links ?st (ks_back (?st q)) (length S # l)" using \<open>son_links ?st (ks_back (st q)) l\<close> k(2,3) [OF q'] True by (simp del: fun_upd_apply)
      moreover have "distinct (length S # l)" "set (length S # l) = sons ?S q"
        using l(2,3) \<open>length S \<notin> sons S q\<close> sons_new [OF assms(1,3,4) q'] True by simp_all
      ultimately show ?thesis by blast
    next
      case False
      have "son_links ?st (ks_back (?st q)) l" using \<open>son_links ?st (ks_back (st q)) l\<close> k(5) [OF q' False] by simp
      moreover have "set l = sons ?S q" using l(3) sons_new [OF assms(1,3,4) q'] False by simp
      ultimately show ?thesis using l(2) by blast
    qed
  qed
qed

lemma kmp_hash_new_ok:
  assumes "kmp_params_ok P" "trie_ok P S W K" "p < length S" "S ! p @ [c] \<notin> set S" "length S < 4294967295"
  shows "\<exists>K'. kmp_hash_new P p c K = Inr (length S, K') \<and> trie_ok P (S @ [S ! p @ [c]]) W K'"
proof -
  have t: "trie_table P S (kmp_hash K)" "trie_strings S W (kmp_states K)" "trie_sons S (kmp_states K)" using assms(2) by (auto simp: trie_ok_def)
  show ?thesis using new_table [OF assms(1) t(1,2) assms(3-5)] new_states [OF t(2) assms(3,4)] new_sons [OF t(2,3) assms(3,4)] trie_count [OF t(1)]
    by (auto simp: kmp_hash_new_def trie_ok_def)
qed

section \<open>Addition of a key\<close>

lemma trie_prefix: "trie_strings S W st \<Longrightarrow> u \<in> set S \<Longrightarrow> prefix v u \<Longrightarrow> v \<in> set S"
proof (induction u rule: rev_induct)
  case (snoc c u)
  then show ?case using trie_closed [OF snoc.prems(1), of u c] by (auto simp: prefix_snoc)
qed simp

lemma depth_less:
  assumes "trie_strings S W st" "u \<in> set S"
  shows "length u < length S"
proof -
  have "set (prefixes u) \<subseteq> set S" using trie_prefix [OF assms] by auto
  then have "card (set (prefixes u)) \<le> card (set S)" by (rule card_mono [rotated]) simp
  also have "card (set S) \<le> length S" by (rule card_length)
  finally show ?thesis by (simp add: distinct_card)
qed

lemma set_len_ok:
  assumes "trie_ok P S W K" "0 < s" "s < length S"
  shows "trie_ok P S (insert (S ! s) W) (set_len s (length (S ! s)) K)"
proof -
  have t: "trie_table P S (kmp_hash K)" "trie_strings S W (kmp_states K)" "trie_sons S (kmp_states K)" using assms(1) by (auto simp: trie_ok_def)
  let ?st = "kmp_states (set_len s (length (S ! s)) K)"
  have k: "ks_from (?st a) = ks_from (kmp_states K a)" "ks_c (?st a) = ks_c (kmp_states K a)" "ks_next (?st a) = ks_next (kmp_states K a)"
    "ks_back (?st a) = ks_back (kmp_states K a)" "ks_len (?st a) = (if a = s then length (S ! s) else ks_len (kmp_states K a))" for a
    by (auto simp: set_len_def)
  have d: "distinct S" "S ! 0 = []" "S \<noteq> []" using t(2) by (auto simp: trie_strings_def)
  have "S ! a = S ! s \<longleftrightarrow> a = s" if "a < length S" for a using d(1) that assms(3) by (simp add: nth_eq_iff_index_eq)
  moreover have "S ! s \<noteq> []" using d assms(2,3) nth_eq_iff_index_eq [OF d(1), of 0 s] by auto
  ultimately have "trie_strings S (insert (S ! s) W) ?st" using t(2) assms(3) unfolding trie_strings_def k by auto
  moreover have "trie_sons S ?st" using t(3) son_links_cong [of _ "kmp_states K" ?st] unfolding trie_sons_def k by (metis k(3))
  ultimately show ?thesis using t(1) by (simp add: trie_ok_def set_len_def)
qed

lemma add_new_ok:
  assumes P: "kmp_params_ok P"
  shows "trie_ok P S W K \<Longrightarrow> p < length S \<Longrightarrow> S ! p @ [c] \<notin> set S \<Longrightarrow> 0 \<notin> set xs \<Longrightarrow> length S + length xs < 4294967295 \<Longrightarrow> len = length (S ! p) \<Longrightarrow>
    \<exists>s S' K'. add_new P p c (xs @ 0 # rest) len K = Inr (Some s, K') \<and> trie_ok P S' (insert (S ! p @ c # xs) W) K' \<and>
      length S' \<le> length S + length xs + 1 \<and> s < length S' \<and> S' ! s = S ! p @ c # xs"
proof (induction xs arbitrary: S K p c len)
  case Nil
  let ?S = "S @ [S ! p @ [c]]"
  obtain K1 where K1: "kmp_hash_new P p c K = Inr (length S, K1)" "trie_ok P ?S W K1" using kmp_hash_new_ok [OF P Nil(1-3)] Nil(5) by auto
  have "length (S ! p) < length S" using depth_less [of S W] Nil(1,2) nth_mem by (auto simp: trie_ok_def)
  then have "U32 (len + 1) = length (?S ! length S)" using Nil(5,6) by (simp add: U32_small)
  then have "trie_ok P ?S (insert (S ! p @ [c]) W) (set_len (length S) (U32 (len + 1)) K1)" using set_len_ok [OF K1(2), of "length S"] Nil(2) by (cases S) auto
  moreover have "add_new P p c ([] @ 0 # rest) len K = Inr (Some (length S), set_len (length S) (U32 (len + 1)) K1)"
    using K1(1) by (subst add_new.simps) (simp add: kmp_get_char_def)
  ultimately show ?case by (intro exI [of _ "length S"] exI [of _ ?S] exI) auto
next
  case (Cons x xs)
  let ?S = "S @ [S ! p @ [c]]"
  obtain K1 where K1: "kmp_hash_new P p c K = Inr (length S, K1)" "trie_ok P ?S W K1" using kmp_hash_new_ok [OF P Cons(2-4)] Cons(6) by auto
  have l: "length (S ! p) < length S" using depth_less [of S W] Cons(2,3) nth_mem by (auto simp: trie_ok_def)
  then have len: "U32 (len + 1) = length (?S ! length S)" using Cons(6,7) by (simp add: U32_small)
  have "(S ! p @ [c]) @ [x] \<notin> set ?S" using trie_closed [of S W "kmp_states K" "S ! p @ [c]" x] Cons(2,4) by (auto simp: trie_ok_def)
  then have "\<exists>s S' K'. add_new P (length S) x (xs @ 0 # rest) (U32 (len + 1)) K1 = Inr (Some s, K') \<and> trie_ok P S' (insert (?S ! length S @ x # xs) W) K' \<and>
      length S' \<le> length ?S + length xs + 1 \<and> s < length S' \<and> S' ! s = ?S ! length S @ x # xs"
    using Cons(5,6) len by (intro Cons.IH [OF K1(2)]) auto
  moreover have "add_new P p c ((x # xs) @ 0 # rest) len K = add_new P (length S) x (xs @ 0 # rest) (U32 (len + 1)) K1"
    using K1(1) Cons(5) by (subst add_new.simps) (simp add: kmp_get_char_def)
  ultimately show ?case by auto
qed

lemma find_state_table:
  assumes "kmp_params_ok P" "trie_table P S T" "trie_strings S W st" "p < length S"
  shows "ht_find P (p, c) T = Inr None \<and> S ! p @ [c] \<notin> set S \<or>
    (\<exists>s. ht_find P (p, c) T = Inr (Some s) \<and> 0 < s \<and> s < length S \<and> S ! s = S ! p @ [c])"
proof -
  have t: "S ! 0 = []" using assms(3) by (auto simp: trie_strings_def)
  note d = assms(2) [unfolded trie_table_def, THEN conjunct2, THEN conjunct2, THEN conjunct2, THEN conjunct2, rule_format, of p c]
  show ?thesis
  proof (cases "ht_dict P T (p, c)")
    case None
    then have "S ! p @ [c] \<notin> set S" using d assms(4) by (auto simp: in_set_conv_nth)
    then show ?thesis using None trie_find [OF assms(1,2)] by simp
  next
    case (Some s)
    moreover from this have "s < length S" "S ! s = S ! p @ [c]" using d by auto
    moreover from this have "0 < s" using t by (cases s) auto
    ultimately show ?thesis using trie_find [OF assms(1,2)] by simp
  qed
qed

lemma kmp_find_state:
  assumes "kmp_params_ok P" "trie_ok P S W K" "p < length S"
  shows "ht_find P (p, c) (kmp_hash K) = Inr None \<and> S ! p @ [c] \<notin> set S \<or>
    (\<exists>s. ht_find P (p, c) (kmp_hash K) = Inr (Some s) \<and> 0 < s \<and> s < length S \<and> S ! s = S ! p @ [c])"
  using find_state_table [OF assms(1) _ _ assms(3)] assms(2) by (auto simp: trie_ok_def)

lemma add_loop_ok:
  assumes P: "kmp_params_ok P" and ok: "trie_ok P S W K" "length S + length xs < 4294967295"
  shows "p < length S \<Longrightarrow> 0 \<notin> set xs \<Longrightarrow> length S + length xs < 4294967295 \<Longrightarrow> len = length (S ! p) \<Longrightarrow>
    \<exists>s S' K'. add_loop P p c (xs @ 0 # rest) len K = Inr (Some s, K') \<and> trie_ok P S' (insert (S ! p @ c # xs) W) K' \<and>
      length S' \<le> length S + length xs + 1 \<and> s < length S' \<and> S' ! s = S ! p @ c # xs"
proof (induction xs arbitrary: p c len)
  case Nil
  from kmp_find_state [OF P ok(1) Nil(1), of c] show ?case
  proof (elim disjE exE conjE)
    assume "ht_find P (p, c) (kmp_hash K) = Inr None" "S ! p @ [c] \<notin> set S"
    then show ?thesis using add_new_ok [OF P ok(1) Nil(1), of c "[]"] Nil by (subst add_loop.simps) auto
  next
    fix s assume s: "ht_find P (p, c) (kmp_hash K) = Inr (Some s)" "0 < s" "s < length S" "S ! s = S ! p @ [c]"
    have "length (S ! p) < length S" using depth_less [of S W] ok(1) Nil(1) nth_mem by (auto simp: trie_ok_def)
    then have len: "U32 (len + 1) = length (S ! s)" using Nil(3,4) s(4) by (simp add: U32_small)
    have l: "ks_len (kmp_states K s) = (if S ! s \<in> W then length (S ! s) else 0)" using ok(1) s(3) by (auto simp: trie_ok_def trie_strings_def)
    show ?thesis
    proof (cases "S ! s \<in> W")
      case True
      then have "add_loop P p c ([] @ 0 # rest) len K = Inr (Some s, K)" using s l by (subst add_loop.simps) (simp add: kmp_get_char_def)
      moreover have "insert (S ! p @ [c]) W = W" using True s(4) by auto
      ultimately show ?thesis using ok(1) s(3,4) by (intro exI [of _ s] exI [of _ S] exI [of _ K]) simp
    next
      case False
      then have "add_loop P p c ([] @ 0 # rest) len K = Inr (Some s, set_len s (U32 (len + 1)) K)" using s l by (subst add_loop.simps) (simp add: kmp_get_char_def)
      then show ?thesis using set_len_ok [OF ok(1) s(2,3)] len s(3,4) by (intro exI [of _ s] exI [of _ S] exI [of _ "set_len s (U32 (len + 1)) K"]) simp
    qed
  qed
next
  case (Cons x xs)
  from kmp_find_state [OF P ok(1) Cons(2), of c] show ?case
  proof (elim disjE exE conjE)
    assume "ht_find P (p, c) (kmp_hash K) = Inr None" "S ! p @ [c] \<notin> set S"
    then show ?thesis using add_new_ok [OF P ok(1) Cons(2), of c "x # xs"] Cons(3-5) by (subst add_loop.simps) auto
  next
    fix s assume s: "ht_find P (p, c) (kmp_hash K) = Inr (Some s)" "0 < s" "s < length S" "S ! s = S ! p @ [c]"
    have "length (S ! p) < length S" using depth_less [of S W] ok(1) Cons(2) nth_mem by (auto simp: trie_ok_def)
    then have "U32 (len + 1) = length (S ! s)" using Cons(4,5) s(4) by (simp add: U32_small)
    then have "\<exists>s' S' K'. add_loop P s x (xs @ 0 # rest) (U32 (len + 1)) K = Inr (Some s', K') \<and> trie_ok P S' (insert (S ! s @ x # xs) W) K' \<and>
        length S' \<le> length S + length xs + 1 \<and> s' < length S' \<and> S' ! s' = S ! s @ x # xs"
      using Cons(3,4) s(3) by (intro Cons.IH) auto
    moreover have "add_loop P p c ((x # xs) @ 0 # rest) len K = add_loop P s x (xs @ 0 # rest) (U32 (len + 1)) K"
      using s(1) Cons(3) by (subst add_loop.simps) (simp add: kmp_get_char_def)
    ultimately show ?thesis using s(4) by fastforce
  qed
qed

text \<open>\<open>add\<close> keeps the tree and adds the key, unless it is empty; the new tree is at most longer by the length of the key.\<close>

lemma kmp_add_ok:
  assumes "kmp_params_ok P" "trie_ok P S W K" "0 \<notin> set w" "length S + length w < 4294967295"
  shows "\<exists>r S' K'. kmp_add P (w @ 0 # rest) K = Inr (r, K') \<and> trie_ok P S' (if w = [] then W else insert w W) K' \<and> length S' \<le> length S + length w \<and>
    (case r of None \<Rightarrow> w = [] | Some s \<Rightarrow> w \<noteq> [] \<and> s < length S' \<and> S' ! s = w)"
proof (cases w)
  case Nil
  then show ?thesis using assms(2) by (intro exI [of _ None] exI [of _ S] exI [of _ K]) (simp add: kmp_add_def kmp_get_char_def)
next
  case (Cons c xs)
  have "0 < length S" "S ! 0 = []" using assms(2) by (auto simp: trie_ok_def trie_strings_def)
  then obtain s S' K' where "add_loop P 0 c (xs @ 0 # rest) 0 K = Inr (Some s, K')" "trie_ok P S' (insert w W) K'" "length S' \<le> length S + length xs + 1"
    "s < length S'" "S' ! s = w"
    using add_loop_ok [OF assms(1,2), of xs 0 0 c rest] assms(3,4) Cons by auto
  then show ?thesis using Cons assms(3) by (intro exI [of _ "Some s"] exI [of _ S'] exI [of _ K']) (simp add: kmp_add_def kmp_get_char_def)
qed

lemma kmp_init_ok:
  assumes "kmp_params_ok P"
  shows "\<exists>K. kmp_init P = Inr K \<and> trie_ok P [[]] {} K"
proof -
  obtain T where T: "ht_init P = Inr T" "table_ok P T" "buckets T = {#}" using ht_init_ok assms by (auto simp: kmp_params_ok_def)
  have P: "params_ok P" using assms by (simp add: kmp_params_ok_def)
  have "ht_dict P T k = None" for k using ht_find_ok [OF P T(2), of k] T(3) by (auto simp: ht_dict_def split: option.splits)
  then have "trie_table P [[]] T" using T(2,3) by (auto simp: trie_table_def keys_unique_def nth_Cons')
  then show ?thesis using T(1) by (auto simp: kmp_init_def trie_ok_def trie_strings_def trie_sons_def null_state_def sons_def intro!: exI [of _ "[]"])
qed

end
