(* ===== verification/Kmp_Search.thy ===== *)
theory Kmp_Search
  imports Kmp_Trie
begin

text \<open>
  The backwards edges and the lists of matches that \<open>build\<close> computes, and the search.
\<close>

section \<open>Suffixes\<close>

text \<open>The key strings at the end of a text, from the longest to the shortest; the longest suffix of a text that is a state.\<close>

fun key_suffixes :: "'a list set \<Rightarrow> 'a list \<Rightarrow> 'a list list" where
  "key_suffixes W [] = []"
| "key_suffixes W (c # x) = (if c # x \<in> W then [c # x] else []) @ key_suffixes W x"

definition lss :: "'a list list \<Rightarrow> 'a list \<Rightarrow> 'a list \<Rightarrow> bool" where
  "lss S x v \<longleftrightarrow> v \<in> set S \<and> suffix v x \<and> (\<forall>u\<in>set S. suffix u x \<longrightarrow> length u \<le> length v)"

lemma suffix_same: "suffix u x \<Longrightarrow> suffix v x \<Longrightarrow> length u \<le> length v \<Longrightarrow> suffix u v"
  by (rule suffix_length_suffix)

lemma key_suffixes_long:
  "suffix v x \<Longrightarrow> \<forall>w\<in>W. suffix w x \<longrightarrow> length w \<le> length v \<Longrightarrow> key_suffixes W x = key_suffixes W v"
proof (induction x)
  case (Cons c x)
  show ?case
  proof (cases "v = c # x")
    case False
    then have s: "suffix v x" using Cons.prems(1) by (auto simp: suffix_Cons)
    then have "length v \<le> length x" by (rule suffix_length_le)
    then have "c # x \<notin> W" using Cons.prems(2) by auto
    then show ?thesis using Cons.IH [OF s] Cons.prems(2) by (simp add: suffix_Cons)
  qed simp
qed simp

lemma key_suffixes_lss: "lss S x v \<Longrightarrow> W \<subseteq> set S \<Longrightarrow> key_suffixes W x = key_suffixes W v"
  by (rule key_suffixes_long) (auto simp: lss_def)

lemma key_suffixes_tl: "key_suffixes W x = w # r \<Longrightarrow> r = key_suffixes W (tl w) \<and> w \<in> W \<and> w \<noteq> [] \<and> suffix w x"
  by (induction x) (auto split: if_splits intro: suffix_ConsI)

lemma key_suffixes_length: "length (key_suffixes W x) \<le> length x"
  by (induction x) auto

lemma key_suffixes_nonempty: "key_suffixes (W - {[]}) x = key_suffixes W x"
  by (induction x) auto

lemma set_key_suffixes: "set (key_suffixes W x) = {w \<in> W. w \<noteq> [] \<and> suffix w x}"
  by (induction x) (auto simp: suffix_Cons)

lemma lss_self: "x \<in> set S \<Longrightarrow> lss S x x"
  by (auto simp: lss_def dest: suffix_length_le)

lemma lss_tl:
  assumes "x \<notin> set S" "lss S (tl x) v"
  shows "lss S x v"
proof -
  have "suffix u (tl x)" if "u \<in> set S" "suffix u x" for u using that assms(1) by (cases x) (auto simp: suffix_Cons)
  moreover have "suffix (tl x) x" by (rule suffix_tl)
  ultimately show ?thesis using assms(2) unfolding lss_def by (meson suffix_order.trans)
qed

lemma lss_step:
  assumes closed: "\<And>u c. u @ [c] \<in> set S \<Longrightarrow> u \<in> set S" and "lss S y v" "lss S (v @ [c]) z"
  shows "lss S (y @ [c]) z"
proof -
  have "length u \<le> length z" if u: "u \<in> set S" "suffix u (y @ [c])" for u
  proof (cases u rule: rev_cases)
    case (snoc u' d)
    then have d: "d = c" "suffix u' y" "u' \<in> set S" using u closed [of u' d] by auto
    then have "suffix u' v" using assms(2) by (auto simp: lss_def intro: suffix_same)
    then show ?thesis using assms(3) u(1) snoc d(1) by (auto simp: lss_def)
  qed simp
  moreover have "suffix z (y @ [c])" using assms(2,3) by (auto simp: lss_def intro: suffix_order.trans)
  ultimately show ?thesis using assms(3) by (auto simp: lss_def)
qed

section \<open>The loop along the backwards edges\<close>

definition state_opt :: "nat list list \<Rightarrow> nat option \<Rightarrow> nat list list \<Rightarrow> bool" where
  "state_opt S r l = (case r of None \<Rightarrow> l = [] | Some b \<Rightarrow> b < length S \<and> l \<noteq> [] \<and> S ! b = hd l)"

definition final :: "nat list list \<Rightarrow> nat list set \<Rightarrow> (nat \<Rightarrow> kmp_state) \<Rightarrow> nat \<Rightarrow> bool" where
  "final S W st a \<longleftrightarrow> (case ks_back (st a) of None \<Rightarrow> a = 0 | Some b \<Rightarrow> 0 < a \<and> b < length S \<and> lss S (tl (S ! a)) (S ! b)) \<and>
     state_opt S (ks_next (st a)) (key_suffixes W (tl (S ! a)))"

text \<open>What the loop finds: the longest suffix that is a state.\<close>

definition found_state :: "nat list list \<Rightarrow> nat list \<Rightarrow> nat option \<Rightarrow> bool" where
  "found_state S x r \<longleftrightarrow> (let b = (case r of None \<Rightarrow> 0 | Some b \<Rightarrow> b) in b < length S \<and> lss S x (S ! b))"

definition automaton :: "kmp_params \<Rightarrow> nat list list \<Rightarrow> nat list set \<Rightarrow> kmp \<Rightarrow> bool" where
  "automaton P S W K \<longleftrightarrow> trie_table P S (kmp_hash K) \<and> trie_strings S W (kmp_states K)"

lemma automaton_find:
  assumes "kmp_params_ok P" "automaton P S W K" "p < length S"
  shows "ht_find P (p, c) (kmp_hash K) = Inr None \<and> S ! p @ [c] \<notin> set S \<or>
    (\<exists>s. ht_find P (p, c) (kmp_hash K) = Inr (Some s) \<and> 0 < s \<and> s < length S \<and> S ! s = S ! p @ [c])"
  using find_state_table [OF assms(1) _ _ assms(3)] assms(2) by (auto simp: automaton_def)

lemma back_loop_ok:
  assumes P: "kmp_params_ok P" and A: "automaton P S W K"
  shows "t < length S \<Longrightarrow> \<forall>a<length S. length (S ! a) \<le> length (S ! t) \<longrightarrow> final S W (kmp_states K) a \<Longrightarrow> length (S ! t) + 2 \<le> n \<Longrightarrow>
    \<exists>r. back_loop P K c n (Some t) = Inr r \<and> found_state S (S ! t @ [c]) r"
proof (induction "length (S ! t)" arbitrary: t n rule: less_induct)
  case less
  have S: "S ! 0 = []" "S \<noteq> []" "distinct S" using A by (auto simp: automaton_def trie_strings_def)
  obtain m where m: "n = Suc (Suc m)" using less.prems(3) by (cases n; cases "n - 1") auto
  from automaton_find [OF P A less.prems(1), of c] show ?case
  proof (elim disjE exE conjE)
    fix s assume s: "ht_find P (t, c) (kmp_hash K) = Inr (Some s)" "0 < s" "s < length S" "S ! s = S ! t @ [c]"
    then have "lss S (S ! t @ [c]) (S ! s)" using lss_self [OF nth_mem [OF s(3)]] by simp
    then show ?thesis using s m by (simp add: found_state_def)
  next
    assume n: "ht_find P (t, c) (kmp_hash K) = Inr None" "S ! t @ [c] \<notin> set S"
    have f: "final S W (kmp_states K) t" using less.prems(1,2) by simp
    show ?thesis
    proof (cases "ks_back (kmp_states K t)")
      case None
      then have "S ! t = []" using f S(1) by (simp add: final_def)
      then have "lss S (S ! t @ [c]) []" using n(2) S(1,2) nth_mem [of 0 S] by (auto simp: lss_def suffix_Cons)
      then show ?thesis using n(1) None m S by (simp add: found_state_def)
    next
      case (Some b)
      then have b: "0 < t" "b < length S" "lss S (tl (S ! t)) (S ! b)" using f by (auto simp: final_def)
      have t: "S ! t \<noteq> []" using S b(1) less.prems(1) nth_eq_iff_index_eq [OF S(3), of 0 t] by auto
      have l: "length (S ! b) < length (S ! t)" using b(3) t suffix_length_le [of "S ! b" "tl (S ! t)"] by (cases "S ! t") (auto simp: lss_def)
      then obtain r where r: "back_loop P K c (Suc m) (Some b) = Inr r" "found_state S (S ! b @ [c]) r"
        using less.hyps [OF l b(2), of "Suc m"] less.prems(2,3) m by auto
      let ?z = "S ! (case r of None \<Rightarrow> 0 | Some b \<Rightarrow> b)"
      have "lss S (tl (S ! t) @ [c]) ?z"
        by (rule lss_step [OF _ b(3)]) (use trie_closed A r(2) in \<open>auto simp: automaton_def found_state_def Let_def\<close>)
      then have "lss S (S ! t @ [c]) ?z" using lss_tl [OF n(2)] t by simp
      then show ?thesis using n(1) Some m r by (simp add: found_state_def Let_def del: back_loop.simps(2)) (simp add: r(1) [simplified])
    qed
  qed
qed

section \<open>Construction\<close>

lemma trie_strings_cong:
  assumes "trie_strings S W st" "\<And>a. ks_from (st' a) = ks_from (st a) \<and> ks_c (st' a) = ks_c (st a) \<and> ks_len (st' a) = ks_len (st a)"
  shows "trie_strings S W st'"
  using assms(1) unfolding trie_strings_def by (simp add: assms(2))

lemma chain_start_ok:
  assumes "trie_strings S W st" "a < length S" "final S W st a"
  shows "state_opt S (chain_start st a) (key_suffixes W (S ! a))"
proof -
  have l: "ks_len (st a) = (if S ! a \<in> W then length (S ! a) else 0)" "[] \<notin> W" using assms(1,2) by (auto simp: trie_strings_def)
  have n: "state_opt S (ks_next (st a)) (key_suffixes W (tl (S ! a)))" using assms(3) by (simp add: final_def)
  show ?thesis
  proof (cases "S ! a")
    case Nil
    then show ?thesis using n l by (simp add: chain_start_def)
  next
    case (Cons c x)
    then show ?thesis using n l assms(2) by (cases "c # x \<in> W") (simp_all add: chain_start_def state_opt_def)
  qed
qed

lemma fuel_enough:
  assumes "automaton P S W K" "t < length S"
  shows "length (S ! t) + 2 \<le> kmp_fuel K"
  using depth_less [of S W "kmp_states K" "S ! t"] assms trie_count [of P S "kmp_hash K"] by (auto simp: automaton_def kmp_fuel_def)

lemma state_nonempty: "trie_strings S W st \<Longrightarrow> 0 < a \<Longrightarrow> a < length S \<Longrightarrow> S ! a \<noteq> []"
  using nth_eq_iff_index_eq [of S 0 a] by (auto simp: trie_strings_def)

lemma build_state_ok:
  assumes P: "kmp_params_ok P" and A: "automaton P S W K" and s: "0 < s" "s < length S"
    and short: "\<forall>a<length S. length (S ! a) < length (S ! s) \<longrightarrow> final S W (kmp_states K) a"
  shows "\<exists>b n. build_state P s K = Inr (K\<lparr>kmp_states := (kmp_states K)(s := (kmp_states K s)\<lparr>ks_back := b, ks_next := n\<rparr>)\<rparr>) \<and>
    final S W (\<lambda>_. (kmp_states K s)\<lparr>ks_back := b, ks_next := n\<rparr>) s"
proof -
  let ?st = "kmp_states K"
  have T: "trie_strings S W ?st" using A by (simp add: automaton_def)
  have S: "S ! 0 = []" "S \<noteq> []" "W \<subseteq> set S" using T by (auto simp: trie_strings_def)
  obtain p where p: "p < length S" "ks_from (?st s) = Some p" "S ! s = S ! p @ [ks_c (?st s)]" using T s by (auto simp: trie_strings_def)
  then have fp: "final S W ?st p" using short by simp
  have "\<exists>r. back_loop P K (ks_c (?st s)) (kmp_fuel K) (ks_back (?st p)) = Inr r \<and> found_state S (tl (S ! s)) r"
  proof (cases "ks_back (?st p)")
    case None
    then have "S ! p = []" using fp S(1) by (simp add: final_def)
    then have "lss S (tl (S ! s)) []" using p(3) S(1,2) nth_mem [of 0 S] by (auto simp: lss_def)
    then show ?thesis using None S by (simp add: kmp_fuel_def found_state_def)
  next
    case (Some b)
    then have b: "0 < p" "b < length S" "lss S (tl (S ! p)) (S ! b)" using fp by (auto simp: final_def)
    have ne: "S ! p \<noteq> []" by (rule state_nonempty [OF T b(1) p(1)])
    have "length (S ! b) < length (S ! s)" using b(3) p(3) suffix_length_le [of "S ! b" "tl (S ! p)"] by (auto simp: lss_def)
    then obtain r where r: "back_loop P K (ks_c (?st s)) (kmp_fuel K) (Some b) = Inr r" "found_state S (S ! b @ [ks_c (?st s)]) r"
      using back_loop_ok [OF P A b(2) _ fuel_enough [OF A b(2)]] short by auto
    have "lss S (tl (S ! p) @ [ks_c (?st s)]) (S ! (case r of None \<Rightarrow> 0 | Some b \<Rightarrow> b))"
      by (rule lss_step [OF _ b(3)]) (use trie_closed [OF T] r(2) in \<open>auto simp: found_state_def Let_def\<close>)
    then have "found_state S (tl (S ! s)) r" using r(2) p(3) ne by (simp add: found_state_def Let_def)
    then show ?thesis using r(1) Some by simp
  qed
  then obtain r where r: "back_loop P K (ks_c (?st s)) (kmp_fuel K) (ks_back (?st p)) = Inr r" "found_state S (tl (S ! s)) r" by blast
  let ?b = "case r of None \<Rightarrow> 0 | Some b \<Rightarrow> b"
  have b: "?b < length S" "lss S (tl (S ! s)) (S ! ?b)" using r(2) by (auto simp: found_state_def Let_def)
  have "length (S ! ?b) < length (S ! s)" using b(2) p(3) suffix_length_le [of "S ! ?b" "tl (S ! s)"] by (auto simp: lss_def)
  then have "state_opt S (chain_start ?st ?b) (key_suffixes W (S ! ?b))" using chain_start_ok [OF T b(1)] short b(1) by blast
  then have n: "state_opt S (chain_start ?st ?b) (key_suffixes W (tl (S ! s)))" using key_suffixes_lss [OF b(2) S(3)] by simp
  let ?n = "case r of None \<Rightarrow> None | Some b \<Rightarrow> chain_start ?st b"
  have "state_opt S ?n (key_suffixes W (tl (S ! s)))"
    using n key_suffixes_lss [OF b(2) S(3)] S(1) by (cases r) (auto simp: state_opt_def)
  then have "final S W (\<lambda>_. (?st s)\<lparr>ks_back := Some ?b, ks_next := ?n\<rparr>) s" using b s(1) by (simp add: final_def)
  moreover have "build_state P s K = Inr (K\<lparr>kmp_states := ?st(s := (?st s)\<lparr>ks_back := Some ?b, ks_next := ?n\<rparr>)\<rparr>)"
    using p(2) r(1) by (cases r) (simp_all add: build_state_def Let_def)
  ultimately show ?thesis by blast
qed

lemma push_sons_ok: "son_links st t l \<Longrightarrow> length fifo + length l \<le> cap \<Longrightarrow> push_sons cap st t fifo = Inr (fifo @ l)"
proof (induction l arbitrary: t fifo)
  case Nil
  then show ?case by (simp add: push_sons.simps)
next
  case (Cons a l)
  then show ?case by (subst push_sons.simps) simp
qed

text \<open>The invariant of the search in breadth: the states before \<open>rd\<close> in the queue are finished, the others still have their lists of
  sons; the queue holds the sons of the finished states, ordered by their depth.\<close>

definition bfs :: "nat list list \<Rightarrow> nat list set \<Rightarrow> nat list \<Rightarrow> nat \<Rightarrow> (nat \<Rightarrow> kmp_state) \<Rightarrow> bool" where
  "bfs S W fifo rd st \<longleftrightarrow> rd \<le> length fifo \<and> distinct fifo \<and>
     set fifo = {a. 0 < a \<and> a < length S \<and> (\<exists>p \<in> insert 0 (set (take rd fifo)). butlast (S ! a) = S ! p)} \<and>
     sorted (map (\<lambda>a. length (S ! a)) fifo) \<and> (\<forall>x\<in>set fifo. rd < length fifo \<longrightarrow> length (S ! x) \<le> length (S ! (fifo ! rd)) + 1) \<and>
     (\<forall>a \<in> insert 0 (set (take rd fifo)). final S W st a) \<and>
     (\<forall>p<length S. p \<notin> insert 0 (set (take rd fifo)) \<longrightarrow> (\<exists>l. son_links st (ks_back (st p)) l \<and> distinct l \<and> set l = sons S p))"

lemma bfs_complete:
  assumes "trie_strings S W st" "bfs S W fifo rd st" "\<forall>x\<in>set (drop rd fifo). d \<le> length (S ! x)"
  shows "a < length S \<Longrightarrow> length (S ! a) < d \<Longrightarrow> a \<in> insert 0 (set (take rd fifo))"
proof (induction "length (S ! a)" arbitrary: a rule: less_induct)
  case less
  show ?case
  proof (cases "a = 0")
    case False
    then obtain p where p: "p < length S" "S ! a = S ! p @ [ks_c (st a)]" using assms(1) less.prems(1) by (auto simp: trie_strings_def)
    then have "p \<in> insert 0 (set (take rd fifo))" using less.hyps [of p] less.prems(2) by simp
    then have "a \<in> set fifo" using assms(2) False less.prems(1) p(2) by (auto simp: bfs_def)
    then have "a \<in> set (take rd fifo) \<or> a \<in> set (drop rd fifo)" by (metis Un_iff append_take_drop_id set_append)
    then show ?thesis using assms(3) less.prems(2) by auto
  qed simp
qed

lemma sorted_drop_le:
  assumes "sorted (map f xs)" "i < length xs" "x \<in> set (drop i xs)"
  shows "f (xs ! i) \<le> (f x :: nat)"
proof -
  obtain j where j: "j < length (drop i xs)" "x = drop i xs ! j" using assms(3) by (auto simp: in_set_conv_nth)
  have "map f xs ! i \<le> map f xs ! (i + j)" using assms(1) j(1) by (intro sorted_nth_mono) auto
  then show ?thesis using j assms(2) by simp
qed

lemma bfsD:
  assumes "bfs S W fifo rd st"
  shows "distinct fifo" and "set fifo = {a. 0 < a \<and> a < length S \<and> (\<exists>p \<in> insert 0 (set (take rd fifo)). butlast (S ! a) = S ! p)}"
    and "sorted (map (\<lambda>a. length (S ! a)) fifo)" and "x \<in> set fifo \<Longrightarrow> rd < length fifo \<Longrightarrow> length (S ! x) \<le> length (S ! (fifo ! rd)) + 1"
    and "a \<in> insert 0 (set (take rd fifo)) \<Longrightarrow> final S W st a"
    and "p < length S \<Longrightarrow> p \<notin> insert 0 (set (take rd fifo)) \<Longrightarrow> \<exists>l. son_links st (ks_back (st p)) l \<and> distinct l \<and> set l = sons S p"
  using assms unfolding bfs_def by (elim conjE, (assumption | blast))+

lemma bfs_next:
  assumes T: "trie_strings S W st" and B: "bfs S W fifo rd st" and rd: "rd < length fifo" and l: "set l = sons S (fifo ! rd)" "distinct (fifo @ l)"
    and depth: "\<And>a. a \<in> set l \<Longrightarrow> length (S ! a) = length (S ! (fifo ! rd)) + 1" and f: "final S W (\<lambda>_. x) (fifo ! rd)"
  shows "bfs S W (fifo @ l) (Suc rd) (st(fifo ! rd := x))"
proof -
  let ?s = "fifo ! rd" and ?done = "insert 0 (set (take rd fifo))" and ?st = "st(fifo ! rd := x)"
  note b = bfsD(1-3) [OF B] bfsD(4) [OF B _ rd] bfsD(5,6) [OF B]
  have mem: "a \<in> set fifo \<longleftrightarrow> 0 < a \<and> a < length S \<and> (\<exists>p \<in> ?done. butlast (S ! a) = S ! p)" for a by (subst b(2)) simp
  have s: "?s \<in> set fifo" "?s < length S" using nth_mem [OF rd] mem by blast+
  have tk: "insert 0 (set (take (Suc rd) (fifo @ l))) = insert ?s ?done" using rd by (auto simp: take_Suc_conv_app_nth)
  have inj: "S ! a = S ! c \<longleftrightarrow> a = c" if "a < length S" "c < length S" for a c using T that by (auto simp: trie_strings_def nth_eq_iff_index_eq)
  have dl: "p < length S" if "p \<in> ?done" for p using that mem [of p] s(2) set_take_subset [of rd fifo] by auto
  have srt: "sorted (map (\<lambda>a. length (S ! a)) (fifo @ l))"
  proof -
    have "sorted (map (\<lambda>a. length (S ! a)) l)" using depth by (auto simp: sorted_iff_nth_mono)
    then show ?thesis using b(3,4) depth by (auto simp: sorted_append)
  qed
  have 5: "length (S ! a) \<le> length (S ! ((fifo @ l) ! Suc rd)) + 1" if "a \<in> set (fifo @ l)" "Suc rd < length (fifo @ l)" for a
  proof -
    have "map (\<lambda>a. length (S ! a)) (fifo @ l) ! rd \<le> map (\<lambda>a. length (S ! a)) (fifo @ l) ! Suc rd" by (rule sorted_nth_mono [OF srt]) (use that in auto)
    moreover have "length (S ! a) \<le> length (S ! ?s) + 1" using that(1) b(4) [of a] depth [of a] by auto
    moreover have "map (\<lambda>a. length (S ! a)) (fifo @ l) ! rd = length (S ! ?s)" using rd by (simp add: nth_append)
    moreover have "map (\<lambda>a. length (S ! a)) (fifo @ l) ! Suc rd = length (S ! ((fifo @ l) ! Suc rd))" by (rule nth_map [OF that(2)])
    ultimately show ?thesis by linarith
  qed
  have 6: "final S W ?st a" if "a \<in> insert ?s ?done" for a using that f b(5) [of a] by (cases "a = ?s") (auto simp: final_def)
  have 7: "\<exists>l. son_links ?st (ks_back (?st p)) l \<and> distinct l \<and> set l = sons S p" if p: "p < length S" "p \<notin> insert ?s ?done" for p
  proof -
    obtain m where m: "son_links st (ks_back (st p)) m" "distinct m" "set m = sons S p" using b(6) [OF p(1)] p(2) by auto
    obtain q where q: "q \<in> ?done" "butlast (S ! ?s) = S ! q" using mem [of ?s] s(1) by blast
    have "?s \<notin> sons S p" using q p inj [OF p(1) dl [OF q(1)]] by (auto simp: sons_def)
    then have "son_links ?st (ks_back (st p)) m" using m son_links_cong [of m st ?st] by auto
    then show ?thesis using m(2,3) p(2) by auto
  qed
  have 3: "set (fifo @ l) = {a. 0 < a \<and> a < length S \<and> (\<exists>p \<in> insert ?s ?done. butlast (S ! a) = S ! p)}"
  proof (rule set_eqI)
    fix a
    have "a \<in> set (fifo @ l) \<longleftrightarrow> a \<in> set fifo \<or> a \<in> sons S ?s" using l(1) by simp
    also have "\<dots> \<longleftrightarrow> 0 < a \<and> a < length S \<and> (\<exists>p \<in> insert ?s ?done. butlast (S ! a) = S ! p)" unfolding mem by (simp only: sons_def mem_Collect_eq) blast
    finally show "a \<in> set (fifo @ l) \<longleftrightarrow> a \<in> {a. 0 < a \<and> a < length S \<and> (\<exists>p \<in> insert ?s ?done. butlast (S ! a) = S ! p)}" by simp
  qed
  show ?thesis unfolding bfs_def tk
  proof (intro conjI ballI allI impI)
    show "Suc rd \<le> length (fifo @ l)" using rd by simp
  qed (fact l(2), fact 3, fact srt, rule 5, assumption, assumption, rule 6, assumption, rule 7, assumption, assumption)
qed

lemma bfs_step:
  assumes P: "kmp_params_ok P" and A: "automaton P S W K" and B: "bfs S W fifo rd (kmp_states K)" and rd: "rd < length fifo"
  shows "\<exists>l K'. push_sons (length S - 1) (kmp_states K) (ks_back (kmp_states K (fifo ! rd))) fifo = Inr (fifo @ l) \<and>
    build_state P (fifo ! rd) K = Inr K' \<and> automaton P S W K' \<and> bfs S W (fifo @ l) (Suc rd) (kmp_states K') \<and> rd < length S - 1"
proof -
  let ?st = "kmp_states K" and ?s = "fifo ! rd" and ?done = "insert 0 (set (take rd fifo))"
  have T: "trie_strings S W ?st" using A by (simp add: automaton_def)
  note b = bfsD(1-3) [OF B] bfsD(4) [OF B _ rd] bfsD(5,6) [OF B]
  have mem: "a \<in> set fifo \<longleftrightarrow> 0 < a \<and> a < length S \<and> (\<exists>p \<in> ?done. butlast (S ! a) = S ! p)" for a by (subst b(2)) simp
  have s: "0 < ?s" "?s < length S" using mem nth_mem [OF rd] by blast+
  have "?s \<notin> set (take rd fifo)" using b(1) rd by (auto simp: in_set_conv_nth nth_eq_iff_index_eq)
  then have nd: "?s \<notin> ?done" using s(1) by simp
  obtain l where l: "son_links ?st (ks_back (?st ?s)) l" "distinct l" "set l = sons S ?s" using b(6) [OF s(2) nd] by blast
  have inj: "S ! a = S ! c \<longleftrightarrow> a = c" if "a < length S" "c < length S" for a c using T that by (auto simp: trie_strings_def nth_eq_iff_index_eq)
  have dl: "p < length S" if "p \<in> ?done" for p using that mem [of p] s(2) set_take_subset [of rd fifo] by auto
  have dis: "a \<notin> set fifo" if "a \<in> sons S ?s" for a
  proof
    assume "a \<in> set fifo"
    then obtain p where p: "p \<in> ?done" "butlast (S ! a) = S ! p" using mem by blast
    then have "S ! p = S ! ?s" using that by (simp add: sons_def)
    then show False using inj [OF dl [OF p(1)] s(2)] p(1) nd by blast
  qed
  then have d: "distinct (fifo @ l)" using b(1) l(2,3) by auto
  have "a \<in> {0<..<length S}" if "a \<in> set (fifo @ l)" for a using that mem [of a] l(3) by (auto simp: sons_def)
  then have "set (fifo @ l) \<subseteq> {0<..<length S}" by blast
  then have "card (set (fifo @ l)) \<le> card {0<..<length S}" by (rule card_mono [rotated]) simp
  then have len: "length fifo + length l \<le> length S - 1" using distinct_card [OF d] by simp
  have depth: "length (S ! a) = length (S ! ?s) + 1" if "a \<in> set l" for a
  proof -
    have a: "0 < a" "a < length S" "butlast (S ! a) = S ! ?s" using that l(3) by (auto simp: sons_def)
    then show ?thesis using state_nonempty [OF T a(1,2)] by (metis Suc_eq_plus1 append_butlast_last_id length_append_singleton)
  qed
  have short: "final S W ?st a" if "a < length S" "length (S ! a) < length (S ! ?s)" for a
    using bfs_complete [OF T B _ that] b(5) sorted_drop_le [OF b(3) rd] by blast
  obtain u v where bs: "build_state P ?s K = Inr (K\<lparr>kmp_states := ?st(?s := (?st ?s)\<lparr>ks_back := u, ks_next := v\<rparr>)\<rparr>)"
    "final S W (\<lambda>_. (?st ?s)\<lparr>ks_back := u, ks_next := v\<rparr>) ?s" using build_state_ok [OF P A s] short by blast
  let ?st' = "?st(?s := (?st ?s)\<lparr>ks_back := u, ks_next := v\<rparr>)"
  have "trie_strings S W ?st'" by (rule trie_strings_cong [OF T]) simp
  then have A': "automaton P S W (K\<lparr>kmp_states := ?st'\<rparr>)" using A by (simp add: automaton_def)
  have B': "bfs S W (fifo @ l) (Suc rd) ?st'" by (rule bfs_next [OF T B rd l(3) d depth bs(2)])
  show ?thesis using push_sons_ok [OF l(1) len] bs(1) A' B' rd len by (intro exI [of _ l] exI [of _ "K\<lparr>kmp_states := ?st'\<rparr>"]) simp
qed

lemma build_loop_ok:
  assumes P: "kmp_params_ok P"
  shows "automaton P S W K \<Longrightarrow> bfs S W fifo rd (kmp_states K) \<Longrightarrow>
    \<exists>K'. build_loop P (length S - 1) fifo rd K = Inr K' \<and> automaton P S W K' \<and> (\<forall>a<length S. final S W (kmp_states K') a)"
proof (induction "length S - 1 - rd" arbitrary: fifo rd K rule: less_induct)
  case less
  show ?case
  proof (cases "rd < length fifo")
    case True
    obtain l K' where s: "push_sons (length S - 1) (kmp_states K) (ks_back (kmp_states K (fifo ! rd))) fifo = Inr (fifo @ l)"
      "build_state P (fifo ! rd) K = Inr K'" "automaton P S W K'" "bfs S W (fifo @ l) (Suc rd) (kmp_states K')" "rd < length S - 1"
      using bfs_step [OF P less.prems True] by blast
    have "build_loop P (length S - 1) fifo rd K = build_loop P (length S - 1) (fifo @ l) (Suc rd) K'"
      using True s(1,2,5) by (subst build_loop.simps) simp
    then show ?thesis using less.hyps [OF _ s(3,4)] s(5) by simp
  next
    case False
    then have rd: "rd = length fifo" using less.prems(2) by (simp add: bfs_def)
    have T: "trie_strings S W (kmp_states K)" using less.prems(1) by (simp add: automaton_def)
    have "final S W (kmp_states K) a" if "a < length S" for a
      using bfs_complete [OF T less.prems(2), of "length (S ! a) + 1" a] that rd bfsD(5) [OF less.prems(2)] by simp
    moreover have "build_loop P (length S - 1) fifo rd K = Inr K" using rd by (subst build_loop.simps) simp
    ultimately show ?thesis using less.prems(1) by blast
  qed
qed

lemma kmp_build_ok:
  assumes P: "kmp_params_ok P" and "trie_ok P S W K"
  shows "\<exists>K'. kmp_build P K = Inr K' \<and> automaton P S W K' \<and> (\<forall>a<length S. final S W (kmp_states K') a)"
proof -
  let ?st = "kmp_states K"
  have t: "trie_table P S (kmp_hash K)" "trie_strings S W ?st" "trie_sons S ?st" using assms(2) by (auto simp: trie_ok_def)
  have S: "S ! 0 = []" "0 < length S" "distinct S" using t(2) by (auto simp: trie_strings_def)
  obtain l where l: "son_links ?st (ks_back (?st 0)) l" "distinct l" "set l = sons S 0" "ks_next (?st 0) = None" using t(3) S(2) by (auto simp: trie_sons_def)
  have cnt: "hash_count (kmp_hash K) = length S - 1" using trie_count [OF t(1)] by simp
  have A: "automaton P S W K" using t by (simp add: automaton_def)
  show ?thesis
  proof (cases "kmp_empty K")
    case True
    then have "length S = 1" using cnt S(2) unfolding kmp_empty_def by linarith
    then have "\<not> (0 < a \<and> a < length S)" for a by linarith
    then have "sons S 0 = {}" unfolding sons_def by blast
    then have "ks_back (?st 0) = None" using l(1,3) by simp
    then have "final S W ?st a" if "a < length S" for a using that \<open>length S = 1\<close> l(4) S(1) by (simp add: final_def state_opt_def)
    then show ?thesis using True A by (auto simp: kmp_build_def)
  next
    case False
    let ?su = "?st(0 := (?st 0)\<lparr>ks_back := None\<rparr>)"
    let ?K = "K\<lparr>kmp_states := ?su\<rparr>"
    have "set l \<subseteq> {0<..<length S}" unfolding l(3) sons_def by auto
    then have "card (set l) \<le> card {0<..<length S}" by (rule card_mono [rotated]) simp
    then have len: "length l \<le> length S - 1" using distinct_card [OF l(2)] by simp
    have "trie_strings S W ?su" by (rule trie_strings_cong [OF t(2)]) simp
    then have A': "automaton P S W ?K" using t(1) by (simp add: automaton_def)
    have one: "length (S ! a) = 1" if "a \<in> set l" for a
    proof -
      have a: "0 < a" "a < length S" "butlast (S ! a) = []" using that unfolding l(3) sons_def S(1) by auto
      then show ?thesis using state_nonempty [OF t(2) a(1,2)] by (cases "S ! a" rule: rev_cases) auto
    qed
    have "\<exists>m. son_links ?su (ks_back (?su p)) m \<and> distinct m \<and> set m = sons S p" if q: "p < length S" "p \<noteq> 0" for p
    proof -
      obtain m where m: "son_links ?st (ks_back (?st p)) m" "distinct m" "set m = sons S p" using t(3) q(1) by (auto simp: trie_sons_def)
      have "son_links ?su (ks_back (?st p)) m" using m(1) son_links_cong [of m ?st ?su] by simp
      then show ?thesis using m(2,3) q(2) by auto
    qed
    moreover have "sorted (map (\<lambda>a. length (S ! a)) l)" using one by (auto simp: sorted_iff_nth_mono)
    moreover have "final S W ?su 0" using l(4) S(1) by (simp add: final_def state_opt_def)
    moreover have "length (S ! a) \<le> length (S ! (l ! 0)) + 1" if "a \<in> set l" for a using one [OF that] by simp
    moreover have "set l = {a. 0 < a \<and> a < length S \<and> (\<exists>p \<in> {0}. butlast (S ! a) = S ! p)}" unfolding l(3) sons_def by simp
    ultimately have "bfs S W l 0 ?su" unfolding bfs_def take_0 list.set(1) using l(2) by (intro conjI ballI allI impI) blast+
    then have "\<exists>K'. build_loop P (length S - 1) l 0 ?K = Inr K' \<and> automaton P S W K' \<and> (\<forall>a<length S. final S W (kmp_states K') a)"
      by (intro build_loop_ok [OF P A']) simp
    then show ?thesis using False push_sons_ok [OF l(1), of "[]"] len cnt by (simp add: kmp_build_def Let_def)
  qed
qed

section \<open>Search\<close>

lemma found_chain_ok:
  assumes "\<And>a. a < length S \<Longrightarrow> final S W st a"
  shows "state_opt S out (key_suffixes W y) \<Longrightarrow> length (key_suffixes W y) < n \<Longrightarrow>
    \<exists>l. found_chain st n out = Inr l \<and> set l \<subseteq> {..<length S} \<and> map ((!) S) l = key_suffixes W y"
proof (induction n arbitrary: out y)
  case (Suc n)
  show ?case
  proof (cases out)
    case None
    then show ?thesis using Suc.prems(1) by (simp add: state_opt_def)
  next
    case (Some b)
    then obtain r where b: "b < length S" "key_suffixes W y = S ! b # r" using Suc.prems(1) by (cases "key_suffixes W y") (auto simp: state_opt_def)
    then have r: "r = key_suffixes W (tl (S ! b))" using key_suffixes_tl [OF b(2)] by simp
    have "state_opt S (ks_next (st b)) (key_suffixes W (tl (S ! b)))" using assms [OF b(1)] by (simp add: final_def)
    then obtain l where "found_chain st n (ks_next (st b)) = Inr l" "set l \<subseteq> {..<length S}" "map ((!) S) l = r"
      using Suc.IH [of "ks_next (st b)" "tl (S ! b)"] Suc.prems(2) b(2) r by auto
    then show ?thesis using Some b by simp
  qed
qed simp

definition search_inv :: "nat list list \<Rightarrow> nat list set \<Rightarrow> kmp \<Rightarrow> nat list \<Rightarrow> nat \<times> nat \<Rightarrow> bool" where
  "search_inv S W K x sb \<longleftrightarrow> fst sb < length S \<and> lss S x (S ! fst sb) \<and> snd sb < length S \<and>
     ks_len (kmp_states K (snd sb)) = Max (insert 0 (length ` {w \<in> W. sublist w x}))"

lemma sublist_snoc: "sublist w (x @ [c]) \<longleftrightarrow> sublist w x \<or> suffix w (x @ [c])"
proof
  assume "sublist w (x @ [c])"
  then obtain p q where pq: "x @ [c] = p @ w @ q" by (auto simp: sublist_def)
  show "sublist w x \<or> suffix w (x @ [c])"
  proof (cases q rule: rev_cases)
    case Nil
    then show ?thesis using pq by (auto simp: suffix_def)
  next
    case (snoc q' d)
    then have "x = p @ w @ q'" using pq by (metis append_assoc butlast_snoc)
    then show ?thesis by (auto simp: sublist_def)
  qed
qed (auto simp: sublist_append dest: suffix_imp_sublist)

lemma longest_first: "Max (insert 0 (length ` set (key_suffixes W z))) = (case key_suffixes W z of [] \<Rightarrow> 0 | w # _ \<Rightarrow> length w)"
proof (cases "key_suffixes W z")
  case (Cons w r)
  have "length u \<le> length w" if "u \<in> set r" for u
  proof -
    have "u \<in> set (key_suffixes W (tl w))" using that key_suffixes_tl [OF Cons] by simp
    then have "suffix u (tl w)" by (simp add: set_key_suffixes)
    then show ?thesis using suffix_length_le [of u "tl w"] by simp
  qed
  then have "Max (insert 0 (length ` set (key_suffixes W z))) = length w" unfolding Cons by (intro Max_eqI) auto
  then show ?thesis using Cons by simp
qed simp

lemma best_step:
  assumes "finite W" "[] \<notin> W"
  shows "Max (insert 0 (length ` {w \<in> W. sublist w (x @ [c])})) =
    max (Max (insert 0 (length ` {w \<in> W. sublist w x}))) (case key_suffixes W (x @ [c]) of [] \<Rightarrow> 0 | w # _ \<Rightarrow> length w)"
proof -
  have "insert 0 (length ` {w \<in> W. sublist w (x @ [c])}) =
      insert 0 (length ` {w \<in> W. sublist w x}) \<union> insert 0 (length ` set (key_suffixes W (x @ [c])))"
    using assms(2) by (auto simp: sublist_snoc set_key_suffixes)
  moreover have "Max (insert 0 (length ` {w \<in> W. sublist w x}) \<union> insert 0 (length ` set (key_suffixes W (x @ [c])))) =
      max (Max (insert 0 (length ` {w \<in> W. sublist w x}))) (Max (insert 0 (length ` set (key_suffixes W (x @ [c])))))"
    by (rule Max_Un) (use assms(1) in auto)
  ultimately show ?thesis by (simp only: longest_first)
qed

text \<open>One step: the new state is the longest suffix of the text, the states found are the key strings at its end.\<close>

lemma search_step_ok:
  assumes P: "kmp_params_ok P" and A: "automaton P S W K" and F: "\<forall>a<length S. final S W (kmp_states K) a" and I: "search_inv S W K x sb"
  shows "\<exists>sb' l. search_step P K c sb = Inr (sb', l) \<and> search_inv S W K (x @ [c]) sb' \<and>
    map (\<lambda>a. ks_len (kmp_states K a)) l = map length (key_suffixes W (x @ [c]))"
proof -
  let ?st = "kmp_states K" and ?s = "fst sb"
  have F: "final S W ?st a" if "a < length S" for a using F that by blast
  have T: "trie_strings S W ?st" using A by (simp add: automaton_def)
  have W: "W \<subseteq> set S" "[] \<notin> W" and len: "\<And>a. a < length S \<Longrightarrow> ks_len (?st a) = (if S ! a \<in> W then length (S ! a) else 0)"
    using T by (auto simp: trie_strings_def)
  have fin: "finite W" using W(1) finite_subset by blast
  have i: "?s < length S" "lss S x (S ! ?s)" "snd sb < length S" "ks_len (?st (snd sb)) = Max (insert 0 (length ` {w \<in> W. sublist w x}))"
    using I by (auto simp: search_inv_def)
  obtain r where r: "back_loop P K c (kmp_fuel K) (Some ?s) = Inr r" "found_state S (S ! ?s @ [c]) r"
    using back_loop_ok [OF P A i(1) _ fuel_enough [OF A i(1)]] F by blast
  define s' where "s' = (case r of None \<Rightarrow> 0 | Some b \<Rightarrow> b)"
  have s': "s' < length S" "lss S (S ! ?s @ [c]) (S ! s')" using r(2) by (auto simp: found_state_def s'_def Let_def)
  have new: "lss S (x @ [c]) (S ! s')" by (rule lss_step [OF trie_closed [OF T] i(2) s'(2)])
  have ks: "key_suffixes W (x @ [c]) = key_suffixes W (S ! s')" by (rule key_suffixes_lss [OF new W(1)])
  have out: "state_opt S (chain_start ?st s') (key_suffixes W (S ! s'))" by (rule chain_start_ok [OF T s'(1) F [OF s'(1)]])
  have "length (key_suffixes W (S ! s')) < kmp_fuel K" using key_suffixes_length [of W "S ! s'"] fuel_enough [OF A s'(1)] by simp
  then obtain l where l: "found_chain ?st (kmp_fuel K) (chain_start ?st s') = Inr l" "set l \<subseteq> {..<length S}" "map ((!) S) l = key_suffixes W (S ! s')"
    using found_chain_ok [OF F out] by blast
  have "ks_len (?st a) = length (S ! a)" if "a \<in> set l" for a
  proof -
    have "S ! a \<in> set (key_suffixes W (S ! s'))" using that l(3) by (metis image_eqI list.set_map)
    then show ?thesis using that l(2) len [of a] by (auto simp: set_key_suffixes)
  qed
  then have "map (\<lambda>a. ks_len (?st a)) l = map length (map ((!) S) l)" by simp
  then have found: "map (\<lambda>a. ks_len (?st a)) l = map length (key_suffixes W (x @ [c]))" using l(3) ks by simp
  define best where "best = (case chain_start ?st s' of None \<Rightarrow> snd sb | Some u \<Rightarrow> if ks_len (?st u) > ks_len (?st (snd sb)) then u else snd sb)"
  have "best < length S \<and> ks_len (?st best) = Max (insert 0 (length ` {w \<in> W. sublist w (x @ [c])}))"
  proof (cases "chain_start ?st s'")
    case None
    then show ?thesis using out i(3,4) best_step [OF fin W(2), of x c] ks by (simp add: best_def state_opt_def)
  next
    case (Some u)
    then obtain q where u: "u < length S" "key_suffixes W (x @ [c]) = S ! u # q" using out ks by (cases "key_suffixes W (S ! s')") (auto simp: state_opt_def)
    then have "S ! u \<in> W" using key_suffixes_tl by blast
    then show ?thesis using u Some i(3,4) best_step [OF fin W(2), of x c] len [OF u(1)] by (simp add: best_def max_def del: Max_insert)
  qed
  then have "search_inv S W K (x @ [c]) (s', best)" using s'(1) new by (simp add: search_inv_def del: Max_insert)
  moreover have "search_step P K c sb = Inr ((s', best), l)" using r(1) l(1) by (simp add: search_step_def s'_def best_def Let_def)
  ultimately show ?thesis using found by blast
qed

text \<open>The characters that the code of the search steps on.\<close>

fun merged :: "kmps_params \<Rightarrow> nat \<Rightarrow> nat list \<Rightarrow> nat list" where
  "merged opt l [] = []"
| "merged opt l (c # t) = (if merge_controls opt \<and> l = control opt \<and> c = control opt then merged opt l t else c # merged opt c t)"

definition final_control :: "kmps_params \<Rightarrow> nat list" where
  "final_control opt = (if add_controls opt then [control opt] else [])"

definition stepped :: "kmps_params \<Rightarrow> nat list \<Rightarrow> nat list" where
  "stepped opt t = final_control opt @ merged opt (if add_controls opt then control opt else 0) t @ final_control opt"

text \<open>The characters of a text as the options are documented: control characters added at both ends, and adjacent control
  characters merged to a single one.\<close>

fun merge_adjacent :: "nat \<Rightarrow> nat list \<Rightarrow> nat list" where
  "merge_adjacent d (x # y # r) = (if x = d \<and> y = d then merge_adjacent d (y # r) else x # merge_adjacent d (y # r))"
| "merge_adjacent d t = t"

definition fed :: "kmps_params \<Rightarrow> nat list \<Rightarrow> nat list" where
  "fed opt t = (let s = (if add_controls opt then [control opt] @ t @ [control opt] else t) in
     if merge_controls opt then merge_adjacent (control opt) s else s)"

text \<open>The two agree unless a control character that the text ends with, or the one before an empty text, has to be merged with the
  one added at the end.\<close>

lemma merged_off: "\<not> merge_controls opt \<Longrightarrow> merged opt l t = t"
  by (induction t arbitrary: l) auto

lemma merge_adjacent_merged: "merge_controls opt \<Longrightarrow> merge_adjacent (control opt) (l # t) = l # merged opt l t"
  by (induction t arbitrary: l) auto

lemma merged_snoc: "last (l # t) \<noteq> control opt \<Longrightarrow> merged opt l (t @ [control opt]) = merged opt l t @ [control opt]"
  by (induction t arbitrary: l) (auto split: if_splits)

lemma stepped_fed:
  assumes "control opt \<noteq> 0" "add_controls opt \<and> merge_controls opt \<longrightarrow> t \<noteq> [] \<and> last t \<noteq> control opt"
  shows "stepped opt t = fed opt t"
proof (cases "merge_controls opt")
  case True
  show ?thesis
  proof (cases "add_controls opt")
    case add: True
    then have "last (control opt # t) \<noteq> control opt" using True assms(2) by simp
    then show ?thesis using add True merge_adjacent_merged [OF True, of "control opt" "t @ [control opt]"]
      by (simp add: stepped_def fed_def final_control_def merged_snoc)
  next
    case False
    have "merge_adjacent (control opt) t = merged opt 0 t"
      using merge_adjacent_merged [OF True, of 0 t] assms(1) by (cases t) auto
    then show ?thesis using False True by (simp add: stepped_def fed_def final_control_def)
  qed
qed (simp add: stepped_def fed_def final_control_def merged_off)

lemma next_char_ok:
  assumes "0 \<notin> set t" "control opt \<noteq> 0"
  shows "\<exists>r. next_char opt l (t @ 0 # rest) = Inr r \<and> (case r of
      None \<Rightarrow> merged opt l t @ final_control opt = []
    | Some (c, True, src) \<Rightarrow> add_controls opt \<and> merged opt l t @ final_control opt = [c]
    | Some (c, False, src) \<Rightarrow> \<exists>t'. src = t' @ 0 # rest \<and> 0 \<notin> set t' \<and> length t' < length t \<and> merged opt l t = c # merged opt c t')"
  using assms(1)
proof (induction t)
  case Nil
  then show ?case using assms(2) by (auto simp: next_char_Cons final_control_def)
next
  case (Cons c t)
  show ?case
  proof (cases "merge_controls opt \<and> l = control opt \<and> c = control opt")
    case True
    then have "next_char opt l ((c # t) @ 0 # rest) = next_char opt l (t @ 0 # rest)" "merged opt l (c # t) = merged opt l t"
      using assms(2) by (simp_all add: next_char_Cons)
    then show ?thesis using Cons.IH Cons.prems by (fastforce split: option.splits bool.splits)
  next
    case False
    then have "next_char opt l ((c # t) @ 0 # rest) = Inr (Some (c, False, t @ 0 # rest))" "merged opt l (c # t) = c # merged opt c t"
      using Cons.prems by (auto simp: next_char_Cons)
    then show ?thesis using Cons.prems by auto
  qed
qed

abbreviation reported :: "kmp \<Rightarrow> nat list list \<Rightarrow> nat list list" where
  "reported K ls \<equiv> map (map (\<lambda>a. ks_len (kmp_states K a))) ls"

text \<open>The lengths of the key strings that end at each of the characters \<open>y\<close> behind \<open>x\<close>.\<close>

primrec ends :: "nat list set \<Rightarrow> nat list \<Rightarrow> nat list \<Rightarrow> nat list list" where
  "ends W x [] = []"
| "ends W x (c # y) = map length (key_suffixes W (x @ [c])) # ends W (x @ [c]) y"

lemma search_loop_ok:
  assumes P: "kmp_params_ok P" and A: "automaton P S W K" and F: "\<forall>a<length S. final S W (kmp_states K) a" and C: "control opt \<noteq> 0"
  shows "search_inv S W K x sb \<Longrightarrow> 0 \<notin> set t \<Longrightarrow> y = c # merged opt c t @ final_control opt \<Longrightarrow>
    \<exists>ls b. search_loop P opt K c False (t @ 0 # rest) sb = Inr (ls, b) \<and> reported K ls = ends W x y \<and>
      ks_len (kmp_states K b) = Max (insert 0 (length ` {w \<in> W. sublist w (x @ y)}))"
proof (induction "length t" arbitrary: x sb t c y rule: less_induct)
  case less
  obtain sb1 l where s: "search_step P K c sb = Inr (sb1, l)" "search_inv S W K (x @ [c]) sb1" "map (\<lambda>a. ks_len (kmp_states K a)) l = map length (key_suffixes W (x @ [c]))"
    using search_step_ok [OF P A F less.prems(1), of c] by blast
  obtain r where r: "next_char opt c (t @ 0 # rest) = Inr r" "case r of
      None \<Rightarrow> merged opt c t @ final_control opt = []
    | Some (d, True, src) \<Rightarrow> add_controls opt \<and> merged opt c t @ final_control opt = [d]
    | Some (d, False, src) \<Rightarrow> \<exists>t'. src = t' @ 0 # rest \<and> 0 \<notin> set t' \<and> length t' < length t \<and> merged opt c t = d # merged opt d t'"
    using next_char_ok [OF less.prems(2) C] by blast
  note best = search_inv_def [of S W K]
  consider "r = None" | d src where "r = Some (d, True, src)" | d src where "r = Some (d, False, src)" by (metis prod_cases3 option.exhaust)
  then show ?case
  proof cases
    case 1
    then have "search_loop P opt K c False (t @ 0 # rest) sb = Inr ([l], snd sb1)" using s(1) r(1) by (subst search_loop.simps) simp
    then show ?thesis using 1 r(2) s(2,3) less.prems(3) by (simp add: best del: Max_insert)
  next
    case 2
    then have y: "add_controls opt" "y = [c, d]" using r(2) less.prems(3) by auto
    obtain sb2 m where s2: "search_step P K d sb1 = Inr (sb2, m)" "search_inv S W K (x @ [c] @ [d]) sb2" "map (\<lambda>a. ks_len (kmp_states K a)) m = map length (key_suffixes W (x @ [c] @ [d]))"
      using search_step_ok [OF P A F s(2), of d] by auto
    then have "search_loop P opt K d True src sb1 = Inr ([m], snd sb2)" using y(1) by (subst search_loop.simps) simp
    then have "search_loop P opt K c False (t @ 0 # rest) sb = Inr ([l, m], snd sb2)" using s(1) r(1) 2 by (subst search_loop.simps) simp
    then show ?thesis using s(3) s2(2,3) y(2) by (simp add: best del: Max_insert)
  next
    case 3
    then obtain t' where t': "src = t' @ 0 # rest" "0 \<notin> set t'" "length t' < length t" "merged opt c t = d # merged opt d t'" using r(2) by auto
    let ?y = "d # merged opt d t' @ final_control opt"
    obtain ls b where IH: "search_loop P opt K d False (t' @ 0 # rest) sb1 = Inr (ls, b)" "reported K ls = ends W (x @ [c]) ?y"
      "ks_len (kmp_states K b) = Max (insert 0 (length ` {w \<in> W. sublist w ((x @ [c]) @ ?y)}))"
      using less.hyps [OF t'(3) s(2) t'(2) refl] by blast
    have "search_loop P opt K c False (t @ 0 # rest) sb = Inr (l # ls, b)" using s(1) r(1) 3 IH(1) t'(1) by (subst search_loop.simps) simp
    then show ?thesis using IH(2,3) s(3) less.prems(3) t'(4) by (simp del: Max_insert)
  qed
qed

lemma kmp_search_ok:
  assumes P: "kmp_params_ok P" and A: "automaton P S W K" and F: "\<forall>a<length S. final S W (kmp_states K) a"
    and C: "control opt \<noteq> 0" and t: "0 \<notin> set t"
  shows "\<exists>ls b. kmp_search P opt K (t @ 0 # rest) = Inr (ls, b) \<and> reported K ls = ends W [] (stepped opt t) \<and>
    ks_len (kmp_states K b) = Max (insert 0 (length ` {w \<in> W. sublist w (stepped opt t)}))"
proof -
  have S: "S ! 0 = []" "0 < length S" "[] \<notin> W" "ks_len (kmp_states K 0) = 0" using A by (auto simp: automaton_def trie_strings_def)
  have "Max (insert 0 (length ` {w \<in> W. sublist w []})) = 0" using S(3) by (auto intro!: Max_eqI)
  then have I: "search_inv S W K [] (0, 0)" using S nth_mem [of 0 S] by (simp add: search_inv_def lss_def del: Max_insert)
  note loop = search_loop_ok [OF P A F C I]
  show ?thesis
  proof (cases "add_controls opt")
    case True
    then show ?thesis using loop [OF t refl, of "control opt" rest] by (simp add: kmp_search_def stepped_def final_control_def del: Max_insert)
  next
    case False
    obtain r where r: "next_char opt 0 (t @ 0 # rest) = Inr r" "case r of
        None \<Rightarrow> merged opt 0 t @ final_control opt = []
      | Some (d, True, src) \<Rightarrow> add_controls opt \<and> merged opt 0 t @ final_control opt = [d]
      | Some (d, False, src) \<Rightarrow> \<exists>t'. src = t' @ 0 # rest \<and> 0 \<notin> set t' \<and> length t' < length t \<and> merged opt 0 t = d # merged opt d t'"
      using next_char_ok [OF t C] by blast
    consider "r = None" | d src where "r = Some (d, True, src)" | d src where "r = Some (d, False, src)" by (metis prod_cases3 option.exhaust)
    then show ?thesis
    proof cases
      case 1
      then have "stepped opt t = []" using r(2) False by (simp add: stepped_def final_control_def)
      then show ?thesis using 1 r(1) False S I by (simp add: kmp_search_def search_inv_def del: Max_insert)
    next
      case 2
      then show ?thesis using r(2) False by simp
    next
      case 3
      then obtain t' where t': "src = t' @ 0 # rest" "0 \<notin> set t'" "merged opt 0 t = d # merged opt d t'" using r(2) by auto
      then have "stepped opt t = d # merged opt d t' @ final_control opt" using False by (simp add: stepped_def final_control_def)
      then show ?thesis using loop [OF t'(2) refl, of d rest] 3 r(1) t'(1) False by (simp add: kmp_search_def del: Max_insert)
    qed
  qed
qed

lemma kmp_add_all_ok:
  assumes P: "kmp_params_ok P"
  shows "trie_ok P S W K \<Longrightarrow> \<forall>w\<in>set ws. 0 \<notin> set w \<Longrightarrow> length S + sum_list (map length ws) < 4294967295 \<Longrightarrow>
    \<exists>S' K'. kmp_add_all P ws K = Inr K' \<and> trie_ok P S' (W \<union> (set ws - {[]})) K'"
proof (induction ws arbitrary: S W K)
  case (Cons w ws)
  obtain r S1 K1 where 1: "kmp_add P (w @ [0]) K = Inr (r, K1)" "trie_ok P S1 (if w = [] then W else insert w W) K1" "length S1 \<le> length S + length w"
    using kmp_add_ok [OF P Cons.prems(1), of w "[]"] Cons.prems(2,3) by auto
  obtain S' K' where "kmp_add_all P ws K1 = Inr K'" "trie_ok P S' ((if w = [] then W else insert w W) \<union> (set ws - {[]})) K'"
    using Cons.IH [OF 1(2)] Cons.prems(2,3) 1(3) by auto
  moreover have "(if w = [] then W else insert w W) \<union> (set ws - {[]}) = W \<union> (set (w # ws) - {[]})" by auto
  ultimately show ?case using 1(1) by auto
qed auto

lemma ends_nonempty: "ends (W - {[]}) x y = ends W x y"
  by (induction y arbitrary: x) (simp_all add: key_suffixes_nonempty)

section \<open>Properties\<close>

text \<open>C6: The search finds exactly all occurrences of the given strings: after any strings without the character 0 (fewer than
  \<open>2 ^ 32 - 2\<close> characters in all) have been added and the automaton has been built, the search steps on the characters of the text,
  with the control characters added and merged as the options are documented, and at each character reports exactly the strings that end there,
  from the longest to the shortest (with both options, only for a text that is not empty and does not end with a control character); the best match is as long as the longest of the strings that occur in the text. Nothing fails:
  the loops along the backwards edges end, the queue of \<open>build\<close> has room for all states, and the hash table works.\<close>

theorem kmp_finds_all:
  assumes "kmp_params_ok P" "\<forall>w\<in>set ws. 0 \<notin> set w" "sum_list (map length ws) < 2 ^ 32 - 2" "0 \<notin> set t" "control opt \<noteq> 0"
    "add_controls opt \<and> merge_controls opt \<longrightarrow> t \<noteq> [] \<and> last t \<noteq> control opt"
  shows "\<exists>K K' A ls b. kmp_init P = Inr K \<and> kmp_add_all P ws K = Inr K' \<and> kmp_build P K' = Inr A \<and>
    kmp_search P opt A (t @ 0 # rest) = Inr (ls, b) \<and>
    map (map (\<lambda>a. ks_len (kmp_states A a))) ls = ends (set ws) [] (fed opt t) \<and>
    ks_len (kmp_states A b) = Max (insert 0 (length ` {w \<in> set ws. sublist w (fed opt t)}))"
proof -
  obtain K where K: "kmp_init P = Inr K" "trie_ok P [[]] {} K" using kmp_init_ok [OF assms(1)] by blast
  obtain S K' where K': "kmp_add_all P ws K = Inr K'" "trie_ok P S (set ws - {[]}) K'" using kmp_add_all_ok [OF assms(1) K(2) assms(2)] assms(3) by auto
  obtain A where A: "kmp_build P K' = Inr A" "automaton P S (set ws - {[]}) A" "\<forall>a<length S. final S (set ws - {[]}) (kmp_states A) a"
    using kmp_build_ok [OF assms(1) K'(2)] by blast
  have "insert 0 (length ` {w \<in> set ws - {[]}. sublist w (fed opt t)}) = insert 0 (length ` {w \<in> set ws. sublist w (fed opt t)})" by force
  then show ?thesis using K(1) K'(1) A(1) kmp_search_ok [OF assms(1) A(2,3) assms(5,4), of rest, unfolded stepped_fed [OF assms(5,6)]] by (auto simp: ends_nonempty simp del: Max_insert)
qed

definition default_params :: kmp_params where
  "default_params = \<lparr>hashfn = kmp_hash_hash, eqfn = (=), init_data = \<lambda>_. (), conserve_space = True, table_growing = False,
     default_size = 32, fn_bits = 32\<rparr>"

lemma default_params_ok: "kmp_params_ok default_params"
  by (simp add: kmp_params_ok_def params_ok_def default_params_def identity_equivp)

lemma kmp_finds_all_witness:
  "\<exists>K K' A ls b. kmp_init default_params = Inr K \<and> kmp_add_all default_params [[1, 2, 1], [2, 1], [1]] K = Inr K' \<and> kmp_build default_params K' = Inr A \<and>
    kmp_search default_params \<lparr>add_controls = False, merge_controls = False, control = 58\<rparr> A [1, 2, 1, 3, 0] = Inr (ls, b) \<and>
    map (map (\<lambda>a. ks_len (kmp_states A a))) ls = [[1], [], [3, 2, 1], []] \<and> ks_len (kmp_states A b) = 3"
proof -
  let ?ws = "[[1, 2, 1], [2, 1], [1 :: nat]]" and ?opt = "\<lparr>add_controls = False, merge_controls = False, control = 58\<rparr>" and ?t = "[1, 2, 1, 3 :: nat]"
  have f: "fed ?opt ?t = ?t" by (simp add: fed_def)
  have e: "ends (set ?ws) [] ?t = [[1], [], [3, 2, 1], []]" by simp
  have "{w \<in> set ?ws. sublist w ?t} = {[1, 2, 1], [2, 1], [1]}" by (auto simp: sublist_Cons_right)
  then have m: "Max (insert 0 (length ` {w \<in> set ?ws. sublist w ?t})) = 3" by simp
  show ?thesis using kmp_finds_all [OF default_params_ok, of ?ws ?t ?opt "[]"] unfolding f e m by simp
qed

text \<open>A control character at the end of the text is followed by another one even when controls are to be merged: at the end
  \<open>get_char\<close> has stored the character 0, so the test for a control character does not see the last character.\<close>

lemma final_control_not_merged:
  "fed \<lparr>add_controls = True, merge_controls = True, control = 58\<rparr> [97, 58] = [58, 97, 58] \<and>
   stepped \<lparr>add_controls = True, merge_controls = True, control = 58\<rparr> [97, 58] = [58, 97, 58, 58] \<and>
   next_char \<lparr>add_controls = True, merge_controls = True, control = 58\<rparr> 58 [0] = Inr (Some (58, True, []))"
  by (simp add: fed_def stepped_def final_control_def next_char_Cons)

end
