(* ===== verification/Spec2Isabelle.thy ===== *)
theory Spec2Isabelle
  imports Varint Unaligned Unicode Fb_Grow Fb_Mem Ff_String Ff_Unicode Sha1 Md5 Crc Adler32 Base64 Heap Hashtable Clists Slists Asort Workqueue Redblack Binheap Lizard_Roundtrip Kmp_Search
begin

text \<open>
  A verification of the core of LibUCW, the C library of the Sherlock Holmes search engine (directory
  \<open>ucw/\<close>): its byte-level codecs, compression, buffered streams, digests, generic data structures, string searching and
  sorting, and its thread pools.

  \<^bold>\<open>Parts of the program and their theories.\<close>
  \<^item> \<open>Ucw_Prelude\<close>: the C integer types, the faults of C code (\<open>fault\<close>), the monad of code that can fail
    (\<open>res\<close>, \<open>res_bind\<close>), byte strings. \<open>Ucw_Interfaces\<close>: the contracts between components as locales:
    self-delimiting codes (\<open>codec\<close>), queues of nodes (\<open>fifo\<close>), comparison callbacks that return a
    truth value (\<open>strict_weak_order\<close>) or a sign (\<open>comparison\<close>).
    Further contracts stand where their first provider is: \<open>fb_reader\<close> and \<open>fb_writer\<close> in \<open>Fastbuf\<close>,
    \<open>incremental_digest\<close> in \<open>Digest\<close>, \<open>priority_queue\<close> in \<open>Heap\<close>, \<open>node_table\<close> in \<open>Hashtable\<close>.
  \<^item> Codecs. \<open>Varint\<close> (\<open>varint.h\<close>, \<open>varint.c\<close>), \<open>Unaligned\<close> (\<open>unaligned.h\<close>), \<open>Unicode\<close> (\<open>unicode.h\<close>,
    \<open>unicode.c\<close>: UTF-8 and UTF-16), \<open>Base64\<close> (\<open>base64.c\<close>). Encoders of single values return the bytes they store, decoders take
    the bytes readable from their pointer and return the value and the rest; Base64 works on buffers of a given size. Proved: round trips, the order and
    the lengths of encodings, what strict and relaxed decoders accept, and the error results.
  \<^item> Streams. \<open>Fastbuf\<close> (\<open>fastbuf.h\<close>, \<open>fastbuf.c\<close>): the front-end, a record with the pointers into the buffer and
    the private part of the back-end, whose function pointers are the record \<open>fb_ops\<close>. Back-ends: \<open>Fb_Buffer\<close>
    (\<open>fb-buffer.c\<close>), \<open>Fb_Grow\<close> (\<open>fb-grow.c\<close>), \<open>Fb_Mem\<close> (\<open>fb-mem.c\<close>). Clients: \<open>Ff_Binary\<close> (\<open>ff-binary.h\<close>,
    \<open>ff-binary.c\<close>), \<open>Ff_String\<close> (\<open>ff-string.c\<close>), \<open>Ff_Unicode\<close> (\<open>ff-unicode.h\<close>, \<open>ff-unicode.c\<close>). The clients are proved
    against the stream contract, which every back-end interprets, so that what was written through any layer is
    read back through the same layer; writing to a full static buffer fails and stores nothing outside. An error on a stream
    is an exception if the stream is tied to a resource (the field \<open>tied\<close>) and the end of the program (\<open>Die\<close>) otherwise.
  \<^item> Digests. \<open>Digest\<close> (the contract), \<open>Sha1\<close> (\<open>sha1.c\<close>, \<open>sha1-hmac.c\<close>), \<open>Md5\<close> (\<open>md5.c\<close>), \<open>Crc\<close> with
    \<open>Crc_Tables\<close> (\<open>crc.c\<close>, \<open>crc-tables.c\<close>), \<open>Adler32\<close> (\<open>adler32.c\<close>). Proved: how a message is cut into updates
    does not matter and the result is that of the published algorithm, written as a reference definition; the tables and
    the modes of CRC agree; delayed reductions never overflow.
  \<^item> Data structures. \<open>Heap\<close> (\<open>heap.h\<close>), \<open>Hashtable\<close> (\<open>hashtable.h\<close>) with \<open>Primes\<close> (\<open>prime.c\<close>, \<open>primetable.c\<close>,
    \<open>binsearch.h\<close>), \<open>Clists\<close> (\<open>clists.h\<close>) and \<open>Slists\<close> (\<open>slists.h\<close>, \<open>slists.c\<close>), \<open>Redblack\<close> (\<open>redblack.h\<close>), \<open>Binheap\<close> (\<open>binheap.h\<close>,
    \<open>binheap-node.h\<close>). Lists live in an explicit store, since what
    they promise depends on aliasing; heaps are arrays; hash tables are arrays of chains; the buckets of red-black trees carry
    their address and their parent pointer, and the functions that start from a node follow these pointers in the tree; the trees of
    binomial heaps are values. Proved: each is a
    refinement of its abstract type (priority queue, table of nodes and dictionary, sequence, sorted sequence), never faults on valid
    structures, and keeps the validity.
  \<^item> Compression. \<open>Lizard\<close> (\<open>lizard.c\<close>, \<open>lizard.h\<close>) with its hash chains in \<open>Lizard_Hash\<close>, its commands in \<open>Lizard_Codec\<close>, and the round
    trip in \<open>Lizard_Roundtrip\<close>: the compressor stays in its buffers and the decompressor restores the text.
  \<^item> Searching for strings. \<open>Kmp\<close> (\<open>kmp.h\<close>, \<open>kmp-search.h\<close>, on top of \<open>Hashtable\<close>), the trie in \<open>Kmp_Trie\<close>, construction and search in
    \<open>Kmp_Search\<close>: exactly the occurrences of the given strings are reported.
  \<^item> Sorting. \<open>Asort\<close> (\<open>sorter/array-simple.h\<close>): the generated quicksort terminates, stays in its array and its fixed stack,
    and sorts.
  \<^item> Threads. \<open>Workqueue\<close> (\<open>workqueue.c\<close>, \<open>workqueue.h\<close>): raw queues on top of \<open>Heap\<close>, and worker threads and the owner
    of the pool as a step relation over semaphore operations and sections under a mutex. Proved by an invariant on all
    reachable states and a decreasing weight: no assertion fails, no deadlock, no infinite run, every request is returned
    exactly once. In the step relation the queues are unbounded (\<open>put_unb\<close>, \<open>get_unb\<close>, \<open>post_unb\<close>); \<open>locked_put_unb\<close> and
    \<open>do_get_unb\<close> show that the code with its counters of 32 bits agrees below \<open>2\<^sup>3\<^sup>0\<close> requests in a queue.

  \<^bold>\<open>Conventions, bounds and fuel.\<close> Unsigned integers are words where they are computed with modulo \<open>2\<^sup>w\<close>, and natural
  numbers with the reduction (\<open>U32\<close>) or the bound written out where they count or index. An access outside an object, a failed
  assertion, a division by zero, an overflow of a signed integer and an exception are faults, never default values. Loops
  are total functions with a termination proof; where the end of a loop depends on the data (walks through lists,
  quicksort) they are partial functions, \<open>None\<close> means that the loop does not end, and the properties state that the result is
  \<open>Some\<close>. Loops over a stream have as fuel the number of bytes left, which they never exceed. The hypotheses on sizes
  (buffers below \<open>2\<^sup>3\<^sup>1\<close> bytes, arrays of at most \<open>2\<^sup>3\<^sup>0\<close> elements, heaps below \<open>2\<^sup>3\<^sup>1\<close> elements, encodings below \<open>2\<^sup>3\<^sup>2\<close>
  characters, messages within the length field) are the limits of the
  \<open>int\<close> and \<open>uint\<close> computations of the code. Where the code and its documentation disagree the properties leave the case out and a
  lemma shows what the code does: \<open>final_control_not_merged\<close>, \<open>utf8_strnlen_differs\<close>, \<open>utf16_put_above_range\<close>,
  \<open>bgets_nodie_counts_terminator\<close>, \<open>prev_table_prime_4\<close>; other lemmas of this kind show defects, such as \<open>fbgrow_created_unreadable\<close>
  and \<open>red_leaf_not_freed\<close>.

  \<^bold>\<open>Not modelled.\<close> Code whose effect is in the operating system (files, sockets, processes, the main loop, logging, time),
  allocation (addresses and fresh memory are arguments), floating point and printing of values, configuration and options,
  threaded and external sorting, the generated Unicode tables and the separate libraries for XML, JSON, images and
  character sets. Of the modelled files, functions that only wrap the C library (\<open>bprintf\<close>, memory-mapped
  copying) and the loops whose body is the code of the user are left out; the manifest names them component by component.
\<close>

end
